(* ===== verification/Prelude.thy ===== *)
theory Prelude
  imports Main "HOL-Library.Word"
begin

text \<open>
  Shared vocabulary of the development: the fixed-width integer types of the firmware, the
  byte orders it uses (the Cortex-M3 core is little-endian, the TCP, UDP and LoRa protocols are
  big-endian), the NOR view of the external flash as a map from addresses to bytes, and the
  generic list and word lemmas on which the component theories rely.

  Plain \<open>char\<close> is unsigned on the ARM tool chain the project is built with, so a \<open>char\<close>
  buffer is a list of \<open>byte\<close>s.
\<close>

unbundle bit_operations_syntax

type_synonym byte = "8 word"
type_synonym u16 = "16 word"
type_synonym u32 = "32 word"
type_synonym mem = "nat \<Rightarrow> byte"

named_theorems flash_simps \<open>reading, programming and erasing the flash contents\<close>
named_theorems codec_simps \<open>byte-level encodings and their inverses\<close>

section \<open>Return codes of the RT-Thread interfaces\<close>

abbreviation (input) RT_EOK :: int where "RT_EOK \<equiv> 0"
abbreviation (input) RT_ERROR :: int where "RT_ERROR \<equiv> 1"
abbreviation (input) RT_ETIMEOUT :: int where "RT_ETIMEOUT \<equiv> 2"
abbreviation (input) RT_EFULL :: int where "RT_EFULL \<equiv> 3"
abbreviation (input) RT_ENOSYS :: int where "RT_ENOSYS \<equiv> 6"

section \<open>Byte orders\<close>

definition le16 :: "u16 \<Rightarrow> byte list" where
  "le16 w = [ucast w, ucast (drop_bit 8 w)]"

definition be16 :: "u16 \<Rightarrow> byte list" where
  "be16 w = [ucast (drop_bit 8 w), ucast w]"

definition le32 :: "u32 \<Rightarrow> byte list" where
  "le32 w = [ucast w, ucast (drop_bit 8 w), ucast (drop_bit 16 w), ucast (drop_bit 24 w)]"

definition be32 :: "u32 \<Rightarrow> byte list" where
  "be32 w = [ucast (drop_bit 24 w), ucast (drop_bit 16 w), ucast (drop_bit 8 w), ucast w]"

definition word16 :: "byte \<Rightarrow> byte \<Rightarrow> u16" where
  "word16 hi lo = push_bit 8 (ucast hi) OR ucast lo"

definition word32 :: "byte \<Rightarrow> byte \<Rightarrow> byte \<Rightarrow> byte \<Rightarrow> u32" where
  "word32 b3 b2 b1 b0 =
     push_bit 24 (ucast b3) OR push_bit 16 (ucast b2) OR push_bit 8 (ucast b1) OR ucast b0"

text \<open>Reading a multi-byte value at an offset of a buffer.\<close>

definition rd_le16 :: "byte list \<Rightarrow> nat \<Rightarrow> u16" where
  "rd_le16 bs i = word16 (bs ! Suc i) (bs ! i)"

definition rd_be16 :: "byte list \<Rightarrow> nat \<Rightarrow> u16" where
  "rd_be16 bs i = word16 (bs ! i) (bs ! Suc i)"

definition rd_le32 :: "byte list \<Rightarrow> nat \<Rightarrow> u32" where
  "rd_le32 bs i = word32 (bs ! (i + 3)) (bs ! (i + 2)) (bs ! (i + 1)) (bs ! i)"

definition rd_be32 :: "byte list \<Rightarrow> nat \<Rightarrow> u32" where
  "rd_be32 bs i = word32 (bs ! i) (bs ! (i + 1)) (bs ! (i + 2)) (bs ! (i + 3))"

lemma length_orders [simp]:
  "length (le16 x) = 2" "length (be16 x) = 2" "length (le32 w) = 4" "length (be32 w) = 4"
  by (simp_all add: le16_def be16_def le32_def be32_def)

lemma word16_split [codec_simps]:
  "word16 (ucast (drop_bit 8 w)) (ucast w) = w"
  by (rule bit_word_eqI)
    (auto simp: word16_def bit_or_iff bit_push_bit_iff bit_ucast_iff bit_drop_bit_eq)

lemma word32_split [codec_simps]:
  "word32 (ucast (drop_bit 24 w)) (ucast (drop_bit 16 w)) (ucast (drop_bit 8 w)) (ucast w) = w"
proof (rule bit_word_eqI)
  fix n
  assume "n < LENGTH(32)"
  then consider "n < 8" | "8 \<le> n" "n < 16" | "16 \<le> n" "n < 24" | "24 \<le> n" "n < 32"
    by fastforce
  then show "bit (word32 (ucast (drop_bit 24 w)) (ucast (drop_bit 16 w)) (ucast (drop_bit 8 w))
      (ucast w)) n = bit w n"
    by cases
      (auto simp: word32_def bit_or_iff bit_push_bit_iff bit_ucast_iff bit_drop_bit_eq)
qed

lemma word16_parts [codec_simps]:
  "(ucast (drop_bit 8 (word16 hi lo)) :: byte) = hi"
  "(ucast (word16 hi lo) :: byte) = lo"
  by (rule bit_word_eqI,
      auto simp: word16_def bit_or_iff bit_push_bit_iff bit_ucast_iff bit_drop_bit_eq
        dest: bit_imp_le_length)+

lemma word32_parts [codec_simps]:
  "(ucast (drop_bit 24 (word32 a b c d)) :: byte) = a"
  "(ucast (drop_bit 16 (word32 a b c d)) :: byte) = b"
  "(ucast (drop_bit 8 (word32 a b c d)) :: byte) = c"
  "(ucast (word32 a b c d) :: byte) = d"
  by (rule bit_word_eqI,
      auto simp: word32_def bit_or_iff bit_push_bit_iff bit_ucast_iff bit_drop_bit_eq
        dest: bit_imp_le_length)+

lemma rd_orders [codec_simps]:
  "rd_le16 (le16 x @ bs) 0 = x" "rd_be16 (be16 x @ bs) 0 = x"
  "rd_le32 (le32 w @ bs) 0 = w" "rd_be32 (be32 w @ bs) 0 = w"
  by (simp_all add: rd_le16_def rd_be16_def rd_le32_def rd_be32_def le16_def be16_def le32_def
      be32_def word16_split word32_split numeral_2_eq_2 numeral_3_eq_3)

lemma rd_le16_skip [codec_simps]:
  "length a \<le> i \<Longrightarrow> rd_le16 (a @ bs) i = rd_le16 bs (i - length a)"
  by (simp add: rd_le16_def nth_append Suc_diff_le)

lemma rd_be16_skip [codec_simps]:
  "length a \<le> i \<Longrightarrow> rd_be16 (a @ bs) i = rd_be16 bs (i - length a)"
  by (simp add: rd_be16_def nth_append Suc_diff_le)

lemma rd_le32_skip [codec_simps]:
  "length a \<le> i \<Longrightarrow> rd_le32 (a @ bs) i = rd_le32 bs (i - length a)"
  by (simp add: rd_le32_def nth_append Suc_diff_le)

lemma rd_be32_skip [codec_simps]:
  "length a \<le> i \<Longrightarrow> rd_be32 (a @ bs) i = rd_be32 bs (i - length a)"
  by (simp add: rd_be32_def nth_append Suc_diff_le)

lemmas rd_orders_end [codec_simps] = rd_orders [where bs = "[]", simplified]

lemma rd_Cons [codec_simps]:
  "0 < i \<Longrightarrow> rd_le16 (x # bs) i = rd_le16 bs (i - 1)" "0 < i \<Longrightarrow> rd_be16 (x # bs) i = rd_be16 bs (i - 1)"
  "0 < i \<Longrightarrow> rd_le32 (x # bs) i = rd_le32 bs (i - 1)" "0 < i \<Longrightarrow> rd_be32 (x # bs) i = rd_be32 bs (i - 1)"
  using rd_le16_skip [of "[x]" i bs] rd_be16_skip [of "[x]" i bs] rd_le32_skip [of "[x]" i bs]
    rd_be32_skip [of "[x]" i bs] by simp_all

section \<open>Unsigned 32-bit subtraction on natural numbers\<close>

text \<open>Offsets and sizes are natural numbers below \<open>2 ^ 32\<close>; where the code subtracts two of
  them the result wraps as \<open>rt_uint32_t\<close> does.\<close>

definition usub32 :: "nat \<Rightarrow> nat \<Rightarrow> nat" where
  "usub32 a b = (a + 2 ^ 32 - b) mod 2 ^ 32"

lemma usub32_le [simp]:
  assumes "b \<le> a" and "a < 2 ^ 32"
  shows "usub32 a b = a - b"
proof -
  obtain d where d: "a = b + d" using assms(1) by (auto simp: le_iff_add)
  then have "usub32 a b = (d + 2 ^ 32) mod 2 ^ 32"
    unfolding usub32_def by (metis add.assoc add_diff_cancel_left')
  also have "\<dots> = d mod 2 ^ 32" by (rule mod_add_self2)
  also have "\<dots> = d" using assms(2) d by (intro mod_less) linarith
  finally show ?thesis using d by simp
qed

lemma usub32_wrap:
  assumes "a < b" and "b \<le> 2 ^ 32"
  shows "usub32 a b = 2 ^ 32 - (b - a)"
proof -
  have "a + 2 ^ 32 - b < 2 ^ 32" and "a + 2 ^ 32 - b = 2 ^ 32 - (b - a)"
    using assms by linarith+
  then show ?thesis unfolding usub32_def by (metis mod_less)
qed

section \<open>The contents of a NOR flash\<close>

text \<open>
  Programming can only clear bits, so it stores the conjunction of the old byte and the new
  one; erasing sets every bit of an aligned area.
\<close>

definition mread :: "mem \<Rightarrow> nat \<Rightarrow> nat \<Rightarrow> byte list" where
  "mread m a n = map (\<lambda>i. m (a + i)) [0..<n]"

definition mprogram :: "mem \<Rightarrow> nat \<Rightarrow> byte list \<Rightarrow> mem" where
  "mprogram m a bs = (\<lambda>x. if a \<le> x \<and> x < a + length bs then m x AND bs ! (x - a) else m x)"

definition merase :: "mem \<Rightarrow> nat \<Rightarrow> nat \<Rightarrow> mem" where
  "merase m a n = (\<lambda>x. if a \<le> x \<and> x < a + n then 0xFF else m x)"

definition erased :: "mem \<Rightarrow> nat \<Rightarrow> nat \<Rightarrow> bool" where
  "erased m a n \<longleftrightarrow> (\<forall>x. a \<le> x \<and> x < a + n \<longrightarrow> m x = 0xFF)"

lemma length_mread [simp]: "length (mread m a n) = n"
  by (simp add: mread_def)

lemma mread_nth [flash_simps]: "i < n \<Longrightarrow> mread m a n ! i = m (a + i)"
  by (simp add: mread_def)

lemma mread_0 [simp]: "mread m a 0 = []"
  by (simp add: mread_def)

lemma mread_append: "mread m a (n + k) = mread m a n @ mread m (a + n) k"
  by (rule nth_equalityI) (auto simp: mread_nth nth_append)

lemma mread_cong: "(\<And>x. a \<le> x \<Longrightarrow> x < a + n \<Longrightarrow> m x = m' x) \<Longrightarrow> mread m a n = mread m' a n"
  by (simp add: mread_def)

lemma mprogram_Nil [simp, flash_simps]: "mprogram m a [] = m"
  by (rule ext) (auto simp: mprogram_def)

lemma mprogram_append [flash_simps]:
  "mprogram (mprogram m a xs) (a + length xs) ys = mprogram m a (xs @ ys)"
  by (rule ext) (auto simp: mprogram_def nth_append)

lemma mprogram_other [flash_simps]:
  "x < a \<or> a + length bs \<le> x \<Longrightarrow> mprogram m a bs x = m x"
  by (auto simp: mprogram_def)

lemma merase_other [flash_simps]: "x < a \<or> a + n \<le> x \<Longrightarrow> merase m a n x = m x"
  by (auto simp: merase_def)

lemma merase_same [flash_simps]: "a \<le> x \<Longrightarrow> x < a + n \<Longrightarrow> merase m a n x = 0xFF"
  by (simp add: merase_def)

lemma erased_merase [flash_simps, intro]:
  "a \<le> b \<Longrightarrow> b + k \<le> a + n \<Longrightarrow> erased (merase m a n) b k"
  by (auto simp: erased_def merase_def)

lemma byte_and_FF [simp]: "(0xFF :: byte) AND b = b" "b AND (0xFF :: byte) = b"
proof -
  have "(0xFF :: byte) = - 1" by simp
  then show "(0xFF :: byte) AND b = b" "b AND (0xFF :: byte) = b"
    by (simp_all only: and.left_neutral and.right_neutral)
qed

lemma mprogram_erased [flash_simps]:
  "erased m a (length bs) \<Longrightarrow> a \<le> x \<Longrightarrow> x < a + length bs \<Longrightarrow> mprogram m a bs x = bs ! (x - a)"
  by (simp add: mprogram_def erased_def)

lemma mread_mprogram [flash_simps]:
  "erased m a (length bs) \<Longrightarrow> mread (mprogram m a bs) a (length bs) = bs"
  by (rule nth_equalityI) (simp_all add: mread_nth mprogram_erased)

lemma mread_mprogram_other [flash_simps]:
  "b + n \<le> a \<or> a + length bs \<le> b \<Longrightarrow> mread (mprogram m a bs) b n = mread m b n"
  by (rule mread_cong) (auto simp: mprogram_def)

lemma mread_merase_other [flash_simps]:
  "b + n \<le> a \<or> a + k \<le> b \<Longrightarrow> mread (merase m a k) b n = mread m b n"
  by (rule mread_cong) (auto simp: merase_def)

lemma erased_cong:
  "(\<And>x. b \<le> x \<Longrightarrow> x < b + n \<Longrightarrow> m x = m' x) \<Longrightarrow> erased m b n = erased m' b n"
  by (auto simp: erased_def)

lemma erased_mprogram_other [flash_simps]:
  assumes "b + n \<le> a \<or> a + length bs \<le> b"
  shows "erased (mprogram m a bs) b n = erased m b n"
proof (rule erased_cong)
  fix x assume "b \<le> x" "x < b + n"
  with assms have "x < a \<or> a + length bs \<le> x" by linarith
  then show "mprogram m a bs x = m x" by (rule mprogram_other)
qed

lemma erased_sub: "erased m a n \<Longrightarrow> a \<le> b \<Longrightarrow> b + k \<le> a + n \<Longrightarrow> erased m b k"
  by (auto simp: erased_def)

end
