(* ===== verification/Spi_Flash.thy ===== *)
theory Spi_Flash
  imports Prelude
begin

text \<open>
  The GD25Q32 serial flash driver, \<open>rt-thread/components/drivers/spi/spi_flash_gd.c\<close>.

  The driver talks to the chip in chip-select frames: the bytes it shifts out, then the number
  of bytes it clocks in. The bus and the chip are the parameter \<open>spi\<close> of the definitions; what
  the driver relies on is the locale \<open>nor_chip\<close>, whose laws are those of the GD25Q32 data
  sheet (write-enable latch, page program inside one page, aligned erase, busy bit of the status
  register). Inside it the driver is shown to implement the plain NOR contents of the prelude:
  every write, erase and read returns and has exactly the effect of \<open>mprogram\<close>, \<open>merase\<close>
  and \<open>mread\<close>. The rest of the firmware is modelled over those.
\<close>

type_synonym 'c spi = "'c \<Rightarrow> byte list \<Rightarrow> nat \<Rightarrow> 'c \<times> byte list"

section \<open>Commands and geometry\<close>

abbreviation (input) PAGE_SIZE :: nat where "PAGE_SIZE \<equiv> 256"
abbreviation (input) FLASH_BYTES_PER_SECTOR :: nat where "FLASH_BYTES_PER_SECTOR \<equiv> 4096"
abbreviation (input) FLASH_BYTES_PER_BLOCK :: nat where "FLASH_BYTES_PER_BLOCK \<equiv> 65536"
abbreviation (input) FLASH_SIZE :: nat where "FLASH_SIZE \<equiv> 4194304"

abbreviation (input) CMD_WRSR :: byte where "CMD_WRSR \<equiv> 0x01"
abbreviation (input) CMD_PP :: byte where "CMD_PP \<equiv> 0x02"
abbreviation (input) CMD_READ :: byte where "CMD_READ \<equiv> 0x03"
abbreviation (input) CMD_WRDI :: byte where "CMD_WRDI \<equiv> 0x04"
abbreviation (input) CMD_RDSR1 :: byte where "CMD_RDSR1 \<equiv> 0x05"
abbreviation (input) CMD_WREN :: byte where "CMD_WREN \<equiv> 0x06"
abbreviation (input) CMD_ERASE_4K :: byte where "CMD_ERASE_4K \<equiv> 0x20"
abbreviation (input) CMD_JEDEC_ID :: byte where "CMD_JEDEC_ID \<equiv> 0x9F"
abbreviation (input) CMD_ERASE_64K :: byte where "CMD_ERASE_64K \<equiv> 0xD8"

abbreviation (input) MF_ID :: byte where "MF_ID \<equiv> 0xC8"
abbreviation (input) MTC_GD25Q32C :: u16 where "MTC_GD25Q32C \<equiv> 0x4016"

abbreviation (input) GD_FLASH_CTRL_SCT_ERASE :: nat where "GD_FLASH_CTRL_SCT_ERASE \<equiv> 1"
abbreviation (input) GD_FLASH_CTRL_BLK_ERASE :: nat where "GD_FLASH_CTRL_BLK_ERASE \<equiv> 2"
abbreviation (input) RT_DEVICE_CTRL_BLK_GETGEOME :: nat where "RT_DEVICE_CTRL_BLK_GETGEOME \<equiv> 16"

record geometry =
  sector_count :: nat
  bytes_per_sector :: nat
  block_size :: nat

section \<open>The driver\<close>

definition rt_spi_send :: "'c spi \<Rightarrow> 'c \<Rightarrow> byte list \<Rightarrow> 'c" where
  "rt_spi_send spi c buf = fst (spi c buf 0)"

definition rt_spi_send_then_send :: "'c spi \<Rightarrow> 'c \<Rightarrow> byte list \<Rightarrow> byte list \<Rightarrow> 'c" where
  "rt_spi_send_then_send spi c buf1 buf2 = fst (spi c (buf1 @ buf2) 0)"

definition rt_spi_send_then_recv :: "'c spi \<Rightarrow> 'c \<Rightarrow> byte list \<Rightarrow> nat \<Rightarrow> 'c \<times> byte list" where
  "rt_spi_send_then_recv spi c buf n = spi c buf n"

definition cmd_addr :: "byte \<Rightarrow> u32 \<Rightarrow> byte list" where
  "cmd_addr cmd a = [cmd, ucast (drop_bit 16 a), ucast (drop_bit 8 a), ucast a]"

definition gd25qxx_read_status :: "'c spi \<Rightarrow> 'c \<Rightarrow> 'c \<times> byte" where
  "gd25qxx_read_status spi c =
     (let (c', r) = rt_spi_send_then_recv spi c [CMD_RDSR1] 1 in (c', hd r))"

partial_function (option) gd25qxx_wait_busy :: "'c spi \<Rightarrow> 'c \<Rightarrow> 'c option" where
  "gd25qxx_wait_busy spi c =
     (if snd (gd25qxx_read_status spi c) AND 1 \<noteq> 0
      then gd25qxx_wait_busy spi (fst (gd25qxx_read_status spi c))
      else Some (fst (gd25qxx_read_status spi c)))"

definition gd25qxx_read :: "'c spi \<Rightarrow> 'c \<Rightarrow> nat \<Rightarrow> nat \<Rightarrow> 'c \<times> byte list" where
  "gd25qxx_read spi c offset sz =
     (let c1 = rt_spi_send spi c [CMD_WRDI]
      in rt_spi_send_then_recv spi c1 (cmd_addr CMD_READ (of_nat offset)) sz)"

definition gd25qxx_page_write :: "'c spi \<Rightarrow> 'c \<Rightarrow> nat \<Rightarrow> byte list \<Rightarrow> 'c option" where
  "gd25qxx_page_write spi c page_addr buffer =
     (let c1 = rt_spi_send spi c [CMD_WREN];
          c2 = rt_spi_send_then_send spi c1 (cmd_addr CMD_PP (of_nat page_addr)) buffer
      in case gd25qxx_wait_busy spi c2 of
           None \<Rightarrow> None
         | Some c3 \<Rightarrow> Some (rt_spi_send spi c3 [CMD_WRDI]))"

definition gd25qxx_sector_erase :: "'c spi \<Rightarrow> 'c \<Rightarrow> nat \<Rightarrow> 'c option" where
  "gd25qxx_sector_erase spi c sec_addr =
     (let c1 = rt_spi_send spi c [CMD_WREN];
          c2 = rt_spi_send spi c1 (cmd_addr CMD_ERASE_4K (of_nat sec_addr))
      in case gd25qxx_wait_busy spi c2 of
           None \<Rightarrow> None
         | Some c3 \<Rightarrow> Some (rt_spi_send spi c3 [CMD_WRDI]))"

definition gd25qxx_block_erase :: "'c spi \<Rightarrow> 'c \<Rightarrow> nat \<Rightarrow> 'c option" where
  "gd25qxx_block_erase spi c blk_addr =
     (let c1 = rt_spi_send spi c [CMD_WREN];
          c2 = rt_spi_send spi c1 (cmd_addr CMD_ERASE_64K (of_nat blk_addr))
      in case gd25qxx_wait_busy spi c2 of
           None \<Rightarrow> None
         | Some c3 \<Rightarrow> Some (rt_spi_send spi c3 [CMD_WRDI]))"

definition gd25qxx_flash_open :: "'c spi \<Rightarrow> 'c \<Rightarrow> 'c option" where
  "gd25qxx_flash_open spi c =
     (let c1 = rt_spi_send spi c [CMD_WREN];
          c2 = rt_spi_send spi c1 [CMD_WRSR, 0, 0]
      in gd25qxx_wait_busy spi c2)"

text \<open>\<open>rt_device_control\<close>: the new chip state, the return code and, for the geometry query, the
  record that is stored through \<open>args\<close> (0 is the null pointer).\<close>

definition gd25qxx_flash_control ::
    "'c spi \<Rightarrow> geometry \<Rightarrow> 'c \<Rightarrow> nat \<Rightarrow> nat \<Rightarrow> ('c \<times> int \<times> geometry option) option" where
  "gd25qxx_flash_control spi geo c cmd args =
     (if cmd = RT_DEVICE_CTRL_BLK_GETGEOME
        then if args = 0 then Some (c, - RT_ERROR, None) else Some (c, RT_EOK, Some geo)
      else if cmd = GD_FLASH_CTRL_SCT_ERASE
        then map_option (\<lambda>c'. (c', RT_EOK, None)) (gd25qxx_sector_erase spi c args)
      else if cmd = GD_FLASH_CTRL_BLK_ERASE
        then map_option (\<lambda>c'. (c', RT_EOK, None)) (gd25qxx_block_erase spi c args)
      else Some (c, RT_EOK, None))"

definition gd25qxx_flash_read :: "'c spi \<Rightarrow> 'c \<Rightarrow> nat \<Rightarrow> nat \<Rightarrow> 'c \<times> byte list \<times> nat" where
  "gd25qxx_flash_read spi c pos sz =
     (let (c', buffer) = gd25qxx_read spi c pos sz in (c', buffer, sz))"

text \<open>\<open>while (page_num--)\<close> with its three updates.\<close>

fun page_loop :: "'c spi \<Rightarrow> 'c \<Rightarrow> nat \<Rightarrow> nat \<Rightarrow> byte list \<Rightarrow> ('c \<times> nat \<times> byte list) option" where
  "page_loop spi c 0 pos ptr = Some (c, pos, ptr)"
| "page_loop spi c (Suc page_num) pos ptr =
     (case gd25qxx_page_write spi c pos (take PAGE_SIZE ptr) of
        None \<Rightarrow> None
      | Some c' \<Rightarrow> page_loop spi c' page_num (pos + PAGE_SIZE) (drop PAGE_SIZE ptr))"

text \<open>
  \<open>page_num\<close>, \<open>single_bytes\<close>, \<open>offset_in_page\<close> and \<open>free_size_in_first_page\<close> are
  8-bit variables, and the value returned is the \<open>size\<close> that is left after the first page.
\<close>

definition gd25qxx_flash_write :: "'c spi \<Rightarrow> 'c \<Rightarrow> nat \<Rightarrow> byte list \<Rightarrow> ('c \<times> nat) option" where
  "gd25qxx_flash_write spi c pos buffer =
     (let sz = length buffer;
          offset_in_page = of_nat (pos mod PAGE_SIZE) :: byte;
          free_size_in_first_page = of_nat (PAGE_SIZE - unat offset_in_page) :: byte;
          free = unat free_size_in_first_page
      in if sz < free
         then map_option (\<lambda>c'. (c', sz)) (gd25qxx_page_write spi c pos (take sz buffer))
         else case gd25qxx_page_write spi c pos (take free buffer) of
                None \<Rightarrow> None
              | Some c1 \<Rightarrow>
                  (let pos1 = pos + free;
                       ptr1 = drop free buffer;
                       sz1 = sz - free;
                       page_num = of_nat (sz1 div PAGE_SIZE) :: byte;
                       single_bytes = of_nat (sz1 mod PAGE_SIZE) :: byte
                   in case page_loop spi c1 (unat page_num) pos1 ptr1 of
                        None \<Rightarrow> None
                      | Some (c2, pos2, ptr2) \<Rightarrow>
                          if 0 < single_bytes
                          then map_option (\<lambda>c3. (c3, sz1))
                                 (gd25qxx_page_write spi c2 pos2 (take (unat single_bytes) ptr2))
                          else Some (c2, sz1)))"

text \<open>\<open>gd_init\<close> up to the registration of the device: the mutex and the SPI device lookup are
  the parameters \<open>mutex_ok\<close> and \<open>dev_found\<close>.\<close>

definition gd_init :: "'c spi \<Rightarrow> bool \<Rightarrow> bool \<Rightarrow> 'c \<Rightarrow> 'c \<times> int \<times> geometry option" where
  "gd_init spi mutex_ok dev_found c =
     (if \<not> mutex_ok then (c, - RT_ENOSYS, None)
      else if \<not> dev_found then (c, - RT_ENOSYS, None)
      else (let c1 = rt_spi_send spi c [0xFF];
                c2 = rt_spi_send spi c1 [CMD_WRDI];
                (c3, id_recv) = rt_spi_send_then_recv spi c2 [CMD_JEDEC_ID] 3;
                memory_type_capacity = word16 (id_recv ! 1) (id_recv ! 2)
            in if id_recv ! 0 \<noteq> MF_ID then (c3, - RT_ENOSYS, None)
               else if memory_type_capacity = MTC_GD25Q32C
               then (c3, RT_EOK, Some \<lparr>sector_count = 1024,
                       bytes_per_sector = FLASH_BYTES_PER_SECTOR, block_size = 64 * 1024\<rparr>)
               else (c3, - RT_ENOSYS, None)))"

section \<open>What the driver relies on: the laws of the chip\<close>

locale nor_chip =
  fixes spi :: "'c spi"
    and contents :: "'c \<Rightarrow> mem"
    and busy :: "'c \<Rightarrow> nat"
    and wel :: "'c \<Rightarrow> bool"
  assumes status: "\<exists>c' s. spi c [CMD_RDSR1] 1 = (c', [s]) \<and> (s AND 1 \<noteq> 0 \<longleftrightarrow> 0 < busy c)
        \<and> busy c' = busy c - 1 \<and> contents c' = contents c"
    and wren: "busy c = 0 \<Longrightarrow> spi c [CMD_WREN] 0 = (c', r) \<Longrightarrow>
        contents c' = contents c \<and> busy c' = 0 \<and> wel c'"
    and wrdi: "busy c = 0 \<Longrightarrow> spi c [CMD_WRDI] 0 = (c', r) \<Longrightarrow>
        contents c' = contents c \<and> busy c' = 0"
    and program: "busy c = 0 \<Longrightarrow> wel c \<Longrightarrow> a < FLASH_SIZE \<Longrightarrow>
        a mod PAGE_SIZE + length data \<le> PAGE_SIZE \<Longrightarrow>
        spi c (cmd_addr CMD_PP (of_nat a) @ data) 0 = (c', r) \<Longrightarrow>
        contents c' = mprogram (contents c) a data"
    and erase_4k: "busy c = 0 \<Longrightarrow> wel c \<Longrightarrow> a < FLASH_SIZE \<Longrightarrow>
        spi c (cmd_addr CMD_ERASE_4K (of_nat a)) 0 = (c', r) \<Longrightarrow>
        contents c' = merase (contents c) (a - a mod FLASH_BYTES_PER_SECTOR) FLASH_BYTES_PER_SECTOR"
    and erase_64k: "busy c = 0 \<Longrightarrow> wel c \<Longrightarrow> a < FLASH_SIZE \<Longrightarrow>
        spi c (cmd_addr CMD_ERASE_64K (of_nat a)) 0 = (c', r) \<Longrightarrow>
        contents c' = merase (contents c) (a - a mod FLASH_BYTES_PER_BLOCK) FLASH_BYTES_PER_BLOCK"
    and read_data: "busy c = 0 \<Longrightarrow> a < FLASH_SIZE \<Longrightarrow> a + n \<le> FLASH_SIZE \<Longrightarrow>
        spi c (cmd_addr CMD_READ (of_nat a)) n = (c', r) \<Longrightarrow>
        r = mread (contents c) a n \<and> contents c' = contents c \<and> busy c' = 0"
begin

lemma wait_busy_returns:
  "\<exists>c'. gd25qxx_wait_busy spi c = Some c' \<and> busy c' = 0 \<and> contents c' = contents c"
proof (induction "busy c" arbitrary: c rule: less_induct)
  case less
  obtain c1 s where st: "spi c [CMD_RDSR1] 1 = (c1, [s])" "s AND 1 \<noteq> 0 \<longleftrightarrow> 0 < busy c"
    "busy c1 = busy c - 1" "contents c1 = contents c"
    using status by blast
  then have rs: "gd25qxx_read_status spi c = (c1, s)"
    by (simp add: gd25qxx_read_status_def rt_spi_send_then_recv_def)
  show ?case
  proof (cases "0 < busy c")
    case True
    then have "busy c1 < busy c" using st by simp
    from less [OF this] show ?thesis
      using True st rs by (subst gd25qxx_wait_busy.simps) simp
  next
    case False
    then show ?thesis using st rs by (subst gd25qxx_wait_busy.simps) simp
  qed
qed

lemma wren_props:
  assumes "busy c = 0"
  shows "contents (rt_spi_send spi c [CMD_WREN]) = contents c"
    and "busy (rt_spi_send spi c [CMD_WREN]) = 0" and "wel (rt_spi_send spi c [CMD_WREN])"
  using wren [OF assms, of "fst (spi c [CMD_WREN] 0)" "snd (spi c [CMD_WREN] 0)"]
  by (simp_all add: rt_spi_send_def)

lemma wrdi_props:
  assumes "busy c = 0"
  shows "contents (rt_spi_send spi c [CMD_WRDI]) = contents c"
    and "busy (rt_spi_send spi c [CMD_WRDI]) = 0"
  using wrdi [OF assms, of "fst (spi c [CMD_WRDI] 0)" "snd (spi c [CMD_WRDI] 0)"]
  by (simp_all add: rt_spi_send_def)

text \<open>The common tail of the three modifying commands: poll until idle, drop the latch.\<close>

lemma finish_command:
  "\<exists>c'. (case gd25qxx_wait_busy spi c of None \<Rightarrow> None
           | Some c3 \<Rightarrow> Some (rt_spi_send spi c3 [CMD_WRDI])) = Some c' \<and>
        busy c' = 0 \<and> contents c' = contents c"
  using wait_busy_returns [of c] wrdi_props by fastforce

lemma page_write_ok:
  assumes "busy c = 0" and "a < FLASH_SIZE" and "a mod PAGE_SIZE + length data \<le> PAGE_SIZE"
  shows "\<exists>c'. gd25qxx_page_write spi c a data = Some c' \<and> busy c' = 0 \<and>
    contents c' = mprogram (contents c) a data"
proof -
  let ?c1 = "rt_spi_send spi c [CMD_WREN]"
  let ?c2 = "rt_spi_send_then_send spi ?c1 (cmd_addr CMD_PP (of_nat a)) data"
  have "contents ?c2 = mprogram (contents ?c1) a data"
    using program [of ?c1 a data ?c2] wren_props [OF assms(1)] assms(2,3)
    by (simp add: rt_spi_send_then_send_def prod_eq_iff)
  then have "contents ?c2 = mprogram (contents c) a data"
    using wren_props(1) [OF assms(1)] by simp
  with finish_command [of ?c2] show ?thesis
    by (simp add: gd25qxx_page_write_def Let_def)
qed

lemma sector_erase_ok:
  assumes "busy c = 0" and "a < FLASH_SIZE"
  shows "\<exists>c'. gd25qxx_sector_erase spi c a = Some c' \<and> busy c' = 0 \<and> contents c' =
    merase (contents c) (a - a mod FLASH_BYTES_PER_SECTOR) FLASH_BYTES_PER_SECTOR"
proof -
  let ?c1 = "rt_spi_send spi c [CMD_WREN]"
  let ?c2 = "rt_spi_send spi ?c1 (cmd_addr CMD_ERASE_4K (of_nat a))"
  have "contents ?c2 =
      merase (contents ?c1) (a - a mod FLASH_BYTES_PER_SECTOR) FLASH_BYTES_PER_SECTOR"
    using erase_4k [of ?c1 a ?c2] wren_props [OF assms(1)] assms(2)
    by (simp add: rt_spi_send_def prod_eq_iff)
  with finish_command [of ?c2] wren_props(1) [OF assms(1)] show ?thesis
    by (simp add: gd25qxx_sector_erase_def Let_def)
qed

lemma block_erase_ok:
  assumes "busy c = 0" and "a < FLASH_SIZE"
  shows "\<exists>c'. gd25qxx_block_erase spi c a = Some c' \<and> busy c' = 0 \<and> contents c' =
    merase (contents c) (a - a mod FLASH_BYTES_PER_BLOCK) FLASH_BYTES_PER_BLOCK"
proof -
  let ?c1 = "rt_spi_send spi c [CMD_WREN]"
  let ?c2 = "rt_spi_send spi ?c1 (cmd_addr CMD_ERASE_64K (of_nat a))"
  have "contents ?c2 =
      merase (contents ?c1) (a - a mod FLASH_BYTES_PER_BLOCK) FLASH_BYTES_PER_BLOCK"
    using erase_64k [of ?c1 a ?c2] wren_props [OF assms(1)] assms(2)
    by (simp add: rt_spi_send_def prod_eq_iff)
  with finish_command [of ?c2] wren_props(1) [OF assms(1)] show ?thesis
    by (simp add: gd25qxx_block_erase_def Let_def)
qed

lemma flash_read_ok:
  assumes "busy c = 0" and "a < FLASH_SIZE" and "a + n \<le> FLASH_SIZE"
  shows "\<exists>c'. gd25qxx_flash_read spi c a n = (c', mread (contents c) a n, n) \<and> busy c' = 0 \<and>
    contents c' = contents c"
proof -
  let ?c1 = "rt_spi_send spi c [CMD_WRDI]"
  obtain c' r where r: "spi ?c1 (cmd_addr CMD_READ (of_nat a)) n = (c', r)" by fastforce
  from read_data [OF wrdi_props(2) [OF assms(1)] assms(2,3) r] wrdi_props(1) [OF assms(1)] r
  show ?thesis
    by (auto simp: gd25qxx_flash_read_def gd25qxx_read_def rt_spi_send_then_recv_def Let_def)
qed

lemma page_loop_ok:
  assumes "busy c = 0" and "pos mod PAGE_SIZE = 0" and "k * PAGE_SIZE \<le> length ptr"
    and "pos + k * PAGE_SIZE \<le> FLASH_SIZE"
  shows "\<exists>c'. page_loop spi c k pos ptr = Some (c', pos + k * PAGE_SIZE, drop (k * PAGE_SIZE) ptr) \<and>
    busy c' = 0 \<and> contents c' = mprogram (contents c) pos (take (k * PAGE_SIZE) ptr)"
  using assms
proof (induction k arbitrary: c pos ptr)
  case 0
  then show ?case by simp
next
  case (Suc k)
  have len: "length (take PAGE_SIZE ptr) = PAGE_SIZE" using Suc.prems by simp
  have "pos < FLASH_SIZE" using Suc.prems by simp
  with Suc.prems len page_write_ok [of c pos "take PAGE_SIZE ptr"] obtain c1 where
    c1: "gd25qxx_page_write spi c pos (take PAGE_SIZE ptr) = Some c1" "busy c1 = 0"
      "contents c1 = mprogram (contents c) pos (take PAGE_SIZE ptr)" by auto
  have pg: "(pos + PAGE_SIZE) mod PAGE_SIZE = 0" using Suc.prems(2) by simp
  have pl: "k * PAGE_SIZE \<le> length (drop PAGE_SIZE ptr)" using Suc.prems by simp
  have pe: "pos + PAGE_SIZE + k * PAGE_SIZE \<le> FLASH_SIZE" using Suc.prems by simp
  obtain c2 where c2: "page_loop spi c1 k (pos + PAGE_SIZE) (drop PAGE_SIZE ptr) =
      Some (c2, pos + PAGE_SIZE + k * PAGE_SIZE, drop (k * PAGE_SIZE) (drop PAGE_SIZE ptr))"
    "busy c2 = 0" "contents c2 =
      mprogram (contents c1) (pos + PAGE_SIZE) (take (k * PAGE_SIZE) (drop PAGE_SIZE ptr))"
    using Suc.IH [OF c1(2) pg pl pe] by metis
  have "take PAGE_SIZE ptr @ take (k * PAGE_SIZE) (drop PAGE_SIZE ptr) =
      take (Suc k * PAGE_SIZE) ptr"
    by (metis take_add mult_Suc)
  then have "contents c2 = mprogram (contents c) pos (take (Suc k * PAGE_SIZE) ptr)"
    using c2(3) c1(3) mprogram_append [of "contents c" pos "take PAGE_SIZE ptr"] len by simp
  with c1 c2 show ?case by (simp add: add.commute)
qed

end

text \<open>
  The number of bytes a write really programs: the rest of the first page, then whole pages and
  the remainder. The page counter has 8 bits, so of what follows the first page only the size
  modulo 65536 is programmed.
\<close>

definition first_page_bytes :: "nat \<Rightarrow> nat" where
  "first_page_bytes pos = (PAGE_SIZE - pos mod PAGE_SIZE) mod PAGE_SIZE"

definition bytes_programmed :: "nat \<Rightarrow> nat \<Rightarrow> nat" where
  "bytes_programmed pos n =
     (if n < first_page_bytes pos then n
      else first_page_bytes pos + (n - first_page_bytes pos) mod (256 * PAGE_SIZE))"

lemma first_page_bytes_aligns: "(pos + first_page_bytes pos) mod PAGE_SIZE = 0"
proof (cases "pos mod PAGE_SIZE = 0")
  case False
  then have "first_page_bytes pos = PAGE_SIZE - pos mod PAGE_SIZE"
    by (simp add: first_page_bytes_def)
  then have "pos + first_page_bytes pos = (pos - pos mod PAGE_SIZE) + PAGE_SIZE"
    by (simp add: less_imp_le)
  then show ?thesis by (simp add: minus_mod_eq_mult_div)
qed (simp add: first_page_bytes_def)

lemma first_page_bytes_fit: "pos mod PAGE_SIZE + first_page_bytes pos \<le> PAGE_SIZE"
proof -
  have "pos mod PAGE_SIZE < PAGE_SIZE" by simp
  moreover have "first_page_bytes pos \<le> PAGE_SIZE - pos mod PAGE_SIZE"
    unfolding first_page_bytes_def by (rule mod_less_eq_dividend)
  ultimately show ?thesis by linarith
qed

lemma unat_byte: "unat (of_nat n :: byte) = n mod 256"
  by (simp add: unat_of_nat)

lemma byte_positive: "0 < (of_nat n :: byte) \<longleftrightarrow> 0 < n mod 256"
  by (simp add: word_less_nat_alt unat_of_nat)

lemma first_page_bytes_unat:
  "unat (of_nat (PAGE_SIZE - unat (of_nat (pos mod PAGE_SIZE) :: byte)) :: byte) =
     first_page_bytes pos"
  by (simp only: unat_byte first_page_bytes_def mod_mod_trivial)

lemma gd25qxx_flash_write_eq:
  "gd25qxx_flash_write spi c pos buffer =
     (let f = first_page_bytes pos; rest = drop f buffer; r = length rest mod PAGE_SIZE
      in if length buffer < f
         then map_option (\<lambda>c'. (c', length buffer)) (gd25qxx_page_write spi c pos buffer)
         else case gd25qxx_page_write spi c pos (take f buffer) of
                None \<Rightarrow> None
              | Some c1 \<Rightarrow>
                  (case page_loop spi c1 (length rest div PAGE_SIZE mod 256) (pos + f) rest of
                     None \<Rightarrow> None
                   | Some (c2, pos2, ptr2) \<Rightarrow>
                       map_option (\<lambda>c3. (c3, length buffer - f))
                         (if 0 < r then gd25qxx_page_write spi c2 pos2 (take r ptr2) else Some c2)))"
  by (simp only: gd25qxx_flash_write_def first_page_bytes_def Let_def unat_byte byte_positive
      mod_mod_trivial length_drop take_all order_refl if_distrib [of "map_option f" for f]
      option.map cong: if_cong)

lemma page_count_split: "n div PAGE_SIZE mod 256 * PAGE_SIZE + n mod PAGE_SIZE = n mod (256 * PAGE_SIZE)"
  by (metis mod_mult2_eq mult.commute add.commute)

context nor_chip
begin

lemma flash_write_effect:
  assumes idle: "busy c = 0" and start: "pos < FLASH_SIZE"
    and fits: "pos + length buffer \<le> FLASH_SIZE"
  shows "\<exists>c'. gd25qxx_flash_write spi c pos buffer =
      Some (c', if length buffer < first_page_bytes pos then length buffer
                else length buffer - first_page_bytes pos) \<and> busy c' = 0 \<and>
    contents c' = mprogram (contents c) pos (take (bytes_programmed pos (length buffer)) buffer)"
proof (cases "length buffer < first_page_bytes pos")
  case True
  then have "pos mod PAGE_SIZE + length buffer \<le> PAGE_SIZE"
    using first_page_bytes_fit [of pos] by linarith
  from page_write_ok [OF idle start this] True show ?thesis
    by (auto simp: gd25qxx_flash_write_eq bytes_programmed_def Let_def)
next
  case False
  define f where "f = first_page_bytes pos"
  define rest where "rest = drop f buffer"
  define k where "k = length rest div PAGE_SIZE mod 256"
  define r where "r = length rest mod PAGE_SIZE"
  have f_le: "f \<le> length buffer" using False by (simp add: f_def)
  have len: "length (take f buffer) = f" using f_le by simp
  have lrest: "length rest = length buffer - f" by (simp add: rest_def)
  obtain c1 where c1: "gd25qxx_page_write spi c pos (take f buffer) = Some c1" "busy c1 = 0"
    "contents c1 = mprogram (contents c) pos (take f buffer)"
    using page_write_ok [OF idle start, of "take f buffer"] first_page_bytes_fit [of pos] len
    by (auto simp: f_def)
  have al: "(pos + f) mod PAGE_SIZE = 0" by (simp add: f_def first_page_bytes_aligns)
  have split: "k * PAGE_SIZE + r = length rest mod (256 * PAGE_SIZE)"
    unfolding k_def r_def by (rule page_count_split)
  then have kr: "k * PAGE_SIZE + r \<le> length rest" by simp
  then have kl: "k * PAGE_SIZE \<le> length rest" and ke: "pos + f + k * PAGE_SIZE \<le> FLASH_SIZE"
    using fits lrest f_le by linarith+
  obtain c2 where c2: "page_loop spi c1 k (pos + f) rest =
      Some (c2, pos + f + k * PAGE_SIZE, drop (k * PAGE_SIZE) rest)" "busy c2 = 0"
    "contents c2 = mprogram (contents c1) (pos + f) (take (k * PAGE_SIZE) rest)"
    using page_loop_ok [OF c1(2) al kl ke] by metis
  have last: "\<exists>c3. (if 0 < r then gd25qxx_page_write spi c2 (pos + f + k * PAGE_SIZE)
        (take r (drop (k * PAGE_SIZE) rest)) else Some c2) = Some c3 \<and> busy c3 = 0 \<and>
      contents c3 = mprogram (contents c2) (pos + f + k * PAGE_SIZE)
        (take r (drop (k * PAGE_SIZE) rest))"
  proof (cases "0 < r")
    case True
    have "(pos + f + k * PAGE_SIZE) mod PAGE_SIZE = 0" using al by simp
    moreover have "r \<le> PAGE_SIZE" by (simp add: r_def less_imp_le)
    moreover have "pos + f + k * PAGE_SIZE < FLASH_SIZE"
      using True kr fits lrest f_le by linarith
    ultimately show ?thesis
      using True page_write_ok [OF c2(2), of "pos + f + k * PAGE_SIZE"
          "take r (drop (k * PAGE_SIZE) rest)"] by (simp add: min.coboundedI2)
  qed (use c2 in simp)
  then obtain c3 where c3: "(if 0 < r then gd25qxx_page_write spi c2 (pos + f + k * PAGE_SIZE)
        (take r (drop (k * PAGE_SIZE) rest)) else Some c2) = Some c3" "busy c3 = 0"
      "contents c3 = mprogram (contents c2) (pos + f + k * PAGE_SIZE)
        (take r (drop (k * PAGE_SIZE) rest))" by metis
  have "mprogram (contents c2) (pos + f + k * PAGE_SIZE) (take r (drop (k * PAGE_SIZE) rest)) =
      mprogram (contents c1) (pos + f) (take (k * PAGE_SIZE + r) rest)"
    using mprogram_append [of "contents c1" "pos + f" "take (k * PAGE_SIZE) rest"] kl
    by (simp add: c2(3) take_add)
  also have "\<dots> = mprogram (contents c) pos (take f buffer @ take (k * PAGE_SIZE + r) rest)"
    using mprogram_append [of "contents c" pos "take f buffer"] len by (simp add: c1(3))
  also have "take f buffer @ take (k * PAGE_SIZE + r) rest =
      take (bytes_programmed pos (length buffer)) buffer"
    using False split lrest by (simp add: bytes_programmed_def rest_def f_def take_add)
  finally have final: "contents c3 =
      mprogram (contents c) pos (take (bytes_programmed pos (length buffer)) buffer)"
    using c3(3) by simp
  have "gd25qxx_flash_write spi c pos buffer = Some (c3, length buffer - f)"
    using False c1(1) c2(1) c3(1)
    by (simp only: gd25qxx_flash_write_eq Let_def f_def [symmetric] rest_def [symmetric]
        k_def [symmetric] r_def [symmetric] if_False option.case prod.case option.map)
  with final c3(2) False show ?thesis by (simp add: f_def)
qed

end

section \<open>The GD25Q32 itself\<close>

text \<open>
  A register-level reference model of the chip: its cells, the write-enable latch and the number
  of status reads for which the busy bit is still set. A page program wraps inside its page, a
  command sent while the chip is busy or not write-enabled is ignored. It satisfies the laws of
  \<open>nor_chip\<close>, so they are consistent and the theorems below apply to a chip that behaves
  like the part the board carries.
\<close>

record gd25q32 =
  cells :: mem
  latch :: bool
  polls :: nat

definition addr_of :: "byte \<Rightarrow> byte \<Rightarrow> byte \<Rightarrow> nat" where
  "addr_of b2 b1 b0 = unat (word32 0 b2 b1 b0) mod FLASH_SIZE"

fun program_bytes :: "mem \<Rightarrow> nat \<Rightarrow> nat \<Rightarrow> byte list \<Rightarrow> mem" where
  "program_bytes m page off [] = m"
| "program_bytes m page off (b # bs) =
     program_bytes (mprogram m (page + off) [b]) page (Suc off mod PAGE_SIZE) bs"

definition gd25q32_spi :: "gd25q32 spi" where
  "gd25q32_spi c out n =
     (case out of
        [] \<Rightarrow> (c, replicate n 0xFF)
      | cmd # args \<Rightarrow>
          if cmd = CMD_RDSR1 then
            (c\<lparr>polls := polls c - 1\<rparr>,
             replicate n ((if 0 < polls c then 1 else 0) OR (if latch c then 2 else 0)))
          else if 0 < polls c then (c, replicate n 0xFF)
          else if cmd = CMD_WREN then (c\<lparr>latch := True\<rparr>, replicate n 0xFF)
          else if cmd = CMD_WRDI then (c\<lparr>latch := False\<rparr>, replicate n 0xFF)
          else if cmd = CMD_JEDEC_ID then (c, take n ([MF_ID, 0x40, 0x16] @ replicate n 0))
          else (case args of
              b2 # b1 # b0 # data \<Rightarrow>
                (let a = addr_of b2 b1 b0 in
                 if cmd = CMD_READ then (c, mread (cells c) a n)
                 else if latch c \<and> cmd = CMD_PP then
                   (c\<lparr>cells := program_bytes (cells c) (a - a mod PAGE_SIZE) (a mod PAGE_SIZE) data,
                      latch := False, polls := 2\<rparr>, replicate n 0xFF)
                 else if latch c \<and> cmd = CMD_ERASE_4K then
                   (c\<lparr>cells := merase (cells c) (a - a mod FLASH_BYTES_PER_SECTOR)
                        FLASH_BYTES_PER_SECTOR, latch := False, polls := 5\<rparr>, replicate n 0xFF)
                 else if latch c \<and> cmd = CMD_ERASE_64K then
                   (c\<lparr>cells := merase (cells c) (a - a mod FLASH_BYTES_PER_BLOCK)
                        FLASH_BYTES_PER_BLOCK, latch := False, polls := 9\<rparr>, replicate n 0xFF)
                 else (c, replicate n 0xFF))
            | _ \<Rightarrow> (c, replicate n 0xFF)))"

lemma program_bytes_in_page:
  "off + length data \<le> PAGE_SIZE \<Longrightarrow> program_bytes m page off data = mprogram m (page + off) data"
proof (induction data arbitrary: m off)
  case (Cons b bs)
  show ?case
  proof (cases bs)
    case (Cons b' bs')
    then have "Suc off mod PAGE_SIZE = Suc off" using Cons.prems by simp
    then show ?thesis
      using Cons.IH [of "Suc off" "mprogram m (page + off) [b]"] Cons.prems
        mprogram_append [of m "page + off" "[b]" bs] by simp
  qed simp
qed simp

lemma word32_low: "(a :: u32) < 2 ^ 24 \<Longrightarrow>
    word32 0 (ucast (drop_bit 16 a)) (ucast (drop_bit 8 a)) (ucast a) = a"
proof -
  assume "a < 2 ^ 24"
  then have "unat a < 2 ^ 24" by (simp add: word_less_nat_alt)
  then have "drop_bit 24 a = 0"
    by (metis drop_bit_eq_div div_less unat_drop_bit_eq unsigned_0 unat_eq_zero)
  then show ?thesis using word32_split [of a] by simp
qed

lemma addr_of_cmd_addr:
  assumes "a < FLASH_SIZE"
  shows "addr_of (ucast (drop_bit 16 (of_nat a :: u32))) (ucast (drop_bit 8 (of_nat a :: u32)))
      (ucast (of_nat a :: u32)) = a"
proof -
  have u: "unat (of_nat a :: u32) = a" using assms by (simp add: unat_of_nat)
  then have "(of_nat a :: u32) < 2 ^ 24" using assms by (simp add: word_less_nat_alt)
  then show ?thesis using assms u by (simp add: addr_of_def word32_low)
qed

interpretation gd25q32: nor_chip gd25q32_spi cells polls latch
proof
  fix c :: gd25q32
  show "\<exists>c' s. gd25q32_spi c [CMD_RDSR1] 1 = (c', [s]) \<and> (s AND 1 \<noteq> 0 \<longleftrightarrow> 0 < polls c)
        \<and> polls c' = polls c - 1 \<and> cells c' = cells c"
    by (auto simp: gd25q32_spi_def)
qed (auto simp: gd25q32_spi_def cmd_addr_def addr_of_cmd_addr program_bytes_in_page Let_def)

section \<open>The device as the application sees it\<close>

text \<open>
  The application reaches the flash through \<open>rt_device_read\<close>, \<open>rt_device_write\<close> and
  \<open>rt_device_control\<close> on \<open>dev_ext_flash\<close>. Its model keeps the contents in the field
  \<open>flash\<close> and uses the four operations below; \<open>driver_refines_device\<close> shows that a
  sequence of driver calls has the effect of the same sequence of these operations.
\<close>

record flash_st =
  flash :: mem

definition ext_read :: "nat \<Rightarrow> nat \<Rightarrow> 'a flash_st_scheme \<Rightarrow> byte list" where
  "ext_read a n s = mread (flash s) a n"

definition ext_write :: "nat \<Rightarrow> byte list \<Rightarrow> 'a flash_st_scheme \<Rightarrow> 'a flash_st_scheme" where
  "ext_write a bs s = s\<lparr>flash := mprogram (flash s) a bs\<rparr>"

definition ext_sct_erase :: "nat \<Rightarrow> 'a flash_st_scheme \<Rightarrow> 'a flash_st_scheme" where
  "ext_sct_erase a s = s\<lparr>flash := merase (flash s) (a - a mod FLASH_BYTES_PER_SECTOR)
     FLASH_BYTES_PER_SECTOR\<rparr>"

definition ext_blk_erase :: "nat \<Rightarrow> 'a flash_st_scheme \<Rightarrow> 'a flash_st_scheme" where
  "ext_blk_erase a s = s\<lparr>flash := merase (flash s) (a - a mod FLASH_BYTES_PER_BLOCK)
     FLASH_BYTES_PER_BLOCK\<rparr>"

datatype flash_call = Write nat "byte list" | SctErase nat | BlkErase nat

fun call_fits :: "flash_call \<Rightarrow> bool" where
  "call_fits (Write a bs) \<longleftrightarrow>
     a < FLASH_SIZE \<and> a + length bs \<le> FLASH_SIZE \<and> length bs < 256 * PAGE_SIZE"
| "call_fits (SctErase a) \<longleftrightarrow> a < FLASH_SIZE"
| "call_fits (BlkErase a) \<longleftrightarrow> a < FLASH_SIZE"

definition flash_geometry :: geometry where
  "flash_geometry = \<lparr>sector_count = 1024, bytes_per_sector = FLASH_BYTES_PER_SECTOR,
     block_size = 64 * 1024\<rparr>"

fun driver_call :: "'c spi \<Rightarrow> flash_call \<Rightarrow> 'c \<Rightarrow> 'c option" where
  "driver_call spi (Write a bs) c = map_option fst (gd25qxx_flash_write spi c a bs)"
| "driver_call spi (SctErase a) c =
     map_option fst (gd25qxx_flash_control spi flash_geometry c GD_FLASH_CTRL_SCT_ERASE a)"
| "driver_call spi (BlkErase a) c =
     map_option fst (gd25qxx_flash_control spi flash_geometry c GD_FLASH_CTRL_BLK_ERASE a)"

fun driver_calls :: "'c spi \<Rightarrow> flash_call list \<Rightarrow> 'c \<Rightarrow> 'c option" where
  "driver_calls spi [] c = Some c"
| "driver_calls spi (x # xs) c =
     (case driver_call spi x c of None \<Rightarrow> None | Some c' \<Rightarrow> driver_calls spi xs c')"

fun device_call :: "flash_call \<Rightarrow> 'a flash_st_scheme \<Rightarrow> 'a flash_st_scheme" where
  "device_call (Write a bs) s = ext_write a bs s"
| "device_call (SctErase a) s = ext_sct_erase a s"
| "device_call (BlkErase a) s = ext_blk_erase a s"

lemma bytes_programmed_all: "n < 256 * PAGE_SIZE \<Longrightarrow> bytes_programmed pos n = n"
  by (simp add: bytes_programmed_def)

context nor_chip
begin

lemma flash_write_all:
  assumes "busy c = 0" and "pos < FLASH_SIZE" and "pos + length buffer \<le> FLASH_SIZE"
    and "length buffer < 256 * PAGE_SIZE"
  shows "\<exists>c' r. gd25qxx_flash_write spi c pos buffer = Some (c', r) \<and> busy c' = 0 \<and>
    contents c' = mprogram (contents c) pos buffer"
  using flash_write_effect [OF assms(1-3)] bytes_programmed_all [OF assms(4)] by auto

lemma driver_call_simulates:
  assumes "busy c = 0" and "contents c = flash s" and "call_fits x"
  shows "\<exists>c'. driver_call spi x c = Some c' \<and> busy c' = 0 \<and> contents c' = flash (device_call x s)"
proof (cases x)
  case (Write a bs)
  with assms flash_write_all [of c a bs] show ?thesis by (auto simp: ext_write_def)
next
  case (SctErase a)
  with assms sector_erase_ok [of c a] show ?thesis
    by (auto simp: ext_sct_erase_def gd25qxx_flash_control_def option.map_comp)
next
  case (BlkErase a)
  with assms block_erase_ok [of c a] show ?thesis
    by (auto simp: ext_blk_erase_def gd25qxx_flash_control_def option.map_comp)
qed

lemma driver_calls_simulate:
  assumes "busy c = 0" and "contents c = flash s" and "list_all call_fits xs"
  shows "\<exists>c'. driver_calls spi xs c = Some c' \<and> busy c' = 0 \<and>
    contents c' = flash (fold device_call xs s)"
  using assms
proof (induction xs arbitrary: c s)
  case (Cons x xs)
  then obtain c1 where "driver_call spi x c = Some c1" "busy c1 = 0"
    "contents c1 = flash (device_call x s)"
    using driver_call_simulates [of c s x] by auto
  with Cons.IH [of c1 "device_call x s"] Cons.prems show ?case by simp
qed simp

end

section \<open>Records in a sector\<close>

text \<open>
  The application keeps several structures each in a sector of its own: it erases the sector,
  writes the structure to its start and reads it back after a restart. What makes this work is that
  the encoding is lossless and fits; the users of the interface are the configuration, the file
  directory and the firmware information.
\<close>

definition rewrite_sector :: "nat \<Rightarrow> byte list \<Rightarrow> 'a flash_st_scheme \<Rightarrow> 'a flash_st_scheme" where
  "rewrite_sector a bs s = ext_write a bs (ext_sct_erase a s)"

lemma flash_rewrite_sector:
  "a mod FLASH_BYTES_PER_SECTOR = 0 \<Longrightarrow>
     flash (rewrite_sector a bs s) = mprogram (merase (flash s) a FLASH_BYTES_PER_SECTOR) a bs"
  by (simp add: rewrite_sector_def ext_write_def ext_sct_erase_def)

lemma ext_read_rewrite_other:
  assumes "a mod FLASH_BYTES_PER_SECTOR = 0" and "length bs \<le> FLASH_BYTES_PER_SECTOR"
    and "b + n \<le> a \<or> a + FLASH_BYTES_PER_SECTOR \<le> b"
  shows "ext_read b n (rewrite_sector a bs s) = ext_read b n s"
  using assms(2,3) unfolding ext_read_def flash_rewrite_sector [OF assms(1)]
  by (subst mread_mprogram_other, linarith) (rule mread_merase_other)

locale flash_record =
  fixes enc :: "'r \<Rightarrow> byte list" and dec :: "byte list \<Rightarrow> 'r" and len :: nat and wf :: "'r \<Rightarrow> bool"
  assumes enc_length: "wf r \<Longrightarrow> length (enc r) = len"
    and dec_enc: "wf r \<Longrightarrow> dec (enc r) = r"
    and fits: "len \<le> FLASH_BYTES_PER_SECTOR"
begin

lemma load_stored:
  assumes "a mod FLASH_BYTES_PER_SECTOR = 0" and "wf r"
  shows "dec (ext_read a len (rewrite_sector a (enc r) s)) = r"
proof -
  have "erased (merase (flash s) a FLASH_BYTES_PER_SECTOR) a (length (enc r))"
    using fits enc_length [OF assms(2)] by (intro erased_merase) simp_all
  from mread_mprogram [OF this] show ?thesis
    using enc_length [OF assms(2)] dec_enc [OF assms(2)]
    by (simp add: ext_read_def flash_rewrite_sector [OF assms(1)])
qed

lemma load_other:
  assumes "a mod FLASH_BYTES_PER_SECTOR = 0" and "wf r"
    and "b + n \<le> a \<or> a + FLASH_BYTES_PER_SECTOR \<le> b"
  shows "ext_read b n (rewrite_sector a (enc r) s) = ext_read b n s"
  by (rule ext_read_rewrite_other [OF assms(1) _ assms(3)]) (simp add: fits enc_length [OF assms(2)])

end

section \<open>Properties of the driver\<close>

text \<open>C12. The driver implements the flash device: started on an idle chip that obeys the laws of
  the data sheet, any sequence of writes (shorter than 64 KiB), sector erases and block erases
  inside the chip returns, leaves the chip idle, and leaves exactly the contents that the same
  sequence of abstract program and erase operations gives.\<close>

theorem driver_refines_device:
  assumes "nor_chip spi contents busy wel" and "busy c = 0" and "contents c = flash s"
    and "list_all call_fits xs"
  shows "\<exists>c'. driver_calls spi xs c = Some c' \<and> busy c' = 0 \<and>
    contents c' = flash (fold device_call xs s)"
  using nor_chip.driver_calls_simulate [OF assms] .

theorem driver_refines_device_witness:
  "\<exists>c'. driver_calls gd25q32_spi [SctErase 4096, Write 4350 [1, 2, 3]]
      \<lparr>cells = (\<lambda>_. 0), latch = False, polls = 0\<rparr> = Some c' \<and> polls c' = 0 \<and>
    cells c' = flash (fold device_call [SctErase 4096, Write 4350 [1, 2, 3]] \<lparr>flash = (\<lambda>_. 0)\<rparr>)"
  by (rule driver_refines_device [OF gd25q32.nor_chip_axioms]) simp_all

text \<open>What is written to an erased area is read back: the write returns, and a read of the
  same range by the driver gives the bytes that were written.\<close>

theorem flash_write_read_roundtrip:
  assumes "nor_chip spi contents busy wel" and "busy c = 0"
    and "pos < FLASH_SIZE" and "pos + length bs \<le> FLASH_SIZE" and "length bs < 256 * PAGE_SIZE"
    and "erased (contents c) pos (length bs)"
  shows "\<exists>c' r c''. gd25qxx_flash_write spi c pos bs = Some (c', r) \<and>
    gd25qxx_flash_read spi c' pos (length bs) = (c'', bs, length bs)"
proof -
  obtain c' r where w: "gd25qxx_flash_write spi c pos bs = Some (c', r)" "busy c' = 0"
    "contents c' = mprogram (contents c) pos bs"
    using nor_chip.flash_write_all [OF assms(1-5)] by blast
  with nor_chip.flash_read_ok [OF assms(1) w(2) assms(3,4)] mread_mprogram [OF assms(6)]
  show ?thesis by auto
qed

theorem flash_write_read_roundtrip_witness:
  "\<exists>c' r c''. gd25qxx_flash_write gd25q32_spi \<lparr>cells = (\<lambda>_. 0xFF), latch = False, polls = 0\<rparr>
      255 [7, 8, 9] = Some (c', r) \<and>
    gd25qxx_flash_read gd25q32_spi c' 255 (length [7, 8, 9 :: byte]) =
      (c'', [7, 8, 9], length [7, 8, 9 :: byte])"
  by (rule flash_write_read_roundtrip [OF gd25q32.nor_chip_axioms]) (simp_all add: erased_def)

text \<open>The 8-bit page counter: a write of exactly 64 KiB at a page boundary returns its size
  but programs nothing, because the counter of 256 whole pages wraps to zero.\<close>

theorem flash_write_64k_lost:
  assumes "nor_chip spi contents busy wel" and "busy c = 0"
    and "pos mod PAGE_SIZE = 0" and "length buffer = 65536" and "pos + 65536 \<le> FLASH_SIZE"
  shows "\<exists>c'. gd25qxx_flash_write spi c pos buffer = Some (c', 65536) \<and> contents c' = contents c"
proof -
  have f: "first_page_bytes pos = 0" using assms(3) by (simp add: first_page_bytes_def)
  then have "bytes_programmed pos (length buffer) = 0"
    using assms(4) by (simp add: bytes_programmed_def)
  with nor_chip.flash_write_effect [OF assms(1,2), of pos buffer] f assms(4,5) show ?thesis by auto
qed

theorem flash_write_64k_lost_witness:
  "\<exists>c'. gd25qxx_flash_write gd25q32_spi \<lparr>cells = (\<lambda>_. 0xFF), latch = False, polls = 0\<rparr>
      256 (replicate 65536 0) = Some (c', 65536) \<and> cells c' = (\<lambda>_. 0xFF)"
  using flash_write_64k_lost [OF gd25q32.nor_chip_axioms,
      of "\<lparr>cells = (\<lambda>_. 0xFF), latch = False, polls = 0\<rparr>" 256 "replicate 65536 0"] by simp

end
