(* ===== verification/Log_Base.thy ===== *)
theory Log_Base
  imports Spi_Flash
begin

text \<open>
  The circular log files of \<open>applications/user_components/log_base.c\<close>: a log owns a range of
  flash sectors, each opened with a header (a used flag and a serial number) and filled with
  text. Writing continues where the last write stopped and erases the next sector when one is
  full; at boot the write position is found again from the headers.

  The refinement: \<open>ring\<close> relates the flash and the \<open>log_info\<close> of a log to the whole history
  of bytes ever logged. Every write appends to the history; a read returns the end of it that the
  sectors still hold; a restart keeps it.
\<close>

section \<open>State\<close>

abbreviation (input) SECTOR_USE_FLAG :: u16 where "SECTOR_USE_FLAG \<equiv> 0xa5a5"

datatype log_type = SYSTEM_LOG | WORK_STATE_LOG

record sector_header =
  used :: u16
  sn :: u16

record log_info =
  next_sn :: u16
  max_size :: nat
  base_addr :: nat
  sector_num :: nat
  write_offset :: nat
  read_offset :: nat

record log_st = flash_st +
  log_infos :: "log_type \<Rightarrow> log_info"

definition upd_info :: "log_type \<Rightarrow> (log_info \<Rightarrow> log_info) \<Rightarrow> 'a log_st_scheme \<Rightarrow> 'a log_st_scheme" where
  "upd_info type f s = s\<lparr>log_infos := (log_infos s)(type := f (log_infos s type))\<rparr>"

text \<open>The macros compare in \<open>int\<close>: both operands are converted to \<open>rt_int16_t\<close>, the
  difference is not.\<close>

definition sn_after :: "u16 \<Rightarrow> u16 \<Rightarrow> bool" where
  "sn_after a b \<longleftrightarrow> sint b - sint a < 0"

definition sn_before :: "u16 \<Rightarrow> u16 \<Rightarrow> bool" where
  "sn_before a b \<longleftrightarrow> sn_after b a"

definition header_bytes :: "sector_header \<Rightarrow> byte list" where
  "header_bytes h = le16 (used h) @ le16 (sn h)"

definition read_header :: "nat \<Rightarrow> 'a flash_st_scheme \<Rightarrow> sector_header" where
  "read_header addr s =
     (let b = ext_read addr 4 s in \<lparr>used = rd_le16 b 0, sn = rd_le16 b 2\<rparr>)"

section \<open>Operations\<close>

text \<open>The sector scan that \<open>perpare_write_info\<close> and \<open>prepare_read\<close> share: \<open>n\<close> sectors are
  left, \<open>i\<close> is the index of the next one, \<open>best\<close> and \<open>off\<close> the serial number and offset
  kept so far. The result ends with the final value of \<open>i\<close>.\<close>

fun scan_sectors :: "(u16 \<Rightarrow> u16 \<Rightarrow> bool) \<Rightarrow> 'a flash_st_scheme \<Rightarrow> nat \<Rightarrow> nat \<Rightarrow> nat \<Rightarrow> u16 \<Rightarrow> nat \<Rightarrow>
    u16 \<times> nat \<times> nat" where
  "scan_sectors better s addr 0 i best off = (best, off, i)"
| "scan_sectors better s addr (Suc n) i best off =
     (let header = read_header addr s
      in if used header = SECTOR_USE_FLAG
         then if i = 0 \<or> better (sn header) best
              then scan_sectors better s (addr + FLASH_BYTES_PER_SECTOR) n (i + 1) (sn header)
                     (i * FLASH_BYTES_PER_SECTOR)
              else scan_sectors better s (addr + FLASH_BYTES_PER_SECTOR) n (i + 1) best off
         else (best, off, i))"

text \<open>The search for the end of the text in the sector: \<open>n\<close> bytes are left.\<close>

fun find_end :: "'a flash_st_scheme \<Rightarrow> nat \<Rightarrow> nat \<Rightarrow> nat \<Rightarrow> nat" where
  "find_end s addr 0 off = off"
| "find_end s addr (Suc n) off =
     (if ext_read addr 1 s = [0xff] then off else find_end s (addr + 1) n (off + 1))"

definition perpare_write_info :: "log_type \<Rightarrow> 'a log_st_scheme \<Rightarrow> 'a log_st_scheme" where
  "perpare_write_info type s =
     (let p = log_infos s type;
          (mx, off, i) = scan_sectors sn_after s (base_addr p) (sector_num p) 0 0 (write_offset p)
      in if i = 0 then s
         else let off1 = off + 4;
                  off2 = find_end s (base_addr p + off1) (FLASH_BYTES_PER_SECTOR - 4) off1
              in upd_info type (\<lambda>p. p\<lparr>next_sn := mx + 1, write_offset := off2\<rparr>) s)"

definition prepare_read :: "log_type \<Rightarrow> 'a log_st_scheme \<Rightarrow> 'a log_st_scheme" where
  "prepare_read type s =
     (let p = log_infos s type;
          (mn, off, i) = scan_sectors sn_before s (base_addr p) (sector_num p) 0 0 (read_offset p)
      in upd_info type (\<lambda>p. p\<lparr>read_offset := off\<rparr>) s)"

definition calculate_file_size :: "log_type \<Rightarrow> 'a log_st_scheme \<Rightarrow> nat" where
  "calculate_file_size type s =
     (let p = log_infos s type;
          sct_num = (if read_offset p > write_offset p then sector_num p - 1
                     else write_offset p div FLASH_BYTES_PER_SECTOR) mod 2 ^ 16;
          sz = sct_num * (FLASH_BYTES_PER_SECTOR - 4)
      in if write_offset p mod FLASH_BYTES_PER_SECTOR \<noteq> 0
         then usub32 (sz + write_offset p mod FLASH_BYTES_PER_SECTOR) 4 else sz)"

definition zero_info :: log_info where
  "zero_info = \<lparr>next_sn = 0, max_size = 0, base_addr = 0, sector_num = 0, write_offset = 0,
     read_offset = 0\<rparr>"

definition init_info :: "log_type \<Rightarrow> log_info" where
  "init_info type =
     (case type of
        SYSTEM_LOG \<Rightarrow> zero_info\<lparr>base_addr := 80 * FLASH_BYTES_PER_SECTOR,
          max_size := 16 * FLASH_BYTES_PER_SECTOR, sector_num := 16\<rparr>
      | WORK_STATE_LOG \<Rightarrow> zero_info\<lparr>base_addr := 112 * FLASH_BYTES_PER_SECTOR,
          max_size := 32 * FLASH_BYTES_PER_SECTOR, sector_num := 32\<rparr>)"

definition logs_init :: "'a log_st_scheme \<Rightarrow> 'a log_st_scheme" where
  "logs_init s =
     perpare_write_info WORK_STATE_LOG (perpare_write_info SYSTEM_LOG (s\<lparr>log_infos := init_info\<rparr>))"

text \<open>The part of \<open>log_write\<close> that starts a new sector.\<close>

definition open_sector :: "log_type \<Rightarrow> 'a log_st_scheme \<Rightarrow> 'a log_st_scheme" where
  "open_sector type s =
     (let p = log_infos s type
      in if write_offset p mod FLASH_BYTES_PER_SECTOR = 0
         then let wo = (if write_offset p \<ge> max_size p then 0 else write_offset p);
                  addr = base_addr p + wo;
                  s1 = ext_sct_erase addr s;
                  s2 = ext_write addr (header_bytes \<lparr>used = SECTOR_USE_FLAG, sn = next_sn p\<rparr>) s1
              in upd_info type (\<lambda>p. p\<lparr>next_sn := next_sn p + 1, write_offset := wo + 4\<rparr>) s2
         else s)"

text \<open>The part of \<open>log_write\<close> that stores what fits in the sector.\<close>

definition sector_room :: "log_info \<Rightarrow> nat \<Rightarrow> nat" where
  "sector_room p n =
     (let free_size = FLASH_BYTES_PER_SECTOR - write_offset p mod FLASH_BYTES_PER_SECTOR
      in if free_size < n then free_size else n)"

definition write_chunk :: "byte list \<Rightarrow> log_type \<Rightarrow> 'a log_st_scheme \<Rightarrow> 'a log_st_scheme" where
  "write_chunk bs type s =
     (let p = log_infos s type
      in upd_info type (\<lambda>p. p\<lparr>write_offset := write_offset p + length bs\<rparr>)
           (ext_write (base_addr p + write_offset p) bs s))"

function log_write :: "byte list \<Rightarrow> log_type \<Rightarrow> 'a log_st_scheme \<Rightarrow> 'a log_st_scheme" where
  "log_write buf type s =
     (if buf = [] then s
      else let s1 = open_sector type s;
               free_size = sector_room (log_infos s1 type) (length buf)
           in log_write (drop free_size buf) type (write_chunk (take free_size buf) type s1))"
  by pat_completeness auto
termination
  by (relation "measure (\<lambda>(buf, _, _). length buf)") (auto simp: sector_room_def Let_def)

declare log_write.simps [simp del]

text \<open>The part of \<open>log_read\<close> that skips a sector header.\<close>

definition enter_sector :: "log_info \<Rightarrow> log_info" where
  "enter_sector p =
     (if read_offset p mod FLASH_BYTES_PER_SECTOR = 0
      then let ro = (if read_offset p \<ge> max_size p then 0 else read_offset p)
           in p\<lparr>read_offset := ro + 4\<rparr>
      else p)"

definition available :: "log_info \<Rightarrow> nat" where
  "available p =
     (if read_offset p div FLASH_BYTES_PER_SECTOR \<noteq> write_offset p div FLASH_BYTES_PER_SECTOR
      then FLASH_BYTES_PER_SECTOR - read_offset p mod FLASH_BYTES_PER_SECTOR
      else usub32 (write_offset p) (read_offset p))"

function log_read :: "nat \<Rightarrow> log_type \<Rightarrow> 'a log_st_scheme \<Rightarrow> byte list \<times> 'a log_st_scheme" where
  "log_read buf_size type s =
     (if buf_size = 0 then ([], s)
      else let s1 = upd_info type enter_sector s;
               p = log_infos s1 type;
               tmp_size = available p
           in if tmp_size = 0 then ([], s1)
              else let n = (if buf_size < tmp_size then buf_size else tmp_size);
                       data = ext_read (base_addr p + read_offset p) n s1;
                       s2 = upd_info type (\<lambda>p. p\<lparr>read_offset := read_offset p + n\<rparr>) s1;
                       (rest, s3) = log_read (buf_size - n) type s2
                   in (data @ rest, s3))"
  by pat_completeness auto
termination
  by (relation "measure (\<lambda>(n, _, _). n)") auto

declare log_read.simps [simp del]


section \<open>The history of a log\<close>

abbreviation (input) SCT_DATA :: nat where "SCT_DATA \<equiv> 4092"

text \<open>The geometry of a log, fixed at \<open>logs_init\<close>.\<close>

definition log_region :: "log_info \<Rightarrow> bool" where
  "log_region p \<longleftrightarrow> 0 < sector_num p \<and> max_size p = sector_num p * FLASH_BYTES_PER_SECTOR \<and>
     base_addr p mod FLASH_BYTES_PER_SECTOR = 0 \<and> base_addr p + max_size p \<le> FLASH_SIZE"

text \<open>Where sector number \<open>j\<close> of the history lives, and the write offset after \<open>T\<close> sectors
  have been opened and \<open>n\<close> bytes have been written.\<close>

definition sct_off :: "log_info \<Rightarrow> nat \<Rightarrow> nat" where
  "sct_off p j = (j mod sector_num p) * FLASH_BYTES_PER_SECTOR"

definition wr_off :: "log_info \<Rightarrow> nat \<Rightarrow> nat \<Rightarrow> nat" where
  "wr_off p T n = (if T = 0 then 0 else sct_off p (T - 1) + 4 + (n - (T - 1) * SCT_DATA))"

definition sector_holds :: "mem \<Rightarrow> log_info \<Rightarrow> byte list \<Rightarrow> nat \<Rightarrow> bool" where
  "sector_holds m p h j \<longleftrightarrow>
     mread m (base_addr p + sct_off p j) 4 =
       header_bytes \<lparr>used = SECTOR_USE_FLAG, sn = of_nat j\<rparr> \<and>
     mread m (base_addr p + sct_off p j + 4) (min SCT_DATA (length h - j * SCT_DATA)) =
       take SCT_DATA (drop (j * SCT_DATA) h)"

definition sector_used :: "mem \<Rightarrow> log_info \<Rightarrow> nat \<Rightarrow> bool" where
  "sector_used m p i \<longleftrightarrow>
     rd_le16 (mread m (base_addr p + i * FLASH_BYTES_PER_SECTOR) 4) 0 = SECTOR_USE_FLAG"

text \<open>
  \<open>ring m p T h\<close>: the flash \<open>m\<close> and the bookkeeping \<open>p\<close> hold the log whose history is
  \<open>h\<close>, in \<open>T\<close> sectors opened so far of which the last \<open>sector_num p\<close> are still there; the rest
  of the current sector is erased, and the sectors that have never been opened are not marked as
  used.
\<close>

definition ring :: "mem \<Rightarrow> log_info \<Rightarrow> nat \<Rightarrow> byte list \<Rightarrow> bool" where
  "ring m p T h \<longleftrightarrow>
     log_region p \<and> (T - 1) * SCT_DATA \<le> length h \<and> length h \<le> T * SCT_DATA \<and>
     next_sn p = of_nat T \<and> write_offset p = wr_off p T (length h) \<and>
     (\<forall>j < T. T \<le> j + sector_num p \<longrightarrow> sector_holds m p h j) \<and>
     erased m (base_addr p + write_offset p) (T * SCT_DATA - length h) \<and>
     (\<forall>i < sector_num p. T \<le> i \<longrightarrow> \<not> sector_used m p i)"

lemma log_infos_upd_info [simp]:
  "log_infos (upd_info type f s) type' = (if type' = type then f (log_infos s type) else log_infos s type')"
  by (simp add: upd_info_def)

lemma flash_upd_info [simp]: "flash (upd_info type f s) = flash s"
  by (simp add: upd_info_def)

lemma flash_ext_ops [simp]:
  "flash (ext_write a bs s) = mprogram (flash s) a bs"
  "flash (ext_sct_erase a s) = merase (flash s) (a - a mod FLASH_BYTES_PER_SECTOR) FLASH_BYTES_PER_SECTOR"
  "log_infos (ext_write a bs t) = log_infos t" "log_infos (ext_sct_erase a t) = log_infos t"
  by (simp_all add: ext_write_def ext_sct_erase_def)

lemma length_header_bytes [simp]: "length (header_bytes h) = 4"
  by (simp add: header_bytes_def)

lemma sct_off_bound: "log_region p \<Longrightarrow> sct_off p j + FLASH_BYTES_PER_SECTOR \<le> max_size p"
proof -
  assume r: "log_region p"
  then have "j mod sector_num p + 1 \<le> sector_num p" by (simp add: log_region_def Suc_le_eq)
  then have "(j mod sector_num p + 1) * FLASH_BYTES_PER_SECTOR \<le> sector_num p * FLASH_BYTES_PER_SECTOR"
    by (rule mult_le_mono1)
  then show ?thesis using r by (simp add: log_region_def sct_off_def)
qed

lemma sct_off_aligned: "sct_off p j mod FLASH_BYTES_PER_SECTOR = 0"
  by (simp add: sct_off_def)

text \<open>Two sectors of the retained part of the history lie in different places.\<close>

lemma mod_window_inj:
  assumes "i < j" and "j < i + (n :: nat)"
  shows "i mod n \<noteq> j mod n"
proof
  assume "i mod n = j mod n"
  then have "n dvd j - i" using assms(1) by (metis less_imp_le_nat mod_eq_dvd_iff_nat)
  with assms show False by (auto dest: dvd_imp_le)
qed

lemma sct_off_disjoint:
  assumes "i < T" "j < T" "T \<le> i + sector_num p" "T \<le> j + sector_num p" "i \<noteq> j"
  shows "sct_off p i + FLASH_BYTES_PER_SECTOR \<le> sct_off p j \<or>
    sct_off p j + FLASH_BYTES_PER_SECTOR \<le> sct_off p i"
proof -
  have "i mod sector_num p \<noteq> j mod sector_num p"
    using assms mod_window_inj [of i j] mod_window_inj [of j i] by (metis add.commute
        le_trans less_le_trans nat_neq_iff not_less)
  then show ?thesis by (auto simp: sct_off_def nat_neq_iff)
qed

lemma sector_holds_cong:
  assumes "sector_holds m p h j"
    and "base_addr p' = base_addr p" "sector_num p' = sector_num p"
    and "\<And>x. base_addr p + sct_off p j \<le> x \<Longrightarrow>
          x < base_addr p + sct_off p j + FLASH_BYTES_PER_SECTOR \<Longrightarrow> m' x = m x"
  shows "sector_holds m' p' h j"
proof -
  have e: "sct_off p' j = sct_off p j" using assms(3) by (simp add: sct_off_def)
  have "mread m' (base_addr p + sct_off p j) 4 = mread m (base_addr p + sct_off p j) 4"
    by (rule mread_cong) (use assms(4) in auto)
  moreover have "mread m' (base_addr p + sct_off p j + 4) (min SCT_DATA (length h - j * SCT_DATA)) =
      mread m (base_addr p + sct_off p j + 4) (min SCT_DATA (length h - j * SCT_DATA))"
    by (rule mread_cong) (use assms(4) in auto)
  ultimately show ?thesis using assms(1,2) by (simp add: sector_holds_def e)
qed


lemma sector_used_cong:
  assumes "\<not> sector_used m p i" and "base_addr p' = base_addr p"
    and "\<And>x. base_addr p + i * FLASH_BYTES_PER_SECTOR \<le> x \<Longrightarrow>
          x < base_addr p + i * FLASH_BYTES_PER_SECTOR + 4 \<Longrightarrow> m' x = m x"
  shows "\<not> sector_used m' p' i"
proof -
  have "mread m' (base_addr p + i * FLASH_BYTES_PER_SECTOR) 4 =
      mread m (base_addr p + i * FLASH_BYTES_PER_SECTOR) 4"
    by (rule mread_cong) (use assms(3) in auto)
  with assms(1,2) show ?thesis by (simp add: sector_used_def)
qed

lemma ringD:
  assumes "ring m p T h"
  shows "log_region p" "(T - 1) * SCT_DATA \<le> length h" "length h \<le> T * SCT_DATA"
    "next_sn p = of_nat T" "write_offset p = wr_off p T (length h)"
    "\<And>j. j < T \<Longrightarrow> T \<le> j + sector_num p \<Longrightarrow> sector_holds m p h j"
    "erased m (base_addr p + write_offset p) (T * SCT_DATA - length h)"
    "\<And>i. i < sector_num p \<Longrightarrow> T \<le> i \<Longrightarrow> \<not> sector_used m p i"
  using assms by (auto simp: ring_def)

lemma wr_off_full:
  assumes "log_region p" "(T - 1) * SCT_DATA \<le> n" "n \<le> T * SCT_DATA"
  shows "wr_off p T n mod FLASH_BYTES_PER_SECTOR = 0 \<longleftrightarrow> n = T * SCT_DATA"
proof (cases T)
  case (Suc k)
  define r where "r = n - k * SCT_DATA"
  have n: "n = k * SCT_DATA + r" "r \<le> SCT_DATA" using assms(2,3) Suc by (simp_all add: r_def)
  have "wr_off p T n mod FLASH_BYTES_PER_SECTOR = (4 + r) mod FLASH_BYTES_PER_SECTOR"
    by (simp add: wr_off_def Suc r_def sct_off_def add.assoc)
  also have "\<dots> = 0 \<longleftrightarrow> r = SCT_DATA" using n(2) by (cases "r = SCT_DATA") simp_all
  finally show ?thesis using n Suc by auto
qed (use assms in \<open>simp add: wr_off_def\<close>)

lemma sct_off_next:
  assumes "log_region p"
  shows "(if wr_off p T (T * SCT_DATA) \<ge> max_size p then 0 else wr_off p T (T * SCT_DATA)) = sct_off p T"
proof (cases T)
  case 0
  then show ?thesis using assms by (simp add: wr_off_def sct_off_def)
next
  case (Suc k)
  have lt: "k mod sector_num p < sector_num p" using assms by (simp add: log_region_def)
  have w: "wr_off p T (T * SCT_DATA) = Suc (k mod sector_num p) * FLASH_BYTES_PER_SECTOR"
    by (simp add: Suc wr_off_def sct_off_def)
  have m: "max_size p = sector_num p * FLASH_BYTES_PER_SECTOR"
    using assms by (simp add: log_region_def)
  show ?thesis
    using lt w m by (cases "Suc (k mod sector_num p) = sector_num p")
      (simp_all add: sct_off_def Suc mod_Suc)
qed


lemma open_sector_ring:
  assumes "ring (flash s) (log_infos s type) T h" and full: "length h = T * SCT_DATA"
  shows "ring (flash (open_sector type s)) (log_infos (open_sector type s) type) (Suc T) h"
proof -
  define p where "p = log_infos s type"
  define a where "a = base_addr p + sct_off p T"
  define hdr where "hdr = header_bytes \<lparr>used = SECTOR_USE_FLAG, sn = of_nat T\<rparr>"
  define m' where "m' = mprogram (merase (flash s) a FLASH_BYTES_PER_SECTOR) a hdr"
  define p' where "p' = p\<lparr>next_sn := of_nat (Suc T), write_offset := sct_off p T + 4\<rparr>"
  note r = ringD [OF assms(1), folded p_def]
  have aligned: "a mod FLASH_BYTES_PER_SECTOR = 0"
    using r(1) sct_off_aligned [of p T] by (simp add: a_def log_region_def mod_add_eq [symmetric])
  have wo: "write_offset p mod FLASH_BYTES_PER_SECTOR = 0"
    using r(5) wr_off_full [OF r(1-3)] full by simp
  have nxt: "(if write_offset p \<ge> max_size p then 0 else write_offset p) = sct_off p T"
    using sct_off_next [OF r(1), of T] unfolding r(5) full .
  have s': "flash (open_sector type s) = m'" "log_infos (open_sector type s) type = p'"
    unfolding open_sector_def Let_def p_def [symmetric] nxt a_def [symmetric]
    using wo aligned by (simp_all add: r(4) hdr_def m'_def p'_def p_def [symmetric] add.commute)
  have keep: "m' x = flash s x" if "x < a \<or> a + FLASH_BYTES_PER_SECTOR \<le> x" for x
    using that by (auto simp: m'_def hdr_def mprogram_other merase_other)
  have er: "erased (merase (flash s) a FLASH_BYTES_PER_SECTOR) b k"
    if "a \<le> b" "b + k \<le> a + FLASH_BYTES_PER_SECTOR" for b k
    using that by (rule erased_merase)
  have same: "sct_off p' j = sct_off p j" "base_addr p' = base_addr p" "sector_num p' = sector_num p" for j
    by (simp_all add: p'_def sct_off_def)
  have holds: "sector_holds m' p' h j" if j: "j < Suc T" "Suc T \<le> j + sector_num p" for j
  proof (cases "j = T")
    case True
    have "mread m' a 4 = hdr"
      using mread_mprogram [OF er [of a "length hdr"]] by (simp add: m'_def hdr_def)
    with True full show ?thesis by (simp add: sector_holds_def same a_def hdr_def)
  next
    case False
    show ?thesis
    proof (rule sector_holds_cong [OF r(6) same(2,3) keep])
      show "j < T" "T \<le> j + sector_num p" using False j by simp_all
      fix x assume "base_addr p + sct_off p j \<le> x" "x < base_addr p + sct_off p j + FLASH_BYTES_PER_SECTOR"
      then show "x < a \<or> a + FLASH_BYTES_PER_SECTOR \<le> x"
        using sct_off_disjoint [of j "Suc T" T p] j False by (auto simp: a_def)
    qed
  qed
  have "erased m' (base_addr p' + write_offset p') (Suc T * SCT_DATA - length h)"
    using er [of "a + 4" SCT_DATA] full
    by (simp add: p'_def m'_def a_def [symmetric] add.assoc [symmetric] hdr_def erased_mprogram_other)
  moreover have "\<not> sector_used m' p' i" if i: "i < sector_num p" "Suc T \<le> i" for i
  proof (rule sector_used_cong [OF r(8) same(2) keep])
    show "i < sector_num p" "T \<le> i" using i by simp_all
    fix x assume "base_addr p + i * FLASH_BYTES_PER_SECTOR \<le> x"
    moreover have "(T + 1) * FLASH_BYTES_PER_SECTOR \<le> i * FLASH_BYTES_PER_SECTOR"
      using i by (intro mult_le_mono1) simp
    ultimately show "x < a \<or> a + FLASH_BYTES_PER_SECTOR \<le> x"
      using i by (simp add: a_def sct_off_def)
  qed
  moreover have "write_offset p' = wr_off p' (Suc T) (length h)"
    using full by (simp add: wr_off_def same) (simp add: p'_def)
  moreover have "log_region p'" "next_sn p' = of_nat (Suc T)"
    using r(1) by (simp_all add: p'_def log_region_def)
  ultimately show ?thesis
    using holds full unfolding s' ring_def same by simp
qed

lemma sector_holds_append:
  "sector_holds m p h j \<Longrightarrow> Suc j * SCT_DATA \<le> length h \<Longrightarrow> sector_holds m p (h @ c) j"
  by (simp add: sector_holds_def min_absorb1)

lemma write_chunk_ring:
  assumes "ring (flash s) (log_infos s type) T h" and "0 < T"
    and fits: "length h + length c \<le> T * SCT_DATA"
  shows "ring (flash (write_chunk c type s)) (log_infos (write_chunk c type s) type) T (h @ c)"
proof -
  define p where "p = log_infos s type"
  define k where "k = T - 1"
  define n where "n = length h - k * SCT_DATA"
  define a where "a = base_addr p + sct_off p k"
  define m' where "m' = mprogram (flash s) (a + 4 + n) c"
  define p' where "p' = p\<lparr>write_offset := write_offset p + length c\<rparr>"
  note r = ringD [OF assms(1), folded p_def]
  have T: "T = Suc k" using assms(2) by (simp add: k_def)
  have n: "length h = k * SCT_DATA + n" using r(2) by (simp add: n_def k_def)
  have fit: "n + length c \<le> SCT_DATA" using fits n T by simp
  have wo: "write_offset p = sct_off p k + 4 + n" using r(5) T by (simp add: wr_off_def n_def)
  have s': "flash (write_chunk c type s) = m'" "log_infos (write_chunk c type s) type = p'"
    by (simp_all add: write_chunk_def Let_def p_def [symmetric] m'_def p'_def wo a_def add.assoc)
  have keep: "m' x = flash s x" if "x < a + 4 + n \<or> a + FLASH_BYTES_PER_SECTOR \<le> x" for x
    unfolding m'_def by (rule mprogram_other) (use that fit in linarith)
  have same: "sct_off p' j = sct_off p j" "base_addr p' = base_addr p" "sector_num p' = sector_num p" for j
    by (simp_all add: p'_def sct_off_def)
  have er: "erased (flash s) (a + 4 + n) (SCT_DATA - n)"
    using r(7) wo n T by (simp add: a_def add.assoc)
  have cur: "sector_holds m' p' (h @ c) k"
  proof -
    have old: "sector_holds (flash s) p h k" using r(1) r(6) [of k] T by (simp add: log_region_def)
    have "mread m' a 4 = mread (flash s) a 4" by (rule mread_cong) (use keep in simp)
    moreover have "mread m' (a + 4) (n + length c) = drop (k * SCT_DATA) h @ c"
    proof -
      have "mread m' (a + 4) n = mread (flash s) (a + 4) n" by (rule mread_cong) (use keep in simp)
      also have "\<dots> = drop (k * SCT_DATA) h"
        using old n fit by (simp add: sector_holds_def a_def)
      finally show ?thesis
        using mread_mprogram [OF erased_sub [OF er order_refl]] fit
        by (simp add: mread_append m'_def)
    qed
    ultimately show ?thesis
      using old n fit by (simp add: sector_holds_def same a_def min_def)
  qed
  have holds: "sector_holds m' p' (h @ c) j" if j: "j < T" "T \<le> j + sector_num p" for j
  proof (cases "j = k")
    case False
    have full: "Suc j * SCT_DATA \<le> length h"
      using j False T n mult_le_mono1 [of "Suc j" k SCT_DATA] by simp
    show ?thesis
    proof (rule sector_holds_cong [OF sector_holds_append [OF r(6) full] same(2,3) keep])
      fix x assume "base_addr p + sct_off p j \<le> x" "x < base_addr p + sct_off p j + FLASH_BYTES_PER_SECTOR"
      then show "x < a + 4 + n \<or> a + FLASH_BYTES_PER_SECTOR \<le> x"
        using sct_off_disjoint [of j T k p] j False T by (auto simp: a_def)
    qed (use j in simp_all)
  qed (use cur in simp)
  have "erased m' (a + 4 + n + length c) (SCT_DATA - n - length c)"
    unfolding m'_def using erased_sub [OF er, of "a + 4 + n + length c"] fit
    by (subst erased_mprogram_other) simp_all
  then have er': "erased m' (base_addr p' + write_offset p') (T * SCT_DATA - length (h @ c))"
    using T n wo by (simp add: p'_def a_def add.assoc)
  have unused: "\<not> sector_used m' p' i" if i: "i < sector_num p" "T \<le> i" for i
  proof (rule sector_used_cong [OF r(8) same(2) keep])
    fix x assume "base_addr p + i * FLASH_BYTES_PER_SECTOR \<le> x"
    moreover have "T * FLASH_BYTES_PER_SECTOR \<le> i * FLASH_BYTES_PER_SECTOR"
      using i by (intro mult_le_mono1) simp
    ultimately show "x < a + 4 + n \<or> a + FLASH_BYTES_PER_SECTOR \<le> x"
      using i T by (simp add: a_def sct_off_def)
  qed (use i in simp_all)
  have "write_offset p' = wr_off p' T (length (h @ c))"
    using T n by (simp add: wr_off_def same p'_def wo) (simp add: sct_off_def)
  moreover have "log_region p'" "next_sn p' = of_nat T"
    using r(1,4) by (simp_all add: p'_def log_region_def)
  ultimately show ?thesis
    using holds er' unused fits n T unfolding s' ring_def same by simp
qed


section \<open>Writing\<close>

lemma open_sector_skip:
  assumes "ring (flash s) (log_infos s type) T h" and "length h \<noteq> T * SCT_DATA"
  shows "open_sector type s = s"
proof -
  note r = ringD [OF assms(1)]
  show ?thesis using wr_off_full [OF r(1-3)] r(5) assms(2) by (simp add: open_sector_def Let_def)
qed

text \<open>Where a write goes on: the sector that is open after \<open>open_sector\<close>.\<close>

definition sectors_after :: "nat \<Rightarrow> nat \<Rightarrow> nat" where
  "sectors_after T n = (if n = T * SCT_DATA then Suc T else T)"

lemma open_sector_room:
  assumes "ring (flash s) (log_infos s type) T h"
  defines "s' \<equiv> open_sector type s"
  shows "ring (flash s') (log_infos s' type) (sectors_after T (length h)) h"
    and "0 < sectors_after T (length h)"
    and "sector_room (log_infos s' type) n = min n (sectors_after T (length h) * SCT_DATA - length h)"
proof -
  let ?T = "sectors_after T (length h)"
  show r: "ring (flash s') (log_infos s' type) ?T h"
    using open_sector_ring [OF assms(1)] open_sector_skip [OF assms(1)] assms(1)
    by (auto simp: sectors_after_def s'_def)
  show pos: "0 < ?T" using ringD(3) [OF assms(1)] by (auto simp: sectors_after_def)
  have lt: "length h < ?T * SCT_DATA" using ringD(3) [OF assms(1)] by (auto simp: sectors_after_def)
  have lo: "(?T - 1) * SCT_DATA \<le> length h" using ringD(2) [OF r] .
  have "write_offset (log_infos s' type) mod FLASH_BYTES_PER_SECTOR =
      (4 + (length h - (?T - 1) * SCT_DATA)) mod FLASH_BYTES_PER_SECTOR"
    using ringD(5) [OF r] pos by (simp add: wr_off_def sct_off_def add.assoc)
  also have "\<dots> = 4 + (length h - (?T - 1) * SCT_DATA)"
    using lt pos by (intro mod_less) (cases ?T; simp)
  finally show "sector_room (log_infos s' type) n = min n (?T * SCT_DATA - length h)"
    using lo pos lt by (cases ?T) (auto simp: sector_room_def Let_def min_def)
qed

lemma log_write_ring:
  "ring (flash s) (log_infos s type) T h \<Longrightarrow>
     \<exists>T'. ring (flash (log_write buf type s)) (log_infos (log_write buf type s) type) T' (h @ buf) \<and>
       (T' = T \<or> (T' - 1) * SCT_DATA < length (h @ buf))"
proof (induction buf type s arbitrary: T h rule: log_write.induct)
  case (1 buf type s)
  show ?case
  proof (cases "buf = []")
    case True
    with "1.prems" show ?thesis by (auto simp: log_write.simps [of "[]"])
  next
    case False
    define s1 where "s1 = open_sector type s"
    define n where "n = sector_room (log_infos s1 type) (length buf)"
    define T1 where "T1 = sectors_after T (length h)"
    note o = open_sector_room [OF "1.prems", folded s1_def T1_def]
    have "length h + length (take n buf) \<le> T1 * SCT_DATA"
      using o(3) ringD(3) [OF o(1)] by (simp add: n_def)
    from write_chunk_ring [OF o(1,2) this]
    have w: "ring (flash (write_chunk (take n buf) type s1))
        (log_infos (write_chunk (take n buf) type s1) type) T1 (h @ take n buf)" .
    have "log_write buf type s = log_write (drop n buf) type (write_chunk (take n buf) type s1)"
      using False by (subst log_write.simps) (simp add: s1_def n_def Let_def)
    moreover have "T1 = T \<or> (T1 - 1) * SCT_DATA < length (h @ buf)"
      using False by (auto simp: T1_def sectors_after_def)
    ultimately show ?thesis using "1.IH" [OF False s1_def n_def w] by auto
  qed
qed

text \<open>A log never touches flash outside its own sectors, and never the other log's bookkeeping.\<close>

definition in_region :: "log_info \<Rightarrow> nat \<Rightarrow> bool" where
  "in_region p x \<longleftrightarrow> base_addr p \<le> x \<and> x < base_addr p + max_size p"

definition info_ok :: "log_info \<Rightarrow> bool" where
  "info_ok p \<longleftrightarrow> log_region p \<and> write_offset p \<le> max_size p \<and>
     (write_offset p mod FLASH_BYTES_PER_SECTOR = 0 \<or> 4 \<le> write_offset p mod FLASH_BYTES_PER_SECTOR)"

definition same_region :: "log_info \<Rightarrow> log_info \<Rightarrow> bool" where
  "same_region p q \<longleftrightarrow> base_addr q = base_addr p \<and> max_size q = max_size p \<and> sector_num q = sector_num p"

lemma in_region_same: "same_region p q \<Longrightarrow> in_region q x = in_region p x"
  by (simp add: same_region_def in_region_def)

lemma same_region_trans: "same_region p q \<Longrightarrow> same_region q r \<Longrightarrow> same_region p r"
  by (simp add: same_region_def)

lemma aligned_room:
  assumes "a mod n = (0 :: nat)" and "b mod n = 0" and "a < b"
  shows "a + n \<le> b"
proof -
  from assms obtain i j where "a = n * i" "b = n * j" by (metis dvd_def mod_eq_0_iff_dvd)
  with assms(3) have "Suc i \<le> j" by (simp add: Suc_le_eq)
  then have "n * Suc i \<le> n * j" by (rule mult_le_mono2)
  with \<open>a = n * i\<close> \<open>b = n * j\<close> show ?thesis by simp
qed

lemma open_sector_frame:
  assumes "info_ok (log_infos s type)"
  shows "info_ok (log_infos (open_sector type s) type)"
    "same_region (log_infos s type) (log_infos (open_sector type s) type)"
    "\<not> in_region (log_infos s type) x \<Longrightarrow> flash (open_sector type s) x = flash s x"
    "write_offset (log_infos (open_sector type s) type) mod FLASH_BYTES_PER_SECTOR \<noteq> 0"
    "type' \<noteq> type \<Longrightarrow> log_infos (open_sector type s) type' = log_infos s type'"
proof -
  define p where "p = log_infos s type"
  define wo where "wo = (if write_offset p \<ge> max_size p then 0 else write_offset p)"
  have ok: "info_ok p" using assms by (simp add: p_def)
  show "same_region (log_infos s type) (log_infos (open_sector type s) type)"
    "type' \<noteq> type \<Longrightarrow> log_infos (open_sector type s) type' = log_infos s type'"
    by (auto simp: open_sector_def Let_def same_region_def)
  have m: "max_size p mod FLASH_BYTES_PER_SECTOR = 0" "base_addr p mod FLASH_BYTES_PER_SECTOR = 0"
    "0 < max_size p" using ok by (simp_all add: info_ok_def log_region_def)
  have b: "wo mod FLASH_BYTES_PER_SECTOR = 0 \<and> wo + FLASH_BYTES_PER_SECTOR \<le> max_size p"
    if "write_offset p mod FLASH_BYTES_PER_SECTOR = 0"
    using that m aligned_room [of wo FLASH_BYTES_PER_SECTOR "max_size p"] by (auto simp: wo_def)
  then have wo4: "(wo + 4) mod FLASH_BYTES_PER_SECTOR = 4"
    if "write_offset p mod FLASH_BYTES_PER_SECTOR = 0"
    using that mod_add_left_eq [of wo FLASH_BYTES_PER_SECTOR 4] by simp
  show "info_ok (log_infos (open_sector type s) type)"
    "write_offset (log_infos (open_sector type s) type) mod FLASH_BYTES_PER_SECTOR \<noteq> 0"
    unfolding open_sector_def Let_def p_def [symmetric] wo_def [symmetric]
    using ok b wo4 by (auto simp: info_ok_def log_region_def p_def [symmetric])
  assume "\<not> in_region (log_infos s type) x"
  then have x: "x < base_addr p + wo \<or> base_addr p + wo + FLASH_BYTES_PER_SECTOR \<le> x"
    if "write_offset p mod FLASH_BYTES_PER_SECTOR = 0"
    using b [OF that] by (auto simp: in_region_def p_def)
  have "(base_addr p + wo) mod FLASH_BYTES_PER_SECTOR = 0"
    if "write_offset p mod FLASH_BYTES_PER_SECTOR = 0"
    using b [OF that] m(2) by (simp add: mod_add_eq [symmetric])
  with x show "flash (open_sector type s) x = flash s x"
    unfolding open_sector_def Let_def p_def [symmetric] wo_def [symmetric]
    by (auto simp: mprogram_other merase_other)
qed

lemma write_chunk_frame:
  assumes "info_ok (log_infos s type)"
    and "write_offset (log_infos s type) mod FLASH_BYTES_PER_SECTOR \<noteq> 0"
    and "length c \<le> sector_room (log_infos s type) (length buf)"
  shows "info_ok (log_infos (write_chunk c type s) type)"
    "same_region (log_infos s type) (log_infos (write_chunk c type s) type)"
    "\<not> in_region (log_infos s type) x \<Longrightarrow> flash (write_chunk c type s) x = flash s x"
    "type' \<noteq> type \<Longrightarrow> log_infos (write_chunk c type s) type' = log_infos s type'"
proof -
  define p where "p = log_infos s type"
  define q where "q = write_offset p - write_offset p mod FLASH_BYTES_PER_SECTOR"
  define r where "r = write_offset p mod FLASH_BYTES_PER_SECTOR"
  have wo: "write_offset p = q + r" "q mod FLASH_BYTES_PER_SECTOR = 0" "4 \<le> r"
    using assms(1,2) by (auto simp: q_def r_def p_def info_ok_def minus_mod_eq_mult_div)
  have m: "max_size p mod FLASH_BYTES_PER_SECTOR = 0" "write_offset p \<le> max_size p"
    using assms(1) by (simp_all add: info_ok_def log_region_def p_def)
  have "q < max_size p" using m(2) wo(1,3) by linarith
  then have q: "q + FLASH_BYTES_PER_SECTOR \<le> max_size p"
    using aligned_room [OF wo(2) m(1)] by simp
  have rb: "r < FLASH_BYTES_PER_SECTOR" by (simp add: r_def)
  have c: "r + length c \<le> FLASH_BYTES_PER_SECTOR"
    using assms(3) rb by (auto simp: sector_room_def Let_def p_def [symmetric] r_def [symmetric] split: if_splits)
  have md: "(q + r + length c) mod FLASH_BYTES_PER_SECTOR = (r + length c) mod FLASH_BYTES_PER_SECTOR"
    using wo(2) mod_add_left_eq [of q FLASH_BYTES_PER_SECTOR "r + length c"] by (simp add: add.assoc)
  have "(r + length c) mod FLASH_BYTES_PER_SECTOR = 0 \<or> 4 \<le> (r + length c) mod FLASH_BYTES_PER_SECTOR"
    using c wo(3) by (cases "r + length c = FLASH_BYTES_PER_SECTOR") simp_all
  then show "info_ok (log_infos (write_chunk c type s) type)"
    using assms(1) q c md wo(1)
    by (simp add: write_chunk_def Let_def info_ok_def log_region_def p_def [symmetric])
  show "same_region (log_infos s type) (log_infos (write_chunk c type s) type)"
    "type' \<noteq> type \<Longrightarrow> log_infos (write_chunk c type s) type' = log_infos s type'"
    by (auto simp: write_chunk_def Let_def same_region_def)
  assume "\<not> in_region (log_infos s type) x"
  then have "x < base_addr p + write_offset p \<or> base_addr p + write_offset p + length c \<le> x"
    using q c wo(1) by (auto simp: in_region_def p_def)
  then show "flash (write_chunk c type s) x = flash s x"
    by (simp add: write_chunk_def Let_def p_def [symmetric] mprogram_other)
qed

lemma log_write_frame:
  "info_ok (log_infos s type) \<Longrightarrow>
     info_ok (log_infos (log_write buf type s) type) \<and>
     same_region (log_infos s type) (log_infos (log_write buf type s) type) \<and>
     (\<forall>x. \<not> in_region (log_infos s type) x \<longrightarrow> flash (log_write buf type s) x = flash s x) \<and>
     (\<forall>type'. type' \<noteq> type \<longrightarrow> log_infos (log_write buf type s) type' = log_infos s type')"
proof (induction buf type s rule: log_write.induct)
  case (1 buf type s)
  show ?case
  proof (cases "buf = []")
    case True
    with "1.prems" show ?thesis by (simp add: log_write.simps [of "[]"] same_region_def)
  next
    case False
    define s1 where "s1 = open_sector type s"
    define n where "n = sector_room (log_infos s1 type) (length buf)"
    define s2 where "s2 = write_chunk (take n buf) type s1"
    note o = open_sector_frame [OF "1.prems", folded s1_def]
    have "length (take n buf) \<le> sector_room (log_infos s1 type) (length buf)" by (simp add: n_def)
    note w = write_chunk_frame [OF o(1,4) this, folded s2_def]
    have e: "log_write buf type s = log_write (drop n buf) type s2"
      using False by (subst log_write.simps) (simp add: s1_def n_def s2_def Let_def)
    have reg: "same_region (log_infos s type) (log_infos s2 type)"
      using o(2) w(2) by (rule same_region_trans)
    have keep: "flash s2 x = flash s x" if "\<not> in_region (log_infos s type) x" for x
      using that o(3) w(3) in_region_same [OF o(2)] by simp
    show ?thesis
      using "1.IH" [OF False s1_def n_def] w(1,4) o(5) reg keep in_region_same [OF reg]
        same_region_trans [OF reg]
      unfolding e s2_def [symmetric] by metis
  qed
qed


section \<open>Finding a sector by its serial number\<close>

lemma scan_sectors_invariant:
  assumes hdr: "\<And>x. x < M \<Longrightarrow> read_header (base + x * FLASH_BYTES_PER_SECTOR) s =
        \<lparr>used = SECTOR_USE_FLAG, sn = g x\<rparr>"
    and stop: "M < num \<Longrightarrow> used (read_header (base + M * FLASH_BYTES_PER_SECTOR) s) \<noteq> SECTOR_USE_FLAG"
    and k: "k < M" "M \<le> num"
    and best: "\<And>x. x < M \<Longrightarrow> x \<noteq> k \<Longrightarrow> better (g k) (g x) \<and> \<not> better (g x) (g k)"
  shows "i + n = num \<Longrightarrow> i \<le> M \<Longrightarrow>
      (0 < i \<Longrightarrow> b = g x0 \<and> off = x0 * FLASH_BYTES_PER_SECTOR \<and> x0 < i \<and> (k < i \<longrightarrow> x0 = k)) \<Longrightarrow>
      scan_sectors better s (base + i * FLASH_BYTES_PER_SECTOR) n i b off =
        (g k, k * FLASH_BYTES_PER_SECTOR, M)"
proof (induction n arbitrary: i b off x0)
  case 0
  then show ?case using k by simp
next
  case (Suc n)
  have nxt: "base + i * FLASH_BYTES_PER_SECTOR + FLASH_BYTES_PER_SECTOR =
      base + (i + 1) * FLASH_BYTES_PER_SECTOR" by simp
  show ?case
  proof (cases "i = M")
    case True
    then show ?thesis using Suc.prems k stop by (simp add: Let_def)
  next
    case False
    then have i: "i < M" using Suc.prems by simp
    show ?thesis
    proof (cases "i = 0 \<or> better (g i) b")
      case True
      have "k < i + 1 \<longrightarrow> i = k"
        using True Suc.prems(3) best [of i] i k(1) by (cases "i = 0") (auto simp: less_Suc_eq)
      with True Suc.IH [of "i + 1" "g i" i "i * FLASH_BYTES_PER_SECTOR"] Suc.prems i hdr [OF i]
      show ?thesis by (simp add: Let_def nxt del: add_mult_distrib)
    next
      case keep: False
      have "x0 < i + 1 \<and> (k < i + 1 \<longrightarrow> x0 = k)"
        using keep Suc.prems(3) best [of x0] i k(1) by (auto simp: less_Suc_eq)
      with keep Suc.IH [of "i + 1" b x0 off] Suc.prems i hdr [OF i]
      show ?thesis by (simp add: Let_def nxt del: add_mult_distrib)
    qed
  qed
qed

lemmas scan_sectors_best = scan_sectors_invariant [of _ _ _ _ _ _ _ 0, simplified]

lemma sn_after_of_nat:
  assumes "a < 32768" "b < 32768"
  shows "sn_after (of_nat a) (of_nat b) \<longleftrightarrow> b < a"
proof -
  have "sint (of_nat x :: u16) = int x" if "x < 32768" for x
    using that by (simp add: signed_of_nat signed_take_bit_int_eq_self)
  then show ?thesis using assms by (simp add: sn_after_def)
qed

text \<open>The sector of the history that sector \<open>x\<close> of the region holds.\<close>

definition held :: "nat \<Rightarrow> nat \<Rightarrow> nat \<Rightarrow> nat" where
  "held n T x = x + ((T - 1 - x) div n) * n"

lemma held_props:
  assumes "0 < n" "x < T" "x < n"
  shows "held n T x < T" "T \<le> held n T x + n" "held n T x mod n = x"
proof -
  have e: "T - 1 - x = (T - 1 - x) div n * n + (T - 1 - x) mod n" by simp
  have "(T - 1 - x) mod n < n" using assms(1) by simp
  then show "held n T x < T" "T \<le> held n T x + n"
    unfolding held_def using e assms(2) by linarith+
  show "held n T x mod n = x" using assms(3) by (simp add: held_def)
qed

lemma held_unique:
  assumes "0 < n" "j < T" "T \<le> j + n" "j mod n < T"
  shows "held n T (j mod n) = j"
proof -
  note h = held_props [OF assms(1) assms(4)]
  have "j mod n < n" using assms(1) by simp
  with h have "held n T (j mod n) < T" "T \<le> held n T (j mod n) + n" "held n T (j mod n) mod n = j mod n"
    by auto
  then show ?thesis
    using mod_window_inj [of "held n T (j mod n)" j n] mod_window_inj [of j "held n T (j mod n)" n] assms
    by (metis le_trans less_le_trans nat_neq_iff)
qed

lemma header_roundtrip:
  "mread m a 4 = header_bytes h \<Longrightarrow> rd_le16 (mread m a 4) 0 = used h \<and> rd_le16 (mread m a 4) 2 = sn h"
  using rd_orders(1) [of "used h" "le16 (sn h)"] rd_le16_skip [of "le16 (used h)" 2 "le16 (sn h)"]
    rd_orders(1) [of "sn h" "[]"] by (simp add: header_bytes_def)

lemma ring_headers:
  assumes "ring (flash s) p T h"
  shows "x < min T (sector_num p) \<Longrightarrow> read_header (base_addr p + x * FLASH_BYTES_PER_SECTOR) s =
      \<lparr>used = SECTOR_USE_FLAG, sn = of_nat (held (sector_num p) T x)\<rparr>"
    and "T < sector_num p \<Longrightarrow>
      used (read_header (base_addr p + T * FLASH_BYTES_PER_SECTOR) s) \<noteq> SECTOR_USE_FLAG"
proof -
  note r = ringD [OF assms]
  assume x: "x < min T (sector_num p)"
  let ?j = "held (sector_num p) T x"
  have j: "?j < T" "T \<le> ?j + sector_num p" "?j mod sector_num p = x"
    using held_props [of "sector_num p" x T] x by simp_all
  then have "sector_holds (flash s) p h ?j" using r(6) by simp
  then show "read_header (base_addr p + x * FLASH_BYTES_PER_SECTOR) s =
      \<lparr>used = SECTOR_USE_FLAG, sn = of_nat ?j\<rparr>"
    using header_roundtrip [of "flash s" "base_addr p + x * FLASH_BYTES_PER_SECTOR"] j(3)
    by (simp add: sector_holds_def sct_off_def read_header_def Let_def ext_read_def)
next
  assume "T < sector_num p"
  then show "used (read_header (base_addr p + T * FLASH_BYTES_PER_SECTOR) s) \<noteq> SECTOR_USE_FLAG"
    using ringD(8) [OF assms, of T] by (simp add: sector_used_def read_header_def Let_def ext_read_def)
qed

lemma ring_scan:
  assumes r: "ring (flash s) p T h" and T: "0 < T" "T \<le> 32768"
    and j: "j < T" "T \<le> j + sector_num p"
    and ext: "\<And>i. i < T \<Longrightarrow> T \<le> i + sector_num p \<Longrightarrow> i \<noteq> j \<Longrightarrow>
       better (of_nat j) (of_nat i) \<and> \<not> better (of_nat i) (of_nat j)"
  shows "scan_sectors better s (base_addr p) (sector_num p) 0 b off =
    (of_nat j, sct_off p j, min T (sector_num p))"
proof -
  let ?n = "sector_num p"
  have n: "0 < ?n" using ringD(1) [OF r] by (simp add: log_region_def)
  have jm: "j mod ?n < min T ?n" using n j by (simp add: le_less_trans [OF mod_less_eq_dividend])
  have hk: "held ?n T (j mod ?n) = j" using held_unique [OF n j] jm by simp
  have "scan_sectors better s (base_addr p) ?n 0 b off =
      (of_nat (held ?n T (j mod ?n)), j mod ?n * FLASH_BYTES_PER_SECTOR, min T ?n)"
  proof (rule scan_sectors_best)
    fix x assume x: "x < min T ?n"
    then show "read_header (base_addr p + x * FLASH_BYTES_PER_SECTOR) s =
        \<lparr>used = SECTOR_USE_FLAG, sn = of_nat (held ?n T x)\<rparr>" by (rule ring_headers(1) [OF r])
    assume "x \<noteq> j mod ?n"
    then have "held ?n T x \<noteq> j" using held_props [OF n, of x T] x by auto
    then show "better (of_nat (held ?n T (j mod ?n))) (of_nat (held ?n T x)) \<and>
        \<not> better (of_nat (held ?n T x)) (of_nat (held ?n T (j mod ?n)))"
      unfolding hk using ext held_props [OF n, of x T] x by simp
  next
    assume "min T ?n < ?n"
    then show "used (read_header (base_addr p + min T ?n * FLASH_BYTES_PER_SECTOR) s) \<noteq> SECTOR_USE_FLAG"
      using ring_headers(2) [OF r] by (auto simp: min_def split: if_splits)
  qed (use jm in auto)
  then show ?thesis by (simp add: hk sct_off_def)
qed


section \<open>Reading\<close>

lemma ring_cong:
  assumes "ring m p T h" and "same_region p q" "next_sn q = next_sn p" "write_offset q = write_offset p"
  shows "ring m q T h"
proof -
  have "sct_off q = sct_off p" "wr_off q = wr_off p"
    using assms(2) by (auto simp: fun_eq_iff same_region_def sct_off_def wr_off_def)
  moreover have "log_region q = log_region p" "sector_holds m q h = sector_holds m p h"
    "sector_used m q = sector_used m p"
    using assms(2) calculation
    by (auto simp: fun_eq_iff log_region_def same_region_def sector_holds_def sector_used_def)
  ultimately show ?thesis
    using assms(2-4) assms(1) unfolding ring_def same_region_def by metis
qed

lemma prepare_read_ring:
  assumes "ring (flash s) (log_infos s type) T h" and "0 < T" "T \<le> 32768"
  defines "p \<equiv> log_infos s type"
  shows "prepare_read type s = upd_info type (\<lambda>p. p\<lparr>read_offset := sct_off p (T - sector_num p)\<rparr>) s"
proof -
  have n: "0 < sector_num p" using ringD(1) [OF assms(1)] by (simp add: log_region_def p_def)
  have "scan_sectors sn_before s (base_addr p) (sector_num p) 0 0 (read_offset p) =
      (of_nat (T - sector_num p), sct_off p (T - sector_num p), min T (sector_num p))"
  proof (rule ring_scan [OF assms(1) [folded p_def] assms(2,3)])
    fix i assume "i < T" "T \<le> i + sector_num p" "i \<noteq> T - sector_num p"
    then show "sn_before (of_nat (T - sector_num p)) (of_nat i) \<and>
        \<not> sn_before (of_nat i) (of_nat (T - sector_num p))"
      using assms(3) by (auto simp: sn_before_def sn_after_of_nat)
  qed (use assms(2) n in auto)
  then show ?thesis by (simp add: prepare_read_def Let_def p_def upd_info_def)
qed

definition at_pos :: "log_info \<Rightarrow> nat \<Rightarrow> bool" where
  "at_pos p q \<longleftrightarrow>
     (let j = q div SCT_DATA
      in read_offset p = sct_off p j + 4 + q mod SCT_DATA \<or>
         (q mod SCT_DATA = 0 \<and> read_offset p mod FLASH_BYTES_PER_SECTOR = 0 \<and>
          (if read_offset p \<ge> max_size p then 0 else read_offset p) = sct_off p j))"

lemma at_pos_enter:
  assumes "at_pos p q"
  shows "enter_sector p = p\<lparr>read_offset := sct_off p (q div SCT_DATA) + 4 + q mod SCT_DATA\<rparr>"
proof -
  have "(sct_off p (q div SCT_DATA) + 4 + q mod SCT_DATA) mod FLASH_BYTES_PER_SECTOR =
      (4 + q mod SCT_DATA) mod FLASH_BYTES_PER_SECTOR" by (simp add: sct_off_def add.assoc)
  also have "\<dots> = 4 + q mod SCT_DATA" using mod_less_divisor [of SCT_DATA q] by (intro mod_less) simp
  finally have "(sct_off p (q div SCT_DATA) + 4 + q mod SCT_DATA) mod FLASH_BYTES_PER_SECTOR \<noteq> 0" by simp
  then show ?thesis
    using assms unfolding at_pos_def Let_def enter_sector_def
    by (elim disjE conjE) simp_all
qed

lemma sct_off_succ:
  assumes "log_region p"
  shows "(if sct_off p j + FLASH_BYTES_PER_SECTOR \<ge> max_size p then 0
     else sct_off p j + FLASH_BYTES_PER_SECTOR) = sct_off p (Suc j)"
proof -
  have "wr_off p (Suc j) (Suc j * SCT_DATA) = sct_off p j + FLASH_BYTES_PER_SECTOR"
    by (simp add: wr_off_def)
  then show ?thesis using sct_off_next [OF assms, of "Suc j"] by (simp only:)
qed

lemma at_pos_advance:
  assumes "log_region p" and "read_offset p = sct_off p (q div SCT_DATA) + 4 + q mod SCT_DATA"
    and "q mod SCT_DATA + n \<le> SCT_DATA"
  shows "at_pos (p\<lparr>read_offset := read_offset p + n\<rparr>) (q + n)"
proof -
  define j where "j = q div SCT_DATA"
  define x where "x = q mod SCT_DATA"
  have q: "q = j * SCT_DATA + x" by (simp add: j_def x_def)
  have so: "sct_off (p\<lparr>read_offset := v\<rparr>) = sct_off p" for v by (simp add: fun_eq_iff sct_off_def)
  show ?thesis
  proof (cases "x + n = SCT_DATA")
    case True
    have "q + n = Suc j * SCT_DATA" using True q by simp
    then have d: "(q + n) div SCT_DATA = Suc j" "(q + n) mod SCT_DATA = 0" by simp_all
    have ro: "read_offset p + n = sct_off p j + FLASH_BYTES_PER_SECTOR"
      using assms(2) True by (simp add: j_def [symmetric] x_def [symmetric])
    have "(sct_off p j + FLASH_BYTES_PER_SECTOR) mod FLASH_BYTES_PER_SECTOR = 0"
      by (simp add: sct_off_def)
    then show ?thesis
      using sct_off_succ [OF assms(1), of j] d ro by (auto simp: at_pos_def so)
  next
    case False
    then have "x + n < SCT_DATA" using assms(3) by (simp add: x_def)
    then have "(q + n) div SCT_DATA = j" "(q + n) mod SCT_DATA = x + n"
      using q by (simp_all add: add.assoc)
    then show ?thesis using assms(2) by (simp add: at_pos_def so j_def [symmetric] x_def [symmetric])
  qed
qed

text \<open>The states in which a read is exact: not wrapped, or inside a sector, or at the very end of
  the region. In the remaining ones the oldest sector is the one the write offset points to.\<close>

definition readable :: "log_info \<Rightarrow> nat \<Rightarrow> nat \<Rightarrow> bool" where
  "readable p T n \<longleftrightarrow> T \<le> sector_num p \<or> n < T * SCT_DATA \<or> T mod sector_num p = 0"

lemma available_ring:
  assumes r: "ring m p T h" and ro: "read_offset p = sct_off p j + 4 + x" and x: "x < SCT_DATA"
    and j: "j < T" "T \<le> j + sector_num p" and good: "readable p T (length h)"
    and le: "j * SCT_DATA + x \<le> length h"
  shows "available p = min (SCT_DATA - x) (length h - (j * SCT_DATA + x))"
proof -
  note R = ringD [OF r]
  obtain k where T: "T = Suc k" using j by (cases T) auto
  define n where "n = length h - k * SCT_DATA"
  have n: "length h = k * SCT_DATA + n" "n \<le> SCT_DATA" using R(2,3) T by (simp_all add: n_def)
  have wo: "write_offset p = sct_off p k + 4 + n" using R(5) T by (simp add: wr_off_def n_def)
  have rd: "read_offset p div FLASH_BYTES_PER_SECTOR = j mod sector_num p"
    "read_offset p mod FLASH_BYTES_PER_SECTOR = 4 + x"
    using ro x by (simp_all add: sct_off_def add.assoc)
  have big: "Suc j * SCT_DATA \<le> length h" if "j \<noteq> k"
    using that j T n mult_le_mono1 [of "Suc j" k SCT_DATA] by simp
  show ?thesis
  proof (cases "n = SCT_DATA")
    case True
    have "write_offset p div FLASH_BYTES_PER_SECTOR = Suc (k mod sector_num p)"
      using wo True by (simp add: sct_off_def)
    moreover have "Suc (k mod sector_num p) \<noteq> j mod sector_num p"
    proof
      assume e: "Suc (k mod sector_num p) = j mod sector_num p"
      have "0 < sector_num p" using R(1) by (simp add: log_region_def)
      then have tm: "T mod sector_num p = j mod sector_num p"
        using e T mod_less_divisor [of "sector_num p" j] by (metis mod_Suc nat_neq_iff)
      then have "\<not> T < j + sector_num p" using mod_window_inj [of j T "sector_num p"] j(1) by metis
      then have "T = j + sector_num p" using j by linarith
      moreover have "T mod sector_num p \<noteq> 0" using tm e by simp
      ultimately show False using good True n T e by (auto simp: readable_def)
    qed
    ultimately have "available p = SCT_DATA - x" using rd by (simp add: available_def)
    moreover have "SCT_DATA - x \<le> length h - (j * SCT_DATA + x)"
      using big n True by (cases "j = k") auto
    ultimately show ?thesis by simp
  next
    case False
    then have nl: "n < SCT_DATA" using n by simp
    have wd: "write_offset p div FLASH_BYTES_PER_SECTOR = k mod sector_num p"
      using wo nl by (simp add: sct_off_def add.assoc)
    show ?thesis
    proof (cases "j = k")
      case True
      have "write_offset p < 2 ^ 32"
        using wo nl sct_off_bound [OF R(1), of k] R(1) by (simp add: log_region_def)
      moreover have "read_offset p \<le> write_offset p" using ro wo le n True by simp
      ultimately have "available p = n - x"
        using rd wd True ro wo by (simp add: available_def)
      with True n nl show ?thesis by simp
    next
      case False
      then have "j mod sector_num p \<noteq> k mod sector_num p"
        using mod_window_inj [of j k] j T by auto
      then have "available p = SCT_DATA - x" using rd wd by (simp add: available_def)
      moreover have "SCT_DATA - x \<le> length h - (j * SCT_DATA + x)" using big [OF False] by simp
      ultimately show ?thesis by simp
    qed
  qed
qed

lemma mread_sub: "x + k \<le> n \<Longrightarrow> mread m (a + x) k = take k (drop x (mread m a n))"
  by (rule nth_equalityI) (auto simp: mread_nth add.assoc)

lemma sector_data:
  assumes "sector_holds m p h j" and "x + k \<le> SCT_DATA" and "j * SCT_DATA + x + k \<le> length h"
  shows "mread m (base_addr p + (sct_off p j + 4 + x)) k = take k (drop (j * SCT_DATA + x) h)"
proof -
  have "mread m (base_addr p + sct_off p j + 4 + x) k =
      take k (drop x (mread m (base_addr p + sct_off p j + 4) (min SCT_DATA (length h - j * SCT_DATA))))"
    by (rule mread_sub) (use assms in simp)
  also have "\<dots> = take k (drop x (take SCT_DATA (drop (j * SCT_DATA) h)))"
    using assms(1) by (simp add: sector_holds_def)
  also have "\<dots> = take k (drop (j * SCT_DATA + x) h)"
    using assms(2) by (simp add: drop_take min_absorb1 add.commute)
  finally show ?thesis by (simp add: add.assoc)
qed


text \<open>One read from position \<open>q\<close> of the history, from which \<open>n\<close> bytes are wanted. A read
  past the end stops there when the current sector is not full.\<close>

text \<open>One turn of the loop: it stops at the end of the log, or it delivers the next bytes of the sector.\<close>

lemma log_read_turn:
  assumes "ring (flash s) (log_infos s type) T h" and "readable (log_infos s type) T (length h)"
    and "at_pos (log_infos s type) q" and "q \<le> length h"
    and "T \<le> q div SCT_DATA + sector_num (log_infos s type)"
    and "q + n \<le> length h \<or> length h < T * SCT_DATA" and "n \<noteq> 0"
  obtains (finish) s2 ro where "q = length h" and "log_read n type s = ([], s2)" and "flash s2 = flash s"
      and "log_infos s2 = (log_infos s)(type := log_infos s type\<lparr>read_offset := ro\<rparr>)" and "at_pos (log_infos s type\<lparr>read_offset := ro\<rparr>) q"
    | (deliver) k s2 ro where "0 < k" and "k \<le> n" and "q + k \<le> length h"
      and "log_read n type s = (take k (drop q h) @ fst (log_read (n - k) type s2), snd (log_read (n - k) type s2))" and "flash s2 = flash s"
      and "log_infos s2 = (log_infos s)(type := log_infos s type\<lparr>read_offset := ro\<rparr>)" and "at_pos (log_infos s type\<lparr>read_offset := ro\<rparr>) (q + k)"
proof -
  define p where "p = log_infos s type"
  define j where "j = q div SCT_DATA"
  define x where "x = q mod SCT_DATA"
  define p1 where "p1 = p\<lparr>read_offset := sct_off p j + 4 + x\<rparr>"
  define s1 where "s1 = upd_info type enter_sector s"
  define a where "a = available p1"
  define k where "k = (if n < a then n else a)"
  define s2 where "s2 = upd_info type (\<lambda>p. p\<lparr>read_offset := read_offset p + k\<rparr>) s1"
  have p1: "log_infos s1 type = p1" "flash s1 = flash s" "log_infos s1 = (log_infos s)(type := p1)"
    using at_pos_enter [OF assms(3)] by (simp_all add: s1_def p1_def p_def j_def x_def upd_info_def)
  have q: "q = j * SCT_DATA + x" "x < SCT_DATA" by (simp_all add: j_def x_def)
  note R = ringD [OF assms(1), folded p_def]
  have jT: "j < T"
  proof (rule ccontr)
    assume "\<not> j < T"
    then have "T * SCT_DATA \<le> j * SCT_DATA" by (intro mult_le_mono1) simp
    with assms(4,6,7) R(3) q show False by linarith
  qed
  have rr: "ring (flash s) p1 T h" "readable p1 T (length h)"
    using ring_cong [OF assms(1), of p1] assms(2) by (simp_all add: p1_def p_def same_region_def readable_def)
  have so: "sct_off p1 = sct_off p" by (simp add: fun_eq_iff p1_def sct_off_def)
  have ro1: "read_offset p1 = sct_off p1 j + 4 + x" by (simp only: so) (simp add: p1_def)
  have win1: "T \<le> j + sector_num p1" using assms(5) by (simp add: p1_def p_def j_def)
  have av: "a = min (SCT_DATA - x) (length h - q)"
    using available_ring [OF rr(1) ro1 q(2) jT win1 rr(2)] assms(4) q(1) by (simp add: a_def)
  show ?thesis
  proof (cases "a = 0")
    case True
    then have "q = length h" using av q(2) assms(4) by auto
    moreover have "log_read n type s = ([], s1)"
      using assms(7) True by (subst log_read.simps) (simp add: s1_def [symmetric] p1 a_def [symmetric] Let_def)
    moreover have "at_pos p1 q" using ro1 by (simp add: at_pos_def j_def x_def)
    ultimately show ?thesis using p1 by (intro finish) (auto simp: p_def [symmetric] p1_def)
  next
    case False
    have k: "0 < k" "k \<le> n" "x + k \<le> SCT_DATA" "q + k \<le> length h"
      using av q(2) assms(4,7) False by (auto simp: k_def)
    have "ext_read (base_addr p1 + read_offset p1) k s1 = take k (drop q h)"
      using sector_data [OF R(6) [OF jT] k(3)] k(4) q assms(5)
      by (simp add: ext_read_def p1(2) p1_def p_def [symmetric] j_def [symmetric])
    then have "log_read n type s = (take k (drop q h) @ fst (log_read (n - k) type s2), snd (log_read (n - k) type s2))"
      using assms(7) False
      by (subst log_read.simps) (auto simp: s1_def [symmetric] p1 a_def [symmetric] Let_def k_def s2_def split: prod.split)
    moreover have "log_infos s2 = (log_infos s)(type := p\<lparr>read_offset := sct_off p j + 4 + x + k\<rparr>)" "flash s2 = flash s"
      by (simp_all add: s2_def p1 upd_info_def) (simp add: p1_def)
    moreover have "at_pos (p\<lparr>read_offset := sct_off p j + 4 + x + k\<rparr>) (q + k)"
      using at_pos_advance [OF ringD(1) [OF rr(1)] ro1 [unfolded j_def x_def] k(3) [unfolded x_def]] by (simp add: p1_def)
    ultimately show ?thesis using k by (intro deliver) (auto simp: p_def)
  qed
qed

lemma log_read_ring:
  assumes "ring (flash s) (log_infos s type) T h" and "readable (log_infos s type) T (length h)"
    and "at_pos (log_infos s type) q" and "q \<le> length h" and "0 < T"
    and "T \<le> q div SCT_DATA + sector_num (log_infos s type)"
    and "q + n \<le> length h \<or> length h < T * SCT_DATA"
  shows "fst (log_read n type s) = take n (drop q h) \<and> flash (snd (log_read n type s)) = flash s \<and>
    (\<exists>ro. log_infos (snd (log_read n type s)) =
       (log_infos s)(type := log_infos s type\<lparr>read_offset := ro\<rparr>) \<and>
     at_pos (log_infos s type\<lparr>read_offset := ro\<rparr>) (q + min n (length h - q)))"
  using assms
proof (induction n arbitrary: s q rule: less_induct)
  case (less n s q)
  define p where "p = log_infos s type"
  show ?case
  proof (cases "n = 0")
    case True
    have "log_infos s = (log_infos s)(type := p\<lparr>read_offset := read_offset p\<rparr>)"
      by (simp add: p_def)
    with True less.prems(3) show ?thesis
      by (auto simp: log_read.simps [of 0] p_def intro!: exI [of _ "read_offset p"])
  next
    case False
    show ?thesis
    proof (rule log_read_turn [OF less.prems(1-4,6,7) False])
      fix s2 ro
      assume "q = length h" "log_read n type s = ([], s2)" "flash s2 = flash s"
        "log_infos s2 = (log_infos s)(type := log_infos s type\<lparr>read_offset := ro\<rparr>)" "at_pos (log_infos s type\<lparr>read_offset := ro\<rparr>) q"
      then show ?thesis by auto
    next
      fix k s2 ro
      assume k: "0 < k" "k \<le> n" "q + k \<le> length h"
        and e: "log_read n type s = (take k (drop q h) @ fst (log_read (n - k) type s2), snd (log_read (n - k) type s2))"
        and s2: "flash s2 = flash s" "log_infos s2 = (log_infos s)(type := log_infos s type\<lparr>read_offset := ro\<rparr>)"
          "at_pos (log_infos s type\<lparr>read_offset := ro\<rparr>) (q + k)"
      have p2: "log_infos s2 type = p\<lparr>read_offset := ro\<rparr>" by (simp add: s2 p_def)
      have r2: "ring (flash s2) (log_infos s2 type) T h" "readable (log_infos s2 type) T (length h)"
        using ring_cong [OF less.prems(1), of "log_infos s2 type"] less.prems(2) s2(1)
        by (simp_all add: p2 p_def same_region_def readable_def)
      have "T \<le> (q + k) div SCT_DATA + sector_num (log_infos s2 type)"
        using less.prems(6) div_le_mono [of q "q + k" SCT_DATA] by (simp add: p2 p_def)
      moreover have "(log_infos s2)(type := log_infos s2 type\<lparr>read_offset := r\<rparr>) = (log_infos s)(type := p\<lparr>read_offset := r\<rparr>)"
        "log_infos s2 type\<lparr>read_offset := r\<rparr> = p\<lparr>read_offset := r\<rparr>" for r
        by (simp_all add: s2 p_def)
      ultimately have IH: "fst (log_read (n - k) type s2) = take (n - k) (drop (q + k) h)" "flash (snd (log_read (n - k) type s2)) = flash s"
        "\<exists>r. log_infos (snd (log_read (n - k) type s2)) = (log_infos s)(type := p\<lparr>read_offset := r\<rparr>) \<and>
         at_pos (p\<lparr>read_offset := r\<rparr>) (q + k + min (n - k) (length h - (q + k)))"
        using less.IH [OF _ r2, of "n - k" "q + k"] k less.prems(5,7) s2(1,3)
        by (simp_all add: fun_upd_def p2 p_def)
      have "take k (drop q h) @ take (n - k) (drop (q + k) h) = take n (drop q h)"
        using k(2) take_add [of k "n - k" "drop q h"] by (simp add: add.commute)
      moreover have "q + k + min (n - k) (length h - (q + k)) = q + min n (length h - q)" using k by linarith
      ultimately show ?thesis using IH by (simp add: e p_def [symmetric] fun_upd_def add.assoc)
    qed
  qed
qed

section \<open>Restart\<close>

lemma find_end_stops:
  assumes "r \<le> n" "\<And>i. i < r \<Longrightarrow> flash s (addr + i) \<noteq> 0xff" "r < n \<Longrightarrow> flash s (addr + r) = 0xff"
  shows "find_end s addr n off = off + r"
  using assms
proof (induction n arbitrary: addr off r)
  case (Suc n)
  have b: "ext_read addr 1 s = [flash s addr]" by (simp add: ext_read_def mread_def)
  show ?case
  proof (cases r)
    case 0
    with Suc.prems b show ?thesis by simp
  next
    case (Suc r')
    have "flash s addr \<noteq> 0xff" using Suc.prems(2) [of 0] Suc by simp
    moreover have "find_end s (addr + 1) n (off + 1) = off + 1 + r'"
      using Suc.prems Suc Suc.prems(2) [of "Suc _"] by (intro Suc.IH) auto
    ultimately show ?thesis using b Suc by simp
  qed
qed simp

lemma perpare_write_info_ring:
  assumes r: "ring (flash s) p0 T h" and T: "T \<le> 32768" and noFF: "0xff \<notin> set h"
    and fresh: "same_region p0 (log_infos s type)" "next_sn (log_infos s type) = 0"
      "write_offset (log_infos s type) = 0"
  shows "ring (flash (perpare_write_info type s)) (log_infos (perpare_write_info type s) type) T h"
proof -
  define p where "p = log_infos s type"
  have geo: "base_addr p0 = base_addr p" "sector_num p0 = sector_num p" "sct_off p0 = sct_off p"
    using fresh(1) by (auto simp: same_region_def p_def sct_off_def fun_eq_iff)
  note R = ringD [OF r]
  show ?thesis
  proof (cases T)
    case 0
    have "\<not> sector_used (flash s) p0 0" using R(8) [of 0] R(1) 0 by (simp add: log_region_def)
    then have "used (read_header (base_addr p) s) \<noteq> SECTOR_USE_FLAG"
      by (simp add: sector_used_def read_header_def Let_def ext_read_def geo)
    then have "scan_sectors sn_after s (base_addr p) (sector_num p) 0 0 (write_offset p) =
        (0, write_offset p, 0)" by (cases "sector_num p") (simp_all add: Let_def)
    then have "perpare_write_info type s = s" by (simp add: perpare_write_info_def p_def)
    moreover have "next_sn p0 = 0" "write_offset p0 = 0" using R(4,5) 0 by (simp_all add: wr_off_def)
    ultimately show ?thesis using ring_cong [OF r fresh(1)] fresh by simp
  next
    case (Suc k)
    define a where "a = base_addr p + sct_off p k + 4"
    define n where "n = length h - k * SCT_DATA"
    have n: "length h = k * SCT_DATA + n" "n \<le> SCT_DATA" using R(2,3) Suc by (simp_all add: n_def)
    have N: "0 < sector_num p" using R(1) geo by (simp add: log_region_def)
    have scan: "scan_sectors sn_after s (base_addr p) (sector_num p) 0 0 (write_offset p) =
        (of_nat k, sct_off p k, min T (sector_num p))"
      using ring_scan [OF r _ T, of k sn_after 0 "write_offset p"] Suc N T geo
      by (auto simp: sn_after_of_nat)
    have wo: "write_offset p0 = sct_off p k + 4 + n" using R(5) Suc geo by (simp add: wr_off_def n_def)
    have data: "mread (flash s) a n = drop (k * SCT_DATA) h"
      using R(6) [of k] Suc N n geo by (simp add: sector_holds_def a_def)
    have "flash s (a + i) \<noteq> 0xff" if "i < n" for i
    proof -
      have "flash s (a + i) = drop (k * SCT_DATA) h ! i" using that data by (metis mread_nth)
      moreover have "h ! (k * SCT_DATA + i) \<in> set h" using that n by (intro nth_mem) simp
      ultimately show ?thesis using noFF n by auto
    qed
    moreover have "flash s (a + n) = 0xff" if "n < SCT_DATA"
      using R(7) that wo n Suc geo by (simp add: erased_def a_def add.assoc)
    ultimately have fe: "find_end s a SCT_DATA (sct_off p k + 4) = write_offset p0"
      using find_end_stops [of n SCT_DATA s a] n(2) wo by simp
    have "perpare_write_info type s =
        upd_info type (\<lambda>p. p\<lparr>next_sn := of_nat k + 1, write_offset := write_offset p0\<rparr>) s"
      using fe Suc N by (simp add: perpare_write_info_def Let_def p_def [symmetric] scan a_def add.assoc)
    moreover have "ring (flash s) (p\<lparr>next_sn := next_sn p0, write_offset := write_offset p0\<rparr>) T h"
      by (rule ring_cong [OF r]) (use fresh(1) in \<open>simp_all add: same_region_def p_def\<close>)
    ultimately show ?thesis using R(4) Suc by (simp add: p_def add.commute)
  qed
qed


section \<open>Size\<close>

text \<open>The part of the history that the sectors still hold.\<close>

definition retained :: "log_info \<Rightarrow> nat \<Rightarrow> byte list \<Rightarrow> byte list" where
  "retained p T h = drop ((T - sector_num p) * SCT_DATA) h"

lemma file_size_value:
  assumes wo: "write_offset p = c * FLASH_BYTES_PER_SECTOR + 4 + n" and n: "n \<le> SCT_DATA"
    and c: "c < 1024" "sector_num p \<le> 1024" and p: "log_infos s type = p"
  shows "calculate_file_size type s =
    (if read_offset p > write_offset p then if n = SCT_DATA then (sector_num p - 1) * SCT_DATA
       else (sector_num p - 1) * SCT_DATA + n
     else c * SCT_DATA + n)"
proof (cases "n = SCT_DATA")
  case True
  then have "write_offset p = Suc c * FLASH_BYTES_PER_SECTOR" using wo by simp
  then have d: "write_offset p mod FLASH_BYTES_PER_SECTOR = 0"
    "write_offset p div FLASH_BYTES_PER_SECTOR = Suc c" by simp_all
  show ?thesis using True c by (simp add: calculate_file_size_def Let_def p d)
next
  case False
  then have d: "write_offset p mod FLASH_BYTES_PER_SECTOR = 4 + n"
    "write_offset p div FLASH_BYTES_PER_SECTOR = c" using wo n by (simp_all add: add.assoc)
  have "usub32 (x * SCT_DATA + (4 + n)) 4 = x * SCT_DATA + n" if "x < 1024" for x
    using that n by (subst usub32_le) simp_all
  with False c show ?thesis by (simp add: calculate_file_size_def Let_def p d)
qed

lemma file_size_ring:
  assumes r: "ring m p T h" and T: "0 < T" and ro: "read_offset p = sct_off p (T - sector_num p)"
    and p: "log_infos s type = p"
  shows "calculate_file_size type s =
    (if readable p T (length h) then length (retained p T h) else (T mod sector_num p) * SCT_DATA)"
proof -
  note R = ringD [OF r]
  obtain k where k: "T = Suc k" using T by (cases T) auto
  define N where "N = sector_num p"
  define c where "c = k mod N"
  define n where "n = length h - k * SCT_DATA"
  have N: "0 < N" "N \<le> 1024" using R(1) by (simp_all add: log_region_def N_def)
  have cN: "c < N" using N by (simp add: c_def)
  have n: "length h = k * SCT_DATA + n" "n \<le> SCT_DATA" using R(2,3) k by (simp_all add: n_def)
  have wo: "write_offset p = c * FLASH_BYTES_PER_SECTOR + 4 + n"
    using R(5) k by (simp add: wr_off_def sct_off_def c_def N_def n_def)
  note v = file_size_value [OF wo n(2) _ N(2) [unfolded N_def] p]
  show ?thesis
  proof (cases "T \<le> N")
    case True
    then have "read_offset p = 0" "c = k" using ro k by (simp_all add: sct_off_def N_def c_def)
    moreover have "readable p T (length h)" using True by (simp add: readable_def N_def)
    ultimately show ?thesis
      using v cN N True n by (simp add: retained_def N_def)
  next
    case False
    define t where "t = T mod N"
    have tm: "(T - N) mod N = t" using False by (simp add: t_def le_mod_geq)
    have ct: "c = (if t = 0 then N - 1 else t - 1)"
      using k mod_Suc [of k N] cN by (auto simp: c_def t_def)
    have tN: "t < N" using N by (simp add: t_def)
    have ro': "read_offset p = t * FLASH_BYTES_PER_SECTOR" using ro tm by (simp add: sct_off_def N_def)
    have len: "length (retained p T h) = (N - 1) * SCT_DATA + n"
    proof -
      have "k = (T - N) + (N - 1)" using False N k by simp
      then have "k * SCT_DATA = (T - N) * SCT_DATA + (N - 1) * SCT_DATA" by (metis add_mult_distrib)
      then show ?thesis using n by (simp add: retained_def N_def)
    qed
    show ?thesis
    proof (cases "t = 0")
      case True
      then show ?thesis using v cN N ro' ct len by (simp add: readable_def N_def t_def [unfolded N_def])
    next
      case tp: False
      then have "t * FLASH_BYTES_PER_SECTOR = c * FLASH_BYTES_PER_SECTOR + FLASH_BYTES_PER_SECTOR"
        using ct by (cases t) simp_all
      then have "read_offset p > write_offset p \<longleftrightarrow> n < SCT_DATA" using ro' wo n(2) by auto
      moreover have "readable p T (length h) \<longleftrightarrow> n < SCT_DATA"
        using False tp n k by (simp add: readable_def N_def t_def)
      moreover have "n = SCT_DATA \<Longrightarrow> c * SCT_DATA + n = t * SCT_DATA" using ct tp by (cases t) simp_all
      ultimately show ?thesis using v cN N len n(2) by (auto simp: N_def t_def [unfolded N_def])
    qed
  qed
qed


section \<open>Reading in pieces\<close>

fun log_reads :: "nat list \<Rightarrow> log_type \<Rightarrow> 'a log_st_scheme \<Rightarrow> byte list \<times> 'a log_st_scheme" where
  "log_reads [] type s = ([], s)"
| "log_reads (n # ns) type s =
     (let (d, s1) = log_read n type s; (r, s2) = log_reads ns type s1 in (d @ r, s2))"

lemma log_reads_ring:
  assumes "ring (flash s) (log_infos s type) T h" and "readable (log_infos s type) T (length h)"
    and "at_pos (log_infos s type) q" and "0 < T"
    and "T \<le> q div SCT_DATA + sector_num (log_infos s type)"
    and "q + sum_list ns \<le> length h"
  shows "fst (log_reads ns type s) = take (sum_list ns) (drop q h)"
  using assms
proof (induction ns arbitrary: s q)
  case (Cons n ns)
  define s1 where "s1 = snd (log_read n type s)"
  have fits: "q + n \<le> length h" using Cons.prems(6) by simp
  obtain ro where r: "fst (log_read n type s) = take n (drop q h)" "flash s1 = flash s"
      "log_infos s1 = (log_infos s)(type := log_infos s type\<lparr>read_offset := ro\<rparr>)"
      "at_pos (log_infos s type\<lparr>read_offset := ro\<rparr>) (q + n)"
    using log_read_ring [OF Cons.prems(1-3) _ Cons.prems(4,5), of n] fits
    by (auto simp: s1_def)
  have "T \<le> (q + n) div SCT_DATA + sector_num (log_infos s type)"
    using Cons.prems(5) div_le_mono [of q "q + n" SCT_DATA] by simp
  then have "fst (log_reads ns type s1) = take (sum_list ns) (drop (q + n) h)"
    using Cons.prems r by (intro Cons.IH)
      (auto simp: readable_def same_region_def intro: ring_cong)
  moreover have "take n (drop q h) @ take (sum_list ns) (drop (q + n) h) = take (n + sum_list ns) (drop q h)"
    by (simp add: take_add add.commute)
  ultimately show ?case using r(1) by (simp add: s1_def split: prod.split)
      (metis fst_conv snd_conv)
qed simp

lemma ring_info_ok:
  assumes "ring m p T h"
  shows "info_ok p"
proof (cases T)
  case 0
  then show ?thesis using ringD(1,5) [OF assms] by (simp add: info_ok_def wr_off_def)
next
  case (Suc k)
  note R = ringD [OF assms]
  define n where "n = length h - k * SCT_DATA"
  have n: "n \<le> SCT_DATA" using R(3) Suc by (simp add: n_def)
  have wo: "write_offset p = sct_off p k + 4 + n" using R(5) Suc by (simp add: wr_off_def n_def)
  have "(sct_off p k + 4 + n) mod FLASH_BYTES_PER_SECTOR = (4 + n) mod FLASH_BYTES_PER_SECTOR"
    by (simp add: sct_off_def add.assoc)
  also have "\<dots> = 0 \<or> 4 \<le> \<dots>" using n by (cases "n = SCT_DATA") simp_all
  finally show ?thesis using R(1) wo n sct_off_bound [OF R(1), of k] by (simp add: info_ok_def)
qed

definition blank_logs :: log_st where
  "blank_logs = \<lparr>flash = (\<lambda>_. 0xff), log_infos = init_info\<rparr>"

lemma ring_blank: "ring (\<lambda>_. 0xff) (init_info type) 0 []"
  by (cases type) (simp_all add: ring_def init_info_def zero_info_def log_region_def wr_off_def
      erased_def sector_used_def rd_le16_def mread_nth word16_def)

lemma blank_logs_write:
  fixes type
  assumes "buf \<noteq> []"
  defines "s \<equiv> log_write buf type blank_logs"
  shows "\<exists>T. ring (flash s) (log_infos s type) T buf \<and> 0 < T \<and> (T - 1) * SCT_DATA < length buf \<and>
    length buf \<le> T * SCT_DATA \<and> same_region (init_info type) (log_infos s type)"
proof -
  have blank: "ring (flash blank_logs) (log_infos blank_logs type) 0 []"
    using ring_blank by (simp add: blank_logs_def)
  obtain T where T: "ring (flash s) (log_infos s type) T buf" "T = 0 \<or> (T - 1) * SCT_DATA < length buf"
    using log_write_ring [OF blank, of buf] by (auto simp: s_def)
  with ringD(3) [OF T(1)] assms(1) log_write_frame [of blank_logs type buf] ring_info_ok [OF blank]
  show ?thesis by (auto simp: s_def blank_logs_def)
qed

section \<open>Properties of the logs\<close>

text \<open>C7. Writing appends: if the flash holds the log with history \<open>h\<close>, then \<open>log_write\<close>
  returns and the flash holds the log with history \<open>h @ buf\<close>, across any number of sector
  changes and wrap-arounds; nothing outside the sectors of this log and no other log's bookkeeping
  changes.\<close>

theorem log_write_appends:
  assumes "ring (flash s) (log_infos s type) T h"
  shows "\<exists>T'. ring (flash (log_write buf type s)) (log_infos (log_write buf type s) type) T' (h @ buf) \<and>
    (\<forall>x. \<not> in_region (log_infos s type) x \<longrightarrow> flash (log_write buf type s) x = flash s x) \<and>
    (\<forall>type'. type' \<noteq> type \<longrightarrow> log_infos (log_write buf type s) type' = log_infos s type')"
  using log_write_ring [OF assms, of buf] log_write_frame [OF ring_info_ok [OF assms], of buf] by blast

theorem log_write_appends_witness:
  "\<exists>T'. ring (flash (log_write [72, 105] SYSTEM_LOG blank_logs))
      (log_infos (log_write [72, 105] SYSTEM_LOG blank_logs) SYSTEM_LOG) T' [72, 105] \<and>
    (\<forall>x. \<not> in_region (init_info SYSTEM_LOG) x \<longrightarrow>
       flash (log_write [72, 105] SYSTEM_LOG blank_logs) x = 0xff)"
  using log_write_appends [of blank_logs SYSTEM_LOG 0 "[]" "[72, 105]"] ring_blank
  by (auto simp: blank_logs_def)

text \<open>C18. Reading back a log that has been written: after \<open>prepare_read\<close>, \<open>calculate_file_size\<close> is exactly the length of
  the part of the history the sectors still hold, and reading it in any sequence of pieces gives
  those bytes in order, as long as fewer than 32769 sectors have ever been opened and the log is not
  wrapped with its write offset on an inner sector boundary.\<close>

theorem log_read_back:
  assumes "ring (flash s) (log_infos s type) T h" and "0 < T" and "T \<le> 32768"
    and "readable (log_infos s type) T (length h)"
    and "sum_list ns \<le> calculate_file_size type (prepare_read type s)"
  shows "calculate_file_size type (prepare_read type s) = length (retained (log_infos s type) T h) \<and>
    fst (log_reads ns type (prepare_read type s)) = take (sum_list ns) (retained (log_infos s type) T h)"
proof -
  define p where "p = log_infos s type"
  define q where "q = (T - sector_num p) * SCT_DATA"
  define p' where "p' = p\<lparr>read_offset := sct_off p (T - sector_num p)\<rparr>"
  define s' where "s' = prepare_read type s"
  have s': "log_infos s' type = p'" "flash s' = flash s"
    using prepare_read_ring [OF assms(1-3)] by (simp_all add: s'_def p'_def p_def)
  have so: "sct_off p' = sct_off p" by (simp add: fun_eq_iff p'_def sct_off_def)
  have r: "ring (flash s') p' T h" "readable p' T (length h)"
    using ring_cong [OF assms(1), of p'] assms(4)
    by (simp_all add: s' p'_def p_def same_region_def readable_def)
  have sz: "calculate_file_size type s' = length (retained p T h)"
    using file_size_ring [OF r(1) assms(2) _ s'(1)] r(2) so
    by (simp add: p'_def retained_def)
  have "at_pos p' q"
    using so sct_off_aligned [of p] sct_off_bound [OF ringD(1) [OF assms(1)], of "T - sector_num p"]
    by (simp add: at_pos_def q_def p'_def p_def)
  moreover have "q + sum_list ns \<le> length h"
  proof (cases "T \<le> sector_num p")
    case False
    then have "T - sector_num p \<le> T - 1"
      using ringD(1) [OF assms(1)] by (intro diff_le_mono2) (simp add: log_region_def p_def)
    then have "q \<le> (T - 1) * SCT_DATA" unfolding q_def by (rule mult_le_mono1)
    then have "q \<le> length h" using ringD(2) [OF assms(1)] by linarith
    with assms(5) sz show ?thesis by (simp add: s'_def [symmetric] retained_def q_def)
  qed (use assms(5) sz in \<open>simp add: s'_def [symmetric] retained_def q_def\<close>)
  ultimately have "fst (log_reads ns type s') = take (sum_list ns) (drop q h)"
    using log_reads_ring [of s' type T h q ns] r s' assms(2) by (simp add: q_def p'_def)
  with sz show ?thesis by (simp add: s'_def p_def retained_def q_def)
qed


theorem log_read_back_witness:
  "fst (log_reads [2, 1] SYSTEM_LOG (prepare_read SYSTEM_LOG (log_write [72, 105, 33] SYSTEM_LOG blank_logs))) =
     [72, 105, 33] \<and>
   calculate_file_size SYSTEM_LOG (prepare_read SYSTEM_LOG (log_write [72, 105, 33] SYSTEM_LOG blank_logs)) = 3"
proof -
  define s where "s = log_write [72, 105, 33] SYSTEM_LOG blank_logs"
  obtain T where T: "ring (flash s) (log_infos s SYSTEM_LOG) T [72, 105, 33]" "0 < T"
      "(T - 1) * SCT_DATA < 3" "same_region (init_info SYSTEM_LOG) (log_infos s SYSTEM_LOG)"
    using blank_logs_write [of "[72, 105, 33]" SYSTEM_LOG] by (auto simp: s_def)
  then have T1: "T = 1" by simp
  have n: "sector_num (log_infos s SYSTEM_LOG) = 16"
    using T(4) by (simp add: same_region_def init_info_def)
  have good: "readable (log_infos s SYSTEM_LOG) T (length [72 :: byte, 105, 33])"
    by (simp add: readable_def n T1)
  have sz: "calculate_file_size SYSTEM_LOG (prepare_read SYSTEM_LOG s) = 3"
    using log_read_back [OF T(1,2) _ good, of "[]"] n T1 by (simp add: retained_def)
  with log_read_back [OF T(1,2) _ good, of "[2, 1]"] n T1 show ?thesis
    by (simp add: retained_def s_def)
qed

text \<open>C19. A restart keeps the logs: if the flash holds both logs, their text has no \<open>0xff\<close> byte
  and fewer than 32769 sectors of each have been opened, then after \<open>logs_init\<close> the flash is
  unchanged and the fresh bookkeeping again describes the same two histories, so that the next write
  continues them.\<close>

theorem logs_init_recovers:
  assumes "\<And>type. ring (flash s) (p0 type) (T type) (h type)"
    and "\<And>type. same_region (p0 type) (init_info type)"
    and "\<And>type. T type \<le> 32768" and "\<And>type. 0xff \<notin> set (h type)"
  shows "flash (logs_init s) = flash s \<and>
    (\<forall>type. ring (flash (logs_init s)) (log_infos (logs_init s) type) (T type) (h type))"
proof -
  define s0 where "s0 = s\<lparr>log_infos := init_info\<rparr>"
  define s1 where "s1 = perpare_write_info SYSTEM_LOG s0"
  have keep: "flash (perpare_write_info type t) = flash t"
    "type' \<noteq> type \<Longrightarrow> log_infos (perpare_write_info type t) type' = log_infos t type'"
    for type type' and t :: "'a log_st_scheme"
    by (simp_all add: perpare_write_info_def Let_def split: prod.split)
  have fresh: "next_sn (init_info type) = 0" "write_offset (init_info type) = 0" for type
    by (cases type; simp add: init_info_def zero_info_def)+
  have f: "flash s1 = flash s" "flash s0 = flash s" "log_infos s1 WORK_STATE_LOG = init_info WORK_STATE_LOG"
    by (simp_all add: s1_def s0_def keep)
  have a: "ring (flash s) (log_infos s1 SYSTEM_LOG) (T SYSTEM_LOG) (h SYSTEM_LOG)"
    using perpare_write_info_ring [of s0 "p0 SYSTEM_LOG" "T SYSTEM_LOG" "h SYSTEM_LOG" SYSTEM_LOG] assms
    by (simp add: s1_def keep) (simp add: s0_def fresh)
  have b: "ring (flash s) (log_infos (perpare_write_info WORK_STATE_LOG s1) WORK_STATE_LOG)
      (T WORK_STATE_LOG) (h WORK_STATE_LOG)"
    using perpare_write_info_ring [of s1 "p0 WORK_STATE_LOG" "T WORK_STATE_LOG" "h WORK_STATE_LOG"
        WORK_STATE_LOG] assms f by (simp add: keep fresh)
  have e: "logs_init s = perpare_write_info WORK_STATE_LOG s1"
    by (simp add: logs_init_def s1_def s0_def)
  have "ring (flash s) (log_infos (logs_init s) type) (T type) (h type)" for type
    using a b by (cases type) (simp_all add: e keep)
  then show ?thesis by (simp add: e keep f)
qed


text \<open>The boundary case: when the log has wrapped, the current sector is exactly full and it is
  not the last of the region, \<open>calculate_file_size\<close> reports only the sectors before the write
  offset, although \<open>sector_num\<close> full sectors are held: the file is truncated.\<close>

theorem log_size_truncated:
  assumes "ring (flash s) (log_infos s type) T h" and "T \<le> 32768"
    and "sector_num (log_infos s type) < T" and "length h = T * SCT_DATA"
    and "T mod sector_num (log_infos s type) \<noteq> 0"
  shows "calculate_file_size type (prepare_read type s) = (T mod sector_num (log_infos s type)) * SCT_DATA \<and>
    length (retained (log_infos s type) T h) = sector_num (log_infos s type) * SCT_DATA \<and>
    calculate_file_size type (prepare_read type s) < length (retained (log_infos s type) T h)"
proof -
  define p where "p = log_infos s type"
  define p' where "p' = p\<lparr>read_offset := sct_off p (T - sector_num p)\<rparr>"
  have N: "0 < sector_num p" using ringD(1) [OF assms(1)] by (simp add: log_region_def p_def)
  have T: "0 < T" using assms(3) by simp
  have s': "log_infos (prepare_read type s) type = p'"
    using prepare_read_ring [OF assms(1) T assms(2)] by (simp add: p'_def p_def)
  have r: "ring (flash s) p' T h"
    by (rule ring_cong [OF assms(1)]) (simp_all add: p'_def p_def same_region_def)
  have ro: "read_offset p' = sct_off p' (T - sector_num p')" by (simp add: p'_def sct_off_def)
  have "\<not> readable p' T (length h)" using assms(3-5) by (simp add: readable_def p'_def p_def)
  then have sz: "calculate_file_size type (prepare_read type s) = T mod sector_num p * SCT_DATA"
    using file_size_ring [OF r T ro s'] by (simp add: p'_def)
  have "T * SCT_DATA - (T - sector_num p) * SCT_DATA = sector_num p * SCT_DATA"
    using assms(3) by (simp add: diff_mult_distrib [symmetric] p_def)
  then have len: "length (retained p T h) = sector_num p * SCT_DATA"
    using assms(4) by (simp add: retained_def)
  moreover have "T mod sector_num p * SCT_DATA < sector_num p * SCT_DATA" using N by simp
  ultimately show ?thesis using sz by (simp add: p_def)
qed

theorem log_size_truncated_witness:
  "calculate_file_size SYSTEM_LOG (prepare_read SYSTEM_LOG
     (log_write (replicate (17 * SCT_DATA) 65) SYSTEM_LOG blank_logs)) = SCT_DATA"
proof -
  let ?h = "replicate (17 * SCT_DATA) (65 :: byte)"
  define s where "s = log_write ?h SYSTEM_LOG blank_logs"
  obtain T where T: "ring (flash s) (log_infos s SYSTEM_LOG) T ?h" "0 < T"
      "(T - 1) * SCT_DATA < 17 * SCT_DATA" "17 * SCT_DATA \<le> T * SCT_DATA"
      "same_region (init_info SYSTEM_LOG) (log_infos s SYSTEM_LOG)"
    using blank_logs_write [of ?h SYSTEM_LOG] by (auto simp: s_def)
  then have T17: "T = 17" by simp
  have n: "sector_num (log_infos s SYSTEM_LOG) = 16"
    using T(5) by (simp add: same_region_def init_info_def)
  show ?thesis using log_size_truncated [OF T(1)] T17 n by (simp add: s_def)
qed

text \<open>The serial numbers are compared without wrap-around: each serial number is after its
  predecessor except \<open>0x8000\<close>, which the comparison takes to be before every other one. After
  32768 sectors the search for the newest sector therefore stops following the writes.\<close>

theorem sn_after_successor:
  "sn_after (a + 1) a \<longleftrightarrow> a \<noteq> 0x7fff"
proof -
  have bounds: "- 32768 \<le> sint a" "sint a < 32768"
    using sint_greater_eq [of a] sint_lt [of a] by simp_all
  show ?thesis
  proof (cases "a = 0x7fff")
    case True
    then show ?thesis by (simp add: sn_after_def)
  next
    case False
    have "sint a \<noteq> 32767"
    proof
      assume "sint a = 32767"
      then have "word_of_int (sint a) = (0x7fff :: u16)" by simp
      with False show False by simp
    qed
    moreover have "a + 1 = word_of_int (sint a + 1)" by simp
    ultimately have "sint (a + 1) = sint a + 1"
      using bounds by (simp only: signed_of_int) (simp add: signed_take_bit_int_eq_self)
    with False show ?thesis by (simp add: sn_after_def)
  qed
qed


section \<open>Two logs side by side\<close>

text \<open>Writing changes nothing of the state but the flash and the bookkeeping.\<close>

lemma log_upd_trans:
  "t = s\<lparr>flash := f, log_infos := i\<rparr> \<Longrightarrow> u = t\<lparr>flash := f', log_infos := i'\<rparr> \<Longrightarrow>
     u = s\<lparr>flash := f', log_infos := i'\<rparr>"
  by simp

lemma log_write_only:
  "log_write buf type s =
     s\<lparr>flash := flash (log_write buf type s), log_infos := log_infos (log_write buf type s)\<rparr>"
proof (induction buf type s rule: log_write.induct)
  case (1 buf type s)
  have o: "open_sector type s = s\<lparr>flash := flash (open_sector type s), log_infos := log_infos (open_sector type s)\<rparr>"
    by (simp add: open_sector_def Let_def upd_info_def ext_write_def ext_sct_erase_def)
  have w: "write_chunk c type t = t\<lparr>flash := flash (write_chunk c type t), log_infos := log_infos (write_chunk c type t)\<rparr>"
    for c and t :: "'a log_st_scheme"
    by (simp add: write_chunk_def Let_def upd_info_def ext_write_def)
  show ?case
  proof (cases "buf = []")
    case True
    then show ?thesis by (simp add: log_write.simps [of "[]"])
  next
    case False
    define n where "n = sector_room (log_infos (open_sector type s) type) (length buf)"
    define t where "t = write_chunk (take n buf) type (open_sector type s)"
    have t: "t = s\<lparr>flash := flash t, log_infos := log_infos t\<rparr>"
      unfolding t_def by (rule log_upd_trans [OF o w])
    have e: "log_write buf type s = log_write (drop n buf) type t"
      using False by (subst log_write.simps) (simp add: n_def t_def Let_def)
    have "log_write (drop n buf) type t =
        t\<lparr>flash := flash (log_write (drop n buf) type t), log_infos := log_infos (log_write (drop n buf) type t)\<rparr>"
      using "1.IH" [OF False refl n_def] by (simp add: t_def)
    from log_upd_trans [OF t this] show ?thesis unfolding e .
  qed
qed

lemma ring_flash_cong:
  assumes "ring m p T h" and "\<And>x. in_region p x \<Longrightarrow> m' x = m x"
  shows "ring m' p T h"
proof -
  note R = ringD [OF assms(1)]
  have keep: "m' x = m x" if "base_addr p \<le> x" "x < base_addr p + max_size p" for x
    using assms(2) that by (simp add: in_region_def)
  have "sector_holds m' p h j" if "j < T" "T \<le> j + sector_num p" for j
    using sector_holds_cong [OF R(6) [OF that] refl refl, of m'] keep sct_off_bound [OF R(1), of j] by simp
  moreover have "\<not> sector_used m' p i" if "i < sector_num p" "T \<le> i" for i
  proof (rule sector_used_cong [OF R(8) [OF that] refl])
    have "Suc i * FLASH_BYTES_PER_SECTOR \<le> max_size p"
      using that R(1) mult_le_mono1 [of "Suc i" "sector_num p" FLASH_BYTES_PER_SECTOR] by (simp add: log_region_def)
    then show "m' x = m x" if "base_addr p + i * FLASH_BYTES_PER_SECTOR \<le> x"
      "x < base_addr p + i * FLASH_BYTES_PER_SECTOR + 4" for x using that keep by simp
  qed
  moreover have "erased m' (base_addr p + write_offset p) (T * SCT_DATA - length h)"
  proof (cases T)
    case (Suc k)
    then have "write_offset p + (T * SCT_DATA - length h) \<le> max_size p"
      using R(2,3,5) sct_off_bound [OF R(1), of k] by (simp add: wr_off_def)
    then have "erased m' (base_addr p + write_offset p) (T * SCT_DATA - length h) =
        erased m (base_addr p + write_offset p) (T * SCT_DATA - length h)"
      by (intro erased_cong keep) simp_all
    then show ?thesis using R(7) by simp
  qed (auto simp: erased_def)
  ultimately show ?thesis using R(1-5) unfolding ring_def by blast
qed

text \<open>The flash holds both logs, each in the region \<open>logs_init\<close> gives it.\<close>

definition logs_hold :: "'a log_st_scheme \<Rightarrow> (log_type \<Rightarrow> byte list) \<Rightarrow> bool" where
  "logs_hold s hs \<longleftrightarrow> (\<forall>type. same_region (init_info type) (log_infos s type) \<and>
     (\<exists>T. ring (flash s) (log_infos s type) T (hs type)))"

lemma log_regions_disjoint:
  "type \<noteq> type' \<Longrightarrow> in_region (init_info type) x \<Longrightarrow> \<not> in_region (init_info type') x"
  by (cases type; cases type') (auto simp: in_region_def init_info_def zero_info_def)

lemma logs_hold_write:
  assumes "logs_hold s hs"
  shows "logs_hold (log_write buf type s) (hs(type := hs type @ buf))"
  unfolding logs_hold_def
proof
  fix type'
  obtain T where T: "ring (flash s) (log_infos s type) T (hs type)"
    using assms by (auto simp: logs_hold_def)
  note f = log_write_frame [OF ring_info_ok [OF T], of buf]
  have reg: "same_region (init_info t) (log_infos s t)" for t using assms by (simp add: logs_hold_def)
  show "same_region (init_info type') (log_infos (log_write buf type s) type') \<and>
    (\<exists>T. ring (flash (log_write buf type s)) (log_infos (log_write buf type s) type') T
       ((hs(type := hs type @ buf)) type'))"
  proof (cases "type' = type")
    case True
    then show ?thesis
      using f log_write_ring [OF T, of buf] same_region_trans [OF reg] by auto
  next
    case False
    obtain T' where T': "ring (flash s) (log_infos s type') T' (hs type')"
      using assms by (auto simp: logs_hold_def)
    have "flash (log_write buf type s) x = flash s x" if "in_region (log_infos s type') x" for x
      using f log_regions_disjoint [OF False, of x] that in_region_same [OF reg] by simp
    then have "ring (flash (log_write buf type s)) (log_infos s type') T' (hs type')"
      by (rule ring_flash_cong [OF T'])
    then show ?thesis using False f reg by auto
  qed
qed

section \<open>The interface of a log\<close>

text \<open>What the users of a log rely on: writing appends to what the log holds.\<close>

locale append_log =
  fixes append :: "byte list \<Rightarrow> 's \<Rightarrow> 's"
    and holds :: "'s \<Rightarrow> byte list \<Rightarrow> bool"
  assumes append_holds: "holds s h \<Longrightarrow> holds (append buf s) (h @ buf)"
begin

text \<open>A sequence of entries, written in states that satisfy an invariant \<open>I\<close>.\<close>

lemma append_entries:
  "holds s h \<Longrightarrow> I s \<Longrightarrow>
     (\<And>e s. e \<in> set es \<Longrightarrow> I s \<Longrightarrow> step e s = append (entry e) s \<and> I (step e s)) \<Longrightarrow>
     holds (fold step es s) (h @ concat (map entry es))"
proof (induction es arbitrary: s h)
  case (Cons e es)
  then have "step e s = append (entry e) s" "I (step e s)" by (meson list.set_intros(1))+
  then have "holds (step e s) (h @ entry e)" "I (step e s)"
    using append_holds [OF Cons.prems(1)] by simp_all
  then have "holds (fold step es (step e s)) ((h @ entry e) @ concat (map entry es))"
    by (rule Cons.IH) (use Cons.prems(3) in \<open>meson list.set_intros(2)\<close>)
  then show ?case by simp
qed simp

lemma append_twice: "holds s h \<Longrightarrow> holds (append b (append a s)) (h @ a @ b)"
  using append_holds [OF append_holds, of s h b a] by simp

end

definition log_holds :: "log_type \<Rightarrow> 'a log_st_scheme \<Rightarrow> byte list \<Rightarrow> bool" where
  "log_holds type s h \<longleftrightarrow> (\<exists>T. ring (flash s) (log_infos s type) T h)"

lemma logs_hold_log_holds: "logs_hold s hs \<Longrightarrow> log_holds type s (hs type)"
  by (simp add: logs_hold_def log_holds_def)

interpretation flash_log: append_log "\<lambda>buf. log_write buf type" "log_holds type" for type
  by unfold_locales (auto simp: log_holds_def dest: log_write_ring)

text \<open>Two logs with a line each, and what a restart makes of them.\<close>

definition two_logs :: log_st where
  "two_logs = log_write [79, 75] WORK_STATE_LOG (log_write [72, 105] SYSTEM_LOG blank_logs)"

definition two_texts :: "log_type \<Rightarrow> byte list" where
  "two_texts type = (case type of SYSTEM_LOG \<Rightarrow> [72, 105] | WORK_STATE_LOG \<Rightarrow> [79, 75])"

lemma two_logs_hold: "logs_hold two_logs two_texts"
proof -
  have "logs_hold blank_logs (\<lambda>_. [])"
    using ring_blank by (auto simp: logs_hold_def blank_logs_def same_region_def)
  from logs_hold_write [OF logs_hold_write [OF this, of "[72, 105]" SYSTEM_LOG], of "[79, 75]" WORK_STATE_LOG]
  have "logs_hold two_logs ((\<lambda>_. [])(SYSTEM_LOG := [72, 105], WORK_STATE_LOG := [79, 75]))"
    by (simp add: two_logs_def)
  moreover have "(\<lambda>_. [])(SYSTEM_LOG := [72, 105], WORK_STATE_LOG := [79, 75]) = two_texts"
    by (rule ext) (simp add: two_texts_def split: log_type.split)
  ultimately show ?thesis by simp
qed

theorem logs_init_recovers_witness:
  "flash (logs_init two_logs) = flash two_logs \<and>
   (\<exists>T. ring (flash two_logs) (log_infos (logs_init two_logs) SYSTEM_LOG) T [72, 105]) \<and>
   (\<exists>T. ring (flash two_logs) (log_infos (logs_init two_logs) WORK_STATE_LOG) T [79, 75])"
proof -
  have "\<forall>type. \<exists>T. ring (flash two_logs) (log_infos two_logs type) T (two_texts type)"
    using two_logs_hold by (simp add: logs_hold_def)
  then obtain T where r: "\<And>type. ring (flash two_logs) (log_infos two_logs type) (T type) (two_texts type)" by metis
  have reg: "same_region (log_infos two_logs type) (init_info type)" for type
    using two_logs_hold by (simp add: logs_hold_def same_region_def)
  have n: "length (two_texts type) = 2" "0xff \<notin> set (two_texts type)" for type
    by (simp_all add: two_texts_def split: log_type.split)
  have "T type \<le> 32768" for type using ringD(2) [OF r, of type] n(1) [of type] by simp
  from logs_init_recovers [of two_logs "log_infos two_logs" T two_texts, OF r reg this n(2)]
  have f: "flash (logs_init two_logs) = flash two_logs" and
    l: "\<And>type. ring (flash two_logs) (log_infos (logs_init two_logs) type) (T type) (two_texts type)" by metis+
  show ?thesis using f l [of SYSTEM_LOG] l [of WORK_STATE_LOG] by (auto simp: two_texts_def)
qed

end
