(* ===== verification/Rtc.thy ===== *)
theory Rtc
  imports Log_Base
begin

text \<open>
  The real-time clock driver \<open>bsp/pcf8563.c\<close>: BCD conversion, validation of a date, day of the
  week, and the transfer of the date to and from the registers of the PCF8563. The I2C bus is
  modelled by the register file \<open>rtc_regs\<close> and by \<open>rtc_io\<close>, whether a transfer succeeds;
  \<open>dev_rtc\<close> tells whether the device was found.
\<close>

record RTC_T =
  year :: u16
  month :: byte
  day :: byte
  hour :: byte
  minute :: byte
  second :: byte
  week :: byte

record rtc_st = log_st +
  dev_rtc :: bool
  rtc_io :: bool
  rtc_regs :: mem

section \<open>Operations\<close>

definition RTC_MonthVal :: "nat list" where
  "RTC_MonthVal = [0, 31, 28, 31, 30, 31, 30, 31, 31, 30, 31, 30, 31]"

definition is_leap_year :: "nat \<Rightarrow> bool" where
  "is_leap_year y \<longleftrightarrow> (y mod 4 = 0 \<and> y mod 100 \<noteq> 0) \<or> y mod 400 = 0"

definition GetDOY :: "u16 \<Rightarrow> byte \<Rightarrow> byte \<Rightarrow> nat" where
  "GetDOY y m d =
     sum_list (map (\<lambda>i. RTC_MonthVal ! (i - 1)) [1..<unat m]) +
     (if m > 2 \<and> is_leap_year (unat y) then 1 else 0) + unat d"

definition GetDOW :: "u16 \<Rightarrow> byte \<Rightarrow> byte \<Rightarrow> byte" where
  "GetDOW y m d =
     (let years = sum_list (map (\<lambda>i. if is_leap_year i then 366 else 365) [1901..<unat y])
      in of_int ((int years + (int (GetDOY y m d) - 1) + 2) mod 7))"

definition check_datetime :: "RTC_T \<Rightarrow> int" where
  "check_datetime t =
     (if year t < 2009 \<or> year t > 2099 then RT_ERROR
      else if month t < 1 \<or> month t > 12 then RT_ERROR
      else if day t < 1 \<or> day t > 31 then RT_ERROR
      else if unat (day t) > RTC_MonthVal ! unat (month t) \<and>
              (if month t = 2
               then (if is_leap_year (unat (year t)) \<and> day t > 29 then True else day t > 28)
               else True) then RT_ERROR
      else if hour t > 23 \<or> minute t > 59 \<or> second t > 59 then RT_ERROR
      else RT_EOK)"

definition pcf8563_ByteToPbcd :: "byte \<Rightarrow> byte" where
  "pcf8563_ByteToPbcd v = push_bit 4 (v div 10) + v mod 10"

definition pcf8563_PbcdToByte :: "byte \<Rightarrow> byte" where
  "pcf8563_PbcdToByte bcd = 10 * drop_bit 4 bcd + (bcd AND 0x0f)"

text \<open>Opening a device that was not found fails the assertion of \<open>rt_device_open\<close>, which does not return.\<close>

definition pcf8563_init :: "bool \<Rightarrow> 'a rtc_st_scheme \<Rightarrow> ('a rtc_st_scheme \<times> int) option" where
  "pcf8563_init found s = (if found then Some (s\<lparr>dev_rtc := True\<rparr>, RT_EOK) else None)"

text \<open>The sixteen registers in the order of \<open>buf\<close>.\<close>

definition rtc_buf :: "RTC_T \<Rightarrow> byte list" where
  "rtc_buf t =
     [0, 0, pcf8563_ByteToPbcd (second t), pcf8563_ByteToPbcd (minute t),
      pcf8563_ByteToPbcd (hour t), pcf8563_ByteToPbcd (day t), pcf8563_ByteToPbcd (week t),
      pcf8563_ByteToPbcd (month t), pcf8563_ByteToPbcd (ucast ((year t - 2000) AND 0xff)),
      0, 0, 1, 0, 0, 0, 0]"

text \<open>The result carries the caller's structure, whose day of the week is updated.\<close>

definition pcf8563_set_datetime :: "RTC_T \<Rightarrow> 'a rtc_st_scheme \<Rightarrow> 'a rtc_st_scheme \<times> RTC_T \<times> int" where
  "pcf8563_set_datetime t s =
     (if \<not> dev_rtc s then (s, t, RT_ERROR)
      else if check_datetime t \<noteq> RT_EOK then (s, t, RT_ERROR)
      else let t' = t\<lparr>week := GetDOW (year t) (month t) (day t)\<rparr>
           in if \<not> rtc_io s then (s, t', RT_ERROR)
              else (s\<lparr>rtc_regs := (\<lambda>i. if i < 16 then rtc_buf t' ! i else rtc_regs s i)\<rparr>, t', RT_EOK))"

definition pcf8563_get_datetime :: "RTC_T \<Rightarrow> 'a rtc_st_scheme \<Rightarrow> RTC_T \<times> int" where
  "pcf8563_get_datetime t s =
     (if \<not> dev_rtc s then (t, RT_ERROR)
      else if \<not> rtc_io s then (t, RT_ERROR)
      else let buf = mread (rtc_regs s) 2 7
           in (t\<lparr>second := pcf8563_PbcdToByte (buf ! 0 AND 0x7f),
                minute := pcf8563_PbcdToByte (buf ! 1 AND 0x7f),
                hour := pcf8563_PbcdToByte (buf ! 2 AND 0x3f),
                day := pcf8563_PbcdToByte (buf ! 3 AND 0x3f),
                month := pcf8563_PbcdToByte (buf ! 5 AND 0x1f),
                year := ucast (pcf8563_PbcdToByte (buf ! 6)) + 2000\<rparr>, RT_EOK))"

section \<open>Binary-coded decimals\<close>

lemma unat_push4: "unat (push_bit 4 (w :: byte)) = unat w * 16 mod 256"
  by (simp add: push_bit_eq_mult unat_word_ariths)

lemma unat_and_mask: "unat (b AND mask n :: byte) = unat b mod 2 ^ n"
  by (simp only: take_bit_eq_mask [symmetric] unsigned_take_bit_eq) (simp add: take_bit_eq_mod)

lemma mask_consts: "(0x0f :: byte) = mask 4" "(0x1f :: byte) = mask 5" "(0x3f :: byte) = mask 6"
  "(0x7f :: byte) = mask 7"
  by (simp_all add: mask_eq_decr_exp)

lemma unat_ByteToPbcd:
  assumes "unat v < 100"
  shows "unat (pcf8563_ByteToPbcd v) = 16 * (unat v div 10) + unat v mod 10"
proof -
  have "unat v div 10 \<le> 9" "unat v mod 10 < 10" using assms by simp_all
  then have "16 * (unat v div 10) + unat v mod 10 < 256" by linarith
  then show ?thesis
    by (simp add: pcf8563_ByteToPbcd_def unat_word_ariths unat_push4 unat_div unat_mod)
qed

lemma unat_PbcdToByte:
  assumes "unat b < 160"
  shows "unat (pcf8563_PbcdToByte b) = 10 * (unat b div 16) + unat b mod 16"
proof -
  have "unat b div 16 \<le> 9" "unat b mod 16 < 16" using assms by simp_all
  then have "10 * (unat b div 16) + unat b mod 16 < 256" by linarith
  moreover have "unat (b AND 0x0f) = unat b mod 16" using unat_and_mask [of b 4] by (simp add: mask_consts)
  ultimately show ?thesis
    by (simp add: pcf8563_PbcdToByte_def unat_word_ariths unat_drop_bit_eq drop_bit_eq_div)
qed


lemma bcd_bound: "x \<le> 10 * k + 9 \<Longrightarrow> 16 * (x div 10) + x mod 10 < 16 * k + (16 :: nat)"
proof -
  assume "x \<le> 10 * k + 9"
  then have "x div 10 \<le> k" by linarith
  moreover have "x mod 10 < 10" by simp
  ultimately show ?thesis by linarith
qed

lemma pbcd_roundtrip:
  assumes "unat v < 100" and "16 * (unat v div 10) + unat v mod 10 < 2 ^ n"
  shows "pcf8563_PbcdToByte (pcf8563_ByteToPbcd v AND mask n) = v"
proof -
  have b: "unat (pcf8563_ByteToPbcd v AND mask n) = 16 * (unat v div 10) + unat v mod 10"
    using assms by (simp add: unat_and_mask unat_ByteToPbcd)
  have "unat v div 10 \<le> 9" "unat v mod 10 < 10" using assms by simp_all
  then have "unat (pcf8563_ByteToPbcd v AND mask n) < 160" using b by linarith
  then have "unat (pcf8563_PbcdToByte (pcf8563_ByteToPbcd v AND mask n)) = unat v"
    by (simp add: unat_PbcdToByte b)
  then show ?thesis by (simp add: word_unat_eq_iff)
qed


section \<open>The calendar\<close>

definition month_days :: "nat \<Rightarrow> nat \<Rightarrow> nat" where
  "month_days y m = (if m = 2 \<and> is_leap_year y then 29 else RTC_MonthVal ! m)"

definition calendar_valid :: "RTC_T \<Rightarrow> bool" where
  "calendar_valid t \<longleftrightarrow> 2009 \<le> unat (year t) \<and> unat (year t) \<le> 2099 \<and>
     1 \<le> unat (month t) \<and> unat (month t) \<le> 12 \<and>
     1 \<le> unat (day t) \<and> unat (day t) \<le> month_days (unat (year t)) (unat (month t)) \<and>
     unat (hour t) \<le> 23 \<and> unat (minute t) \<le> 59 \<and> unat (second t) \<le> 59"

definition day_of_year :: "nat \<Rightarrow> nat \<Rightarrow> nat \<Rightarrow> nat" where
  "day_of_year y m d = sum_list (map (month_days y) [1..<m]) + d"

lemma month_cases: "1 \<le> m \<Longrightarrow> m \<le> (12 :: nat) \<Longrightarrow> m \<in> {1, 2, 3, 4, 5, 6, 7, 8, 9, 10, 11, 12}"
  by (auto simp: numeral_eq_Suc le_Suc_eq)

lemma RTC_MonthVal_le: "m \<le> 12 \<Longrightarrow> RTC_MonthVal ! m \<le> 31"
  using month_cases [of m] by (cases "m = 0") (auto simp: RTC_MonthVal_def)

lemma check_datetime_nat:
  "check_datetime t = RT_EOK \<longleftrightarrow>
     2009 \<le> unat (year t) \<and> unat (year t) \<le> 2099 \<and> 1 \<le> unat (month t) \<and> unat (month t) \<le> 12 \<and>
     1 \<le> unat (day t) \<and> unat (day t) \<le> 31 \<and> unat (day t) \<le> RTC_MonthVal ! unat (month t) \<and>
     unat (hour t) \<le> 23 \<and> unat (minute t) \<le> 59 \<and> unat (second t) \<le> 59"
proof -
  have two: "month t = 2 \<longleftrightarrow> unat (month t) = 2" by (simp add: word_unat_eq_iff)
  have feb: "RTC_MonthVal ! 2 = 28" by (simp add: RTC_MonthVal_def)
  show ?thesis
    unfolding check_datetime_def two by (auto simp: word_less_nat_alt not_less feb)
qed


text \<open>C29. The clock keeps the date: when the device is there and the transfers succeed, setting a
  date that \<open>check_datetime\<close> accepts and reading the registers back gives the same date and time.\<close>

theorem rtc_set_get_roundtrip:
  assumes "dev_rtc s" and "rtc_io s" and "check_datetime t = RT_EOK"
    and "pcf8563_set_datetime t s = (s', t', e)"
  shows "e = RT_EOK \<and> (\<exists>w. pcf8563_get_datetime u s' = (t\<lparr>week := w\<rparr>, RT_EOK))"
proof -
  note v = assms(3) [unfolded check_datetime_nat]
  define y where "y = (ucast ((year t - 2000) AND 0xff) :: byte)"
  have s': "rtc_regs s' = (\<lambda>i. if i < 16 then rtc_buf t' ! i else rtc_regs s i)" "dev_rtc s'" "rtc_io s'"
    "e = RT_EOK" "t' = t\<lparr>week := GetDOW (year t) (month t) (day t)\<rparr>"
    using assms by (auto simp: pcf8563_set_datetime_def Let_def)
  have regs: "mread (rtc_regs s') 2 7 = take 7 (drop 2 (rtc_buf t'))"
    by (simp add: s'(1) mread_def rtc_buf_def numeral_eq_Suc upt_conv_Cons)
  have yu: "unat (year t - 2000) = unat (year t) - 2000"
    using v by (subst unat_sub) (simp_all add: word_le_nat_alt)
  have yl: "unat (year t) - 2000 < 100" "2000 \<le> unat (year t)" using v by linarith+
  have ym: "(year t - 2000) AND 0xff = year t - 2000"
  proof -
    have "(0xff :: u16) = mask 8" by (simp add: mask_eq_decr_exp)
    moreover have "take_bit 8 (year t - 2000) = year t - 2000"
      using yu yl by (simp only: word_unat_eq_iff unsigned_take_bit_eq) (simp add: take_bit_eq_mod)
    ultimately show ?thesis by (simp add: take_bit_eq_mask)
  qed
  have yb: "unat y = unat (year t) - 2000"
    using yu yl by (simp add: y_def ym unsigned_ucast_eq take_bit_eq_mod)
  have "unat y < 100" using yb yl by simp
  moreover have full: "b AND mask 8 = b" for b :: byte by (simp add: mask_eq_decr_exp)
  ultimately have "pcf8563_PbcdToByte (pcf8563_ByteToPbcd y) = y"
    using pbcd_roundtrip [of y 8] by simp
  moreover have "ucast y + 2000 = year t"
    using yb yl yu by (simp add: word_unat_eq_iff unat_word_ariths unsigned_ucast_eq take_bit_eq_mod)
  ultimately have yr: "ucast (pcf8563_PbcdToByte (pcf8563_ByteToPbcd y)) + 2000 = year t" by simp
  have flds: "pcf8563_PbcdToByte (pcf8563_ByteToPbcd (second t) AND mask 7) = second t"
    "pcf8563_PbcdToByte (pcf8563_ByteToPbcd (minute t) AND mask 7) = minute t"
    "pcf8563_PbcdToByte (pcf8563_ByteToPbcd (hour t) AND mask 6) = hour t"
    "pcf8563_PbcdToByte (pcf8563_ByteToPbcd (day t) AND mask 6) = day t"
    "pcf8563_PbcdToByte (pcf8563_ByteToPbcd (month t) AND mask 5) = month t"
    using v bcd_bound [of "unat (second t)" 5] bcd_bound [of "unat (minute t)" 5]
      bcd_bound [of "unat (hour t)" 2] bcd_bound [of "unat (day t)" 3] bcd_bound [of "unat (month t)" 1]
    by (simp_all add: pbcd_roundtrip)
  have "pcf8563_get_datetime u s' = (t\<lparr>week := week u\<rparr>, RT_EOK)"
    using flds yr s'(2,3)
    by (simp add: pcf8563_get_datetime_def regs Let_def rtc_buf_def s'(5) mask_consts y_def)
  with s'(4) show ?thesis by blast
qed

theorem rtc_set_get_roundtrip_witness:
  "\<exists>s' t' w. pcf8563_set_datetime
       \<lparr>year = 2017, month = 5, day = 18, hour = 23, minute = 59, second = 7, week = 0\<rparr>
       \<lparr>flash = (\<lambda>_. 0), log_infos = init_info, dev_rtc = True, rtc_io = True, rtc_regs = (\<lambda>_. 0)\<rparr> =
       (s', t', RT_EOK) \<and>
     pcf8563_get_datetime \<lparr>year = 0, month = 0, day = 0, hour = 0, minute = 0, second = 0, week = 0\<rparr> s' =
       (\<lparr>year = 2017, month = 5, day = 18, hour = 23, minute = 59, second = 7, week = w\<rparr>, RT_EOK)"
proof -
  let ?t = "\<lparr>year = 2017, month = 5, day = 18, hour = 23, minute = 59, second = 7, week = 0\<rparr> :: RTC_T"
  let ?s = "\<lparr>flash = (\<lambda>_. 0), log_infos = init_info, dev_rtc = True, rtc_io = True, rtc_regs = (\<lambda>_. 0)\<rparr> :: rtc_st"
  obtain s' t' e where r: "pcf8563_set_datetime ?t ?s = (s', t', e)" by (metis prod_cases3)
  have c: "check_datetime ?t = RT_EOK" by (simp add: check_datetime_nat RTC_MonthVal_def)
  from rtc_set_get_roundtrip [OF _ _ c r] obtain w where "e = RT_EOK"
    "pcf8563_get_datetime \<lparr>year = 0, month = 0, day = 0, hour = 0, minute = 0, second = 0, week = 0\<rparr> s' =
       (?t\<lparr>week := w\<rparr>, RT_EOK)" by auto
  with r show ?thesis by auto
qed

text \<open>The day of the year is short by the length of the previous month: the loop of \<open>GetDOY\<close>
  adds \<open>RTC_MonthVal[i-1]\<close>, so from February on the result lacks the month before the given one, and
  the day of the week computed from it is off accordingly.\<close>

theorem GetDOY_lacks_month:
  assumes "2 \<le> unat m" and "unat m \<le> 12"
  shows "GetDOY y m d + RTC_MonthVal ! (unat m - 1) = day_of_year (unat y) (unat m) (unat d)"
proof -
  have gt: "m > 2 \<longleftrightarrow> unat m > 2" by (simp add: word_less_nat_alt)
  have "unat m \<in> {2, 3, 4, 5, 6, 7, 8, 9, 10, 11, 12}" using month_cases [of "unat m"] assms by auto
  then show ?thesis
    unfolding GetDOY_def day_of_year_def gt
    by (elim insertE emptyE)
      (simp_all add: RTC_MonthVal_def month_days_def numeral_eq_Suc upt_conv_Cons)
qed

theorem GetDOY_lacks_month_witness:
  "GetDOY 2017 5 18 + 30 = day_of_year 2017 5 18"
  using GetDOY_lacks_month [of 5 2017 18] by (simp add: RTC_MonthVal_def)

end
