(* ===== verification/Kservice.thy ===== *)
theory Kservice
  imports Prelude
begin

text \<open>
  String and formatting services: \<open>rt_memcmp\<close>, \<open>rt_strncmp\<close>, \<open>rt_strncpy\<close>,
  \<open>rt_strlen\<close> and the formatter \<open>rt_vsnprintf\<close> of \<open>rt-thread/kernel/kservice.c\<close>
  (built with \<open>RT_PRINTF_PRECISION\<close> and without \<open>RT_PRINTF_SPECIAL\<close> and
  \<open>RT_PRINTF_LONGLONG\<close>), and the \<open>%d\<close> conversions of the C library's \<open>sscanf\<close> that
  the application uses. Text is a \<open>string\<close> (a HOL \<open>char\<close> has 8 bits), buffers are byte lists.
\<close>

definition bytes_of :: "string \<Rightarrow> byte list" where
  "bytes_of = map of_char"

definition string_of :: "byte list \<Rightarrow> string" where
  "string_of = map (\<lambda>b. char_of (unat b))"

lemma length_bytes_of [simp]: "length (bytes_of s) = length s"
  by (simp add: bytes_of_def)

lemma length_string_of [simp]: "length (string_of bs) = length bs"
  by (simp add: string_of_def)

lemma unat_of_char [simp]: "unat (of_char c :: byte) = of_char c"
proof -
  have "unat (of_char c :: byte) = unat (of_nat (of_char c) :: byte)" by (simp only: of_nat_of_char)
  also have "\<dots> = of_char c mod 256" unfolding unat_of_nat by simp
  finally show ?thesis by (simp add: nat_of_char_less_256)
qed

lemma string_of_bytes_of [simp]: "string_of (bytes_of s) = s"
  by (simp add: string_of_def bytes_of_def comp_def)

section \<open>Memory and string primitives\<close>

text \<open>The comparison loop: the difference of the first two bytes that differ, else 0. Both
  buffers must be at least \<open>count\<close> bytes long.\<close>

fun rt_memcmp :: "byte list \<Rightarrow> byte list \<Rightarrow> nat \<Rightarrow> int" where
  "rt_memcmp cs ct 0 = 0"
| "rt_memcmp cs ct (Suc n) =
     (let res = uint (hd cs) - uint (hd ct)
      in if res \<noteq> 0 then res else rt_memcmp (tl cs) (tl ct) n)"

lemma rt_memcmp_eq_0_iff:
  "n \<le> length cs \<Longrightarrow> n \<le> length ct \<Longrightarrow> rt_memcmp cs ct n = 0 \<longleftrightarrow> take n cs = take n ct"
proof (induction n arbitrary: cs ct)
  case (Suc n)
  then obtain c cs' d ct' where "cs = c # cs'" "ct = d # ct'"
    by (metis Suc_le_length_iff)
  with Suc show ?case by (auto simp: Let_def word_uint_eq_iff)
qed simp

fun rt_strlen :: "byte list \<Rightarrow> nat" where
  "rt_strlen [] = 0"
| "rt_strlen (b # bs) = (if b = 0 then 0 else Suc (rt_strlen bs))"

text \<open>\<open>rt_strncmp\<close> keeps the difference in a \<open>signed char\<close>, that is modulo 256.\<close>

fun rt_strncmp :: "byte list \<Rightarrow> byte list \<Rightarrow> nat \<Rightarrow> int" where
  "rt_strncmp cs ct 0 = 0"
| "rt_strncmp cs ct (Suc n) =
     (let res = hd cs - hd ct
      in if res \<noteq> 0 \<or> hd cs = 0 then sint res else rt_strncmp (tl cs) (tl ct) n)"

text \<open>The \<open>n\<close> bytes stored at \<open>dst\<close>: the source up to its terminator, padded with zeros.\<close>

fun rt_strncpy :: "byte list \<Rightarrow> nat \<Rightarrow> byte list" where
  "rt_strncpy src 0 = []"
| "rt_strncpy src (Suc n) =
     (if src = [] \<or> hd src = 0 then replicate (Suc n) 0 else hd src # rt_strncpy (tl src) n)"

lemma length_rt_strncpy [simp]: "length (rt_strncpy src n) = n"
  by (induction src n rule: rt_strncpy.induct) auto

section \<open>Formatting\<close>

datatype fmt_arg = ArgInt u32 | ArgStr string

record pf_flags =
  ZEROPAD :: bool
  SIGN :: bool
  PLUS :: bool
  SPACE :: bool
  LEFT :: bool
  SPECIAL :: bool
  LARGE :: bool

definition no_flags :: pf_flags where
  "no_flags = \<lparr>ZEROPAD = False, SIGN = False, PLUS = False, SPACE = False, LEFT = False,
     SPECIAL = False, LARGE = False\<rparr>"

definition small_digits :: string where "small_digits = ''0123456789abcdef''"
definition large_digits :: string where "large_digits = ''0123456789ABCDEF''"

text \<open>\<open>divide\<close>: any base other than 10 is taken to be 16.\<close>

definition divide :: "nat \<Rightarrow> nat \<Rightarrow> nat \<times> nat" where
  "divide n base = (if base = 10 then (n mod 10, n div 10) else (n mod 16, n div 16))"

text \<open>The digits that \<open>print_number\<close> collects in \<open>tmp\<close>, least significant first.\<close>

function tmp_digits :: "string \<Rightarrow> nat \<Rightarrow> nat \<Rightarrow> string" where
  "tmp_digits digits base num =
     (if num = 0 then []
      else digits ! fst (divide num base) # tmp_digits digits base (snd (divide num base)))"
  by pat_completeness auto
termination
  by (relation "measure (\<lambda>(_, _, n). n)") (auto simp: divide_def)

declare tmp_digits.simps [simp del]

text \<open>\<open>while (size-- > 0)\<close>: what the loop appends and the value it leaves in \<open>size\<close>.\<close>

definition pad :: "int \<Rightarrow> char \<Rightarrow> string" where
  "pad n c = replicate (nat n) c"

definition after_pad :: "int \<Rightarrow> int" where
  "after_pad n = (if n > 0 then - 1 else n - 1)"

text \<open>
  The characters emitted so far are \<open>out\<close>, so the write pointer is \<open>length out\<close> characters
  into the buffer; \<open>endp\<close> is the index of the last cell of the buffer. Characters past it are
  counted but not stored.
\<close>

definition print_number ::
    "string \<Rightarrow> nat \<Rightarrow> u32 \<Rightarrow> nat \<Rightarrow> int \<Rightarrow> int \<Rightarrow> pf_flags \<Rightarrow> string" where
  "print_number out endp num base s precision fl =
     (let digits = (if LARGE fl then large_digits else small_digits);
          zeropad = (ZEROPAD fl \<and> \<not> LEFT fl);
          c = (if zeropad then CHR ''0'' else CHR '' '');
          neg = (SIGN fl \<and> sint num < 0);
          sign = (if neg then [CHR ''-'']
                  else if SIGN fl \<and> PLUS fl then [CHR ''+'']
                  else if SIGN fl \<and> SPACE fl then [CHR '' ''] else []);
          n = unat (if neg then - num else num);
          tmp = (if n = 0 then ''0'' else tmp_digits digits base n);
          i = int (length tmp);
          precision1 = (if i > precision then i else precision);
          size1 = s - precision1;
          (out1, size2) =
            (if \<not> (zeropad \<or> LEFT fl)
             then let sz = (if sign \<noteq> [] \<and> size1 > 0 then size1 - 1 else size1)
                  in (out @ pad sz (CHR '' ''), after_pad sz)
             else (out, size1));
          (out2, size3) =
            (if sign \<noteq> [] then (out1 @ sign, if length out1 \<le> endp then size2 - 1 else size2)
             else (out1, size2));
          (out3, size4) =
            (if \<not> LEFT fl then (out2 @ pad size3 c, after_pad size3) else (out2, size3));
          out4 = out3 @ pad (precision1 - i) (CHR ''0'');
          out5 = out4 @ rev tmp
      in out5 @ pad size4 (CHR '' ''))"

fun parse_flags :: "string \<Rightarrow> pf_flags \<Rightarrow> pf_flags \<times> string" where
  "parse_flags [] fl = (fl, [])"
| "parse_flags (c # cs) fl =
     (if c = CHR ''-'' then parse_flags cs (fl\<lparr>LEFT := True\<rparr>)
      else if c = CHR ''+'' then parse_flags cs (fl\<lparr>PLUS := True\<rparr>)
      else if c = CHR '' '' then parse_flags cs (fl\<lparr>SPACE := True\<rparr>)
      else if c = CHR ''#'' then parse_flags cs (fl\<lparr>SPECIAL := True\<rparr>)
      else if c = CHR ''0'' then parse_flags cs (fl\<lparr>ZEROPAD := True\<rparr>)
      else (fl, c # cs))"

definition is_digit :: "char \<Rightarrow> bool" where
  "is_digit c \<longleftrightarrow> of_char (CHR ''0'') \<le> (of_char c :: nat) \<and> of_char c \<le> (of_char (CHR ''9'') :: nat)"

definition digit_value :: "char \<Rightarrow> nat" where
  "digit_value c = of_char c - of_char (CHR ''0'')"

fun skip_atoi :: "nat \<Rightarrow> string \<Rightarrow> nat \<times> string" where
  "skip_atoi i [] = (i, [])"
| "skip_atoi i (c # cs) =
     (if is_digit c then skip_atoi (i * 10 + digit_value c) cs else (i, c # cs))"

text \<open>The next variadic argument. A conversion that does not match its argument is undefined in
  C; no call of the application has one.\<close>

fun next_int :: "fmt_arg list \<Rightarrow> u32 \<times> fmt_arg list" where
  "next_int (ArgInt w # args) = (w, args)"
| "next_int args = (0, args)"

fun next_str :: "fmt_arg list \<Rightarrow> string \<times> fmt_arg list" where
  "next_str (ArgStr s # args) = (s, args)"
| "next_str args = (''(NULL)'', args)"

definition parse_width :: "string \<Rightarrow> fmt_arg list \<Rightarrow> pf_flags \<Rightarrow>
    int \<times> pf_flags \<times> fmt_arg list \<times> string" where
  "parse_width fmt args fl =
     (case fmt of
        [] \<Rightarrow> (- 1, fl, args, fmt)
      | c # cs \<Rightarrow>
          if is_digit c then (let (w, rest) = skip_atoi 0 fmt in (int w, fl, args, rest))
          else if c = CHR ''*'' then
            (let (w, args') = next_int args; fw = sint w
             in if fw < 0 then (- fw, fl\<lparr>LEFT := True\<rparr>, args', cs) else (fw, fl, args', cs))
          else (- 1, fl, args, fmt))"

definition parse_precision :: "string \<Rightarrow> fmt_arg list \<Rightarrow> int \<times> fmt_arg list \<times> string" where
  "parse_precision fmt args =
     (case fmt of
        [] \<Rightarrow> (- 1, args, fmt)
      | c # cs \<Rightarrow>
          if c \<noteq> CHR ''.'' then (- 1, args, fmt)
          else (case cs of
              [] \<Rightarrow> (0, args, cs)
            | d # ds \<Rightarrow>
                if is_digit d then (let (p, rest) = skip_atoi 0 cs in (int p, args, rest))
                else if d = CHR ''*'' then
                  (let (w, args') = next_int args in (max 0 (sint w), args', ds))
                else (0, args, cs)))"

definition parse_qualifier :: "string \<Rightarrow> char option \<times> string" where
  "parse_qualifier fmt =
     (case fmt of
        [] \<Rightarrow> (None, fmt)
      | c # cs \<Rightarrow> if c = CHR ''h'' \<or> c = CHR ''l'' then (Some c, cs) else (None, fmt))"

text \<open>The argument of an integer conversion after the qualifier has been applied.\<close>

definition int_arg :: "char option \<Rightarrow> bool \<Rightarrow> u32 \<Rightarrow> u32" where
  "int_arg qualifier signd w =
     (if qualifier = Some (CHR ''h'')
      then (if signd then scast (ucast w :: u16) else ucast (ucast w :: u16)) else w)"

definition base_of :: "char \<Rightarrow> nat option" where
  "base_of k =
     (if k = CHR ''o'' then Some 8
      else if k = CHR ''x'' \<or> k = CHR ''X'' then Some 16
      else if k = CHR ''d'' \<or> k = CHR ''i'' \<or> k = CHR ''u'' then Some 10 else None)"

text \<open>One conversion: the character \<open>k\<close> after width, precision and qualifier. Pointers
  (\<open>%p\<close>) are passed as integers.\<close>

definition convert :: "nat \<Rightarrow> char \<Rightarrow> pf_flags \<Rightarrow> int \<Rightarrow> int \<Rightarrow> char option \<Rightarrow> fmt_arg list \<Rightarrow>
    string \<Rightarrow> fmt_arg list \<times> string" where
  "convert endp k fl width precision qualifier args out =
     (if k = CHR ''c'' then
        (let (w, args') = next_int args; c = char_of (unat w mod 256)
         in if LEFT fl then (args', out @ [c] @ pad (width - 1) (CHR '' ''))
            else (args', out @ pad (width - 1) (CHR '' '') @ [c]))
      else if k = CHR ''s'' then
        (let (s, args') = next_str args;
             len = (if precision > 0 \<and> int (length s) > precision then nat precision else length s);
             fill = pad (width - int len) (CHR '' '')
         in if LEFT fl then (args', out @ take len s @ fill)
            else (args', out @ fill @ take len s))
      else if k = CHR ''p'' then
        (let (w, args') = next_int args
         in if width = - 1
            then (args', print_number out endp w 16 8 precision (fl\<lparr>ZEROPAD := True\<rparr>))
            else (args', print_number out endp w 16 width precision fl))
      else if k = CHR ''%'' then (args, out @ [CHR ''%''])
      else case base_of k of
             None \<Rightarrow> (args, out @ [CHR ''%'', k])
           | Some base \<Rightarrow>
               (let fl' = (if k = CHR ''X'' then fl\<lparr>LARGE := True\<rparr>
                           else if k = CHR ''d'' \<or> k = CHR ''i'' then fl\<lparr>SIGN := True\<rparr> else fl);
                    (w, args') = next_int args
                in (args', print_number out endp (int_arg qualifier (SIGN fl') w) base width
                             precision fl')))"

lemma parse_flags_length: "length (snd (parse_flags cs fl)) \<le> length cs"
  by (induction cs fl rule: parse_flags.induct) auto

lemma skip_atoi_length: "length (snd (skip_atoi i cs)) \<le> length cs"
  by (induction i cs rule: skip_atoi.induct) auto

lemma parse_width_length: "length (snd (snd (snd (parse_width cs args fl)))) \<le> length cs"
  using skip_atoi_length [of 0 cs]
  by (auto simp: parse_width_def Let_def split: list.splits prod.splits)

lemma parse_precision_length: "length (snd (snd (parse_precision cs args))) \<le> length cs"
  using skip_atoi_length [of 0 "tl cs"]
  by (auto simp: parse_precision_def Let_def split: list.splits prod.splits)

lemma parse_qualifier_length: "length (snd (parse_qualifier cs)) \<le> length cs"
  by (auto simp: parse_qualifier_def split: list.splits)

text \<open>A conversion specification without its final character.\<close>

definition parse_spec :: "string \<Rightarrow> fmt_arg list \<Rightarrow>
    pf_flags \<times> int \<times> int \<times> char option \<times> fmt_arg list \<times> string" where
  "parse_spec fmt args =
     (let (fl, f1) = parse_flags fmt no_flags;
          (width, fl', args1, f2) = parse_width f1 args fl;
          (precision, args2, f3) = parse_precision f2 args1;
          (qualifier, f4) = parse_qualifier f3
      in (fl', width, precision, qualifier, args2, f4))"

lemma parse_spec_length:
  assumes "parse_spec cs args = (fl, width, precision, qualifier, args', rest)"
  shows "length rest \<le> length cs"
proof -
  obtain fl1 f1 where p1: "parse_flags cs no_flags = (fl1, f1)" by fastforce
  obtain w fl2 a1 f2 where p2: "parse_width f1 args fl1 = (w, fl2, a1, f2)" by (metis prod_cases4)
  obtain p a2 f3 where p3: "parse_precision f2 a1 = (p, a2, f3)" by (metis prod_cases3)
  obtain q f4 where p4: "parse_qualifier f3 = (q, f4)" by fastforce
  have "rest = f4" using assms p1 p2 p3 p4 by (simp add: parse_spec_def)
  then show ?thesis
    using parse_flags_length [of cs no_flags] parse_width_length [of f1 args fl1]
      parse_precision_length [of f2 a1] parse_qualifier_length [of f3] p1 p2 p3 p4 by simp
qed

function vsn :: "nat \<Rightarrow> string \<Rightarrow> fmt_arg list \<Rightarrow> string \<Rightarrow> string" where
  "vsn endp [] args out = out"
| "vsn endp (c # fmt) args out =
     (if c \<noteq> CHR ''%'' then vsn endp fmt args (out @ [c])
      else case parse_spec fmt args of
             (fl, width, precision, qualifier, args', rest) \<Rightarrow>
               (case rest of
                  [] \<Rightarrow> out @ [CHR ''%'']
                | k # fmt' \<Rightarrow>
                    (case convert endp k fl width precision qualifier args' out of
                       (args'', out') \<Rightarrow> vsn endp fmt' args'' out')))"
  by pat_completeness auto
termination
  by (relation "measure (\<lambda>(_, fmt, _, _). length fmt)")
    (auto dest!: parse_spec_length [OF sym])

text \<open>
  \<open>rt_vsnprintf\<close>: the text left in the buffer (without its terminator) and the number returned,
  which counts the characters that did not fit. With \<open>size = 0\<close> the end of the buffer is taken
  to be the end of the address space.
\<close>

definition rt_vsnprintf :: "nat \<Rightarrow> string \<Rightarrow> fmt_arg list \<Rightarrow> string \<times> nat" where
  "rt_vsnprintf sz fmt args =
     (let endp = (if sz = 0 then 2 ^ 32 - 1 else sz - 1);
          out = vsn endp fmt args []
      in (take endp out, length out))"

definition rt_snprintf :: "nat \<Rightarrow> string \<Rightarrow> fmt_arg list \<Rightarrow> string \<times> nat" where
  "rt_snprintf sz fmt args = rt_vsnprintf sz fmt args"

definition rt_sprintf :: "string \<Rightarrow> fmt_arg list \<Rightarrow> string" where
  "rt_sprintf fmt args = fst (rt_vsnprintf 0 fmt args)"


section \<open>Scanning\<close>

text \<open>
  The conversions of the C library's \<open>sscanf\<close> that the application uses: \<open>%d\<close>, a literal
  character and \<open>%*s\<close> (skip a word, assign nothing). The result is the list of the integers
  assigned, so its length is what \<open>sscanf\<close> returns (or 0 where it returns \<open>EOF\<close>; every
  caller compares with the full number of conversions). A number that does not fit \<open>int\<close> is
  undefined in C and is reduced to 32 bits where the value is stored.
\<close>

definition is_space :: "char \<Rightarrow> bool" where
  "is_space c \<longleftrightarrow> c = CHR '' '' \<or> (9 \<le> (of_char c :: nat) \<and> of_char c \<le> (13 :: nat))"

definition scan_unsigned :: "string \<Rightarrow> (nat \<times> string) option" where
  "scan_unsigned s =
     (case s of [] \<Rightarrow> None | c # _ \<Rightarrow> if is_digit c then Some (skip_atoi 0 s) else None)"

definition scan_d :: "string \<Rightarrow> (int \<times> string) option" where
  "scan_d s =
     (case dropWhile is_space s of
        [] \<Rightarrow> None
      | c # cs \<Rightarrow>
          if c = CHR ''-'' then map_option (\<lambda>(n, r). (- int n, r)) (scan_unsigned cs)
          else if c = CHR ''+'' then map_option (\<lambda>(n, r). (int n, r)) (scan_unsigned cs)
          else map_option (\<lambda>(n, r). (int n, r)) (scan_unsigned (c # cs)))"

datatype scan_item = ScanD | ScanLit char | ScanSkip

fun sscanf :: "scan_item list \<Rightarrow> string \<Rightarrow> int list" where
  "sscanf [] s = []"
| "sscanf (ScanD # fmt) s =
     (case scan_d s of None \<Rightarrow> [] | Some (v, r) \<Rightarrow> v # sscanf fmt r)"
| "sscanf (ScanLit c # fmt) s =
     (case s of [] \<Rightarrow> [] | d # r \<Rightarrow> if d = c then sscanf fmt r else [])"
| "sscanf (ScanSkip # fmt) s =
     (let t = dropWhile is_space s
      in if t = [] then [] else sscanf fmt (dropWhile (\<lambda>c. \<not> is_space c) t))"

section \<open>Decimal output and its inverse\<close>

definition digit_char :: "nat \<Rightarrow> char" where
  "digit_char d = small_digits ! d"

fun decimal :: "nat \<Rightarrow> string" where
  "decimal n = (if n < 10 then [digit_char n] else decimal (n div 10) @ [digit_char (n mod 10)])"

declare decimal.simps [simp del]

definition signed_decimal :: "int \<Rightarrow> string" where
  "signed_decimal i = (if i < 0 then CHR ''-'' # decimal (nat (- i)) else decimal (nat i))"

lemma less_10_cases: "(d :: nat) < 10 \<Longrightarrow> d \<in> {0, 1, 2, 3, 4, 5, 6, 7, 8, 9}"
  by auto

lemma digit_char_props:
  assumes "d < 10"
  shows "is_digit (digit_char d)" "digit_value (digit_char d) = d" "\<not> is_space (digit_char d)"
    "digit_char d \<noteq> CHR ''-''" "digit_char d \<noteq> CHR ''+''"
  using less_10_cases [OF assms]
  by (auto simp: digit_char_def small_digits_def is_digit_def digit_value_def is_space_def)

lemma decimal_not_Nil [simp]: "decimal n \<noteq> []"
  by (subst decimal.simps) simp

lemma decimal_digits: "list_all is_digit (decimal n)"
  by (induction n rule: decimal.induct)
    (subst decimal.simps, auto simp: digit_char_props)

lemma tmp_digits_decimal:
  "0 < n \<Longrightarrow> rev (tmp_digits small_digits 10 n) = decimal n"
proof (induction n rule: less_induct)
  case (less n)
  then show ?case
    by (cases "n < 10")
      (simp_all add: tmp_digits.simps [of _ _ n] tmp_digits.simps [of _ _ 0] decimal.simps [of n]
        divide_def digit_char_def)
qed

lemma unat_uminus_sint: "sint (w :: u32) < 0 \<Longrightarrow> unat (- w) = nat (- sint w)"
proof -
  assume neg: "sint w < 0"
  have "- (2 ^ 31) \<le> sint w" using sint_greater_eq [of w] by simp
  then have r: "nat (- sint w) < 2 ^ 32" using neg by simp
  have "- w = word_of_int (- sint w)" by simp
  then have "- w = of_nat (nat (- sint w))" using neg by simp
  then have "unat (- w) = nat (- sint w) mod 2 ^ 32" by (simp only: unat_of_nat) simp
  with r show ?thesis by (simp del: power_numeral)
qed

lemma unat_sint: "0 \<le> sint (w :: u32) \<Longrightarrow> unat w = nat (sint w)"
proof -
  assume pos: "0 \<le> sint w"
  have "sint w < 2 ^ 32" using sint_lt [of w] by simp
  then have "uint w = sint w" using pos by (simp add: uint_sint take_bit_int_eq_self)
  then show ?thesis by (metis unat_eq_nat_uint)
qed

lemma unat_bounds: "unat (x :: u16) < 65536" "unat (b :: byte) < 256"
  using unsigned_less [of x, where ?'a = nat] unsigned_less [of b, where ?'a = nat] by simp_all

lemma unat_ucast_small [simp]:
  "unat (ucast (x :: u16) :: u32) = unat x" "unat (ucast (b :: byte) :: u32) = unat b"
  "unat (ucast (b :: byte) :: u16) = unat b"
  using unat_bounds(1) [of x] unat_bounds(2) [of b] by (simp_all add: unsigned_ucast_eq take_bit_eq_mod)

lemma sint_small: "unat (w :: u32) < 2147483648 \<Longrightarrow> sint w = int (unat w)"
proof -
  assume "unat w < 2147483648"
  then have "int (unat w) < 2147483648" by linarith
  then have "uint w < 2147483648" by simp
  moreover have "0 \<le> uint w" by simp
  moreover have "(2 :: int) ^ 31 = 2147483648" by simp
  ultimately have "- (2 ^ 31) \<le> uint w" "uint w < 2 ^ 31" by linarith+
  then have "signed_take_bit 31 (uint w) = uint w" by (rule signed_take_bit_int_eq_self)
  then have "sint w = uint w" by (simp add: sint_uint)
  then show ?thesis by simp
qed

lemma sint_ucast_small [simp]:
  "sint (ucast (x :: u16) :: u32) = uint x" "sint (ucast (b :: byte) :: u32) = uint b"
  using sint_small [of "ucast x"] sint_small [of "ucast b"] unat_bounds(1) [of x] unat_bounds(2) [of b]
  by simp_all

lemma print_number_plain:
  assumes "t = rev (if n = 0 then ''0'' else tmp_digits small_digits 10 n)"
    and "sg = (if sint w < 0 then [CHR ''-''] else [])"
    and "n = unat (if sint w < 0 then - w else w)"
  shows "print_number out endp w 10 (- 1) (- 1) (no_flags\<lparr>SIGN := True\<rparr>) = out @ sg @ t"
  using assms
  by (cases "sint w < 0") (simp_all add: print_number_def no_flags_def Let_def pad_def after_pad_def)

lemma decimal_rev_tmp:
  "rev (if n = 0 then ''0'' else tmp_digits small_digits 10 n) = decimal n"
  by (simp add: tmp_digits_decimal decimal.simps [of 0] digit_char_def)
    (simp add: small_digits_def)

lemma print_number_d:
  "print_number out endp w 10 (- 1) (- 1) (no_flags\<lparr>SIGN := True\<rparr>) =
     out @ signed_decimal (sint w)"
  unfolding print_number_plain [OF decimal_rev_tmp [symmetric] refl refl]
  by (simp add: signed_decimal_def unat_uminus_sint unat_sint)

lemma vsn_lit [simp]: "c \<noteq> CHR ''%'' \<Longrightarrow> vsn endp (c # fmt) args out = vsn endp fmt args (out @ [c])"
  by simp

lemma vsn_s [simp]:
  "vsn endp (CHR ''%'' # CHR ''s'' # fmt) (ArgStr s # args) out = vsn endp fmt args (out @ s)"
  by (simp add: parse_spec_def parse_width_def parse_precision_def parse_qualifier_def
      is_digit_def convert_def pad_def Let_def)

lemma vsn_d [simp]:
  "vsn endp (CHR ''%'' # CHR ''d'' # fmt) (ArgInt w # args) out =
     vsn endp fmt args (out @ signed_decimal (sint w))"
  by (simp add: parse_spec_def parse_width_def parse_precision_def parse_qualifier_def
      is_digit_def convert_def base_of_def int_arg_def print_number_d)

text \<open>Zero-padded output, as in the time stamps of the logs.\<close>

definition zpad :: "nat \<Rightarrow> nat \<Rightarrow> string" where
  "zpad k n = replicate (k - length (decimal n)) (CHR ''0'') @ decimal n"

lemma print_number_zpad:
  assumes "0 \<le> sint w"
  shows "print_number out endp w 10 (int k) (- 1) (no_flags\<lparr>ZEROPAD := True, SIGN := True\<rparr>) =
    out @ zpad k (unat w)"
proof -
  have len: "length (decimal (unat w)) =
      length (if unat w = 0 then ''0'' else tmp_digits small_digits 10 (unat w))"
    using decimal_rev_tmp [of "unat w"] by (metis length_rev)
  have pos: "\<not> sint w < 0" using assms by simp
  have nm: "nat (int a - int b) = a - b" for a b by simp
  show ?thesis
  proof (cases "unat w = 0")
    case True
    then show ?thesis
      using pos nm [of k 1] decimal_rev_tmp [of 0, symmetric]
      by (simp add: print_number_def no_flags_def pad_def after_pad_def zpad_def)
  next
    case False
    then show ?thesis
      using pos len decimal_rev_tmp [of "unat w"]
        nm [of k "length (tmp_digits small_digits 10 (unat w))"]
      by (simp add: print_number_def no_flags_def Let_def pad_def after_pad_def zpad_def)
  qed
qed

lemma vsn_02d [simp]:
  "0 \<le> sint w \<Longrightarrow> vsn endp (CHR ''%'' # CHR ''0'' # CHR ''2'' # CHR ''d'' # fmt) (ArgInt w # args) out =
     vsn endp fmt args (out @ zpad 2 (unat w))"
  using print_number_zpad [of w out endp 2]
  by (simp add: parse_spec_def parse_width_def parse_precision_def parse_qualifier_def
      is_digit_def digit_value_def convert_def base_of_def int_arg_def)

lemma vsn_04d [simp]:
  "0 \<le> sint w \<Longrightarrow> vsn endp (CHR ''%'' # CHR ''0'' # CHR ''4'' # CHR ''d'' # fmt) (ArgInt w # args) out =
     vsn endp fmt args (out @ zpad 4 (unat w))"
  using print_number_zpad [of w out endp 4]
  by (simp add: parse_spec_def parse_width_def parse_precision_def parse_qualifier_def
      is_digit_def digit_value_def convert_def base_of_def int_arg_def)

text \<open>Right-aligned output in a column of \<open>k\<close> characters, as in the tables of the work state log.\<close>

definition lpad :: "nat \<Rightarrow> int \<Rightarrow> string" where
  "lpad k i = replicate (k - length (signed_decimal i)) (CHR '' '') @ signed_decimal i"

lemma print_number_lpad:
  "print_number out endp w 10 (int k) (- 1) (no_flags\<lparr>SIGN := True\<rparr>) = out @ lpad k (sint w)"
proof -
  define n where "n = unat (if sint w < 0 then - w else w)"
  have sd: "signed_decimal (sint w) = (if sint w < 0 then [CHR ''-''] else []) @ decimal n"
    by (simp add: signed_decimal_def n_def unat_uminus_sint unat_sint)
  have nm: "nat (int a - int b - 1) = a - Suc b" "nat (int a - int b) = a - b" "nat (int a - 2) = a - Suc (Suc 0)" for a b
    by simp_all
  show ?thesis
  proof (cases "n = 0")
    case True
    then show ?thesis
      unfolding lpad_def sd
      by (cases "sint w < 0") (simp_all add: print_number_def no_flags_def Let_def pad_def after_pad_def nm
          n_def decimal_rev_tmp [of 0, symmetric])
  next
    case False
    define t where "t = tmp_digits small_digits 10 n"
    have d: "decimal n = rev t" using False by (simp add: t_def tmp_digits_decimal)
    have l: "t \<noteq> []" using d decimal_not_Nil [of n] by auto
    have nt: "(if sint w < 0 then unat (- w) else unat w) = n" by (simp add: n_def)
    show ?thesis
      using False l nt unfolding lpad_def sd d
      by (cases "sint w < 0")
        (simp_all add: print_number_def no_flags_def Let_def pad_def after_pad_def t_def [symmetric] nm
          del: of_nat_diff)
  qed
qed

lemma parse_spec_wide:
  "d \<in> set ''23456'' \<Longrightarrow> parse_spec (d # CHR ''d'' # fmt) args =
     (no_flags, int (digit_value d), - 1, None, args, CHR ''d'' # fmt)"
  unfolding list.set insert_iff
  by (elim disjE) (simp_all add: parse_spec_def parse_width_def parse_precision_def parse_qualifier_def
      is_digit_def digit_value_def)

lemma vsn_wide:
  "d \<in> set ''23456'' \<Longrightarrow> vsn endp (CHR ''%'' # d # CHR ''d'' # fmt) (ArgInt w # args) out =
     vsn endp fmt args (out @ lpad (digit_value d) (sint w))"
  using print_number_lpad [of out endp w "digit_value d"]
  by (simp add: parse_spec_wide convert_def base_of_def int_arg_def del: list.set)

lemma vsn_columns [simp]:
  "vsn endp (CHR ''%'' # CHR ''2'' # CHR ''d'' # fmt) (ArgInt w # args) out = vsn endp fmt args (out @ lpad 2 (sint w))"
  "vsn endp (CHR ''%'' # CHR ''3'' # CHR ''d'' # fmt) (ArgInt w # args) out = vsn endp fmt args (out @ lpad 3 (sint w))"
  "vsn endp (CHR ''%'' # CHR ''4'' # CHR ''d'' # fmt) (ArgInt w # args) out = vsn endp fmt args (out @ lpad 4 (sint w))"
  "vsn endp (CHR ''%'' # CHR ''5'' # CHR ''d'' # fmt) (ArgInt w # args) out = vsn endp fmt args (out @ lpad 5 (sint w))"
  "vsn endp (CHR ''%'' # CHR ''6'' # CHR ''d'' # fmt) (ArgInt w # args) out = vsn endp fmt args (out @ lpad 6 (sint w))"
  using vsn_wide [of "CHR ''2''"] vsn_wide [of "CHR ''3''"] vsn_wide [of "CHR ''4''"] vsn_wide [of "CHR ''5''"]
    vsn_wide [of "CHR ''6''"]
  by (simp_all add: digit_value_def del: vsn.simps)

lemma vsn_wide10 [simp]:
  "vsn endp (CHR ''%'' # CHR ''1'' # CHR ''0'' # CHR ''d'' # fmt) (ArgInt w # args) out =
     vsn endp fmt args (out @ lpad 10 (sint w))"
  using print_number_lpad [of out endp w 10]
  by (simp add: parse_spec_def parse_width_def parse_precision_def parse_qualifier_def
      is_digit_def digit_value_def convert_def base_of_def int_arg_def)

declare vsn.simps(2) [simp del]

definition atoi_step :: "char \<Rightarrow> nat \<Rightarrow> nat" where
  "atoi_step c k = k * 10 + digit_value c"

lemma skip_atoi_fold:
  "list_all is_digit ds \<Longrightarrow> skip_atoi i (ds @ r) = skip_atoi (fold atoi_step ds i) r"
  by (induction ds arbitrary: i) (auto simp: atoi_step_def)

lemma fold_atoi_decimal: "fold atoi_step (decimal n) i = i * 10 ^ length (decimal n) + n"
proof (induction n arbitrary: i rule: decimal.induct)
  case (1 n)
  then show ?case
    by (cases "n < 10")
      (simp_all add: decimal.simps [of n] atoi_step_def digit_char_props algebra_simps)
qed

lemma skip_atoi_decimal:
  assumes "r = [] \<or> \<not> is_digit (hd r)"
  shows "skip_atoi 0 (decimal n @ r) = (n, r)"
  using assms by (cases r) (auto simp: skip_atoi_fold [OF decimal_digits] fold_atoi_decimal
      intro: skip_atoi_fold [OF decimal_digits, of 0 n "[]", simplified])

lemma hd_decimal: "\<exists>d < 10. hd (decimal n) = digit_char d"
proof (induction n rule: decimal.induct)
  case (1 n)
  then show ?case by (cases "n < 10") (auto simp: decimal.simps [of n])
qed

lemma scan_unsigned_decimal:
  assumes "r = [] \<or> \<not> is_digit (hd r)"
  shows "scan_unsigned (decimal n @ r) = Some (n, r)"
proof -
  obtain c cs where c: "decimal n = c # cs" by (cases "decimal n") auto
  moreover have "is_digit c" using decimal_digits [of n] c by simp
  ultimately show ?thesis
    using skip_atoi_decimal [OF assms, of n] by (simp add: scan_unsigned_def)
qed

lemma scan_signed_decimal [simp]:
  assumes "r = [] \<or> \<not> is_digit (hd r)"
  shows "scan_d (signed_decimal v @ r) = Some (v, r)"
proof (cases "v < 0")
  case True
  then show ?thesis
    by (simp add: signed_decimal_def scan_d_def is_space_def scan_unsigned_decimal [OF assms])
next
  case False
  obtain c cs where c: "decimal (nat v) = c # cs" by (cases "decimal (nat v)") auto
  with hd_decimal [of "nat v"] digit_char_props(3-5)
  have "\<not> is_space c" "c \<noteq> CHR ''-''" "c \<noteq> CHR ''+''" by auto
  with False c scan_unsigned_decimal [OF assms, of "nat v"] show ?thesis
    by (simp add: signed_decimal_def scan_d_def)
qed

lemma length_decimal: "0 < k \<Longrightarrow> n < 10 ^ k \<Longrightarrow> length (decimal n) \<le> k"
proof (induction n arbitrary: k rule: decimal.induct)
  case (1 n)
  show ?case
  proof (cases "n < 10")
    case False
    then obtain j where j: "k = Suc j" "0 < j" using 1(2,3) by (cases k; cases "k - 1") auto
    with 1(3) have "n div 10 < 10 ^ j" by (simp add: less_mult_imp_div_less mult.commute)
    with 1(1) False j show ?thesis by (simp add: decimal.simps [of n])
  qed (use 1(2) in \<open>simp add: decimal.simps [of n]\<close>)
qed

lemma length_signed_decimal: "length (signed_decimal (sint (w :: u32))) \<le> 11"
proof -
  have "sint w < 2 ^ 31" "- (2 ^ 31) \<le> sint w" using sint_lt [of w] sint_greater_eq [of w] by simp_all
  then have "nat (sint w) < 10 ^ 10" "nat (- sint w) < 10 ^ 10" by simp_all
  then show ?thesis
    using length_decimal [of 10 "nat (sint w)"] length_decimal [of 10 "nat (- sint w)"]
    by (simp add: signed_decimal_def)
qed

lemma rt_sprintf_vsn:
  "length (vsn (2 ^ 32 - 1) fmt args []) < 2 ^ 32 \<Longrightarrow>
     rt_sprintf fmt args = vsn (2 ^ 32 - 1) fmt args []"
  by (simp add: rt_sprintf_def rt_vsnprintf_def Let_def)

text \<open>Integers survive printing and scanning: what \<open>rt_sprintf(buf, "%d;%d", ...)\<close> prints
  for any two 32-bit integers, \<open>sscanf(buf, "%d;%d", ...)\<close> reads back (the record format of the
  parking lists); with four numbers and dots it is the dotted notation of the TCP server.\<close>

theorem printed_numbers_scan_back:
  "sscanf [ScanD, ScanLit (CHR '';''), ScanD] (rt_sprintf ''%d;%d'' [ArgInt v, ArgInt w]) =
     [sint v, sint w]"
proof -
  have "rt_sprintf ''%d;%d'' [ArgInt v, ArgInt w] =
      signed_decimal (sint v) @ CHR '';'' # signed_decimal (sint w)"
    using length_signed_decimal [of v] length_signed_decimal [of w]
    by (subst rt_sprintf_vsn) simp_all
  moreover have "scan_d (signed_decimal (sint w)) = Some (sint w, [])"
    using scan_signed_decimal [of "[]"] by simp
  ultimately show ?thesis by (simp add: is_digit_def)
qed

end
