(* ===== verification/System_Log.thy ===== *)
theory System_Log
  imports Rtc Kservice
begin

text \<open>
  The system log, \<open>applications/user_components/system_log.c\<close>: time-stamped lines appended to
  the log file of \<open>Log_Base\<close>. The state adds what a C function can see of its stack: the
  value an uninitialised \<open>RTC_T\<close> local has (used when the clock cannot be read) and the bytes that
  follow a character buffer (read when the formatted text does not fit and its full length is used).
\<close>

record sys_st = rtc_st +
  stack_rtc :: RTC_T
  stack_mem :: mem

text \<open>The first \<open>len\<close> bytes at the address of a buffer that holds \<open>text\<close> and its terminator.\<close>

definition buffer_bytes :: "string \<Rightarrow> nat \<Rightarrow> mem \<Rightarrow> byte list" where
  "buffer_bytes txt len beyond =
     map (\<lambda>i. if i < length txt then of_char (txt ! i) else if i = length txt then 0 else beyond i)
       [0..<len]"

definition stamp_args :: "RTC_T \<Rightarrow> fmt_arg list" where
  "stamp_args t =
     [ArgInt (ucast (year t)), ArgInt (ucast (month t)), ArgInt (ucast (day t)),
      ArgInt (ucast (hour t)), ArgInt (ucast (minute t)), ArgInt (ucast (second t))]"

definition add_log :: "string \<Rightarrow> 'a sys_st_scheme \<Rightarrow> 'a sys_st_scheme" where
  "add_log data s =
     (let rtc = fst (pcf8563_get_datetime (stack_rtc s) s);
          (str_log, len) = rt_snprintf 256 (''%04d-%02d-%02d %02d:%02d:%02d  %s'' @ [CHR 0x0D, CHR 0x0A])
            (stamp_args rtc @ [ArgStr data])
      in log_write (buffer_bytes str_log len (stack_mem s)) SYSTEM_LOG s)"

definition prepare_read_system_log :: "'a sys_st_scheme \<Rightarrow> nat \<times> 'a sys_st_scheme" where
  "prepare_read_system_log s =
     (let s' = prepare_read SYSTEM_LOG s in (calculate_file_size SYSTEM_LOG s', s'))"

definition read_system_log :: "nat \<Rightarrow> 'a sys_st_scheme \<Rightarrow> byte list \<times> 'a sys_st_scheme" where
  "read_system_log n s = log_read n SYSTEM_LOG s"

section \<open>The lines\<close>

definition time_stamp :: "RTC_T \<Rightarrow> string" where
  "time_stamp t = zpad 4 (unat (year t)) @ ''-'' @ zpad 2 (unat (month t)) @ ''-'' @
     zpad 2 (unat (day t)) @ '' '' @ zpad 2 (unat (hour t)) @ '':'' @ zpad 2 (unat (minute t)) @
     '':'' @ zpad 2 (unat (second t))"

definition log_line :: "RTC_T \<Rightarrow> string \<Rightarrow> string" where
  "log_line t data = time_stamp t @ ''  '' @ data @ [CHR 0x0D, CHR 0x0A]"

lemma vsn_log_line:
  "vsn endp (''%04d-%02d-%02d %02d:%02d:%02d  %s'' @ [CHR 0x0D, CHR 0x0A])
     (stamp_args t @ [ArgStr data]) [] = log_line t data"
  by (simp add: stamp_args_def log_line_def time_stamp_def)


text \<open>The bytes one call appends. A line of more than 255 characters is cut off by \<open>rt_snprintf\<close>,
  but the full length is written: the terminator and what follows the buffer go to the log.\<close>

definition line_bytes :: "RTC_T \<Rightarrow> string \<Rightarrow> mem \<Rightarrow> byte list" where
  "line_bytes t data beyond =
     (let line = log_line t data
      in if length line \<le> 255 then bytes_of line
         else bytes_of (take 255 line) @ 0 # map beyond [256..<length line])"

lemma buffer_bytes_fits: "len = length txt \<Longrightarrow> buffer_bytes txt len beyond = bytes_of txt"
  by (rule nth_equalityI) (auto simp: buffer_bytes_def bytes_of_def)

lemma buffer_bytes_over:
  assumes "length txt < len"
  shows "buffer_bytes txt len beyond = bytes_of txt @ 0 # map beyond [Suc (length txt)..<len]"
proof -
  have "[0..<len] = [0..<length txt] @ length txt # [Suc (length txt)..<len]"
    using assms upt_add_eq_append [of 0 "length txt" "len - length txt"] upt_conv_Cons [of "length txt" len]
    by simp
  then show ?thesis
    by (auto simp: buffer_bytes_def bytes_of_def intro!: nth_equalityI)
qed

lemma add_log_write:
  "add_log data s =
     log_write (line_bytes (fst (pcf8563_get_datetime (stack_rtc s) s)) data (stack_mem s)) SYSTEM_LOG s"
proof -
  let ?t = "fst (pcf8563_get_datetime (stack_rtc s) s)"
  define line where "line = log_line ?t data"
  have "rt_snprintf 256 (''%04d-%02d-%02d %02d:%02d:%02d  %s'' @ [CHR 0x0D, CHR 0x0A])
      (stamp_args ?t @ [ArgStr data]) = (take 255 line, length line)"
    by (simp only: rt_snprintf_def rt_vsnprintf_def vsn_log_line Let_def) (simp add: line_def)
  moreover have "buffer_bytes (take 255 line) (length line) (stack_mem s) =
      line_bytes ?t data (stack_mem s)"
    by (cases "length line \<le> 255")
      (simp_all add: line_bytes_def buffer_bytes_fits buffer_bytes_over line_def [symmetric])
  ultimately show ?thesis by (simp add: add_log_def Let_def)
qed

lemma log_write_frame_sys:
  "dev_rtc (log_write buf type s) = dev_rtc s \<and> rtc_io (log_write buf type s) = rtc_io s \<and>
   rtc_regs (log_write buf type s) = rtc_regs s \<and>
   stack_rtc (log_write buf type s) = stack_rtc s \<and> stack_mem (log_write buf type s) = stack_mem s"
  for s :: "'a sys_st_scheme"
  by (intro conjI; subst log_write_only; simp)

lemma clock_log_write: "pcf8563_get_datetime u (log_write buf type s) = pcf8563_get_datetime u s"
  for s :: "'a sys_st_scheme"
  unfolding pcf8563_get_datetime_def using log_write_frame_sys [of buf type s] by simp

lemma clock_add_log: "pcf8563_get_datetime u (add_log data s) = pcf8563_get_datetime u s"
  "stack_rtc (add_log data s) = stack_rtc s" "stack_mem (add_log data s) = stack_mem s"
  by (simp_all add: add_log_write clock_log_write log_write_frame_sys)

text \<open>C25. The system log: while the clock shows \<open>t\<close>, any sequence of \<open>add_log\<close> calls appends
  exactly one line per message to the history of the log, the time stamp, the message and CR LF, in
  order; a line of more than 255 characters is cut and followed by a zero byte and the bytes behind
  the buffer.\<close>

theorem add_log_appends_lines:
  assumes "log_holds SYSTEM_LOG s h" and "fst (pcf8563_get_datetime (stack_rtc s) s) = t"
    and "stack_mem s = b"
  shows "log_holds SYSTEM_LOG (fold add_log ds s) (h @ concat (map (\<lambda>d. line_bytes t d b) ds))"
  by (rule flash_log.append_entries
      [where I = "\<lambda>s. fst (pcf8563_get_datetime (stack_rtc s) s) = t \<and> stack_mem s = b"])
    (use assms in \<open>auto simp: clock_add_log\<close>, simp_all add: add_log_write)

definition demo_sys :: sys_st where
  "demo_sys = \<lparr>flash = (\<lambda>_. 0xff), log_infos = init_info, dev_rtc = False, rtc_io = False,
     rtc_regs = (\<lambda>_. 0),
     stack_rtc = \<lparr>year = 2017, month = 5, day = 18, hour = 1, minute = 2, second = 3, week = 0\<rparr>,
     stack_mem = (\<lambda>_. 0)\<rparr>"

theorem add_log_appends_lines_witness:
  "log_holds SYSTEM_LOG (fold add_log [''Power On'', ''bye''] demo_sys)
     (bytes_of (''2017-05-18 01:02:03  Power On'' @ [CHR 0x0D, CHR 0x0A] @
        ''2017-05-18 01:02:03  bye'' @ [CHR 0x0D, CHR 0x0A]))"
proof -
  have h: "log_holds SYSTEM_LOG demo_sys []"
    using ring_blank by (auto simp: log_holds_def demo_sys_def)
  show ?thesis
    using add_log_appends_lines [OF h refl refl, of "[''Power On'', ''bye'']"]
    by (simp add: demo_sys_def pcf8563_get_datetime_def line_bytes_def log_line_def time_stamp_def zpad_def
        decimal.simps digit_char_def small_digits_def bytes_of_def)
qed

end
