(* ===== verification/Embedded_Flash.thy ===== *)
theory Embedded_Flash
  imports System_Log
begin

text \<open>
  The device parameters in the flash of the microcontroller,
  \<open>applications/user_components/embedded_flash.c\<close>. The flash controller functions of the vendor
  library are parameters of \<open>save_device_params\<close>; what the code relies on is the locale
  \<open>fmc\<close>: an erase that reports \<open>FMC_READY\<close> leaves the page erased, and a half-word
  programmed into an erased cell is stored and reported as ready.
\<close>

abbreviation (input) EMB_PAGE_SIZE :: nat where "EMB_PAGE_SIZE \<equiv> 2048"
abbreviation (input) DEVICE_PARAMS_ADDRESS :: nat where "DEVICE_PARAMS_ADDRESS \<equiv> 0x08007800"

record device_params_t =
  id_str :: "byte list"
  eth_mac :: "byte list"
  reserved :: u16
  dev_id :: u32

record emb_st = sys_st +
  emb :: mem
  wnc_device :: device_params_t

text \<open>The packed structure: 10 + 6 + 2 + 4 bytes.\<close>

definition params_bytes :: "device_params_t \<Rightarrow> byte list" where
  "params_bytes d = id_str d @ eth_mac d @ le16 (reserved d) @ le32 (dev_id d)"

definition params_of :: "byte list \<Rightarrow> device_params_t" where
  "params_of b = \<lparr>id_str = take 10 b, eth_mac = take 6 (drop 10 b), reserved = rd_le16 b 16,
     dev_id = rd_le32 b 18\<rparr>"

definition params_wf :: "device_params_t \<Rightarrow> bool" where
  "params_wf d \<longleftrightarrow> length (id_str d) = 10 \<and> length (eth_mac d) = 6"

section \<open>The C library's \<open>strtol\<close> with base 0\<close>

definition digit_of :: "byte \<Rightarrow> nat" where
  "digit_of b =
     (if 48 \<le> b \<and> b \<le> 57 then unat b - 48
      else if 97 \<le> b \<and> b \<le> 122 then unat b - 87
      else if 65 \<le> b \<and> b \<le> 90 then unat b - 55 else 99)"

fun strtol_digits :: "nat \<Rightarrow> nat \<Rightarrow> byte list \<Rightarrow> nat" where
  "strtol_digits base acc [] = acc"
| "strtol_digits base acc (b # bs) =
     (if digit_of b < base then strtol_digits base (acc * base + digit_of b) bs else acc)"

definition strtol_magnitude :: "byte list \<Rightarrow> nat" where
  "strtol_magnitude bs =
     (if bs \<noteq> [] \<and> hd bs = 48
      then if 2 < length bs \<and> (bs ! 1 = 120 \<or> bs ! 1 = 88) \<and> digit_of (bs ! 2) < 16
           then strtol_digits 16 0 (drop 2 bs) else strtol_digits 8 0 bs
      else strtol_digits 10 0 bs)"

definition strtol :: "byte list \<Rightarrow> int" where
  "strtol bs =
     (let t = dropWhile (\<lambda>b. b = 32 \<or> (9 \<le> b \<and> b \<le> 13)) bs
      in if t \<noteq> [] \<and> hd t = 45 then max (- (2 ^ 31)) (- int (strtol_magnitude (tl t)))
         else if t \<noteq> [] \<and> hd t = 43 then min (2 ^ 31 - 1) (int (strtol_magnitude (tl t)))
         else min (2 ^ 31 - 1) (int (strtol_magnitude t)))"

section \<open>Operations\<close>

text \<open>The identifier string is scanned to its terminator, which may lie in the following members.\<close>

definition get_device_params :: "'a emb_st_scheme \<Rightarrow> 'a emb_st_scheme" where
  "get_device_params s =
     (let b = mread (emb s) DEVICE_PARAMS_ADDRESS 22;
          d = params_of b
      in if dev_id d = 0xffffffff then s\<lparr>wnc_device := d\<lparr>dev_id := of_int (strtol b)\<rparr>\<rparr>
         else s\<lparr>wnc_device := d\<rparr>)"

type_synonym fmc_erase = "nat \<Rightarrow> mem \<Rightarrow> mem \<times> bool"
type_synonym fmc_program = "nat \<Rightarrow> u16 \<Rightarrow> mem \<Rightarrow> mem \<times> bool"

text \<open>The programming loop: half-word \<open>i\<close> of \<open>data\<close> goes to the \<open>i\<close>-th half-word of the page.\<close>

fun program_loop :: "fmc_program \<Rightarrow> nat \<Rightarrow> u16 list \<Rightarrow> mem \<Rightarrow> mem \<times> bool" where
  "program_loop prog a [] m = (m, True)"
| "program_loop prog a (w # ws) m =
     (let (m', ready) = prog a w m
      in if \<not> ready then (m', False) else program_loop prog (a + 2) ws m')"

fun half_words :: "byte list \<Rightarrow> u16 list" where
  "half_words (a # b # bs) = word16 b a # half_words bs"
| "half_words _ = []"

definition save_device_params :: "fmc_erase \<Rightarrow> fmc_program \<Rightarrow> u16 list \<Rightarrow> 'a emb_st_scheme \<Rightarrow>
    'a emb_st_scheme \<times> int" where
  "save_device_params erase prog data s =
     (let (m, ready) = erase DEVICE_PARAMS_ADDRESS (emb s)
      in if \<not> ready then (s\<lparr>emb := m\<rparr>, RT_ERROR)
         else let (m', done) = program_loop prog DEVICE_PARAMS_ADDRESS (take 11 data) m
              in (s\<lparr>emb := m'\<rparr>, if done then RT_EOK else RT_ERROR))"

definition default_params :: device_params_t where
  "default_params = \<lparr>id_str = [52, 52, 56, 0, 0, 0, 0, 0, 0, 0],
     eth_mac = [0x00, 0x1e, 0x38, 0x00, 0x00, 0x00], reserved = 0, dev_id = 448\<rparr>"

definition init_device_param :: "fmc_erase \<Rightarrow> fmc_program \<Rightarrow> 'a emb_st_scheme \<Rightarrow> 'a emb_st_scheme \<times> int" where
  "init_device_param erase prog s =
     save_device_params erase prog (half_words (params_bytes default_params))
       (s\<lparr>wnc_device := default_params\<rparr>)"

section \<open>The flash controller\<close>

text \<open>
  What the driver relies on: an erase that reports success leaves the page erased, and a program operation on an erased
  half-word that reports success has stored the word. Every operation may fail.
\<close>

locale fmc =
  fixes erase :: fmc_erase and prog :: fmc_program
  assumes erase_ready: "erase a m = (m', True) \<Longrightarrow> erased m' a EMB_PAGE_SIZE"
    and prog_ready: "erased m a 2 \<Longrightarrow> prog a w m = (m', True) \<Longrightarrow> m' = mprogram m a (le16 w)"
begin

lemma program_loop_ok:
  "erased m a (2 * length ws) \<Longrightarrow> program_loop prog a ws m = (m', True) \<Longrightarrow> m' = mprogram m a (concat (map le16 ws))"
proof (induction ws arbitrary: a m)
  case (Cons w ws)
  obtain m1 where m1: "prog a w m = (m1, True)" "program_loop prog (a + 2) ws m1 = (m', True)"
    using Cons.prems(2) by (auto split: prod.splits if_splits)
  have "erased m a 2" using Cons.prems(1) by (rule erased_sub) simp_all
  from prog_ready [OF this m1(1)] have m1_eq: "m1 = mprogram m a (le16 w)" .
  have "erased m1 (a + 2) (2 * length ws)"
    using erased_sub [OF Cons.prems(1), of "a + 2" "2 * length ws"] unfolding m1_eq
    by (subst erased_mprogram_other) simp_all
  from Cons.IH [OF this m1(2)] show ?case
    using mprogram_append [of m a "le16 w" "concat (map le16 ws)"] by (simp add: m1_eq)
qed simp

end

text \<open>A controller with addresses that fail, and one that never fails.\<close>

definition worn_erase :: "nat set \<Rightarrow> fmc_erase" where
  "worn_erase bad a m = (if a \<in> bad then (m, False) else (merase m a EMB_PAGE_SIZE, True))"

definition worn_prog :: "nat set \<Rightarrow> fmc_program" where
  "worn_prog bad a w m = (if a \<notin> bad \<and> erased m a 2 then (mprogram m a (le16 w), True) else (m, False))"

interpretation worn: fmc "worn_erase bad" "worn_prog bad" for bad
  by unfold_locales (auto simp: worn_erase_def worn_prog_def split: if_splits)

definition ideal_erase :: fmc_erase where
  "ideal_erase a m = (merase m a EMB_PAGE_SIZE, True)"

definition ideal_prog :: fmc_program where
  "ideal_prog a w m = (if erased m a 2 then (mprogram m a (le16 w), True) else (m, False))"

interpretation ideal: fmc ideal_erase ideal_prog
  by unfold_locales (auto simp: ideal_erase_def ideal_prog_def split: if_splits)

lemma ideal_loop: "erased m a (2 * length ws) \<Longrightarrow> snd (program_loop ideal_prog a ws m)"
proof (induction ws arbitrary: a m)
  case (Cons w ws)
  have "erased m a 2" using Cons.prems by (rule erased_sub) simp_all
  moreover have "erased (mprogram m a (le16 w)) (a + 2) (2 * length ws)"
    using erased_sub [OF Cons.prems, of "a + 2" "2 * length ws"] by (subst erased_mprogram_other) simp_all
  ultimately show ?case using Cons.IH by (simp add: ideal_prog_def)
qed simp

lemma half_words_bytes: "even (length bs) \<Longrightarrow> concat (map le16 (half_words bs)) = bs"
  by (induction bs rule: half_words.induct) (auto simp: le16_def codec_simps)

lemma length_half_words: "length (half_words bs) = length bs div 2"
  by (induction bs rule: half_words.induct) auto

lemma length_params_bytes: "params_wf d \<Longrightarrow> length (params_bytes d) = 22"
  by (simp add: params_bytes_def params_wf_def)

lemma params_roundtrip: "params_wf d \<Longrightarrow> params_of (params_bytes d) = d"
  using rd_orders(3) [of "dev_id d" "[]"]
  by (simp add: params_of_def params_bytes_def params_wf_def codec_simps)

text \<open>C28. Saving and loading the device parameters: with a controller that obeys its laws, and may fail, when
  \<open>save_device_params\<close> returns \<open>RT_EOK\<close> and the identifier is not \<open>0xffffffff\<close>, the value of erased flash (for which
  \<open>get_device_params\<close> takes the identifier from the text instead), the next \<open>get_device_params\<close> gives the saved parameters.\<close>

theorem device_params_roundtrip:
  assumes "fmc erase prog" and "params_wf d" and "dev_id d \<noteq> 0xffffffff"
    and "save_device_params erase prog (half_words (params_bytes d)) s = (s', RT_EOK)"
  shows "wnc_device (get_device_params s') = d"
proof -
  let ?ws = "half_words (params_bytes d)"
  have len: "length ?ws = 11" using assms(2) by (simp add: length_half_words length_params_bytes)
  obtain m ready where e: "erase DEVICE_PARAMS_ADDRESS (emb s) = (m, ready)" by fastforce
  have ready: "ready" using assms(4) e by (auto simp: save_device_params_def split: if_splits)
  then have er: "erased m DEVICE_PARAMS_ADDRESS EMB_PAGE_SIZE" using fmc.erase_ready [OF assms(1)] e by simp
  then have er22: "erased m DEVICE_PARAMS_ADDRESS (2 * length ?ws)"
    by (rule erased_sub) (simp_all add: len)
  have bytes: "concat (map le16 ?ws) = params_bytes d"
    using assms(2) by (simp add: half_words_bytes length_params_bytes)
  have "program_loop prog DEVICE_PARAMS_ADDRESS ?ws m = (emb s', True)"
    using assms(4) e ready len by (auto simp: save_device_params_def split: prod.splits if_splits)
  from fmc.program_loop_ok [OF assms(1) er22 this] have "emb s' = mprogram m DEVICE_PARAMS_ADDRESS (params_bytes d)"
    by (simp add: bytes)
  then have "mread (emb s') DEVICE_PARAMS_ADDRESS 22 = params_bytes d"
    using mread_mprogram [of m DEVICE_PARAMS_ADDRESS "params_bytes d"] er22 len assms(2)
    by (simp add: length_params_bytes)
  then show ?thesis
    using assms(2,3) by (simp add: get_device_params_def Let_def params_roundtrip)
qed

definition demo_emb :: emb_st where
  "demo_emb = sys_st.extend demo_sys (emb_st.fields (\<lambda>_. 0) default_params)"

theorem device_params_roundtrip_witness:
  "wnc_device (get_device_params (fst (init_device_param ideal_erase ideal_prog demo_emb))) =
     default_params"
proof -
  define s where "s = demo_emb\<lparr>wnc_device := default_params\<rparr>"
  have wf: "params_wf default_params" "dev_id default_params \<noteq> 0xffffffff"
    by (simp_all add: params_wf_def default_params_def)
  let ?ws = "half_words (params_bytes default_params)"
  have len: "length ?ws = 11" using wf by (simp add: length_half_words length_params_bytes)
  have "snd (program_loop ideal_prog DEVICE_PARAMS_ADDRESS ?ws (merase (emb s) DEVICE_PARAMS_ADDRESS EMB_PAGE_SIZE))"
    using len by (intro ideal_loop erased_merase) simp_all
  then have "\<exists>s'. save_device_params ideal_erase ideal_prog ?ws s = (s', RT_EOK)"
    using len by (auto simp: save_device_params_def ideal_erase_def split: prod.splits)
  then obtain s' where s': "save_device_params ideal_erase ideal_prog ?ws s = (s', RT_EOK)" by blast
  with device_params_roundtrip [OF ideal.fmc_axioms wf s'] show ?thesis
    by (simp add: init_device_param_def s_def)
qed

end
