(* ===== verification/Wnc_Config.thy ===== *)
theory Wnc_Config
  imports Embedded_Flash
begin

text \<open>
  The configuration of the concentrator (\<open>wnc_cfg_t\<close> of \<open>external_flash.h\<close>) and its two
  copies on the external flash, \<open>check_wnc_config\<close>, \<open>init_wnc_config\<close>, \<open>user_init\<close>,
  \<open>get_wnc_config\<close> and \<open>set_wnc_config\<close> of \<open>external_flash.c\<close>. The structures are packed and
  little-endian, 33 bytes.
\<close>

abbreviation (input) DHCP_MODE :: byte where "DHCP_MODE \<equiv> 0"
abbreviation (input) DEDICATED_MODE :: byte where "DEDICATED_MODE \<equiv> 1"
abbreviation (input) CONFIG_VERSION :: u32 where "CONFIG_VERSION \<equiv> 0x20170503"
abbreviation (input) DEF_RF_FREQ :: u32 where "DEF_RF_FREQ \<equiv> 471100000"
abbreviation (input) DEF_DEV_IP :: u32 where "DEF_DEV_IP \<equiv> 0x0200a8c0"
abbreviation (input) DEF_GATEWAY :: u32 where "DEF_GATEWAY \<equiv> 0x0100aec0"
abbreviation (input) DEF_NETMASK :: u32 where "DEF_NETMASK \<equiv> 0x00ffffff"

abbreviation (input) CONFIG_FILE_INFO_ADDR :: nat where "CONFIG_FILE_INFO_ADDR \<equiv> 0"
abbreviation (input) LIGHT_CONNECT_FILE_ADDR :: nat where "LIGHT_CONNECT_FILE_ADDR \<equiv> 32 * 4096"
abbreviation (input) LIGHT_PARKING_FILE_ADDR :: nat where "LIGHT_PARKING_FILE_ADDR \<equiv> 48 * 4096"
abbreviation (input) SENSOR_LIST_FILE_ADDR :: nat where "SENSOR_LIST_FILE_ADDR \<equiv> 64 * 4096"
abbreviation (input) WNC_CONFIG_ADDR :: nat where "WNC_CONFIG_ADDR \<equiv> 999 * 4096"
abbreviation (input) WNC_CONFIG_BAK_ADDR :: nat where "WNC_CONFIG_BAK_ADDR \<equiv> 1000 * 4096"

record net_cfg_t =
  net_mode :: byte
  ip :: u32
  gateway :: u32
  netmask :: u32
  pc_ip :: u32
  hvcs_ip :: u32

record lora_cfg_t =
  threshold :: byte
  rf_freq :: u32
  rf_power :: byte
  time_offline :: u16

record wnc_cfg_t =
  version :: u32
  net_config :: net_cfg_t
  lora_config :: lora_cfg_t

record cfg_st = emb_st +
  g_wnc_config :: wnc_cfg_t
  g_wnc_config_bak :: wnc_cfg_t

section \<open>The packed layout\<close>

definition cfg_bytes :: "wnc_cfg_t \<Rightarrow> byte list" where
  "cfg_bytes c =
     (let n = net_config c; l = lora_config c
      in le32 (version c) @ net_mode n # le32 (ip n) @ le32 (gateway n) @ le32 (netmask n) @
         le32 (pc_ip n) @ le32 (hvcs_ip n) @
         threshold l # le32 (rf_freq l) @ rf_power l # le16 (time_offline l))"

definition cfg_of :: "byte list \<Rightarrow> wnc_cfg_t" where
  "cfg_of b = \<lparr>version = rd_le32 b 0,
     net_config = \<lparr>net_mode = b ! 4, ip = rd_le32 b 5, gateway = rd_le32 b 9,
       netmask = rd_le32 b 13, pc_ip = rd_le32 b 17, hvcs_ip = rd_le32 b 21\<rparr>,
     lora_config = \<lparr>threshold = b ! 25, rf_freq = rd_le32 b 26, rf_power = b ! 30,
       time_offline = rd_le16 b 31\<rparr>\<rparr>"

section \<open>Operations\<close>

definition check_wnc_config :: "wnc_cfg_t \<Rightarrow> int" where
  "check_wnc_config c =
     (let n = net_config c; l = lora_config c
      in if version c \<noteq> CONFIG_VERSION then - 1
         else if net_mode n = DEDICATED_MODE \<and>
                 (ip n = 0 \<or> ip n = 0xffffffff \<or> gateway n = 0 \<or> gateway n = 0xffffffff \<or>
                  netmask n = 0 \<or> netmask n = 0xffffffff) then - 1
         else if rf_freq l < 470300000 \<or> rf_freq l > 489300000 then - 1
         else if rf_power l > 17 \<or> rf_power l < 5 then - 1
         else 0)"

text \<open>Erasing a sector and writing a configuration to it, as every update of a copy does.\<close>

definition store_cfg :: "nat \<Rightarrow> wnc_cfg_t \<Rightarrow> 'a flash_st_scheme \<Rightarrow> 'a flash_st_scheme" where
  "store_cfg addr c s = rewrite_sector addr (cfg_bytes c) s"

definition load_cfg :: "nat \<Rightarrow> 'a flash_st_scheme \<Rightarrow> wnc_cfg_t" where
  "load_cfg addr s = cfg_of (ext_read addr 33 s)"

definition default_net :: net_cfg_t where
  "default_net = \<lparr>net_mode = DHCP_MODE, ip = DEF_DEV_IP, gateway = DEF_GATEWAY,
     netmask = DEF_NETMASK, pc_ip = 0, hvcs_ip = 0\<rparr>"

definition user_init :: "'a cfg_st_scheme \<Rightarrow> 'a cfg_st_scheme" where
  "user_init s =
     (let c = g_wnc_config s\<lparr>net_config := default_net\<rparr>;
          s1 = s\<lparr>g_wnc_config := c\<rparr>;
          s2 = store_cfg WNC_CONFIG_BAK_ADDR c (store_cfg WNC_CONFIG_ADDR c s1);
          s3 = ext_sct_erase CONFIG_FILE_INFO_ADDR s2;
          s4 = ext_blk_erase LIGHT_CONNECT_FILE_ADDR s3;
          s5 = ext_blk_erase LIGHT_PARKING_FILE_ADDR s4
      in ext_blk_erase SENSOR_LIST_FILE_ADDR s5)"

definition init_wnc_config :: "'a cfg_st_scheme \<Rightarrow> 'a cfg_st_scheme" where
  "init_wnc_config s =
     (let c = g_wnc_config s
      in user_init (s\<lparr>g_wnc_config := c\<lparr>version := CONFIG_VERSION,
           lora_config := lora_config c\<lparr>rf_freq := DEF_RF_FREQ, rf_power := 17, time_offline := 35\<rparr>\<rparr>\<rparr>))"

definition get_wnc_config :: "'a cfg_st_scheme \<Rightarrow> 'a cfg_st_scheme" where
  "get_wnc_config s =
     (let s1 = s\<lparr>g_wnc_config := load_cfg WNC_CONFIG_ADDR s\<rparr>;
          s2 = (if check_wnc_config (g_wnc_config s1) = - 1
                then let s1' = s1\<lparr>g_wnc_config := load_cfg WNC_CONFIG_BAK_ADDR s1\<rparr>
                     in if check_wnc_config (g_wnc_config s1') = - 1 then init_wnc_config s1' else s1'
                else s1)
      in s2\<lparr>g_wnc_config_bak := g_wnc_config s2\<rparr>)"

text \<open>The four device operations of \<open>set_wnc_config\<close>, in their order, and the function that performs them.\<close>

definition config_calls :: "wnc_cfg_t \<Rightarrow> flash_call list" where
  "config_calls c = [SctErase WNC_CONFIG_ADDR, Write WNC_CONFIG_ADDR (cfg_bytes c),
     SctErase WNC_CONFIG_BAK_ADDR, Write WNC_CONFIG_BAK_ADDR (cfg_bytes c)]"

definition set_wnc_config :: "'a cfg_st_scheme \<Rightarrow> 'a cfg_st_scheme \<times> int" where
  "set_wnc_config s =
     (let c = g_wnc_config_bak s;
          s1 = fold device_call (config_calls c) s
      in (s1\<lparr>g_wnc_config := c\<rparr>, RT_EOK))"

lemma set_wnc_config_stores:
  "set_wnc_config s =
     ((store_cfg WNC_CONFIG_BAK_ADDR (g_wnc_config_bak s) (store_cfg WNC_CONFIG_ADDR (g_wnc_config_bak s) s))
        \<lparr>g_wnc_config := g_wnc_config_bak s\<rparr>, RT_EOK)"
  by (simp add: set_wnc_config_def config_calls_def Let_def store_cfg_def rewrite_sector_def)

section \<open>The layout is lossless\<close>

lemma length_cfg_bytes [simp]: "length (cfg_bytes c) = 33"
  by (simp add: cfg_bytes_def Let_def)

lemma cfg_roundtrip: "cfg_of (cfg_bytes c) = c"
proof -
  define n l where "n = net_config c" and "l = lora_config c"
  have c: "c = \<lparr>version = version c, net_config = n, lora_config = l\<rparr>" by (simp add: n_def l_def)
  have "cfg_of (cfg_bytes c) = \<lparr>version = version c, net_config = n, lora_config = l\<rparr>"
    unfolding cfg_of_def cfg_bytes_def Let_def n_def [symmetric] l_def [symmetric]
    by (cases n, cases l)
      (simp add: rd_le32_def rd_le16_def le32_def le16_def word32_split word16_split)
  then show ?thesis using c by simp
qed


interpretation cfg: flash_record cfg_bytes cfg_of 33 "\<lambda>_. True"
  by unfold_locales (simp_all add: cfg_roundtrip)

lemma load_store_cfg:
  "a mod FLASH_BYTES_PER_SECTOR = 0 \<Longrightarrow> load_cfg a (store_cfg a c s) = c"
  using cfg.load_stored [of a c s] by (simp add: load_cfg_def store_cfg_def)

lemma load_store_cfg_other:
  "a mod FLASH_BYTES_PER_SECTOR = 0 \<Longrightarrow> b + 33 \<le> a \<or> a + FLASH_BYTES_PER_SECTOR \<le> b \<Longrightarrow>
     load_cfg b (store_cfg a c s) = load_cfg b s"
  by (simp add: load_cfg_def store_cfg_def cfg.load_other)

lemma load_cfg_cong: "flash s = flash t \<Longrightarrow> load_cfg a s = load_cfg a t"
  by (simp add: load_cfg_def ext_read_def)

lemma g_store_cfg [simp]:
  "g_wnc_config (store_cfg a c s) = g_wnc_config s" "g_wnc_config_bak (store_cfg a c s) = g_wnc_config_bak s"
  by (simp_all add: store_cfg_def rewrite_sector_def ext_write_def ext_sct_erase_def)

lemma flash_set_g [simp]:
  "flash (s\<lparr>g_wnc_config := c\<rparr>) = flash s" "flash (s\<lparr>g_wnc_config_bak := c\<rparr>) = flash s"
  by simp_all

lemma g_user_init: "g_wnc_config (user_init s) = g_wnc_config s\<lparr>net_config := default_net\<rparr>"
  by (simp add: user_init_def Let_def ext_sct_erase_def ext_blk_erase_def)

lemma check_default:
  "check_wnc_config (c\<lparr>version := CONFIG_VERSION,
     lora_config := l\<lparr>rf_freq := DEF_RF_FREQ, rf_power := 17, time_offline := 35\<rparr>,
     net_config := default_net\<rparr>) = 0"
  by (simp add: check_wnc_config_def default_net_def)

lemma check_cases: "check_wnc_config c = - 1 \<or> check_wnc_config c = 0"
  by (simp add: check_wnc_config_def Let_def)

section \<open>Properties of the configuration\<close>

lemma loaded_config_ok: "check_wnc_config (g_wnc_config (get_wnc_config s)) = 0" for s :: "'a cfg_st_scheme"
proof -
  have "check_wnc_config (g_wnc_config (init_wnc_config t)) = 0" for t :: "'a cfg_st_scheme"
    using check_default by (simp add: init_wnc_config_def Let_def g_user_init)
  then show ?thesis using check_cases by (auto simp: get_wnc_config_def Let_def)
qed

text \<open>C27. Whatever the flash holds, after \<open>get_wnc_config\<close> the configuration in memory passes
  \<open>check_wnc_config\<close>, and the working copy that the commands edit equals it.\<close>

theorem get_wnc_config_valid:
  "check_wnc_config (g_wnc_config (get_wnc_config s)) = 0 \<and>
   g_wnc_config_bak (get_wnc_config s) = g_wnc_config (get_wnc_config s)"
  using loaded_config_ok [of s] by (simp add: get_wnc_config_def Let_def)

text \<open>C26. Settings survive a restart: after \<open>set_wnc_config\<close> with a working copy that passes the
  check, a restart that loses the memory and loads the configuration gives exactly these settings.\<close>

theorem set_get_wnc_config:
  assumes "check_wnc_config (g_wnc_config_bak s) = 0" and "flash t = flash (fst (set_wnc_config s))"
  shows "g_wnc_config (get_wnc_config t) = g_wnc_config_bak s \<and> snd (set_wnc_config s) = RT_EOK"
proof -
  have "load_cfg WNC_CONFIG_ADDR t = g_wnc_config_bak s"
    using assms(2) load_store_cfg_other [of WNC_CONFIG_BAK_ADDR WNC_CONFIG_ADDR "g_wnc_config_bak s"
        "store_cfg WNC_CONFIG_ADDR (g_wnc_config_bak s) s"]
      load_store_cfg [of WNC_CONFIG_ADDR "g_wnc_config_bak s" s]
      load_cfg_cong [of t "fst (set_wnc_config s)" WNC_CONFIG_ADDR]
      load_cfg_cong [of "fst (set_wnc_config s)" "store_cfg WNC_CONFIG_BAK_ADDR (g_wnc_config_bak s)
        (store_cfg WNC_CONFIG_ADDR (g_wnc_config_bak s) s)" WNC_CONFIG_ADDR]
    by (simp add: set_wnc_config_stores)
  then show ?thesis using assms(1) by (simp add: get_wnc_config_def set_wnc_config_stores Let_def)
qed

definition good_cfg :: wnc_cfg_t where
  "good_cfg = \<lparr>version = CONFIG_VERSION, net_config = default_net,
     lora_config = \<lparr>threshold = 0, rf_freq = DEF_RF_FREQ, rf_power = 10, time_offline = 35\<rparr>\<rparr>"

definition demo_cfg :: cfg_st where
  "demo_cfg = emb_st.extend demo_emb (cfg_st.fields good_cfg good_cfg)"

lemma check_good: "check_wnc_config good_cfg = 0"
  by (simp add: check_wnc_config_def good_cfg_def default_net_def)

theorem set_get_wnc_config_witness:
  "g_wnc_config (get_wnc_config (fst (set_wnc_config demo_cfg))) = good_cfg"
  using set_get_wnc_config [of demo_cfg "fst (set_wnc_config demo_cfg)"] check_good
  by (simp add: demo_cfg_def demo_emb_def sys_st.defs emb_st.defs cfg_st.defs demo_sys_def)


section \<open>Power failures\<close>

text \<open>The flash operations of one update, and the flash after a power failure that lets \<open>k\<close> of
  them complete and, when the next is a write, \<open>j\<close> of its bytes. An erase is taken to be atomic.\<close>

definition power_cut :: "nat \<Rightarrow> nat \<Rightarrow> flash_call list \<Rightarrow> 'a flash_st_scheme \<Rightarrow> 'a flash_st_scheme" where
  "power_cut k j calls s =
     (let s1 = fold device_call (take k calls) s
      in case drop k calls of Write a bs # _ \<Rightarrow> ext_write a (take j bs) s1 | _ \<Rightarrow> s1)"

lemma set_wnc_config_calls:
  "flash (fst (set_wnc_config s)) = flash (fold device_call (config_calls (g_wnc_config_bak s)) s)"
  by (simp add: set_wnc_config_def Let_def)

lemma torn_bytes:
  assumes "a mod FLASH_BYTES_PER_SECTOR = 0" and "length bs = 33" and "i < 33"
  shows "ext_read a 33 (rewrite_sector a (take j bs) s) ! i = (if i < j then bs ! i else 0xff)"
proof -
  have "mprogram (merase (flash s) a FLASH_BYTES_PER_SECTOR) a (take j bs) (a + i) =
      (if i < j then bs ! i else 0xff)"
    using assms(2,3) by (simp add: mprogram_def merase_def)
  then show ?thesis
    using assms(3) by (simp add: ext_read_def flash_rewrite_sector [OF assms(1)] mread_nth)
qed

lemma cfg_of_head:
  assumes "\<And>i. i < 31 \<Longrightarrow> b ! i = b' ! i"
  shows "\<exists>t. cfg_of b = cfg_of b'\<lparr>lora_config := lora_config (cfg_of b')\<lparr>time_offline := t\<rparr>\<rparr>"
  using assms by (auto simp: cfg_of_def rd_le32_def)

lemma check_time_offline:
  "check_wnc_config (c\<lparr>lora_config := lora_config c\<lparr>time_offline := t\<rparr>\<rparr>) = check_wnc_config c"
  by (auto simp: check_wnc_config_def Let_def)

lemma get_primary:
  "check_wnc_config (load_cfg WNC_CONFIG_ADDR t) = 0 \<Longrightarrow>
     g_wnc_config (get_wnc_config t) = load_cfg WNC_CONFIG_ADDR t"
  by (simp add: get_wnc_config_def Let_def)

lemma get_backup:
  "check_wnc_config (load_cfg WNC_CONFIG_ADDR t) = - 1 \<Longrightarrow>
   check_wnc_config (load_cfg WNC_CONFIG_BAK_ADDR t) = 0 \<Longrightarrow>
     g_wnc_config (get_wnc_config t) = load_cfg WNC_CONFIG_BAK_ADDR t"
  using load_cfg_cong [of "t\<lparr>g_wnc_config := load_cfg WNC_CONFIG_ADDR t\<rparr>" t WNC_CONFIG_BAK_ADDR]
  by (simp add: get_wnc_config_def Let_def)

text \<open>The primary copy torn after \<open>j\<close> bytes.\<close>

lemma get_torn_primary:
  assumes old: "load_cfg WNC_CONFIG_BAK_ADDR s = old" "check_wnc_config old = 0"
    and new: "check_wnc_config new = 0"
    and t: "flash t = flash (rewrite_sector WNC_CONFIG_ADDR (take j (cfg_bytes new)) s)"
  shows "g_wnc_config (get_wnc_config t) = old \<or>
    (\<exists>x. g_wnc_config (get_wnc_config t) = new\<lparr>lora_config := lora_config new\<lparr>time_offline := x\<rparr>\<rparr>)"
proof -
  let ?r = "rewrite_sector WNC_CONFIG_ADDR (take j (cfg_bytes new)) s"
  have b: "ext_read WNC_CONFIG_ADDR 33 ?r ! i = (if i < j then cfg_bytes new ! i else 0xff)"
    if "i < 33" for i using that by (intro torn_bytes) simp_all
  show ?thesis
  proof (cases "j \<le> 30")
    case True
    then have "rf_power (lora_config (load_cfg WNC_CONFIG_ADDR ?r)) = 0xff"
      using b [of 30] by (simp add: load_cfg_def cfg_of_def)
    then have "check_wnc_config (load_cfg WNC_CONFIG_ADDR ?r) = - 1"
      by (simp add: check_wnc_config_def Let_def)
    moreover have "load_cfg WNC_CONFIG_BAK_ADDR ?r = old"
      using old(1) ext_read_rewrite_other [of WNC_CONFIG_ADDR "take j (cfg_bytes new)" WNC_CONFIG_BAK_ADDR 33 s]
      by (simp add: load_cfg_def)
    ultimately show ?thesis
      using get_backup [of t] old(2) load_cfg_cong [OF t] by simp
  next
    case False
    then obtain x where "load_cfg WNC_CONFIG_ADDR ?r =
        new\<lparr>lora_config := lora_config new\<lparr>time_offline := x\<rparr>\<rparr>"
      using cfg_of_head [of "ext_read WNC_CONFIG_ADDR 33 ?r" "cfg_bytes new"] b
      by (auto simp: load_cfg_def cfg_roundtrip)
    then show ?thesis
      using get_primary [of t] new load_cfg_cong [OF t, of WNC_CONFIG_ADDR] by (auto simp: check_time_offline)
  qed
qed

lemma load_primary_later:
  assumes "load_cfg WNC_CONFIG_ADDR s = c" "length bs \<le> 33"
  shows "load_cfg WNC_CONFIG_ADDR (ext_sct_erase WNC_CONFIG_BAK_ADDR s) = c"
    "load_cfg WNC_CONFIG_ADDR (rewrite_sector WNC_CONFIG_BAK_ADDR bs s) = c"
proof -
  have "mread (merase (flash s) WNC_CONFIG_BAK_ADDR FLASH_BYTES_PER_SECTOR) WNC_CONFIG_ADDR 33 =
      mread (flash s) WNC_CONFIG_ADDR 33" by (rule mread_merase_other) simp
  then show "load_cfg WNC_CONFIG_ADDR (ext_sct_erase WNC_CONFIG_BAK_ADDR s) = c"
    using assms by (simp add: load_cfg_def ext_read_def ext_sct_erase_def)
  show "load_cfg WNC_CONFIG_ADDR (rewrite_sector WNC_CONFIG_BAK_ADDR bs s) = c"
    using assms ext_read_rewrite_other [of WNC_CONFIG_BAK_ADDR bs WNC_CONFIG_ADDR 33 s]
    by (simp add: load_cfg_def)
qed

lemma power_cut_loads:
  assumes "load_cfg WNC_CONFIG_ADDR s = old" and "load_cfg WNC_CONFIG_BAK_ADDR s = old"
    and "check_wnc_config old = 0" and "check_wnc_config new = 0"
    and "flash t = flash (power_cut k j (config_calls new) s)"
  shows "g_wnc_config (get_wnc_config t) = old \<or>
    (\<exists>x. g_wnc_config (get_wnc_config t) = new\<lparr>lora_config := lora_config new\<lparr>time_offline := x\<rparr>\<rparr>)"
proof -
  let ?A = "rewrite_sector WNC_CONFIG_ADDR (cfg_bytes new) s"
  have same: "new = new\<lparr>lora_config := lora_config new\<lparr>time_offline := time_offline (lora_config new)\<rparr>\<rparr>"
    by simp
  have A: "load_cfg WNC_CONFIG_ADDR ?A = new"
    using load_store_cfg [of WNC_CONFIG_ADDR new s] by (simp add: store_cfg_def)
  have prim: "load_cfg WNC_CONFIG_ADDR t = new \<Longrightarrow> ?thesis" using get_primary [of t] assms(4) same by metis
  consider "k = 0" | "k = 1" | "k = 2" | "k = 3" | "4 \<le> k" by linarith
  then show ?thesis
  proof cases
    case 1
    then have "flash t = flash s" using assms(5) by (simp add: power_cut_def config_calls_def)
    then show ?thesis using get_primary [of t] assms(1,3) load_cfg_cong [of t s WNC_CONFIG_ADDR] by simp
  next
    case 2
    then have "flash t = flash (rewrite_sector WNC_CONFIG_ADDR (take j (cfg_bytes new)) s)"
      using assms(5) by (simp add: power_cut_def config_calls_def rewrite_sector_def)
    then show ?thesis using get_torn_primary [OF assms(2-4)] by simp
  next
    case 3
    then have "flash t = flash ?A"
      using assms(5) by (simp add: power_cut_def config_calls_def rewrite_sector_def numeral_2_eq_2)
    then show ?thesis using prim A load_cfg_cong by metis
  next
    case 4
    then have "flash t = flash (rewrite_sector WNC_CONFIG_BAK_ADDR (take j (cfg_bytes new)) ?A)"
      using assms(5) by (simp add: power_cut_def config_calls_def rewrite_sector_def numeral_3_eq_3)
    then show ?thesis
      using prim load_primary_later(2) [OF A, of "take j (cfg_bytes new)"] load_cfg_cong by fastforce
  next
    case 5
    then have "flash t = flash (rewrite_sector WNC_CONFIG_BAK_ADDR (cfg_bytes new) ?A)"
      using assms(5) by (simp add: power_cut_def config_calls_def rewrite_sector_def)
    then show ?thesis
      using prim load_primary_later(2) [OF A, of "cfg_bytes new"] load_cfg_cong by fastforce
  qed
qed

text \<open>C11. Updates survive power failures: if both copies hold the same valid settings \<open>old\<close> and the update
  to valid settings \<open>new\<close> is interrupted between any two of its flash operations, or inside a write after any
  number of bytes (an erase counts as done or not begun), then the settings loaded at the next start are \<open>old\<close> or
  \<open>new\<close> up to the value of \<open>time_offline\<close>, whose two last bytes no check covers; they are never reset to the factory
  defaults. The operations are those that \<open>set_wnc_config\<close> performs, in its order.\<close>

theorem set_wnc_config_power_cut:
  assumes "load_cfg WNC_CONFIG_ADDR s = old" and "load_cfg WNC_CONFIG_BAK_ADDR s = old"
    and "check_wnc_config old = 0" and "check_wnc_config new = 0" and "g_wnc_config_bak s = new"
    and "flash t = flash (power_cut k j (config_calls new) s)"
  shows "(g_wnc_config (get_wnc_config t) = old \<or>
      (\<exists>x. g_wnc_config (get_wnc_config t) = new\<lparr>lora_config := lora_config new\<lparr>time_offline := x\<rparr>\<rparr>)) \<and>
    flash (fst (set_wnc_config s)) = flash (power_cut 4 0 (config_calls new) s)"
  using power_cut_loads [OF assms(1-4,6)] set_wnc_config_calls [of s] assms(5)
  by (simp add: power_cut_def config_calls_def)

lemma load_both:
  "load_cfg WNC_CONFIG_ADDR (fst (set_wnc_config s)) = g_wnc_config_bak s"
  "load_cfg WNC_CONFIG_BAK_ADDR (fst (set_wnc_config s)) = g_wnc_config_bak s"
proof -
  let ?c = "g_wnc_config_bak s"
  let ?t = "store_cfg WNC_CONFIG_BAK_ADDR ?c (store_cfg WNC_CONFIG_ADDR ?c s)"
  have f: "flash (fst (set_wnc_config s)) = flash ?t" by (simp add: set_wnc_config_stores)
  have "load_cfg WNC_CONFIG_ADDR ?t = ?c" "load_cfg WNC_CONFIG_BAK_ADDR ?t = ?c"
    by (simp_all add: load_store_cfg_other load_store_cfg)
  then show "load_cfg WNC_CONFIG_ADDR (fst (set_wnc_config s)) = ?c"
    "load_cfg WNC_CONFIG_BAK_ADDR (fst (set_wnc_config s)) = ?c"
    using load_cfg_cong [OF f] by simp_all
qed

theorem set_wnc_config_power_cut_witness:
  "\<exists>x. g_wnc_config (get_wnc_config (power_cut 1 20
     (config_calls (good_cfg\<lparr>net_config := default_net\<lparr>ip := 1\<rparr>\<rparr>))
     ((fst (set_wnc_config demo_cfg))\<lparr>g_wnc_config_bak := good_cfg\<lparr>net_config := default_net\<lparr>ip := 1\<rparr>\<rparr>\<rparr>))) \<in>
     {good_cfg, good_cfg\<lparr>net_config := default_net\<lparr>ip := 1\<rparr>,
        lora_config := lora_config good_cfg\<lparr>time_offline := x\<rparr>\<rparr>}"
proof -
  let ?n = "good_cfg\<lparr>net_config := default_net\<lparr>ip := 1\<rparr>\<rparr>"
  let ?s = "(fst (set_wnc_config demo_cfg))\<lparr>g_wnc_config_bak := ?n\<rparr>"
  have bak: "g_wnc_config_bak demo_cfg = good_cfg"
    by (simp add: demo_cfg_def demo_emb_def sys_st.defs emb_st.defs cfg_st.defs demo_sys_def)
  have n: "check_wnc_config ?n = 0" by (simp add: check_wnc_config_def good_cfg_def default_net_def)
  have l: "load_cfg WNC_CONFIG_ADDR ?s = good_cfg" "load_cfg WNC_CONFIG_BAK_ADDR ?s = good_cfg"
    using load_both [of demo_cfg, unfolded bak] load_cfg_cong [of ?s "fst (set_wnc_config demo_cfg)"] by simp_all
  show ?thesis
    using set_wnc_config_power_cut [OF l check_good n _ refl, of 1 20] by auto
qed

end
