(* ===== verification/Data_Base.thy ===== *)
theory Data_Base
  imports Wnc_Config
begin

text \<open>
  The working lists of the concentrator, \<open>applications/wnc_data_base.h\<close>: detectors, lights, the
  relation between them, the nodes heard on the air that do not belong to this concentrator, and the
  nodes waiting to be configured. The arrays keep their C length; \<open>lists_wf\<close> is the invariant that
  their counters stay inside them. Members that several structures share carry the initial of their
  structure.
\<close>

abbreviation (input) MAX_DETECTOR_PER_WNC :: nat where "MAX_DETECTOR_PER_WNC \<equiv> 60"
abbreviation (input) MAX_NODE_WHOLE_PARKING_LOT :: nat where "MAX_NODE_WHOLE_PARKING_LOT \<equiv> 1024"
abbreviation (input) MAX_LIGHT_PER_WNC :: nat where "MAX_LIGHT_PER_WNC \<equiv> 40"
abbreviation (input) MAX_RELATION_MASK :: nat where "MAX_RELATION_MASK \<equiv> 5"
abbreviation (input) MAX_AVG_NUM :: nat where "MAX_AVG_NUM \<equiv> 10"
abbreviation (input) NODE_DEVICE_TYPE_DETECTOR :: byte where "NODE_DEVICE_TYPE_DETECTOR \<equiv> 0"
abbreviation (input) NODE_DEVICE_TYPE_LIGHT :: byte where "NODE_DEVICE_TYPE_LIGHT \<equiv> 1"
abbreviation (input) NODE_STATE_OFFLINE :: byte where "NODE_STATE_OFFLINE \<equiv> 251"
abbreviation (input) NODE_STATE_NEW_DEVICE :: byte where "NODE_STATE_NEW_DEVICE \<equiv> 252"
abbreviation (input) LIGHT_COLOR_OFF :: byte where "LIGHT_COLOR_OFF \<equiv> 0"
abbreviation (input) LIGHT_COLOR_RED :: byte where "LIGHT_COLOR_RED \<equiv> 1"
abbreviation (input) LIGHT_COLOR_GREEN :: byte where "LIGHT_COLOR_GREEN \<equiv> 2"
abbreviation (input) LIGHT_COLOR_YELLOW :: byte where "LIGHT_COLOR_YELLOW \<equiv> 4"

record single_detector_info =
  d_id :: u32
  d_state :: byte
  d_value :: byte
  d_battery :: byte
  d_lowest_power :: byte
  d_rssi :: byte
  d_snr :: byte
  d_cnt :: byte
  d_interval :: byte
  d_is_park_state_changed :: byte
  d_recv_pack_flag :: byte
  d_resend1 :: u32
  d_resend2 :: u32
  d_resend3 :: u32
  d_first_cnt :: u32
  d_offline_time :: u32
  d_reset_time :: u32
  d_send_num :: u32
  d_recv_num :: u32
  d_abs_recv_num :: u32
  d_miss_send_num :: u32
  d_miss_recv_num :: u32
  d_send_num_before_this_time :: u32
  d_rounds :: u32
  d_change_time :: u32
  d_last_resend1 :: u32
  d_last_resend2 :: u32
  d_last_resend3 :: u32
  d_last_offline :: u32
  d_last_reset :: u32
  d_last_send :: u32
  d_last_miss_recv :: u32
  d_is_in_config :: byte
  d_current_dr :: byte
  d_c_ptr :: byte
  d_c_rssi :: "u16 list"
  d_c_avg_rssi :: u16
  d_c_snr :: "byte list"
  d_c_avg_snr :: byte

record detector_info_list =
  d_num :: nat
  detector_info :: "single_detector_info list"

record single_relation =
  detector_id :: u32
  mask_bytes :: "byte list"

record relation_list =
  light_num :: nat
  light_id :: "u32 list"
  empty :: "nat list"
  detector_num :: nat
  relation :: "single_relation list"

record single_light_info =
  l_id :: u32
  l_state :: byte
  l_rssi :: byte
  l_snr :: byte
  l_correct_color :: byte
  l_current_color :: byte
  l_interval :: byte
  l_time_left :: byte

record light_info_list =
  l_num :: nat
  light_info :: "single_light_info list"

record single_new_node =
  n_id :: u32
  n_device_type :: byte
  n_rssi :: u16
  n_snr :: byte
  n_time_left :: byte

record new_node_list =
  n_num :: nat
  n_node :: "single_new_node list"

record single_config_node =
  cn_id :: u32
  cn_done :: byte

record config_node_list =
  cn_num :: nat
  cn_freq :: u32
  cn_period :: u16
  cn_node :: "single_config_node list"

record db_st = cfg_st +
  g_detector_info_list :: detector_info_list
  g_relation_list :: relation_list
  g_light_info_list :: light_info_list
  g_new_node_list :: new_node_list
  g_config_node_list :: config_node_list

section \<open>Zeroed structures (\<open>rt_memset\<close> with 0)\<close>

definition zero_detector :: single_detector_info where
  "zero_detector = \<lparr>d_id = 0, d_state = 0, d_value = 0, d_battery = 0, d_lowest_power = 0,
     d_rssi = 0, d_snr = 0, d_cnt = 0, d_interval = 0, d_is_park_state_changed = 0,
     d_recv_pack_flag = 0, d_resend1 = 0, d_resend2 = 0, d_resend3 = 0, d_first_cnt = 0,
     d_offline_time = 0, d_reset_time = 0, d_send_num = 0, d_recv_num = 0, d_abs_recv_num = 0,
     d_miss_send_num = 0, d_miss_recv_num = 0, d_send_num_before_this_time = 0, d_rounds = 0,
     d_change_time = 0, d_last_resend1 = 0, d_last_resend2 = 0, d_last_resend3 = 0,
     d_last_offline = 0, d_last_reset = 0, d_last_send = 0, d_last_miss_recv = 0,
     d_is_in_config = 0, d_current_dr = 0, d_c_ptr = 0, d_c_rssi = replicate MAX_AVG_NUM 0,
     d_c_avg_rssi = 0, d_c_snr = replicate MAX_AVG_NUM 0, d_c_avg_snr = 0\<rparr>"

definition zero_detector_list :: detector_info_list where
  "zero_detector_list = \<lparr>d_num = 0, detector_info = replicate MAX_DETECTOR_PER_WNC zero_detector\<rparr>"

definition zero_relation :: single_relation where
  "zero_relation = \<lparr>detector_id = 0, mask_bytes = replicate MAX_RELATION_MASK 0\<rparr>"

definition zero_relation_list :: relation_list where
  "zero_relation_list = \<lparr>light_num = 0, light_id = replicate MAX_LIGHT_PER_WNC 0,
     empty = replicate MAX_LIGHT_PER_WNC 0, detector_num = 0,
     relation = replicate MAX_DETECTOR_PER_WNC zero_relation\<rparr>"

definition zero_light :: single_light_info where
  "zero_light = \<lparr>l_id = 0, l_state = 0, l_rssi = 0, l_snr = 0, l_correct_color = 0,
     l_current_color = 0, l_interval = 0, l_time_left = 0\<rparr>"

definition zero_light_list :: light_info_list where
  "zero_light_list = \<lparr>l_num = 0, light_info = replicate MAX_LIGHT_PER_WNC zero_light\<rparr>"

section \<open>The invariant of the lists\<close>

definition detectors_wf :: "detector_info_list \<Rightarrow> bool" where
  "detectors_wf d \<longleftrightarrow> length (detector_info d) = MAX_DETECTOR_PER_WNC \<and> d_num d \<le> MAX_DETECTOR_PER_WNC"

definition relations_wf :: "relation_list \<Rightarrow> bool" where
  "relations_wf r \<longleftrightarrow> length (light_id r) = MAX_LIGHT_PER_WNC \<and> length (empty r) = MAX_LIGHT_PER_WNC \<and>
     light_num r \<le> MAX_LIGHT_PER_WNC \<and> length (relation r) = MAX_DETECTOR_PER_WNC \<and>
     detector_num r \<le> MAX_DETECTOR_PER_WNC \<and>
     list_all (\<lambda>x. length (mask_bytes x) = MAX_RELATION_MASK) (relation r)"

definition lights_wf :: "light_info_list \<Rightarrow> bool" where
  "lights_wf l \<longleftrightarrow> length (light_info l) = MAX_LIGHT_PER_WNC \<and> l_num l \<le> MAX_LIGHT_PER_WNC"

definition new_nodes_wf :: "new_node_list \<Rightarrow> bool" where
  "new_nodes_wf n \<longleftrightarrow> length (n_node n) = MAX_NODE_WHOLE_PARKING_LOT \<and>
     n_num n \<le> MAX_NODE_WHOLE_PARKING_LOT"

definition config_nodes_wf :: "config_node_list \<Rightarrow> bool" where
  "config_nodes_wf c \<longleftrightarrow> length (cn_node c) = MAX_NODE_WHOLE_PARKING_LOT \<and>
     cn_num c \<le> MAX_NODE_WHOLE_PARKING_LOT"

definition lists_wf :: "'a db_st_scheme \<Rightarrow> bool" where
  "lists_wf s \<longleftrightarrow> detectors_wf (g_detector_info_list s) \<and> relations_wf (g_relation_list s) \<and>
     lights_wf (g_light_info_list s) \<and> new_nodes_wf (g_new_node_list s) \<and>
     config_nodes_wf (g_config_node_list s)"

lemma zero_lists_wf [simp]:
  "detectors_wf zero_detector_list" "relations_wf zero_relation_list" "lights_wf zero_light_list"
  by (simp_all add: detectors_wf_def zero_detector_list_def relations_wf_def zero_relation_list_def
      zero_relation_def lights_wf_def zero_light_list_def list_all_length)

end
