(* ===== verification/Parking_Lists.thy ===== *)
theory Parking_Lists
  imports Data_Base
begin

text \<open>
  The parking lists that \<open>external_flash.c\<close> reads from the configuration files on the external
  flash: the lights and the detectors that belong to this concentrator, and which detectors each
  light watches. A file is a sequence of lines \<open>a;b\<close>; the directory of the files,
  \<open>g_file_info_list\<close>, has a sector of its own.
\<close>

section \<open>The file directory\<close>

record single_file_info_t =
  f_sn :: u32
  f_size :: u32
  f_name :: "byte list"

record file_info_list_t =
  region_config :: single_file_info_t
  light_connect :: single_file_info_t
  light_parking :: single_file_info_t
  sensor_list :: single_file_info_t
  reserved_parking :: single_file_info_t

record file_st = db_st +
  g_file_info_list :: file_info_list_t

definition file_info_bytes :: "single_file_info_t \<Rightarrow> byte list" where
  "file_info_bytes f = le32 (f_sn f) @ le32 (f_size f) @ f_name f"

definition file_info_of :: "byte list \<Rightarrow> single_file_info_t" where
  "file_info_of b = \<lparr>f_sn = rd_le32 b 0, f_size = rd_le32 b 4, f_name = take 256 (drop 8 b)\<rparr>"

definition dir_bytes :: "file_info_list_t \<Rightarrow> byte list" where
  "dir_bytes d = file_info_bytes (region_config d) @ file_info_bytes (light_connect d) @
     file_info_bytes (light_parking d) @ file_info_bytes (sensor_list d) @
     file_info_bytes (reserved_parking d)"

definition dir_of :: "byte list \<Rightarrow> file_info_list_t" where
  "dir_of b = \<lparr>region_config = file_info_of b, light_connect = file_info_of (drop 264 b),
     light_parking = file_info_of (drop 528 b), sensor_list = file_info_of (drop 792 b),
     reserved_parking = file_info_of (drop 1056 b)\<rparr>"

definition dir_wf :: "file_info_list_t \<Rightarrow> bool" where
  "dir_wf d \<longleftrightarrow> length (f_name (region_config d)) = 256 \<and> length (f_name (light_connect d)) = 256 \<and>
     length (f_name (light_parking d)) = 256 \<and> length (f_name (sensor_list d)) = 256 \<and>
     length (f_name (reserved_parking d)) = 256"

lemma length_file_info_bytes [simp]: "length (file_info_bytes f) = 8 + length (f_name f)"
  by (simp add: file_info_bytes_def)

lemma file_info_roundtrip: "length (f_name f) = 256 \<Longrightarrow> file_info_of (file_info_bytes f @ bs) = f"
  by (simp add: file_info_of_def file_info_bytes_def codec_simps)

interpretation dir: flash_record dir_bytes dir_of 1320 dir_wf
proof
  fix d assume d: "dir_wf d"
  then show "length (dir_bytes d) = 1320" by (simp add: dir_bytes_def dir_wf_def)
  show "dir_of (dir_bytes d) = d"
    using d file_info_roundtrip [of "reserved_parking d" "[]"]
    by (simp add: dir_of_def dir_bytes_def dir_wf_def file_info_roundtrip)
qed simp

section \<open>Reading lines\<close>

fun upto_newline :: "byte list \<Rightarrow> byte list" where
  "upto_newline [] = []"
| "upto_newline (b # bs) = (if b = 10 then [b] else b # upto_newline bs)"

text \<open>The bytes stored in front of the terminator; their number is what the function returns.\<close>

definition flash_file_read_line :: "nat \<Rightarrow> nat \<Rightarrow> nat \<Rightarrow> 'a flash_st_scheme \<Rightarrow> byte list" where
  "flash_file_read_line addr offset sz s =
     (let real_size = (if sz - 1 < 256 then sz - 1 else 256)
      in upto_newline (ext_read (addr + offset) real_size s))"

lemma upto_newline_length: "length (upto_newline bs) \<le> length bs"
  by (induction bs rule: upto_newline.induct) auto

lemma upto_newline_Nil [simp]: "upto_newline bs = [] \<longleftrightarrow> bs = []"
  by (cases bs) auto

lemma mread_Nil_iff [simp]: "mread m a n = [] \<longleftrightarrow> n = 0"
  by (metis length_0_conv length_mread)

definition want_len :: "nat \<Rightarrow> nat" where
  "want_len byte_left = (if byte_left < 64 then byte_left + 1 else 64)"

lemma read_line_progress:
  assumes "0 < left"
  shows "flash_file_read_line addr offset (want_len left) s \<noteq> []"
    "length (flash_file_read_line addr offset (want_len left) s) \<le> left"
  using assms upto_newline_length [of "ext_read (addr + offset) (want_len left - 1) s"]
  by (auto simp: flash_file_read_line_def want_len_def Let_def ext_read_def split: if_splits)

text \<open>The loop that the three readers share: while bytes are left and \<open>go\<close> allows it, the next
  line is read and handed to \<open>body\<close>.\<close>

function read_lines :: "('b \<Rightarrow> bool) \<Rightarrow> (byte list \<Rightarrow> 'b \<Rightarrow> 'b) \<Rightarrow> 'a flash_st_scheme \<Rightarrow> nat \<Rightarrow> nat \<Rightarrow> nat \<Rightarrow>
    'b \<Rightarrow> 'b" where
  "read_lines go body s addr offset byte_left acc =
     (if 0 < byte_left \<and> go acc
      then let line = flash_file_read_line addr offset (want_len byte_left) s
           in read_lines go body s addr (offset + length line) (byte_left - length line) (body line acc)
      else acc)"
  by pat_completeness auto
termination
  by (relation "measure (\<lambda>(_, _, _, _, _, left, _). left)") (auto intro!: diff_less simp: read_line_progress(1))

declare read_lines.simps [simp del]

text \<open>The C string in the line buffer, and its two numbers when \<open>sscanf\<close> returns 2.\<close>

definition c_string :: "byte list \<Rightarrow> string" where
  "c_string bs = string_of (takeWhile (\<lambda>b. b \<noteq> 0) bs)"

definition scan_pair :: "byte list \<Rightarrow> (u32 \<times> u32) option" where
  "scan_pair line =
     (case sscanf [ScanD, ScanLit (CHR '';''), ScanD] (c_string line) of
        [a, b] \<Rightarrow> Some (of_int a, of_int b)
      | _ \<Rightarrow> None)"

section \<open>The readers\<close>

definition file_absent :: "single_file_info_t \<Rightarrow> bool" where
  "file_absent f \<longleftrightarrow> f_sn f = 0 \<or> f_sn f = 0xffffffff"

definition light_connect_line :: "u32 \<Rightarrow> byte list \<Rightarrow> relation_list \<times> light_info_list \<times> nat \<Rightarrow>
    relation_list \<times> light_info_list \<times> nat" where
  "light_connect_line self line acc =
     (case acc of (r, l, cnt) \<Rightarrow>
        (case scan_pair line of
           None \<Rightarrow> (r, l, cnt)
         | Some (lid, wnc_id) \<Rightarrow>
             if wnc_id = self
             then (r\<lparr>light_id := (light_id r)[cnt := lid]\<rparr>,
                   l\<lparr>light_info := (light_info l)[cnt := (light_info l ! cnt)\<lparr>l_id := lid, l_time_left := 10\<rparr>]\<rparr>,
                   cnt + 1)
             else (r, l, cnt)))"

definition read_light_connect_file :: "'a file_st_scheme \<Rightarrow> 'a file_st_scheme" where
  "read_light_connect_file s =
     (let s0 = s\<lparr>g_relation_list := zero_relation_list, g_light_info_list := zero_light_list\<rparr>;
          f = light_connect (g_file_info_list s)
      in if file_absent f then s0
         else case read_lines (\<lambda>(r, l, cnt). cnt < MAX_LIGHT_PER_WNC)
                     (light_connect_line (dev_id (wnc_device s))) s LIGHT_CONNECT_FILE_ADDR 0
                     (unat (f_size f)) (zero_relation_list, zero_light_list, 0) of
                (r, l, cnt) \<Rightarrow>
                  s0\<lparr>g_relation_list := r\<lparr>light_num := cnt\<rparr>, g_light_info_list := l\<lparr>l_num := cnt\<rparr>\<rparr>)"

definition sensor_list_line :: "u32 \<Rightarrow> byte list \<Rightarrow> relation_list \<times> detector_info_list \<times> nat \<Rightarrow>
    relation_list \<times> detector_info_list \<times> nat" where
  "sensor_list_line self line acc =
     (case acc of (r, d, cnt) \<Rightarrow>
        (case scan_pair line of
           None \<Rightarrow> (r, d, cnt)
         | Some (did, wnc_id) \<Rightarrow>
             if wnc_id = self
             then (r\<lparr>relation := (relation r)[cnt := (relation r ! cnt)\<lparr>detector_id := did\<rparr>]\<rparr>,
                   d\<lparr>detector_info := (detector_info d)[cnt := (detector_info d ! cnt)
                       \<lparr>d_id := did, d_state := NODE_STATE_OFFLINE\<rparr>]\<rparr>,
                   cnt + 1)
             else (r, d, cnt)))"

definition read_sensor_list_flie :: "'a file_st_scheme \<Rightarrow> 'a file_st_scheme" where
  "read_sensor_list_flie s =
     (let r0 = g_relation_list s\<lparr>detector_num := 0, relation := replicate MAX_DETECTOR_PER_WNC zero_relation\<rparr>;
          s0 = s\<lparr>g_detector_info_list := zero_detector_list, g_relation_list := r0\<rparr>;
          f = sensor_list (g_file_info_list s)
      in if file_absent f then s0
         else case read_lines (\<lambda>(r, d, cnt). cnt < MAX_DETECTOR_PER_WNC)
                     (sensor_list_line (dev_id (wnc_device s))) s SENSOR_LIST_FILE_ADDR 0
                     (unat (f_size f)) (r0, zero_detector_list, 0) of
                (r, d, cnt) \<Rightarrow>
                  s0\<lparr>g_relation_list := r\<lparr>detector_num := cnt\<rparr>, g_detector_info_list := d\<lparr>d_num := cnt\<rparr>\<rparr>)"

definition set_region_mask_by_index :: "nat \<Rightarrow> nat \<Rightarrow> relation_list \<Rightarrow> relation_list" where
  "set_region_mask_by_index detector_index region_index r =
     (let i = region_index div 8; b = region_index mod 8;
          x = relation r ! detector_index
      in r\<lparr>relation := (relation r)[detector_index :=
             x\<lparr>mask_bytes := (mask_bytes x)[i := mask_bytes x ! i OR push_bit b 1]\<rparr>]\<rparr>)"

definition light_parking_line :: "byte list \<Rightarrow> relation_list \<Rightarrow> relation_list" where
  "light_parking_line line r =
     (case scan_pair line of
        None \<Rightarrow> r
      | Some (lid, did) \<Rightarrow>
          (case find (\<lambda>i. lid = light_id r ! i) [0..<light_num r] of
             None \<Rightarrow> r
           | Some i \<Rightarrow>
               (case find (\<lambda>j. did = detector_id (relation r ! j)) [0..<detector_num r] of
                  None \<Rightarrow> r
                | Some j \<Rightarrow> set_region_mask_by_index j i r)))"

definition read_light_parking_flie :: "'a file_st_scheme \<Rightarrow> 'a file_st_scheme" where
  "read_light_parking_flie s =
     (let f = light_parking (g_file_info_list s)
      in if file_absent f then s
         else s\<lparr>g_relation_list := read_lines (\<lambda>_. True) light_parking_line s LIGHT_PARKING_FILE_ADDR 0
                  (unat (f_size f)) (g_relation_list s)\<rparr>)"

definition init_parking_lists :: "'a file_st_scheme \<Rightarrow> 'a file_st_scheme" where
  "init_parking_lists s =
     (let s0 = s\<lparr>g_file_info_list := dir_of (ext_read CONFIG_FILE_INFO_ADDR 1320 s)\<rparr>
      in read_light_parking_flie (read_sensor_list_flie (read_light_connect_file s0)))"

definition get_file_sn :: "'a file_st_scheme \<Rightarrow> u32" where
  "get_file_sn s = f_sn (sensor_list (g_file_info_list s))"


section \<open>The lines of a file\<close>

fun fold_while :: "('b \<Rightarrow> bool) \<Rightarrow> ('c \<Rightarrow> 'b \<Rightarrow> 'b) \<Rightarrow> 'c list \<Rightarrow> 'b \<Rightarrow> 'b" where
  "fold_while go f [] acc = acc"
| "fold_while go f (x # xs) acc = (if go acc then fold_while go f xs (f x acc) else acc)"

definition file_lines :: "'a flash_st_scheme \<Rightarrow> nat \<Rightarrow> nat \<Rightarrow> nat \<Rightarrow> byte list list" where
  "file_lines s addr offset n = rev (read_lines (\<lambda>_. True) (#) s addr offset n [])"

lemma read_lines_Cons_acc:
  "read_lines (\<lambda>_. True) (#) s addr offset n acc = read_lines (\<lambda>_. True) (#) s addr offset n [] @ acc"
proof (induction n arbitrary: offset acc rule: less_induct)
  case (less n)
  show ?case
  proof (cases "n = 0")
    case False
    define line where "line = flash_file_read_line addr offset (want_len n) s"
    have "n - length line < n" using False read_line_progress(1) [of n addr offset s]
      by (intro diff_less) (simp_all add: line_def)
    from less.IH [OF this, of "offset + length line" "line # acc"]
      less.IH [OF this, of "offset + length line" "[line]"]
    show ?thesis
      using False by (subst (1 2) read_lines.simps) (simp add: line_def Let_def)
  qed (simp add: read_lines.simps [of _ _ _ _ _ 0])
qed

lemma file_lines_0 [simp]: "file_lines s addr offset 0 = []"
  by (simp add: file_lines_def read_lines.simps [of _ _ _ _ _ 0])

lemma file_lines_step:
  "0 < n \<Longrightarrow> file_lines s addr offset n =
     (let line = flash_file_read_line addr offset (want_len n) s
      in line # file_lines s addr (offset + length line) (n - length line))"
  unfolding file_lines_def
  by (subst read_lines.simps) (subst read_lines_Cons_acc, simp add: Let_def)

lemma read_lines_fold:
  "read_lines go body s addr offset n acc = fold_while go body (file_lines s addr offset n) acc"
proof (induction n arbitrary: offset acc rule: less_induct)
  case (less n)
  show ?case
  proof (cases "n = 0")
    case False
    define line where "line = flash_file_read_line addr offset (want_len n) s"
    have "n - length line < n" using False read_line_progress(1) [of n addr offset s]
      by (intro diff_less) (simp_all add: line_def)
    from less.IH [OF this, of "offset + length line" "body line acc"] show ?thesis
      using False by (subst read_lines.simps) (simp add: file_lines_step Let_def line_def [symmetric])
  qed (simp add: read_lines.simps [of _ _ _ _ _ 0])
qed

text \<open>A text file: lines of at most 63 bytes that end with their only newline.\<close>

definition text_line :: "byte list \<Rightarrow> bool" where
  "text_line l \<longleftrightarrow> (\<exists>b. l = b @ [10] \<and> 10 \<notin> set b) \<and> length l \<le> 63"

lemma upto_newline_line: "10 \<notin> set b \<Longrightarrow> upto_newline (b @ 10 # rest) = b @ [10]"
  by (induction b) auto

lemma upto_newline_take:
  "10 \<notin> set b \<Longrightarrow> length b < k \<Longrightarrow> upto_newline (take k (b @ 10 # rest)) = b @ [10]"
  using upto_newline_line [of b "take (k - Suc (length b)) rest"]
  by (simp add: take_Cons' Suc_diff_Suc)

lemma file_lines_text:
  assumes "list_all text_line ls" and "mread (flash s) (addr + offset) (length (concat ls)) = concat ls"
  shows "file_lines s addr offset (length (concat ls)) = ls"
  using assms
proof (induction ls arbitrary: offset)
  case (Cons l ls)
  let ?n = "length (concat (l # ls))"
  obtain b where b: "l = b @ [10]" "10 \<notin> set b" "length l \<le> 63" using Cons.prems(1) by (auto simp: text_line_def)
  define k where "k = want_len ?n - 1"
  have k: "k = min ?n 63" by (simp add: k_def want_len_def)
  have "mread (flash s) (addr + offset) k = take k (mread (flash s) (addr + offset) ?n)"
    using mread_append [of "flash s" "addr + offset" k "?n - k"] k by simp
  also have "\<dots> = take k (b @ 10 # concat ls)" using Cons.prems(2) b(1) by simp
  finally have data: "mread (flash s) (addr + offset) k = take k (b @ 10 # concat ls)" .
  have "k < 256" using k by linarith
  then have "flash_file_read_line addr offset (want_len ?n) s = upto_newline (take k (b @ 10 # concat ls))"
    unfolding flash_file_read_line_def Let_def k_def [symmetric] ext_read_def
    by (simp only: if_True data)
  also have "\<dots> = l" using b k by (subst upto_newline_take) auto
  finally have line: "flash_file_read_line addr offset (want_len ?n) s = l" .
  have "mread (flash s) (addr + offset + length l) (length (concat ls)) = concat ls"
    using Cons.prems(2) mread_append [of "flash s" "addr + offset" "length l" "length (concat ls)"]
    by (simp add: append_eq_append_conv)
  then have "file_lines s addr (offset + length l) (length (concat ls)) = ls"
    using Cons.IH [of "offset + length l"] Cons.prems(1) by (simp add: add.assoc)
  with line show ?case using b(1) by (subst file_lines_step) (simp_all add: Let_def)
qed simp


section \<open>Lines of two numbers\<close>

definition pair_line :: "u32 \<times> u32 \<Rightarrow> byte list" where
  "pair_line p = bytes_of (signed_decimal (sint (fst p)) @ '';'' @ signed_decimal (sint (snd p)) @
     [CHR 0x0D, CHR 0x0A])"

lemma signed_decimal_chars: "c \<in> set (signed_decimal i) \<Longrightarrow> is_digit c \<or> c = CHR ''-''"
  using decimal_digits [of "nat i"] decimal_digits [of "nat (- i)"]
  by (auto simp: signed_decimal_def list_all_iff split: if_splits)

lemma of_char_ne:
  assumes "is_digit c \<or> c = CHR ''-'' \<or> c = CHR '';'' \<or> c = CHR 0x0D"
  shows "(of_char c :: byte) \<noteq> 10" "(of_char c :: byte) \<noteq> 0"
proof -
  have "unat (of_char c :: byte) = of_char c" by simp
  moreover have "(of_char c :: nat) \<noteq> 10 \<and> (of_char c :: nat) \<noteq> 0"
    using assms by (auto simp: is_digit_def)
  ultimately show "(of_char c :: byte) \<noteq> 10" "(of_char c :: byte) \<noteq> 0"
    by (auto simp: word_unat_eq_iff)
qed

lemma pair_line_split:
  "\<exists>b. pair_line p = b @ [10] \<and> 10 \<notin> set b \<and> 0 \<notin> set b"
proof -
  let ?t = "signed_decimal (sint (fst p)) @ '';'' @ signed_decimal (sint (snd p)) @ [CHR 0x0D]"
  have ch: "is_digit c \<or> c = CHR ''-'' \<or> c = CHR '';'' \<or> c = CHR 0x0D" if "c \<in> set ?t" for c
    using that signed_decimal_chars by auto
  have ne: "(of_char c :: byte) \<noteq> 10" "(of_char c :: byte) \<noteq> 0" if "c \<in> set ?t" for c
    by (rule of_char_ne [OF ch [OF that]])+
  have "10 \<notin> set (bytes_of ?t)" "0 \<notin> set (bytes_of ?t)"
    unfolding bytes_of_def set_map
    by (rule notI, erule imageE, drule ne(1), simp only:) (rule notI, erule imageE, drule ne(2), simp only:)
  moreover have "pair_line p = bytes_of ?t @ [10]" by (simp add: pair_line_def bytes_of_def)
  ultimately show ?thesis by blast
qed

lemma text_line_pair: "text_line (pair_line p)"
proof -
  have "length (pair_line p) \<le> 25"
    using length_signed_decimal [of "fst p"] length_signed_decimal [of "snd p"]
    by (simp add: pair_line_def)
  then show ?thesis using pair_line_split [of p] unfolding text_line_def by auto
qed

lemma scan_pair_line: "scan_pair (pair_line p) = Some p"
proof -
  obtain b where b: "pair_line p = b @ [10]" "0 \<notin> set b" using pair_line_split by metis
  then have tw: "takeWhile (\<lambda>b. b \<noteq> 0) (pair_line p) = pair_line p" by (auto simp: takeWhile_eq_all_conv)
  then have c: "c_string (pair_line p) = signed_decimal (sint (fst p)) @ CHR '';'' # signed_decimal (sint (snd p)) @
      [CHR 0x0D, CHR 0x0A]"
    unfolding c_string_def tw by (simp add: pair_line_def)
  show ?thesis by (simp add: scan_pair_def c is_digit_def)
qed

section \<open>What the readers leave in the lists\<close>

text \<open>The identifiers of the lines that name this concentrator.\<close>

definition own_ids :: "u32 \<Rightarrow> byte list list \<Rightarrow> u32 list" where
  "own_ids self ls = map fst (filter (\<lambda>p. snd p = self) (List.map_filter scan_pair ls))"

lemma own_ids_simps [simp]:
  "own_ids self [] = []"
  "scan_pair l = None \<Longrightarrow> own_ids self (l # ls) = own_ids self ls"
  "scan_pair l = Some (a, w) \<Longrightarrow>
     own_ids self (l # ls) = (if w = self then a # own_ids self ls else own_ids self ls)"
  by (simp_all add: own_ids_def List.map_filter_simps)

lemma light_connect_line_simps:
  "scan_pair x = None \<Longrightarrow> light_connect_line self x (r, l, cnt) = (r, l, cnt)"
  "scan_pair x = Some (a, w) \<Longrightarrow> w \<noteq> self \<Longrightarrow> light_connect_line self x (r, l, cnt) = (r, l, cnt)"
  "scan_pair x = Some (a, self) \<Longrightarrow> light_connect_line self x (r, l, cnt) =
     (r\<lparr>light_id := (light_id r)[cnt := a]\<rparr>,
      l\<lparr>light_info := (light_info l)[cnt := (light_info l ! cnt)\<lparr>l_id := a, l_time_left := 10\<rparr>]\<rparr>, Suc cnt)"
  by (simp_all add: light_connect_line_def)

lemma light_connect_fold:
  assumes "length (light_id r) = MAX_LIGHT_PER_WNC" and "length (light_info l) = MAX_LIGHT_PER_WNC"
    and "cnt \<le> MAX_LIGHT_PER_WNC"
    and "fold_while (\<lambda>(r, l, cnt). cnt < MAX_LIGHT_PER_WNC) (light_connect_line self) ls (r, l, cnt) =
      (r', l', cnt')"
  shows "cnt' = min MAX_LIGHT_PER_WNC (cnt + length (own_ids self ls)) \<and>
    take cnt' (light_id r') = take cnt (light_id r) @ take (MAX_LIGHT_PER_WNC - cnt) (own_ids self ls) \<and>
    r' = r\<lparr>light_id := light_id r'\<rparr> \<and> length (light_id r') = MAX_LIGHT_PER_WNC \<and>
    map l_id (take cnt' (light_info l')) =
      map l_id (take cnt (light_info l)) @ take (MAX_LIGHT_PER_WNC - cnt) (own_ids self ls) \<and>
    length (light_info l') = MAX_LIGHT_PER_WNC"
  using assms
proof (induction ls arbitrary: r l cnt)
  case (Cons x ls)
  show ?case
  proof (cases "cnt < MAX_LIGHT_PER_WNC")
    case False
    with Cons.prems show ?thesis by auto
  next
    case lt: True
    have go: "fold_while (\<lambda>(r, l, cnt). cnt < MAX_LIGHT_PER_WNC) (light_connect_line self) ls
        (light_connect_line self x (r, l, cnt)) = (r', l', cnt')"
      using Cons.prems(4) lt by simp
    show ?thesis
    proof (cases "scan_pair x")
      case None
      then have "own_ids self (x # ls) = own_ids self ls" by simp
      with Cons.IH [OF Cons.prems(1-3)] go None show ?thesis by (simp only: light_connect_line_simps)
    next
      case (Some p)
      obtain a w where p: "p = (a, w)" by fastforce
      show ?thesis
      proof (cases "w = self")
        case False
        with Some p have "own_ids self (x # ls) = own_ids self ls" by simp
        with Cons.IH [OF Cons.prems(1-3)] go show ?thesis
          by (simp only: light_connect_line_simps(2) [OF Some [unfolded p] False])
      next
        case True
        let ?r = "r\<lparr>light_id := (light_id r)[cnt := a]\<rparr>"
        let ?l = "l\<lparr>light_info := (light_info l)[cnt := (light_info l ! cnt)\<lparr>l_id := a, l_time_left := 10\<rparr>]\<rparr>"
        have t: "take (Suc cnt) ((light_id r)[cnt := a]) = take cnt (light_id r) @ [a]"
          "map l_id (take (Suc cnt) ((light_info l)[cnt := (light_info l ! cnt)\<lparr>l_id := a, l_time_left := 10\<rparr>])) =
            map l_id (take cnt (light_info l)) @ [a]"
          using Cons.prems(1,2) lt by (simp_all add: take_Suc_conv_app_nth)
        have e: "fold_while (\<lambda>(r, l, cnt). cnt < MAX_LIGHT_PER_WNC) (light_connect_line self) ls (?r, ?l, Suc cnt) =
            (r', l', cnt')"
          using go Some p True by (simp only: light_connect_line_simps)
        have "take (MAX_LIGHT_PER_WNC - cnt) (a # own_ids self ls) =
            a # take (MAX_LIGHT_PER_WNC - Suc cnt) (own_ids self ls)"
          using lt by (simp add: take_Cons' Suc_diff_Suc)
        moreover have "own_ids self (x # ls) = a # own_ids self ls" using Some p True by simp
        ultimately show ?thesis using Cons.IH [OF _ _ _ e] Cons.prems(1,2) lt t by auto
      qed
    qed
  qed
qed simp

lemma sensor_list_line_simps:
  "scan_pair x = None \<Longrightarrow> sensor_list_line self x (r, l, cnt) = (r, l, cnt)"
  "scan_pair x = Some (a, w) \<Longrightarrow> w \<noteq> self \<Longrightarrow> sensor_list_line self x (r, l, cnt) = (r, l, cnt)"
  "scan_pair x = Some (a, self) \<Longrightarrow> sensor_list_line self x (r, l, cnt) =
     (r\<lparr>relation := (relation r)[cnt := (relation r ! cnt)\<lparr>detector_id := a\<rparr>]\<rparr>,
      l\<lparr>detector_info := (detector_info l)[cnt := (detector_info l ! cnt)
        \<lparr>d_id := a, d_state := NODE_STATE_OFFLINE\<rparr>]\<rparr>, Suc cnt)"
  by (simp_all add: sensor_list_line_def)

lemma sensor_list_fold:
  assumes "length (relation r) = MAX_DETECTOR_PER_WNC" and "length (detector_info l) = MAX_DETECTOR_PER_WNC"
    and "cnt \<le> MAX_DETECTOR_PER_WNC"
    and "fold_while (\<lambda>(r, l, cnt). cnt < MAX_DETECTOR_PER_WNC) (sensor_list_line self) ls (r, l, cnt) =
      (r', l', cnt')"
  shows "cnt' = min MAX_DETECTOR_PER_WNC (cnt + length (own_ids self ls)) \<and>
    map detector_id (take cnt' (relation r')) = map detector_id (take cnt (relation r)) @ take (MAX_DETECTOR_PER_WNC - cnt) (own_ids self ls) \<and>
    r' = r\<lparr>relation := relation r'\<rparr> \<and> length (relation r') = MAX_DETECTOR_PER_WNC \<and>
    map mask_bytes (relation r') = map mask_bytes (relation r) \<and>
    map d_id (take cnt' (detector_info l')) =
      map d_id (take cnt (detector_info l)) @ take (MAX_DETECTOR_PER_WNC - cnt) (own_ids self ls) \<and>
    length (detector_info l') = MAX_DETECTOR_PER_WNC"
  using assms
proof (induction ls arbitrary: r l cnt)
  case (Cons x ls)
  show ?case
  proof (cases "cnt < MAX_DETECTOR_PER_WNC")
    case False
    with Cons.prems show ?thesis by auto
  next
    case lt: True
    have go: "fold_while (\<lambda>(r, l, cnt). cnt < MAX_DETECTOR_PER_WNC) (sensor_list_line self) ls
        (sensor_list_line self x (r, l, cnt)) = (r', l', cnt')"
      using Cons.prems(4) lt by simp
    show ?thesis
    proof (cases "scan_pair x")
      case None
      then have "own_ids self (x # ls) = own_ids self ls" by simp
      with Cons.IH [OF Cons.prems(1-3)] go None show ?thesis by (simp only: sensor_list_line_simps)
    next
      case (Some p)
      obtain a w where p: "p = (a, w)" by fastforce
      show ?thesis
      proof (cases "w = self")
        case False
        with Some p have "own_ids self (x # ls) = own_ids self ls" by simp
        with Cons.IH [OF Cons.prems(1-3)] go show ?thesis
          by (simp only: sensor_list_line_simps(2) [OF Some [unfolded p] False])
      next
        case True
        let ?x = "(relation r ! cnt)\<lparr>detector_id := a\<rparr>"
        let ?y = "(detector_info l ! cnt)\<lparr>d_id := a, d_state := NODE_STATE_OFFLINE\<rparr>"
        let ?r = "r\<lparr>relation := (relation r)[cnt := ?x]\<rparr>"
        let ?l = "l\<lparr>detector_info := (detector_info l)[cnt := ?y]\<rparr>"
        have mk: "map mask_bytes ((relation r)[cnt := ?x]) = map mask_bytes (relation r)"
          using Cons.prems(1) lt by (simp add: map_update list_update_same_conv)
        have t: "map detector_id (take (Suc cnt) ((relation r)[cnt := ?x])) =
            map detector_id (take cnt (relation r)) @ [a]"
          "map d_id (take (Suc cnt) ((detector_info l)[cnt := ?y])) =
            map d_id (take cnt (detector_info l)) @ [a]"
          using Cons.prems(1,2) lt by (simp_all add: take_Suc_conv_app_nth)
        have e: "fold_while (\<lambda>(r, l, cnt). cnt < MAX_DETECTOR_PER_WNC) (sensor_list_line self) ls (?r, ?l, Suc cnt) =
            (r', l', cnt')"
          using go Some p True by (simp only: sensor_list_line_simps)
        have "take (MAX_DETECTOR_PER_WNC - cnt) (a # own_ids self ls) =
            a # take (MAX_DETECTOR_PER_WNC - Suc cnt) (own_ids self ls)"
          using lt by (simp add: take_Cons' Suc_diff_Suc)
        moreover have "own_ids self (x # ls) = a # own_ids self ls" using Some p True by simp
        ultimately show ?thesis using Cons.IH [OF _ _ _ e] Cons.prems(1,2) lt t mk by auto
      qed
    qed
  qed
qed simp


section \<open>The relation masks\<close>

definition region_bit :: "relation_list \<Rightarrow> nat \<Rightarrow> nat \<Rightarrow> bool" where
  "region_bit r j i = bit (mask_bytes (relation r ! j) ! (i div 8)) (i mod 8)"

lemma set_region_mask_bit:
  assumes "relations_wf r" and "j0 < MAX_DETECTOR_PER_WNC" "i0 < MAX_LIGHT_PER_WNC"
    and "j < MAX_DETECTOR_PER_WNC" "i < MAX_LIGHT_PER_WNC"
  shows "region_bit (set_region_mask_by_index j0 i0 r) j i \<longleftrightarrow> region_bit r j i \<or> (j = j0 \<and> i = i0)"
proof -
  have len: "length (relation r) = MAX_DETECTOR_PER_WNC" "length (mask_bytes (relation r ! j0)) = MAX_RELATION_MASK"
    using assms(1,2) by (auto simp: relations_wf_def list_all_length)
  have ib: "i div 8 < MAX_RELATION_MASK" "i0 div 8 < MAX_RELATION_MASK" using assms(3,5) by auto
  have i: "i = i0 \<longleftrightarrow> i div 8 = i0 div 8 \<and> i mod 8 = i0 mod 8" by (metis div_mult_mod_eq)
  have b: "bit (m OR push_bit (i0 mod 8) 1) (i mod 8) \<longleftrightarrow> bit m (i mod 8) \<or> i mod 8 = i0 mod 8"
    for m :: byte by (auto simp: bit_or_iff bit_exp_iff)
  show ?thesis
  proof (cases "j = j0 \<and> i div 8 = i0 div 8")
    case True
    then have "region_bit (set_region_mask_by_index j0 i0 r) j i =
        bit (mask_bytes (relation r ! j0) ! (i0 div 8) OR push_bit (i0 mod 8) 1) (i mod 8)"
      using assms(2) len ib by (simp add: region_bit_def set_region_mask_by_index_def Let_def)
    then show ?thesis using True b i by (simp add: region_bit_def)
  next
    case False
    then have "region_bit (set_region_mask_by_index j0 i0 r) j i = region_bit r j i"
      using assms(2,4) len ib
      by (cases "j = j0") (simp_all add: region_bit_def set_region_mask_by_index_def Let_def)
    with False show ?thesis by auto
  qed
qed

lemma set_region_mask_frame:
  assumes "relations_wf r" and "j0 < MAX_DETECTOR_PER_WNC"
  shows "relations_wf (set_region_mask_by_index j0 i0 r)"
    "light_id (set_region_mask_by_index j0 i0 r) = light_id r"
    "light_num (set_region_mask_by_index j0 i0 r) = light_num r"
    "detector_num (set_region_mask_by_index j0 i0 r) = detector_num r"
    "map detector_id (relation (set_region_mask_by_index j0 i0 r)) = map detector_id (relation r)"
  using assms
  by (auto simp: set_region_mask_by_index_def Let_def relations_wf_def list_all_length nth_list_update
      map_update list_update_same_conv)

text \<open>The first light and the first detector with given identifiers.\<close>

definition light_index :: "relation_list \<Rightarrow> u32 \<Rightarrow> nat option" where
  "light_index r a = find (\<lambda>i. a = light_id r ! i) [0..<light_num r]"

definition detector_index :: "relation_list \<Rightarrow> u32 \<Rightarrow> nat option" where
  "detector_index r b = find (\<lambda>j. b = map detector_id (relation r) ! j) [0..<detector_num r]"

lemma find_upt_less: "find P [0..<n] = Some i \<Longrightarrow> i < n"
  by (auto simp: find_Some_iff)

lemma detector_index_eq:
  "relations_wf r \<Longrightarrow> find (\<lambda>j. b = detector_id (relation r ! j)) [0..<detector_num r] = detector_index r b"
  unfolding detector_index_def by (rule find_cong) (auto simp: relations_wf_def)

lemma light_parking_line_eq:
  assumes "relations_wf r"
  shows "light_parking_line line r =
    (case scan_pair line of
       None \<Rightarrow> r
     | Some (a, b) \<Rightarrow>
         (case (light_index r a, detector_index r b) of
            (Some i, Some j) \<Rightarrow> set_region_mask_by_index j i r | _ \<Rightarrow> r))"
  by (auto simp: light_parking_line_def light_index_def detector_index_eq [OF assms] split: option.splits)

lemma light_parking_fold:
  fixes ls
  assumes "relations_wf r"
  defines "r' \<equiv> fold_while (\<lambda>_. True) light_parking_line ls r"
  shows "relations_wf r' \<and> light_index r' = light_index r \<and> detector_index r' = detector_index r \<and>
    light_num r' = light_num r \<and> detector_num r' = detector_num r \<and> light_id r' = light_id r \<and>
    map detector_id (relation r') = map detector_id (relation r) \<and>
    (\<forall>j < MAX_DETECTOR_PER_WNC. \<forall>i < MAX_LIGHT_PER_WNC. region_bit r' j i \<longleftrightarrow> region_bit r j i \<or>
       (\<exists>a b. (a, b) \<in> set (List.map_filter scan_pair ls) \<and>
          light_index r a = Some i \<and> detector_index r b = Some j))"
  using assms(1) unfolding r'_def
proof (induction ls arbitrary: r)
  case (Cons l ls)
  define r1 where "r1 = light_parking_line l r"
  have f: "relations_wf r1 \<and> light_num r1 = light_num r \<and> detector_num r1 = detector_num r \<and>
      light_id r1 = light_id r \<and> map detector_id (relation r1) = map detector_id (relation r) \<and>
      (\<forall>j < MAX_DETECTOR_PER_WNC. \<forall>i < MAX_LIGHT_PER_WNC. region_bit r1 j i \<longleftrightarrow> region_bit r j i \<or>
         (\<exists>a b. scan_pair l = Some (a, b) \<and> light_index r a = Some i \<and> detector_index r b = Some j))"
  proof (cases "\<exists>a b i j. scan_pair l = Some (a, b) \<and> light_index r a = Some i \<and> detector_index r b = Some j")
    case True
    then obtain a b i j where h: "scan_pair l = Some (a, b)" "light_index r a = Some i"
      "detector_index r b = Some j" by blast
    then have ij: "i < MAX_LIGHT_PER_WNC" "j < MAX_DETECTOR_PER_WNC"
      using find_upt_less Cons.prems unfolding light_index_def detector_index_def relations_wf_def
      by fastforce+
    have "r1 = set_region_mask_by_index j i r"
      using h by (simp add: r1_def light_parking_line_eq [OF Cons.prems])
    with set_region_mask_frame [OF Cons.prems ij(2)] set_region_mask_bit [OF Cons.prems ij(2,1)] h
    show ?thesis by auto
  next
    case False
    then have "r1 = r"
      by (auto simp: r1_def light_parking_line_eq [OF Cons.prems] split: option.splits)
    with False Cons.prems show ?thesis by auto
  qed
  then have ix: "light_index r1 = light_index r" "detector_index r1 = detector_index r"
    by (simp_all add: fun_eq_iff light_index_def detector_index_def)
  have m: "set (List.map_filter scan_pair (l # ls)) = set_option (scan_pair l) \<union> set (List.map_filter scan_pair ls)"
    by (cases "scan_pair l") (simp_all add: List.map_filter_simps)
  show ?case
    using Cons.IH [of r1] f ix unfolding m by (simp add: r1_def [symmetric]) blast
qed simp


section \<open>Loading the lists\<close>

lemma fold_while_invariant:
  "P acc \<Longrightarrow> (\<And>x acc. P acc \<Longrightarrow> go acc \<Longrightarrow> P (f x acc)) \<Longrightarrow> P (fold_while go f xs acc)"
  by (induction xs arbitrary: acc) simp_all

text \<open>The array \<open>xs\<close> of \<open>m\<close> entries holds one entry \<open>e\<close> for each of \<open>n\<close> identifiers, and empty ones behind them.\<close>

definition filled :: "(u32 \<Rightarrow> 'a) \<Rightarrow> 'a \<Rightarrow> nat \<Rightarrow> nat \<Rightarrow> 'a list \<Rightarrow> bool" where
  "filled e z m n xs \<longleftrightarrow> n \<le> m \<and> (\<exists>ids. length ids = n \<and> xs = map e ids @ replicate (m - n) z)"

lemma filled_zero: "filled e z m 0 (replicate m z)"
  by (simp add: filled_def)

lemma filled_next:
  assumes "filled e z m n xs" "n < m" "y = e a"
  shows "filled e z m (Suc n) (xs[n := y])" "xs ! n = z"
proof -
  obtain ids where i: "length ids = n" "xs = map e ids @ replicate (m - n) z" using assms(1) by (auto simp: filled_def)
  have r: "replicate (m - n) z = z # replicate (m - Suc n) z" using assms(2) by (metis Suc_diff_Suc replicate_Suc)
  have "xs[n := y] = map e (ids @ [a]) @ replicate (m - Suc n) z" using i assms(3) by (simp add: r list_update_append)
  then show "filled e z m (Suc n) (xs[n := y])"
    unfolding filled_def using assms(2) i(1) by (intro conjI exI [of _ "ids @ [a]"]) simp_all
  show "xs ! n = z" using i by (simp add: r nth_append)
qed

lemma filled_ids:
  assumes "filled e z m n xs" "map f (take n xs) = ids" "\<And>a. f (e a) = a"
  shows "xs = map e ids @ replicate (m - n) z"
  using assms by (auto simp: filled_def comp_def)

abbreviation new_light :: "u32 \<Rightarrow> single_light_info" where
  "new_light i \<equiv> zero_light\<lparr>l_id := i, l_time_left := 10\<rparr>"

abbreviation new_detector :: "u32 \<Rightarrow> single_detector_info" where
  "new_detector i \<equiv> zero_detector\<lparr>d_id := i, d_state := NODE_STATE_OFFLINE\<rparr>"

lemma light_connect_filled:
  assumes "fold_while (\<lambda>(r, l, cnt). cnt < MAX_LIGHT_PER_WNC) (light_connect_line self) ls (zero_relation_list, zero_light_list, 0) = (r, l, n)"
  shows "filled new_light zero_light MAX_LIGHT_PER_WNC n (light_info l)"
proof -
  let ?P = "\<lambda>(r :: relation_list, l, n). filled new_light zero_light MAX_LIGHT_PER_WNC n (light_info l)"
  have "?P (fold_while (\<lambda>(r, l, cnt). cnt < MAX_LIGHT_PER_WNC) (light_connect_line self) ls (zero_relation_list, zero_light_list, 0))"
  proof (rule fold_while_invariant)
    show "?P (zero_relation_list, zero_light_list, 0)" by (simp add: zero_light_list_def filled_zero)
  next
    fix x and acc :: "relation_list \<times> light_info_list \<times> nat"
    obtain r l n where acc: "acc = (r, l, n)" by (cases acc)
    assume a: "?P acc" "(\<lambda>(r, l, cnt). cnt < MAX_LIGHT_PER_WNC) acc"
    then have z: "light_info l ! n = zero_light" using filled_next(2) [of _ _ _ n] acc by fastforce
    show "?P (light_connect_line self x acc)"
      using a filled_next(1) [of new_light zero_light MAX_LIGHT_PER_WNC n "light_info l", OF _ _ refl]
      by (auto simp: acc light_connect_line_def z split: option.splits)
  qed
  then show ?thesis using assms by simp
qed

lemma sensor_list_filled:
  assumes "fold_while (\<lambda>(r, d, cnt). cnt < MAX_DETECTOR_PER_WNC) (sensor_list_line self) ls (r0, zero_detector_list, 0) = (r, d, n)"
  shows "filled new_detector zero_detector MAX_DETECTOR_PER_WNC n (detector_info d)"
proof -
  let ?P = "\<lambda>(r :: relation_list, d, n). filled new_detector zero_detector MAX_DETECTOR_PER_WNC n (detector_info d)"
  have "?P (fold_while (\<lambda>(r, d, cnt). cnt < MAX_DETECTOR_PER_WNC) (sensor_list_line self) ls (r0, zero_detector_list, 0))"
  proof (rule fold_while_invariant)
    show "?P (r0, zero_detector_list, 0)" by (simp add: zero_detector_list_def filled_zero)
  next
    fix x and acc :: "relation_list \<times> detector_info_list \<times> nat"
    obtain r d n where acc: "acc = (r, d, n)" by (cases acc)
    assume a: "?P acc" "(\<lambda>(r, d, cnt). cnt < MAX_DETECTOR_PER_WNC) acc"
    then have z: "detector_info d ! n = zero_detector" using filled_next(2) [of _ _ _ n] acc by fastforce
    show "?P (sensor_list_line self x acc)"
      using a filled_next(1) [of new_detector zero_detector MAX_DETECTOR_PER_WNC n "detector_info d", OF _ _ refl]
      by (auto simp: acc sensor_list_line_def z split: option.splits)
  qed
  then show ?thesis using assms by simp
qed

lemma read_light_connect_wf:
  fixes s :: "'a file_st_scheme"
  defines "s' \<equiv> read_light_connect_file s"
  defines "L \<equiv> (if file_absent (light_connect (g_file_info_list s)) then []
    else take MAX_LIGHT_PER_WNC (own_ids (dev_id (wnc_device s))
      (file_lines s LIGHT_CONNECT_FILE_ADDR 0 (unat (f_size (light_connect (g_file_info_list s)))))))"
  shows "\<exists>ids. g_relation_list s' = zero_relation_list\<lparr>light_id := ids, light_num := length L\<rparr> \<and>
      length ids = MAX_LIGHT_PER_WNC \<and> take (length L) ids = L"
    and "lights_wf (g_light_info_list s') \<and> l_num (g_light_info_list s') = length L \<and>
      light_info (g_light_info_list s') = map new_light L @ replicate (MAX_LIGHT_PER_WNC - length L) zero_light"
    and "s' = s\<lparr>g_relation_list := g_relation_list s', g_light_info_list := g_light_info_list s'\<rparr>"
proof -
  let ?ls = "file_lines s LIGHT_CONNECT_FILE_ADDR 0 (unat (f_size (light_connect (g_file_info_list s))))"
  let ?F = "fold_while (\<lambda>(r, l, cnt). cnt < MAX_LIGHT_PER_WNC)
     (light_connect_line (dev_id (wnc_device s))) ?ls (zero_relation_list, zero_light_list, 0)"
  obtain r l n where F: "?F = (r, l, n)" by (metis prod_cases3)
  have z: "length (light_id zero_relation_list) = MAX_LIGHT_PER_WNC"
    "length (light_info zero_light_list) = MAX_LIGHT_PER_WNC"
    by (simp_all add: zero_relation_list_def zero_light_list_def)
  note f0 = light_connect_fold [OF z le0 F]
  have f: "n = min MAX_LIGHT_PER_WNC (length (own_ids (dev_id (wnc_device s)) ?ls))"
    "take n (light_id r) = take MAX_LIGHT_PER_WNC (own_ids (dev_id (wnc_device s)) ?ls)"
    "r = zero_relation_list\<lparr>light_id := light_id r\<rparr>" "length (light_id r) = MAX_LIGHT_PER_WNC"
    "map l_id (take n (light_info l)) = take MAX_LIGHT_PER_WNC (own_ids (dev_id (wnc_device s)) ?ls)"
    "length (light_info l) = MAX_LIGHT_PER_WNC"
    using f0 unfolding add_0 take_0 append_Nil diff_zero list.map(1) by blast+
  have absent: "s' = s\<lparr>g_relation_list := zero_relation_list, g_light_info_list := zero_light_list\<rparr>"
    if "file_absent (light_connect (g_file_info_list s))"
    using that by (simp add: s'_def read_light_connect_file_def Let_def)
  have present: "s' = s\<lparr>g_relation_list := r\<lparr>light_num := n\<rparr>, g_light_info_list := l\<lparr>l_num := n\<rparr>\<rparr>"
    "L = take MAX_LIGHT_PER_WNC (own_ids (dev_id (wnc_device s)) ?ls)" "n = length L"
    if "\<not> file_absent (light_connect (g_file_info_list s))"
    using that F f(1) by (simp_all add: s'_def read_light_connect_file_def Let_def read_lines_fold L_def)
  show "s' = s\<lparr>g_relation_list := g_relation_list s', g_light_info_list := g_light_info_list s'\<rparr>"
    using absent present(1) by (cases "file_absent (light_connect (g_file_info_list s))") auto
  show "\<exists>ids. g_relation_list s' = zero_relation_list\<lparr>light_id := ids, light_num := length L\<rparr> \<and>
      length ids = MAX_LIGHT_PER_WNC \<and> take (length L) ids = L"
  proof (cases "file_absent (light_connect (g_file_info_list s))")
    case True
    then show ?thesis using absent by (auto simp: L_def zero_relation_list_def)
  next
    case False
    note p = present [OF False]
    have "r\<lparr>light_num := n\<rparr> = zero_relation_list\<lparr>light_id := light_id r, light_num := length L\<rparr>"
      by (subst f(3)) (simp add: p(3) zero_relation_list_def)
    then show ?thesis
      using f(2,4) unfolding p(1) p(2) [symmetric] p(3) by (intro exI [of _ "light_id r"]) simp
  qed
  show "lights_wf (g_light_info_list s') \<and> l_num (g_light_info_list s') = length L \<and>
      light_info (g_light_info_list s') = map new_light L @ replicate (MAX_LIGHT_PER_WNC - length L) zero_light"
  proof (cases "file_absent (light_connect (g_file_info_list s))")
    case False
    note p = present [OF False]
    have "length L \<le> MAX_LIGHT_PER_WNC" unfolding p(2) by simp
    moreover have "light_info l = map new_light L @ replicate (MAX_LIGHT_PER_WNC - n) zero_light"
      by (rule filled_ids [OF light_connect_filled [OF F], where f = l_id]) (use f(5) p(2) in simp_all)
    ultimately show ?thesis
      using f(6) unfolding p(1) p(3) by (simp add: lights_wf_def)
  qed (use absent in \<open>simp add: L_def zero_light_list_def lights_wf_def\<close>)
qed

lemma read_sensor_list_wf:
  fixes s :: "'a file_st_scheme"
  defines "s' \<equiv> read_sensor_list_flie s"
  defines "D \<equiv> (if file_absent (sensor_list (g_file_info_list s)) then []
    else take MAX_DETECTOR_PER_WNC (own_ids (dev_id (wnc_device s))
      (file_lines s SENSOR_LIST_FILE_ADDR 0 (unat (f_size (sensor_list (g_file_info_list s)))))))"
  shows "\<exists>rel. g_relation_list s' = g_relation_list s\<lparr>relation := rel, detector_num := length D\<rparr> \<and>
      length rel = MAX_DETECTOR_PER_WNC \<and> map detector_id (take (length D) rel) = D \<and>
      map mask_bytes rel = replicate MAX_DETECTOR_PER_WNC (replicate MAX_RELATION_MASK 0)"
    and "detectors_wf (g_detector_info_list s') \<and> d_num (g_detector_info_list s') = length D \<and>
      detector_info (g_detector_info_list s') = map new_detector D @ replicate (MAX_DETECTOR_PER_WNC - length D) zero_detector"
    and "s' = s\<lparr>g_relation_list := g_relation_list s', g_detector_info_list := g_detector_info_list s'\<rparr>"
proof -
  let ?ls = "file_lines s SENSOR_LIST_FILE_ADDR 0 (unat (f_size (sensor_list (g_file_info_list s))))"
  let ?r0 = "g_relation_list s\<lparr>detector_num := 0, relation := replicate MAX_DETECTOR_PER_WNC zero_relation\<rparr>"
  let ?F = "fold_while (\<lambda>(r, l, cnt). cnt < MAX_DETECTOR_PER_WNC)
     (sensor_list_line (dev_id (wnc_device s))) ?ls (?r0, zero_detector_list, 0)"
  obtain r l n where F: "?F = (r, l, n)" by (metis prod_cases3)
  have z: "length (relation ?r0) = MAX_DETECTOR_PER_WNC"
    "length (detector_info zero_detector_list) = MAX_DETECTOR_PER_WNC"
    by (simp_all add: zero_detector_list_def)
  note f0 = sensor_list_fold [OF z le0 F]
  have f: "n = min MAX_DETECTOR_PER_WNC (length (own_ids (dev_id (wnc_device s)) ?ls))"
    "map detector_id (take n (relation r)) = take MAX_DETECTOR_PER_WNC (own_ids (dev_id (wnc_device s)) ?ls)"
    "r = ?r0\<lparr>relation := relation r\<rparr>" "length (relation r) = MAX_DETECTOR_PER_WNC"
    "map d_id (take n (detector_info l)) = take MAX_DETECTOR_PER_WNC (own_ids (dev_id (wnc_device s)) ?ls)"
    "length (detector_info l) = MAX_DETECTOR_PER_WNC"
    "map mask_bytes (relation r) = map mask_bytes (relation ?r0)"
    using f0 unfolding add_0 take_0 append_Nil diff_zero list.map(1) by blast+
  have absent: "s' = s\<lparr>g_relation_list := ?r0, g_detector_info_list := zero_detector_list\<rparr>"
    if "file_absent (sensor_list (g_file_info_list s))"
    using that by (simp add: s'_def read_sensor_list_flie_def Let_def)
  have present: "s' = s\<lparr>g_relation_list := r\<lparr>detector_num := n\<rparr>, g_detector_info_list := l\<lparr>d_num := n\<rparr>\<rparr>"
    "D = take MAX_DETECTOR_PER_WNC (own_ids (dev_id (wnc_device s)) ?ls)" "n = length D"
    if "\<not> file_absent (sensor_list (g_file_info_list s))"
    using that F f(1) by (simp_all add: s'_def read_sensor_list_flie_def Let_def read_lines_fold D_def)
  show "s' = s\<lparr>g_relation_list := g_relation_list s', g_detector_info_list := g_detector_info_list s'\<rparr>"
    using absent present(1) by (cases "file_absent (sensor_list (g_file_info_list s))") auto
  have zm: "map mask_bytes (replicate MAX_DETECTOR_PER_WNC zero_relation) =
      replicate MAX_DETECTOR_PER_WNC (replicate MAX_RELATION_MASK 0)"
    by (simp add: zero_relation_def map_replicate_const)
  show "\<exists>rel. g_relation_list s' = g_relation_list s\<lparr>relation := rel, detector_num := length D\<rparr> \<and>
      length rel = MAX_DETECTOR_PER_WNC \<and> map detector_id (take (length D) rel) = D \<and>
      map mask_bytes rel = replicate MAX_DETECTOR_PER_WNC (replicate MAX_RELATION_MASK 0)"
  proof (cases "file_absent (sensor_list (g_file_info_list s))")
    case True
    then show ?thesis
      using absent zm by (intro exI [of _ "replicate MAX_DETECTOR_PER_WNC zero_relation"]) (simp add: D_def)
  next
    case False
    note p = present [OF False]
    have "r\<lparr>detector_num := n\<rparr> = g_relation_list s\<lparr>relation := relation r, detector_num := length D\<rparr>"
      by (subst f(3)) (simp add: p(3))
    moreover have "map mask_bytes (relation r) = replicate MAX_DETECTOR_PER_WNC (replicate MAX_RELATION_MASK 0)"
      using f(7) zm by simp
    ultimately show ?thesis
      using f(2,4) unfolding p(1) p(2) [symmetric] p(3) by (intro exI [of _ "relation r"]) simp
  qed
  show "detectors_wf (g_detector_info_list s') \<and> d_num (g_detector_info_list s') = length D \<and>
      detector_info (g_detector_info_list s') = map new_detector D @ replicate (MAX_DETECTOR_PER_WNC - length D) zero_detector"
  proof (cases "file_absent (sensor_list (g_file_info_list s))")
    case False
    note p = present [OF False]
    have "length D \<le> MAX_DETECTOR_PER_WNC" unfolding p(2) by simp
    moreover have "detector_info l = map new_detector D @ replicate (MAX_DETECTOR_PER_WNC - n) zero_detector"
      by (rule filled_ids [OF sensor_list_filled [OF F], where f = d_id]) (use f(5) p(2) in simp_all)
    ultimately show ?thesis
      using f(6) unfolding p(1) p(3) by (simp add: detectors_wf_def)
  qed (use absent in \<open>simp add: D_def zero_detector_list_def detectors_wf_def\<close>)
qed


lemma own_ids_pairs: "own_ids self (map pair_line rs) = map fst (filter (\<lambda>p. snd p = self) rs)"
  by (induction rs) (auto simp: own_ids_def List.map_filter_simps scan_pair_line)

lemma map_filter_pairs: "List.map_filter scan_pair (map pair_line rs) = rs"
  by (induction rs) (simp_all add: List.map_filter_simps scan_pair_line)

text \<open>The flash holds the file \<open>f\<close> with the records \<open>rs\<close>.\<close>

definition holds_file :: "'a flash_st_scheme \<Rightarrow> nat \<Rightarrow> single_file_info_t \<Rightarrow> (u32 \<times> u32) list \<Rightarrow> bool" where
  "holds_file s addr f rs \<longleftrightarrow> \<not> file_absent f \<and>
     unat (f_size f) = length (concat (map pair_line rs)) \<and>
     mread (flash s) addr (length (concat (map pair_line rs))) = concat (map pair_line rs)"

lemma holds_file_lines:
  "holds_file s addr f rs \<Longrightarrow> file_lines s addr 0 (unat (f_size f)) = map pair_line rs"
  using file_lines_text [of "map pair_line rs" s addr 0]
  by (simp add: holds_file_def list_all_length text_line_pair)

definition first_index :: "u32 \<Rightarrow> u32 list \<Rightarrow> nat option" where
  "first_index a xs = find (\<lambda>i. a = xs ! i) [0..<length xs]"

lemma index_prefix:
  assumes "take n ids = L" "n = length L"
  shows "find (\<lambda>i. a = ids ! i) [0..<n] = first_index a L"
proof -
  have "ids ! x = L ! x" if "x < length L" for x using assms nth_take [OF that, of ids] by simp
  then show ?thesis unfolding first_index_def assms(2) by (intro find_cong) auto
qed

lemma parking_lists_steps:
  fixes s :: "'a file_st_scheme"
  defines "s0 \<equiv> s\<lparr>g_file_info_list := dir_of (ext_read CONFIG_FILE_INFO_ADDR 1320 s)\<rparr>"
  defines "s1 \<equiv> read_light_connect_file s0"
  defines "s2 \<equiv> read_sensor_list_flie s1"
  shows "init_parking_lists s = read_light_parking_flie s2"
    "flash s2 = flash s" "wnc_device s1 = wnc_device s" "flash s1 = flash s"
    "g_file_info_list s2 = g_file_info_list s0" "g_file_info_list s1 = g_file_info_list s0"
    "g_light_info_list s2 = g_light_info_list s1"
    "g_new_node_list s2 = g_new_node_list s" "g_config_node_list s2 = g_config_node_list s"
proof -
  show "init_parking_lists s = read_light_parking_flie s2"
    by (simp add: init_parking_lists_def s0_def s1_def s2_def)
  have 1: "s1 = s0\<lparr>g_relation_list := g_relation_list s1, g_light_info_list := g_light_info_list s1\<rparr>"
    unfolding s1_def by (rule read_light_connect_wf(3))
  have 2: "s2 = s1\<lparr>g_relation_list := g_relation_list s2, g_detector_info_list := g_detector_info_list s2\<rparr>"
    unfolding s2_def by (rule read_sensor_list_wf(3))
  show "wnc_device s1 = wnc_device s" "flash s1 = flash s" "g_file_info_list s1 = g_file_info_list s0"
    by (subst 1; simp add: s0_def)+
  then show "flash s2 = flash s" "g_file_info_list s2 = g_file_info_list s0"
    "g_light_info_list s2 = g_light_info_list s1" by (subst 2; simp)+
  show "g_new_node_list s2 = g_new_node_list s" "g_config_node_list s2 = g_config_node_list s"
    by (subst 2, simp, subst 1, simp add: s0_def)+
qed

text \<open>Whatever the directory and the files on the flash contain, loading the parking lists
  returns and leaves every list inside its array.\<close>

lemma parking_lists_wf:
  "detectors_wf (g_detector_info_list (init_parking_lists s)) \<and> relations_wf (g_relation_list (init_parking_lists s)) \<and>
   lights_wf (g_light_info_list (init_parking_lists s))"
proof -
  define s0 where "s0 = s\<lparr>g_file_info_list := dir_of (ext_read CONFIG_FILE_INFO_ADDR 1320 s)\<rparr>"
  define s1 where "s1 = read_light_connect_file s0"
  define s2 where "s2 = read_sensor_list_flie s1"
  note st = parking_lists_steps [of s, folded s0_def, folded s1_def, folded s2_def]
  obtain ids nl where r1: "g_relation_list s1 = zero_relation_list\<lparr>light_id := ids, light_num := nl\<rparr>"
    "length ids = MAX_LIGHT_PER_WNC" "nl \<le> MAX_LIGHT_PER_WNC"
    using read_light_connect_wf(1,2) [of s0, folded s1_def] unfolding lights_wf_def by metis
  obtain rel nd where r2: "g_relation_list s2 = g_relation_list s1\<lparr>relation := rel, detector_num := nd\<rparr>"
    "length rel = MAX_DETECTOR_PER_WNC" "nd \<le> MAX_DETECTOR_PER_WNC"
    "map mask_bytes rel = replicate MAX_DETECTOR_PER_WNC (replicate MAX_RELATION_MASK 0)"
    using read_sensor_list_wf(1,2) [of s1, folded s2_def] unfolding detectors_wf_def by metis
  have "length (mask_bytes (rel ! i)) = MAX_RELATION_MASK" if "i < MAX_DETECTOR_PER_WNC" for i
    using that r2(2,4) by (metis length_replicate nth_map nth_replicate)
  then have wf: "relations_wf (g_relation_list s2)"
    using r1 r2 by (simp add: relations_wf_def list_all_length zero_relation_list_def)
  have "relations_wf (g_relation_list (init_parking_lists s))"
    using wf light_parking_fold [OF wf]
    by (simp add: st(1) read_light_parking_flie_def Let_def read_lines_fold)
  then show ?thesis
    using st read_light_connect_wf(2) [of s0, folded s1_def] read_sensor_list_wf(2) [of s1, folded s2_def]
    by (simp add: read_light_parking_flie_def Let_def)
qed

text \<open>C10. The parking lists are what the files say: when the directory on the flash names three files
  of printed pairs, the lights and the detectors in the relation list are the first 40 and 60 that the first two
  files assign to this concentrator, in file order; the light list holds exactly these lights, with ten tries left
  and all else zero, the detector list exactly these detectors, offline and all else zero; and the bit of light
  \<open>i\<close> in the mask of detector \<open>j\<close> is set exactly when the third file relates a light and a detector whose first
  positions are \<open>i\<close> and \<open>j\<close>.\<close>

theorem init_parking_lists_loads:
  assumes "dir_of (ext_read CONFIG_FILE_INFO_ADDR 1320 s) = d" and "dev_id (wnc_device s) = self"
    and "holds_file s LIGHT_CONNECT_FILE_ADDR (light_connect d) rl"
    and "holds_file s SENSOR_LIST_FILE_ADDR (sensor_list d) rd"
    and "holds_file s LIGHT_PARKING_FILE_ADDR (light_parking d) rp"
    and "L = take MAX_LIGHT_PER_WNC (map fst (filter (\<lambda>p. snd p = self) rl))"
    and "D = take MAX_DETECTOR_PER_WNC (map fst (filter (\<lambda>p. snd p = self) rd))"
    and "r = g_relation_list (init_parking_lists s)"
  shows "g_light_info_list (init_parking_lists s) = \<lparr>l_num = length L, light_info =
      map (\<lambda>i. zero_light\<lparr>l_id := i, l_time_left := 10\<rparr>) L @ replicate (MAX_LIGHT_PER_WNC - length L) zero_light\<rparr> \<and>
    g_detector_info_list (init_parking_lists s) = \<lparr>d_num = length D, detector_info =
      map (\<lambda>i. zero_detector\<lparr>d_id := i, d_state := NODE_STATE_OFFLINE\<rparr>) D @ replicate (MAX_DETECTOR_PER_WNC - length D) zero_detector\<rparr> \<and>
    light_num r = length L \<and> take (length L) (light_id r) = L \<and>
    detector_num r = length D \<and> map detector_id (take (length D) (relation r)) = D \<and>
    (\<forall>j < MAX_DETECTOR_PER_WNC. \<forall>i < MAX_LIGHT_PER_WNC. region_bit r j i \<longleftrightarrow>
       (\<exists>a b. (a, b) \<in> set rp \<and> first_index a L = Some i \<and> first_index b D = Some j))"
proof -
  define s0 where "s0 = s\<lparr>g_file_info_list := dir_of (ext_read CONFIG_FILE_INFO_ADDR 1320 s)\<rparr>"
  define s1 where "s1 = read_light_connect_file s0"
  define s2 where "s2 = read_sensor_list_flie s1"
  note st = parking_lists_steps [of s, folded s0_def, folded s1_def, folded s2_def]
  have d: "g_file_info_list s0 = d" "wnc_device s0 = wnc_device s" "flash s0 = flash s"
    using assms(1) by (simp_all add: s0_def)
  have hf: "holds_file t a f rs \<longleftrightarrow> holds_file s a f rs" if "flash t = flash s" for t :: "'a file_st_scheme" and a f rs
    using that by (simp add: holds_file_def)
  have L: "L = (if file_absent (light_connect (g_file_info_list s0)) then []
      else take MAX_LIGHT_PER_WNC (own_ids (dev_id (wnc_device s0))
        (file_lines s0 LIGHT_CONNECT_FILE_ADDR 0 (unat (f_size (light_connect (g_file_info_list s0)))))))"
    using assms(2,3,6) d holds_file_lines [of s0 LIGHT_CONNECT_FILE_ADDR "light_connect d" rl] hf [OF d(3)]
    by (simp add: own_ids_pairs holds_file_def)
  have D: "D = (if file_absent (sensor_list (g_file_info_list s1)) then []
      else take MAX_DETECTOR_PER_WNC (own_ids (dev_id (wnc_device s1))
        (file_lines s1 SENSOR_LIST_FILE_ADDR 0 (unat (f_size (sensor_list (g_file_info_list s1)))))))"
    using assms(2,4,7) d(1) st(3,4,6) holds_file_lines [of s1 SENSOR_LIST_FILE_ADDR "sensor_list d" rd] hf [OF st(4)]
    by (simp add: own_ids_pairs holds_file_def)
  obtain ids where r1: "g_relation_list s1 = zero_relation_list\<lparr>light_id := ids, light_num := length L\<rparr>"
    "length ids = MAX_LIGHT_PER_WNC" "take (length L) ids = L"
    using read_light_connect_wf(1) [of s0, folded s1_def L] by blast
  obtain rel where r2: "g_relation_list s2 = g_relation_list s1\<lparr>relation := rel, detector_num := length D\<rparr>"
    "length rel = MAX_DETECTOR_PER_WNC" "map detector_id (take (length D) rel) = D"
    "map mask_bytes rel = replicate MAX_DETECTOR_PER_WNC (replicate MAX_RELATION_MASK 0)"
    using read_sensor_list_wf(1) [of s1, folded s2_def D] by blast
  have le: "length L \<le> MAX_LIGHT_PER_WNC" "length D \<le> MAX_DETECTOR_PER_WNC" using assms(6,7) by simp_all
  have mb: "mask_bytes (rel ! j) = replicate MAX_RELATION_MASK 0" if "j < MAX_DETECTOR_PER_WNC" for j
    using that r2(2,4) by (metis nth_map nth_replicate)
  have wf: "relations_wf (g_relation_list s2)"
    using r1 r2 le mb by (simp add: relations_wf_def list_all_length zero_relation_list_def)
  have z: "\<not> region_bit (g_relation_list s2) j i"
    if "j < MAX_DETECTOR_PER_WNC" "i < MAX_LIGHT_PER_WNC" for j i
    using that mb [OF that(1)] r2(1) by (simp add: region_bit_def)
  have "file_lines s2 LIGHT_PARKING_FILE_ADDR 0 (unat (f_size (light_parking d))) = map pair_line rp"
    using assms(5) hf [OF st(2)] by (intro holds_file_lines) simp
  then have r: "r = fold_while (\<lambda>_. True) light_parking_line (map pair_line rp) (g_relation_list s2)"
    using assms(5,8) d(1) st(1,5)
    by (simp add: read_light_parking_flie_def Let_def read_lines_fold holds_file_def)
  have ix: "light_index (g_relation_list s2) a = first_index a L"
    "detector_index (g_relation_list s2) a = first_index a D" for a
    unfolding light_index_def detector_index_def r2(1) r1(1)
    using index_prefix [of "length L" ids L a] index_prefix [of "length D" "map detector_id rel" D a] r1(3) r2(3)
    by (simp_all add: take_map)
  have "g_light_info_list (init_parking_lists s) = \<lparr>l_num = length L, light_info =
      map new_light L @ replicate (MAX_LIGHT_PER_WNC - length L) zero_light\<rparr>"
    using read_light_connect_wf(2) [of s0, folded s1_def L] st(1,7) by (simp add: read_light_parking_flie_def Let_def)
  moreover have "g_detector_info_list (init_parking_lists s) = \<lparr>d_num = length D, detector_info =
      map new_detector D @ replicate (MAX_DETECTOR_PER_WNC - length D) zero_detector\<rparr>"
    using read_sensor_list_wf(2) [of s1, folded s2_def D] st(1) by (simp add: read_light_parking_flie_def Let_def)
  ultimately show ?thesis
    using light_parking_fold [OF wf, of "map pair_line rp", folded r, unfolded map_filter_pairs ix] z r1 r2
    by (simp add: take_map [symmetric])
qed


section \<open>A concrete parking lot\<close>

definition demo_info :: "(u32 \<times> u32) list \<Rightarrow> single_file_info_t" where
  "demo_info rs = \<lparr>f_sn = 1, f_size = of_nat (length (concat (map pair_line rs))), f_name = replicate 256 0\<rparr>"

definition demo_dir :: file_info_list_t where
  "demo_dir = \<lparr>region_config = demo_info [], light_connect = demo_info [(7, 448)],
     light_parking = demo_info [(7, 9)], sensor_list = demo_info [(9, 448)], reserved_parking = demo_info []\<rparr>"

definition demo_flash :: mem where
  "demo_flash = mprogram (mprogram (mprogram (mprogram (\<lambda>_. 0xff) CONFIG_FILE_INFO_ADDR (dir_bytes demo_dir))
     LIGHT_CONNECT_FILE_ADDR (pair_line (7, 448))) LIGHT_PARKING_FILE_ADDR (pair_line (7, 9)))
     SENSOR_LIST_FILE_ADDR (pair_line (9, 448))"

definition demo_file :: file_st where
  "demo_file = db_st.extend
     (cfg_st.extend demo_cfg (db_st.fields zero_detector_list zero_relation_list zero_light_list
        \<lparr>n_num = 0, n_node = replicate MAX_NODE_WHOLE_PARKING_LOT \<lparr>n_id = 0, n_device_type = 0, n_rssi = 0, n_snr = 0, n_time_left = 0\<rparr>\<rparr>
        \<lparr>cn_num = 0, cn_freq = 0, cn_period = 0,
          cn_node = replicate MAX_NODE_WHOLE_PARKING_LOT \<lparr>cn_id = 0, cn_done = 0\<rparr>\<rparr>))
     (file_st.fields demo_dir)"

lemma length_pair_line: "length (pair_line p) \<le> 25"
  using length_signed_decimal [of "fst p"] length_signed_decimal [of "snd p"] by (simp add: pair_line_def)

lemma demo_flash_reads:
  "mread demo_flash CONFIG_FILE_INFO_ADDR 1320 = dir_bytes demo_dir"
  "mread demo_flash LIGHT_CONNECT_FILE_ADDR (length (pair_line (7, 448))) = pair_line (7, 448)"
  "mread demo_flash LIGHT_PARKING_FILE_ADDR (length (pair_line (7, 9))) = pair_line (7, 9)"
  "mread demo_flash SENSOR_LIST_FILE_ADDR (length (pair_line (9, 448))) = pair_line (9, 448)"
proof -
  have w: "dir_wf demo_dir" by (simp add: dir_wf_def demo_dir_def demo_info_def)
  have len: "length (dir_bytes demo_dir) = 1320" by (rule dir.enc_length [OF w])
  have e: "erased (\<lambda>_. 0xff) a n" for a n by (simp add: erased_def)
  note b = length_pair_line [of "(7, 448)"] length_pair_line [of "(7, 9)"] length_pair_line [of "(9, 448)"]
  show "mread demo_flash CONFIG_FILE_INFO_ADDR 1320 = dir_bytes demo_dir"
    using mread_mprogram [OF e, of CONFIG_FILE_INFO_ADDR "dir_bytes demo_dir"] len
    by (simp add: demo_flash_def mread_mprogram_other)
  show "mread demo_flash LIGHT_CONNECT_FILE_ADDR (length (pair_line (7, 448))) = pair_line (7, 448)"
    using b len by (simp add: demo_flash_def mread_mprogram_other mread_mprogram erased_mprogram_other e)
  show "mread demo_flash LIGHT_PARKING_FILE_ADDR (length (pair_line (7, 9))) = pair_line (7, 9)"
    using b len by (simp add: demo_flash_def mread_mprogram_other mread_mprogram erased_mprogram_other e)
  show "mread demo_flash SENSOR_LIST_FILE_ADDR (length (pair_line (9, 448))) = pair_line (9, 448)"
    using b len by (simp add: demo_flash_def mread_mprogram_other mread_mprogram erased_mprogram_other e)
qed

lemma demo_file_fields:
  "dev_id (wnc_device demo_file) = 448"
  "new_nodes_wf (g_new_node_list demo_file)" "config_nodes_wf (g_config_node_list demo_file)"
  by (simp_all add: demo_file_def demo_cfg_def demo_emb_def sys_st.defs emb_st.defs cfg_st.defs db_st.defs
      file_st.defs demo_sys_def default_params_def new_nodes_wf_def config_nodes_wf_def)

lemma demo_holds_file:
  "flash s = demo_flash \<Longrightarrow> mread demo_flash a (length (pair_line p)) = pair_line p \<Longrightarrow>
     holds_file s a (demo_info [p]) [p]"
  using length_pair_line [of p] by (simp add: holds_file_def demo_info_def file_absent_def unat_of_nat)

theorem init_parking_lists_loads_witness:
  "light_num (g_relation_list (init_parking_lists (demo_file\<lparr>flash := demo_flash\<rparr>))) = 1 \<and>
   detector_num (g_relation_list (init_parking_lists (demo_file\<lparr>flash := demo_flash\<rparr>))) = 1 \<and>
   region_bit (g_relation_list (init_parking_lists (demo_file\<lparr>flash := demo_flash\<rparr>))) 0 0"
proof -
  define s where "s = demo_file\<lparr>flash := demo_flash\<rparr>"
  have f: "flash s = demo_flash" by (simp add: s_def)
  have w: "dir_wf demo_dir" by (simp add: dir_wf_def demo_dir_def demo_info_def)
  have d: "dir_of (ext_read CONFIG_FILE_INFO_ADDR 1320 s) = demo_dir"
    using dir.dec_enc [OF w] by (simp add: ext_read_def f demo_flash_reads)
  have id: "dev_id (wnc_device s) = 448" using demo_file_fields(1) by (simp add: s_def)
  have h: "holds_file s LIGHT_CONNECT_FILE_ADDR (light_connect demo_dir) [(7, 448)]"
    "holds_file s SENSOR_LIST_FILE_ADDR (sensor_list demo_dir) [(9, 448)]"
    "holds_file s LIGHT_PARKING_FILE_ADDR (light_parking demo_dir) [(7, 9)]"
    using demo_holds_file [OF f] demo_flash_reads by (simp_all add: demo_dir_def)
  show ?thesis
    using init_parking_lists_loads [OF d id h refl refl refl]
    by (simp add: first_index_def s_def [symmetric])
qed

end
