(* ===== verification/Work_State_Log.thy ===== *)
theory Work_State_Log
  imports Parking_Lists
begin

text \<open>
  The work state log, \<open>applications/user_components/work_state_log.c\<close>: a report at power-on and one
  per hour with the state of every detector that needs attention. The software and hardware versions,
  the tick rate, the tick counter and the network address come from outside the modelled files and
  are fields of the state.
\<close>

datatype log_reason = REASON_NOT_WRITE | REASON_RESEND | REASON_SEND | REASON_MISS_FRAME
  | REASON_OFFLINE | REASON_RESET | REASON_CHANGE | REASON_POWER | REASON_LORA

datatype log_event_type = EVENT_DETECTOR_OFFLINE | EVENT_DETECTOR_RESTART | EVENT_LIGHT_OFFLINE

record stu_work_state =
  time_start :: RTC_T
  events :: "log_event_type \<Rightarrow> u32"

record ws_st = file_st +
  g_work_state :: stu_work_state
  software_version :: string
  hardware_version :: string
  rt_tick :: nat
  tick_per_second :: nat
  net_addr :: u32

section \<open>Operations\<close>

text \<open>The index of the last entry of the ring buffers; with \<open>c_ptr = 0\<close> it is \<open>MAX_AVG_NUM\<close>, one
  past their end, where the structure has the member that follows the array.\<close>

definition last_entry :: "single_detector_info \<Rightarrow> nat" where
  "last_entry d = (if d_c_ptr d = 0 then MAX_AVG_NUM else unat (d_c_ptr d - 1))"

definition c_rssi_at :: "single_detector_info \<Rightarrow> nat \<Rightarrow> u16" where
  "c_rssi_at d i = (d_c_rssi d @ [d_c_avg_rssi d]) ! i"

definition c_snr_at :: "single_detector_info \<Rightarrow> nat \<Rightarrow> byte" where
  "c_snr_at d i = (d_c_snr d @ [d_c_avg_snr d]) ! i"

definition need_write_to_log :: "single_detector_info \<Rightarrow> log_reason" where
  "need_write_to_log d =
     (let resend = (d_resend1 d + d_resend2 d * 2 + d_resend3 d * 3) -
                   (d_last_resend1 d + d_last_resend2 d * 2 + d_last_resend3 d * 3);
          tmp_ptr = last_entry d
      in if resend > 10 then REASON_RESEND
         else if d_send_num d - d_last_send d > 12 then REASON_SEND
         else if d_last_miss_recv d \<noteq> d_miss_recv_num d then REASON_MISS_FRAME
         else if d_state d = NODE_STATE_OFFLINE \<or> d_last_offline d \<noteq> d_offline_time d then REASON_OFFLINE
         else if d_last_offline d \<noteq> d_offline_time d then REASON_RESET
         else if d_change_time d > 10 then REASON_CHANGE
         else if d_lowest_power d < 140 \<and> d_lowest_power d \<noteq> 0 then REASON_POWER
         else if d_current_dr d \<ge> 9 \<or> sint (c_rssi_at d tmp_ptr) < - 100 \<or> sint (c_snr_at d tmp_ptr) < - 5
         then REASON_LORA
         else REASON_NOT_WRITE)"

definition get_online_detector :: "'a db_st_scheme \<Rightarrow> nat" where
  "get_online_detector s = (let l = g_detector_info_list s
     in length (filter (\<lambda>d. d_state d \<noteq> NODE_STATE_OFFLINE) (take (d_num l) (detector_info l))))"

definition get_online_light :: "'a db_st_scheme \<Rightarrow> nat" where
  "get_online_light s = (let l = g_light_info_list s
     in length (filter (\<lambda>d. l_state d \<noteq> NODE_STATE_OFFLINE) (take (l_num l) (light_info l))))"

definition prepare_read_work_state_log :: "'a log_st_scheme \<Rightarrow> nat \<times> 'a log_st_scheme" where
  "prepare_read_work_state_log s =
     (let s' = prepare_read WORK_STATE_LOG s in (calculate_file_size WORK_STATE_LOG s', s'))"

definition read_work_state_log :: "nat \<Rightarrow> 'a log_st_scheme \<Rightarrow> byte list \<times> 'a log_st_scheme" where
  "read_work_state_log n s = log_read n WORK_STATE_LOG s"

text \<open>\<open>len = rt_snprintf(str_log, sizeof(str_log), ...); log_write(str_log, len, WORK_STATE_LOG)\<close>.\<close>

definition ws_printf :: "string \<Rightarrow> fmt_arg list \<Rightarrow> 'a sys_st_scheme \<Rightarrow> 'a sys_st_scheme" where
  "ws_printf fmt args s =
     (let (str_log, len) = rt_snprintf 256 fmt args
      in log_write (buffer_bytes str_log len (stack_mem s)) WORK_STATE_LOG s)"

definition ws_puts :: "string \<Rightarrow> 'a sys_st_scheme \<Rightarrow> 'a sys_st_scheme" where
  "ws_puts txt s = log_write (bytes_of txt) WORK_STATE_LOG s"

abbreviation (input) crlf :: string where "crlf \<equiv> [CHR 0x0D, CHR 0x0A]"

definition byte_arg :: "byte \<Rightarrow> fmt_arg" where "byte_arg b = ArgInt (ucast b)"
definition nat_arg :: "nat \<Rightarrow> fmt_arg" where "nat_arg n = ArgInt (of_nat n)"

definition power_on_lines :: "RTC_T \<Rightarrow> 'a ws_st_scheme \<Rightarrow> (string \<times> fmt_arg list) list" where
  "power_on_lines rtc s =
     [(crlf @ ''-----------'' @ crlf @ ''%d/%d/%d  %02d:%02d  system start'' @ crlf,
         [ArgInt (ucast (year rtc)), byte_arg (month rtc), byte_arg (day rtc), byte_arg (hour rtc),
          byte_arg (minute rtc)]),
      (''hardware version:%s'' @ crlf, [ArgStr (hardware_version s)]),
      (''software version:%s'' @ crlf, [ArgStr (software_version s)]),
      (''device id: %d'' @ crlf, [ArgInt (dev_id (wnc_device s))]),
      (''MAC: %02x-%02x-%02x-%02x-%02x-%02x'' @ crlf, map byte_arg (take 6 (eth_mac (wnc_device s)))),
      (''network mode: %s'' @ crlf,
         [ArgStr (if net_mode (net_config (g_wnc_config s)) = DHCP_MODE then ''DHCP'' else ''dedicated IP'')]),
      (''file serial number: %d'' @ crlf, [ArgInt (get_file_sn s)]),
      (''detector number: %d'' @ crlf, [nat_arg (d_num (g_detector_info_list s))]),
      (''light number: %d'' @ crlf, [nat_arg (l_num (g_light_info_list s))])]"

definition work_state_power_on :: "'a ws_st_scheme \<Rightarrow> 'a ws_st_scheme" where
  "work_state_power_on s =
     (let rtc = fst (pcf8563_get_datetime (stack_rtc s) s);
          s1 = s\<lparr>g_work_state := \<lparr>time_start = rtc, events = (\<lambda>_. 0)\<rparr>\<rparr>
      in fold (\<lambda>(fmt, args). ws_printf fmt args) (power_on_lines rtc s1) s1)"

fun reason_text :: "log_reason \<Rightarrow> string" where
  "reason_text REASON_RESEND = ''resend''"
| "reason_text REASON_SEND = ''send''"
| "reason_text REASON_MISS_FRAME = ''miss frame''"
| "reason_text REASON_OFFLINE = ''offline''"
| "reason_text REASON_RESET = ''reset''"
| "reason_text REASON_CHANGE = ''change''"
| "reason_text REASON_POWER = ''power''"
| "reason_text REASON_LORA = ''lora''"
| "reason_text REASON_NOT_WRITE = ''by mistake''"

definition detector_args :: "single_detector_info \<Rightarrow> fmt_arg list" where
  "detector_args d =
     [ArgInt (d_id d), byte_arg (d_state d), ArgInt (d_send_num d), ArgInt (d_abs_recv_num d),
      ArgInt (d_recv_num d), ArgInt (d_resend1 d), ArgInt (d_resend2 d), ArgInt (d_resend3 d),
      ArgInt (d_change_time d), ArgInt (d_offline_time d), ArgInt (d_reset_time d),
      ArgInt (ucast (d_lowest_power d) * 2), byte_arg (d_current_dr d),
      ArgInt (scast (c_rssi_at d (last_entry d))), ArgInt (scast (c_snr_at d (last_entry d)))]"

definition roll_detector :: "single_detector_info \<Rightarrow> single_detector_info" where
  "roll_detector d = d\<lparr>d_last_resend1 := d_resend1 d, d_last_resend2 := d_resend2 d,
     d_last_resend3 := d_resend3 d, d_last_offline := d_offline_time d, d_last_reset := d_reset_time d,
     d_last_send := d_send_num d, d_last_miss_recv := d_miss_recv_num d, d_change_time := 0\<rparr>"

definition report_detector :: "nat \<Rightarrow> 'a ws_st_scheme \<Rightarrow> 'a ws_st_scheme" where
  "report_detector j s =
     (let l = g_detector_info_list s; d = detector_info l ! j; ret = need_write_to_log d;
          s1 = (if ret \<noteq> REASON_NOT_WRITE
                then ws_printf (reason_text ret @ crlf) []
                       (ws_printf ''%10d | %5d | %6d | %6d | %6d | %3d | %3d | %3d | %3d | %3d | %3d | %3d | %2d | %4d | %3d | ''
                          (detector_args d) s)
                else s)
      in s1\<lparr>g_detector_info_list := l\<lparr>detector_info := (detector_info l)[j := roll_detector d]\<rparr>\<rparr>)"

definition zero_rtc :: RTC_T where
  "zero_rtc = \<lparr>year = 0, month = 0, day = 0, hour = 0, minute = 0, second = 0, week = 0\<rparr>"

definition ip_byte :: "u32 \<Rightarrow> nat \<Rightarrow> fmt_arg" where
  "ip_byte a n = ArgInt (drop_bit n a AND 0xff)"

definition period_head :: "RTC_T \<Rightarrow> 'a ws_st_scheme \<Rightarrow> (string \<times> fmt_arg list) list" where
  "period_head rtc s =
     (let t = time_start (g_work_state s); now_tick = rt_tick s div tick_per_second s
      in [(crlf @ ''-----------'' @ crlf @ ''%02d/%02d %02d:%02d -- %02d/%02d %02d:%02d'' @ crlf,
             map byte_arg [month t, day t, hour t, minute t, month rtc, day rtc, hour rtc, minute rtc]),
          (''continuous work: %d days %d hours %d minitues'' @ crlf,
             [nat_arg (now_tick div 3600 div 24), nat_arg ((now_tick mod (3600 * 24)) div 3600),
              nat_arg ((now_tick mod 3600) div 60)]),
          (''software version:%s'' @ crlf, [ArgStr (software_version s)]),
          (''ip: %d.%d.%d.%d'' @ crlf, [ip_byte (net_addr s) 0, ip_byte (net_addr s) 8,
             ip_byte (net_addr s) 16, ip_byte (net_addr s) 24]),
          (''detector num: %d, '', [nat_arg (d_num (g_detector_info_list s))]),
          (''online: %d'' @ crlf, [nat_arg (get_online_detector s)]),
          (''light num: %d, '', [nat_arg (l_num (g_light_info_list s))]),
          (''online: %d'' @ crlf, [nat_arg (get_online_light s)])])"

definition period_events :: "'a ws_st_scheme \<Rightarrow> (string \<times> fmt_arg list) list" where
  "period_events s =
     [(''detector offline times:%d'' @ crlf, [ArgInt (events (g_work_state s) EVENT_DETECTOR_OFFLINE)]),
      (''detector reset times:%d'' @ crlf, [ArgInt (events (g_work_state s) EVENT_DETECTOR_RESTART)])]"

definition table_head :: string where
  "table_head = ''    ID     | state |  send  |  recv  |  resp  |'' @
     '' rs1 | rs2 | rs3 | chg | off | rst | pwr | SF | rssi | snr | reason'' @ crlf"

definition work_state_time_period :: "'a ws_st_scheme \<Rightarrow> 'a ws_st_scheme" where
  "work_state_time_period s =
     (let rtc = fst (pcf8563_get_datetime zero_rtc s);
          put = (\<lambda>(fmt, args). ws_printf fmt args);
          s1 = fold put (period_head rtc s) s;
          s2 = fold put (period_events s) (ws_puts (''errors:'' @ crlf) s1);
          s3 = ws_printf table_head [] (ws_puts (''detector state:'' @ crlf) s2);
          s4 = fold report_detector [0..<d_num (g_detector_info_list s)] s3
      in s4\<lparr>g_work_state := \<lparr>time_start = rtc, events = (\<lambda>_. 0)\<rparr>\<rparr>)"

text \<open>The bound check of \<open>work_state_log_add_event\<close> can fail for no member of the enumeration.\<close>

definition work_state_log_add_event :: "log_event_type \<Rightarrow> 'a ws_st_scheme \<Rightarrow> 'a ws_st_scheme \<times> int" where
  "work_state_log_add_event event s =
     (let w = g_work_state s
      in (s\<lparr>g_work_state := w\<lparr>events := (events w)(event := events w event + 1)\<rparr>\<rparr>, 0))"


section \<open>The text of the report\<close>

text \<open>What the hourly report has to say, line by line, as plain text: numbers in decimal, the columns
  of the table right-aligned, a row for every detector that needs attention.\<close>

definition minute_text :: "RTC_T \<Rightarrow> string" where
  "minute_text t = zpad 2 (unat (month t)) @ ''/'' @ zpad 2 (unat (day t)) @ '' '' @
     zpad 2 (unat (hour t)) @ '':'' @ zpad 2 (unat (minute t))"

definition ip_text :: "u32 \<Rightarrow> string" where
  "ip_text a = decimal (unat a mod 256) @ ''.'' @ decimal (unat a div 256 mod 256) @ ''.'' @
     decimal (unat a div 65536 mod 256) @ ''.'' @ decimal (unat a div 16777216)"

definition head_text :: "RTC_T \<Rightarrow> 'a ws_st_scheme \<Rightarrow> string" where
  "head_text rtc s =
     (let up = rt_tick s div tick_per_second s; ds = g_detector_info_list s; ls = g_light_info_list s
      in crlf @ ''-----------'' @ crlf @
         minute_text (time_start (g_work_state s)) @ '' -- '' @ minute_text rtc @ crlf @
         ''continuous work: '' @ decimal (up div 86400) @ '' days '' @
           decimal (up mod 86400 div 3600) @ '' hours '' @ decimal (up mod 3600 div 60) @ '' minitues'' @ crlf @
         ''software version:'' @ software_version s @ crlf @
         ''ip: '' @ ip_text (net_addr s) @ crlf @
         ''detector num: '' @ decimal (d_num ds) @ '', online: '' @
           decimal (length (filter (\<lambda>d. d_state d \<noteq> NODE_STATE_OFFLINE) (take (d_num ds) (detector_info ds)))) @ crlf @
         ''light num: '' @ decimal (l_num ls) @ '', online: '' @
           decimal (length (filter (\<lambda>d. l_state d \<noteq> NODE_STATE_OFFLINE) (take (l_num ls) (light_info ls)))) @ crlf)"

definition events_text :: "'a ws_st_scheme \<Rightarrow> string" where
  "events_text s =
     ''errors:'' @ crlf @
     ''detector offline times:'' @ signed_decimal (sint (events (g_work_state s) EVENT_DETECTOR_OFFLINE)) @ crlf @
     ''detector reset times:'' @ signed_decimal (sint (events (g_work_state s) EVENT_DETECTOR_RESTART)) @ crlf"

definition columns_text :: string where
  "columns_text = ''detector state:'' @ crlf @
     ''    ID     | state |  send  |  recv  |  resp  | rs1 | rs2 | rs3 | chg | off | rst | pwr | SF | rssi | snr | reason'' @
     crlf"

text \<open>A column and the bar that ends it.\<close>

definition cell :: "nat \<Rightarrow> int \<Rightarrow> string" where
  "cell k i = lpad k i @ '' | ''"

definition row_text :: "single_detector_info \<Rightarrow> string" where
  "row_text d =
     (if need_write_to_log d = REASON_NOT_WRITE then []
      else cell 10 (sint (d_id d)) @ cell 5 (uint (d_state d)) @ cell 6 (sint (d_send_num d)) @
        cell 6 (sint (d_abs_recv_num d)) @ cell 6 (sint (d_recv_num d)) @ cell 3 (sint (d_resend1 d)) @
        cell 3 (sint (d_resend2 d)) @ cell 3 (sint (d_resend3 d)) @ cell 3 (sint (d_change_time d)) @
        cell 3 (sint (d_offline_time d)) @ cell 3 (sint (d_reset_time d)) @
        cell 3 (2 * uint (d_lowest_power d)) @ cell 2 (uint (d_current_dr d)) @
        cell 4 (sint (c_rssi_at d (last_entry d))) @ cell 3 (sint (c_snr_at d (last_entry d))) @
        reason_text (need_write_to_log d) @ crlf)"

definition report_text :: "RTC_T \<Rightarrow> 'a ws_st_scheme \<Rightarrow> string" where
  "report_text rtc s = head_text rtc s @ events_text s @ columns_text @
     concat (map row_text (take (d_num (g_detector_info_list s)) (detector_info (g_detector_info_list s))))"

section \<open>Properties\<close>

text \<open>The state after \<open>txt\<close> has been appended to the work state log, nothing else having changed.\<close>

definition reports :: "string \<Rightarrow> 'a log_st_scheme \<Rightarrow> 'a log_st_scheme \<Rightarrow> bool" where
  "reports txt s s' \<longleftrightarrow> s' = s\<lparr>flash := flash s', log_infos := log_infos s'\<rparr> \<and>
     (\<forall>hs. logs_hold s hs \<longrightarrow>
        logs_hold s' (hs(WORK_STATE_LOG := hs WORK_STATE_LOG @ bytes_of txt)))"

lemma bytes_of_append [simp]: "bytes_of (a @ b) = bytes_of a @ bytes_of b" and bytes_of_Nil [simp]: "bytes_of [] = []"
  by (simp_all add: bytes_of_def)

lemma reports_refl: "reports [] s s"
  by (simp add: reports_def)

lemma reports_trans: "reports a s t \<Longrightarrow> reports b t u \<Longrightarrow> reports (a @ b) s u"
  unfolding reports_def
proof (elim conjE, intro conjI allI impI)
  fix hs
  assume st: "\<forall>hs. logs_hold s hs \<longrightarrow> logs_hold t (hs(WORK_STATE_LOG := hs WORK_STATE_LOG @ bytes_of a))"
    and tu: "\<forall>hs. logs_hold t hs \<longrightarrow> logs_hold u (hs(WORK_STATE_LOG := hs WORK_STATE_LOG @ bytes_of b))"
    and "logs_hold s hs"
  then have "logs_hold t (hs(WORK_STATE_LOG := hs WORK_STATE_LOG @ bytes_of a))" by blast
  then have "logs_hold u ((hs(WORK_STATE_LOG := hs WORK_STATE_LOG @ bytes_of a))
      (WORK_STATE_LOG := (hs(WORK_STATE_LOG := hs WORK_STATE_LOG @ bytes_of a)) WORK_STATE_LOG @ bytes_of b))"
    by (rule tu [rule_format])
  then show "logs_hold u (hs(WORK_STATE_LOG := hs WORK_STATE_LOG @ bytes_of (a @ b)))" by simp
qed (rule log_upd_trans)

lemma reports_puts: "reports txt s (ws_puts txt s)"
  unfolding reports_def ws_puts_def
  using log_write_only [of "bytes_of txt" WORK_STATE_LOG s] logs_hold_write [of s _ "bytes_of txt" WORK_STATE_LOG]
  by blast

text \<open>A formatted line that fits the buffer goes to the log as it is.\<close>

lemma reports_printf:
  assumes "vsn 255 fmt args [] = txt" and "length txt \<le> 255"
  shows "reports txt s (ws_printf fmt args s)"
proof -
  have "ws_printf fmt args s = ws_puts txt s"
    using assms by (simp add: ws_printf_def ws_puts_def rt_snprintf_def rt_vsnprintf_def buffer_bytes_fits)
  then show ?thesis by (simp add: reports_puts)
qed

text \<open>A line as the formatter prints it; it also has to fit the buffer.\<close>

definition prints :: "string \<times> fmt_arg list \<Rightarrow> string \<Rightarrow> bool" where
  "prints x txt \<longleftrightarrow> vsn 255 (fst x) (snd x) [] = txt \<and> length txt \<le> 255"

lemma reports_fold:
  "list_all2 prints xs ts \<Longrightarrow>
     reports (concat ts) s (fold (\<lambda>(fmt, args). ws_printf fmt args) xs s)"
proof (induction xs ts arbitrary: s rule: list_all2_induct)
  case Nil
  then show ?case by (simp add: reports_refl)
next
  case (Cons x xs y ys)
  then have "reports y s (ws_printf (fst x) (snd x) s)" by (intro reports_printf) (auto simp: prints_def)
  from reports_trans [OF this Cons.IH] show ?case by (simp add: case_prod_unfold)
qed

lemma reports_keeps:
  "reports txt s s' \<Longrightarrow> g_detector_info_list s' = g_detector_info_list s" for s :: "'a ws_st_scheme"
  unfolding reports_def by (elim conjE) (erule ssubst, simp)

subsection \<open>The lines as printed\<close>

lemma zpad_2_byte: "length (zpad 2 (unat (b :: byte))) \<le> 3"
  using unat_bounds(2) [of b] length_decimal [of 3 "unat b"] by (simp add: zpad_def)

lemma small_arg:
  "n < 2147483648 \<Longrightarrow> signed_decimal (sint (of_nat n :: u32)) = decimal n"
  by (subst sint_small) (simp_all add: unat_of_nat signed_decimal_def)

lemma decimal_room: "n < 10 ^ 10 \<Longrightarrow> length (decimal n) \<le> 10"
  using length_decimal [of 10 n] by simp

lemma ip_byte_text:
  "signed_decimal (sint (drop_bit n a AND 0xff :: u32)) = decimal (unat a div 2 ^ n mod 256)"
proof -
  have "take_bit 32 (unat a) = unat a"
    using unsigned_less [of a, where ?'a = nat] by (simp add: take_bit_nat_eq_self)
  then have "unat (take_bit 8 (drop_bit n a)) = unat a div 2 ^ n mod 256"
    by (simp add: unsigned_take_bit_eq unsigned_drop_bit_eq) (simp add: take_bit_eq_mod drop_bit_eq_div)
  moreover have "drop_bit n a AND 0xff = take_bit 8 (drop_bit n a)"
    by (simp add: take_bit_eq_mask mask_eq_exp_minus_1)
  ultimately have u: "unat (drop_bit n a AND 0xff) = unat a div 2 ^ n mod 256" by simp
  show ?thesis
    using u by (subst sint_small) (simp_all add: signed_decimal_def)
qed

lemma unat_div_top: "unat (a :: u32) div 2 ^ 24 mod 256 = unat a div 2 ^ 24"
  using unsigned_less [of a, where ?'a = nat] by simp

lemma prints_period:
  "prints (crlf @ ''-----------'' @ crlf @ ''%02d/%02d %02d:%02d -- %02d/%02d %02d:%02d'' @ crlf,
       map byte_arg [month t, day t, hour t, minute t, month r, day r, hour r, minute r])
     (crlf @ ''-----------'' @ crlf @ minute_text t @ '' -- '' @ minute_text r @ crlf)"
  using zpad_2_byte [of "month t"] zpad_2_byte [of "day t"] zpad_2_byte [of "hour t"] zpad_2_byte [of "minute t"]
    zpad_2_byte [of "month r"] zpad_2_byte [of "day r"] zpad_2_byte [of "hour r"] zpad_2_byte [of "minute r"]
  by (simp add: prints_def byte_arg_def minute_text_def)

lemma prints_work_time:
  assumes "a < 2147483648" "b < 2147483648" "c < 2147483648"
  shows "prints (''continuous work: %d days %d hours %d minitues'' @ crlf, [nat_arg a, nat_arg b, nat_arg c])
     (''continuous work: '' @ decimal a @ '' days '' @ decimal b @ '' hours '' @ decimal c @ '' minitues'' @ crlf)"
  using assms decimal_room [of a] decimal_room [of b] decimal_room [of c]
  by (simp add: prints_def nat_arg_def small_arg)

lemma decimal_mod: "length (decimal (n mod 256)) \<le> 10"
  using decimal_room [of "n mod 256"] mod_less_divisor [of 256 n] by simp

lemma prints_ip:
  "prints (''ip: %d.%d.%d.%d'' @ crlf, [ip_byte a 0, ip_byte a 8, ip_byte a 16, ip_byte a 24])
     (''ip: '' @ ip_text a @ crlf)"
  using ip_byte_text [of 0 a] ip_byte_text [of 8 a] ip_byte_text [of 16 a] ip_byte_text [of 24 a]
    decimal_mod [of "unat a"] decimal_mod [of "unat a div 256"]
    decimal_mod [of "unat a div 65536"] decimal_mod [of "unat a div 16777216"] unat_div_top [of a]
  by (simp add: prints_def ip_byte_def ip_text_def)

lemma prints_count:
  assumes "n \<le> 60"
  shows "prints (''detector num: %d, '', [nat_arg n]) (''detector num: '' @ decimal n @ '', '')"
    "prints (''light num: %d, '', [nat_arg n]) (''light num: '' @ decimal n @ '', '')"
    "prints (''online: %d'' @ crlf, [nat_arg n]) (''online: '' @ decimal n @ crlf)"
  using assms decimal_room [of n] by (simp_all add: prints_def nat_arg_def small_arg)

lemma head_printed:
  assumes "detectors_wf (g_detector_info_list s)" and "lights_wf (g_light_info_list s)"
    and "rt_tick s < 2 ^ 32" and "length (software_version s) \<le> 236"
  shows "reports (head_text rtc s) s (fold (\<lambda>(fmt, args). ws_printf fmt args) (period_head rtc s) s)"
proof -
  define up where "up = rt_tick s div tick_per_second s"
  define don where "don = get_online_detector s"
  define lon where "lon = get_online_light s"
  let ?dn = "d_num (g_detector_info_list s)" and ?ln = "l_num (g_light_info_list s)"
  have "up \<le> rt_tick s" by (simp add: up_def)
  then have up: "up div 86400 < 2147483648" "up mod 86400 div 3600 < 2147483648" "up mod 3600 div 60 < 2147483648"
    using assms(3) by auto
  have num: "?dn \<le> 60" "?ln \<le> 40" using assms by (auto simp: detectors_wf_def lights_wf_def)
  have "don \<le> ?dn" "lon \<le> ?ln"
    unfolding don_def lon_def get_online_detector_def get_online_light_def Let_def
    by (rule order_trans [OF length_filter_le], simp)+
  note n = num this
  let ?t = "time_start (g_work_state s)"
  let ?ts = "[crlf @ ''-----------'' @ crlf @ minute_text ?t @ '' -- '' @ minute_text rtc @ crlf,
     ''continuous work: '' @ decimal (up div 86400) @ '' days '' @ decimal (up mod 86400 div 3600) @ '' hours '' @
       decimal (up mod 3600 div 60) @ '' minitues'' @ crlf,
     ''software version:'' @ software_version s @ crlf, ''ip: '' @ ip_text (net_addr s) @ crlf,
     ''detector num: '' @ decimal ?dn @ '', '', ''online: '' @ decimal don @ crlf,
     ''light num: '' @ decimal ?ln @ '', '', ''online: '' @ decimal lon @ crlf]"
  have "list_all2 prints (period_head rtc s) ?ts"
    unfolding period_head_def Let_def up_def [symmetric] don_def [symmetric] lon_def [symmetric]
    using prints_period [of ?t rtc] prints_work_time [OF up] prints_ip [of "net_addr s"] prints_count [of ?dn]
      prints_count [of ?ln] prints_count [of don] prints_count [of lon] n assms(4)
    by (simp add: prints_def div_mult2_eq [symmetric])
  from reports_fold [OF this, of s] show ?thesis
    by (simp add: head_text_def Let_def up_def don_def lon_def get_online_detector_def get_online_light_def)
qed

lemma events_printed:
  "reports (events_text s) t (fold (\<lambda>(fmt, args). ws_printf fmt args) (period_events s)
     (ws_puts (''errors:'' @ crlf) t))"
proof -
  let ?e = "\<lambda>x. events (g_work_state s) x"
  let ?ts = "[''detector offline times:'' @ signed_decimal (sint (?e EVENT_DETECTOR_OFFLINE)) @ crlf,
     ''detector reset times:'' @ signed_decimal (sint (?e EVENT_DETECTOR_RESTART)) @ crlf]"
  have "list_all2 prints (period_events s) ?ts"
    using length_signed_decimal [of "?e EVENT_DETECTOR_OFFLINE"] length_signed_decimal [of "?e EVENT_DETECTOR_RESTART"]
    by (simp add: period_events_def prints_def)
  from reports_trans [OF reports_puts [of "''errors:'' @ crlf" t] reports_fold [OF this]] show ?thesis
    by (simp add: events_text_def)
qed

lemma columns_printed:
  "reports columns_text t (ws_printf table_head [] (ws_puts (''detector state:'' @ crlf) t))"
proof -
  have "reports table_head u (ws_printf table_head [] u)" for u :: "'a sys_st_scheme"
    by (rule reports_printf) (simp_all add: table_head_def)
  from reports_trans [OF reports_puts [of "''detector state:'' @ crlf" t] this] show ?thesis
    by (simp add: columns_text_def table_head_def)
qed

lemma length_lpad: "length (lpad k (sint (w :: u32))) \<le> max k 11"
  using length_signed_decimal [of w] by (simp add: lpad_def)

lemma sint_args:
  "sint (scast (x :: u16) :: u32) = sint x" "sint (scast (b :: byte) :: u32) = sint b"
  "sint (ucast (b :: byte) * 2 :: u32) = 2 * uint b"
proof -
  show "sint (scast x :: u32) = sint x" "sint (scast b :: u32) = sint b"
    by (simp_all add: sint_up_scast is_up)
  have "unat (ucast b * 2 :: u32) = unat b * 2"
    using unat_bounds(2) [of b] by (simp add: unat_mult_lem [THEN iffD1])
  then show "sint (ucast b * 2 :: u32) = 2 * uint b"
    using unat_bounds(2) [of b] sint_small [of "ucast b * 2"] by simp
qed

lemma row_printed:
  assumes "need_write_to_log d \<noteq> REASON_NOT_WRITE"
  shows "reports (row_text d) s (ws_printf (reason_text (need_write_to_log d) @ crlf) []
     (ws_printf ''%10d | %5d | %6d | %6d | %6d | %3d | %3d | %3d | %3d | %3d | %3d | %3d | %2d | %4d | %3d | ''
        (detector_args d) s))"
proof -
  let ?c = "cell 10 (sint (d_id d)) @ cell 5 (uint (d_state d)) @ cell 6 (sint (d_send_num d)) @
        cell 6 (sint (d_abs_recv_num d)) @ cell 6 (sint (d_recv_num d)) @ cell 3 (sint (d_resend1 d)) @
        cell 3 (sint (d_resend2 d)) @ cell 3 (sint (d_resend3 d)) @ cell 3 (sint (d_change_time d)) @
        cell 3 (sint (d_offline_time d)) @ cell 3 (sint (d_reset_time d)) @
        cell 3 (2 * uint (d_lowest_power d)) @ cell 2 (uint (d_current_dr d)) @
        cell 4 (sint (c_rssi_at d (last_entry d))) @ cell 3 (sint (c_snr_at d (last_entry d)))"
  have c: "reports ?c u (ws_printf ''%10d | %5d | %6d | %6d | %6d | %3d | %3d | %3d | %3d | %3d | %3d | %3d | %2d | %4d | %3d | ''
        (detector_args d) u)" for u :: "'a sys_st_scheme"
  proof (rule reports_printf)
    show "vsn 255 ''%10d | %5d | %6d | %6d | %6d | %3d | %3d | %3d | %3d | %3d | %3d | %3d | %2d | %4d | %3d | ''
        (detector_args d) [] = ?c"
      by (simp add: detector_args_def byte_arg_def sint_args cell_def)
    show "length ?c \<le> 255"
      using length_lpad [of 10 "d_id d"] length_lpad [of 5 "ucast (d_state d)"] length_lpad [of 6 "d_send_num d"]
        length_lpad [of 6 "d_abs_recv_num d"] length_lpad [of 6 "d_recv_num d"] length_lpad [of 3 "d_resend1 d"]
        length_lpad [of 3 "d_resend2 d"] length_lpad [of 3 "d_resend3 d"] length_lpad [of 3 "d_change_time d"]
        length_lpad [of 3 "d_offline_time d"] length_lpad [of 3 "d_reset_time d"]
        length_lpad [of 3 "ucast (d_lowest_power d) * 2"] length_lpad [of 2 "ucast (d_current_dr d)"]
        length_lpad [of 4 "scast (c_rssi_at d (last_entry d))"] length_lpad [of 3 "scast (c_snr_at d (last_entry d))"]
      by (simp add: cell_def sint_args)
  qed
  have r: "reports (reason_text x @ crlf) u (ws_printf (reason_text x @ crlf) [] u)"
    for u :: "'a sys_st_scheme" and x
    by (rule reports_printf) (cases x; simp)+
  show ?thesis using reports_trans [OF c r] assms by (simp add: row_text_def)
qed

lemma reports_update:
  assumes "reports txt s t"
  shows "reports txt (s\<lparr>g_detector_info_list := d\<rparr>) (t\<lparr>g_detector_info_list := d\<rparr>)"
proof -
  have l: "logs_hold (u\<lparr>g_detector_info_list := d\<rparr>) hs = logs_hold u hs" for u :: "'a db_st_scheme" and hs
    by (simp add: logs_hold_def)
  have t: "t = s\<lparr>flash := flash t, log_infos := log_infos t\<rparr>" using assms by (simp add: reports_def)
  have "t\<lparr>g_detector_info_list := d\<rparr> = s\<lparr>g_detector_info_list := d, flash := flash t, log_infos := log_infos t\<rparr>"
    by (subst t) simp
  then show ?thesis using assms unfolding reports_def l by simp
qed

lemma row_skipped: "need_write_to_log d = REASON_NOT_WRITE \<Longrightarrow> row_text d = []"
  by (simp add: row_text_def)

lemma report_detector_state:
  fixes s :: "'a ws_st_scheme"
  shows "\<exists>t. reports (row_text (detector_info (g_detector_info_list s) ! j)) s t \<and>
    report_detector j s = t\<lparr>g_detector_info_list := g_detector_info_list s
    \<lparr>detector_info := (detector_info (g_detector_info_list s))
       [j := roll_detector (detector_info (g_detector_info_list s) ! j)]\<rparr>\<rparr>"
  unfolding report_detector_def Let_def
  by (rule exI, rule conjI [OF _ refl]) (auto intro: row_printed simp: row_skipped reports_refl)

lemma report_detectors:
  fixes s :: "'a ws_st_scheme"
  assumes "n \<le> length (detector_info (g_detector_info_list s))"
  shows "\<exists>t. reports (concat (map row_text (take n (detector_info (g_detector_info_list s))))) s t \<and>
    fold report_detector [0..<n] s = t\<lparr>g_detector_info_list :=
      g_detector_info_list s\<lparr>detector_info :=
        map roll_detector (take n (detector_info (g_detector_info_list s))) @
        drop n (detector_info (g_detector_info_list s))\<rparr>\<rparr>"
  using assms
proof (induction n)
  case 0
  then show ?case by (auto intro: exI [of _ s] simp: reports_refl)
next
  case (Suc n)
  let ?l = "g_detector_info_list s"
  let ?f = "\<lambda>n. map roll_detector (take n (detector_info ?l)) @ drop n (detector_info ?l)"
  let ?x = "\<lambda>n. concat (map row_text (take n (detector_info ?l)))"
  from Suc obtain t where t: "reports (?x n) s t"
    "fold report_detector [0..<n] s = t\<lparr>g_detector_info_list := ?l\<lparr>detector_info := ?f n\<rparr>\<rparr>" by auto
  define u where "u = t\<lparr>g_detector_info_list := ?l\<lparr>detector_info := ?f n\<rparr>\<rparr>"
  have d: "?f n ! n = detector_info ?l ! n" using Suc.prems by (simp add: nth_append)
  obtain v where v: "reports (row_text (detector_info ?l ! n)) u v"
    "report_detector n u = v\<lparr>g_detector_info_list := ?l\<lparr>detector_info :=
      (?f n)[n := roll_detector (?f n ! n)]\<rparr>\<rparr>"
    using report_detector_state [of u n] by (auto simp: u_def d)
  have "(?f n)[n := roll_detector (?f n ! n)] = ?f (Suc n)"
    using Suc.prems by (simp add: list_update_append nth_append take_Suc_conv_app_nth
        Cons_nth_drop_Suc [symmetric])
  moreover have "?x (Suc n) = ?x n @ row_text (detector_info ?l ! n)"
    using Suc.prems by (simp add: take_Suc_conv_app_nth)
  moreover have "reports (?x n @ row_text (detector_info ?l ! n)) s (v\<lparr>g_detector_info_list := ?l\<rparr>)"
  proof -
    have "u\<lparr>g_detector_info_list := ?l\<rparr> = t" using reports_keeps [OF t(1)] by (simp add: u_def)
    with reports_update [OF v(1), of ?l] show ?thesis using reports_trans [OF t(1)] by simp
  qed
  ultimately show ?case
    using v(2) t(2) by (intro exI [of _ "v\<lparr>g_detector_info_list := ?l\<rparr>"]) (simp add: u_def)
qed

text \<open>C24. The hourly report, for lists within their bounds, a tick counter of 32 bits and a version text
  of at most 236 characters: it appends exactly the text \<open>report_text\<close> to the work state log and leaves the
  history of the system log alone. The text has the period, the working time, the version, the address,
  the numbers of detectors and lights and of those that are on-line, the two event counters, the head of
  the table and, in the order of the list, one row with its reason for every detector that
  \<open>need_write_to_log\<close> selects. Every detector of the list has its seven counters of the last period set
  to the present values and its number of changes to 0, the event counters are cleared, the next period
  starts at the time read, and nothing else of the state changes.\<close>

theorem work_state_time_period_effect:
  fixes s :: "'a ws_st_scheme"
  assumes "logs_hold s hs" and "detectors_wf (g_detector_info_list s)" and "lights_wf (g_light_info_list s)"
    and "rt_tick s < 2 ^ 32" and "length (software_version s) \<le> 236"
    and "rtc = fst (pcf8563_get_datetime zero_rtc s)" and "s' = work_state_time_period s"
    and "l = g_detector_info_list s"
  shows "logs_hold s' (hs(WORK_STATE_LOG := hs WORK_STATE_LOG @ bytes_of (report_text rtc s))) \<and>
    s' = s\<lparr>flash := flash s', log_infos := log_infos s',
      g_detector_info_list := l\<lparr>detector_info :=
        map (\<lambda>d. d\<lparr>d_last_resend1 := d_resend1 d, d_last_resend2 := d_resend2 d, d_last_resend3 := d_resend3 d,
               d_last_offline := d_offline_time d, d_last_reset := d_reset_time d, d_last_send := d_send_num d,
               d_last_miss_recv := d_miss_recv_num d, d_change_time := 0\<rparr>)
          (take (d_num l) (detector_info l)) @ drop (d_num l) (detector_info l)\<rparr>,
      g_work_state := \<lparr>time_start = rtc, events = (\<lambda>_. 0)\<rparr>\<rparr>"
proof -
  define s1 where "s1 = fold (\<lambda>(fmt, args). ws_printf fmt args) (period_head rtc s) s"
  define s2 where "s2 = fold (\<lambda>(fmt, args). ws_printf fmt args) (period_events s) (ws_puts (''errors:'' @ crlf) s1)"
  define s3 where "s3 = ws_printf table_head [] (ws_puts (''detector state:'' @ crlf) s2)"
  have r: "reports (head_text rtc s @ events_text s @ columns_text) s s3"
    unfolding s3_def s2_def s1_def
    by (intro reports_trans [OF head_printed [OF assms(2-5)]] reports_trans [OF events_printed] columns_printed)
  have l3: "g_detector_info_list s3 = l" using reports_keeps [OF r] assms(8) by simp
  let ?ds = "map roll_detector (take (d_num l) (detector_info l)) @ drop (d_num l) (detector_info l)"
  obtain t where t: "reports (concat (map row_text (take (d_num l) (detector_info l)))) s3 t"
    "fold report_detector [0..<d_num l] s3 = t\<lparr>g_detector_info_list := l\<lparr>detector_info := ?ds\<rparr>\<rparr>"
    using report_detectors [of "d_num l" s3] assms(2,8) l3 by (auto simp: detectors_wf_def)
  have st: "reports (report_text rtc s) s t"
    using reports_trans [OF r t(1)] assms(8) by (simp add: report_text_def)
  have e: "s' = t\<lparr>g_detector_info_list := l\<lparr>detector_info := ?ds\<rparr>, g_work_state := \<lparr>time_start = rtc, events = (\<lambda>_. 0)\<rparr>\<rparr>"
    unfolding assms(7) work_state_time_period_def Let_def assms(6) [symmetric] s1_def [symmetric] s2_def [symmetric]
      s3_def [symmetric] assms(8) [symmetric] t(2) by simp
  have "logs_hold t (hs(WORK_STATE_LOG := hs WORK_STATE_LOG @ bytes_of (report_text rtc s)))"
    using st assms(1) unfolding reports_def by blast
  then have a: "logs_hold s' (hs(WORK_STATE_LOG := hs WORK_STATE_LOG @ bytes_of (report_text rtc s)))"
    by (simp add: e logs_hold_def)
  have tt: "t = s\<lparr>flash := flash t, log_infos := log_infos t\<rparr>" using st by (simp add: reports_def)
  have f: "flash s' = flash t" "log_infos s' = log_infos t" by (simp_all add: e)
  have "s' = s\<lparr>flash := flash s', log_infos := log_infos s', g_detector_info_list := l\<lparr>detector_info := ?ds\<rparr>,
      g_work_state := \<lparr>time_start = rtc, events = (\<lambda>_. 0)\<rparr>\<rparr>"
    unfolding f by (subst e, subst tt) simp
  then show ?thesis using a unfolding roll_detector_def [abs_def] by simp
qed

text \<open>The reasons: a detector is reported as reset in no state, since the test for a reset repeats
  the one for an offline period that precedes it; and it is left out exactly when no test applies.\<close>

theorem need_write_to_log_reasons:
  "need_write_to_log d \<noteq> REASON_RESET \<and>
   (need_write_to_log d = REASON_NOT_WRITE \<longleftrightarrow>
      (d_resend1 d + d_resend2 d * 2 + d_resend3 d * 3) -
        (d_last_resend1 d + d_last_resend2 d * 2 + d_last_resend3 d * 3) \<le> 10 \<and>
      d_send_num d - d_last_send d \<le> 12 \<and> d_miss_recv_num d = d_last_miss_recv d \<and>
      d_state d \<noteq> NODE_STATE_OFFLINE \<and> d_offline_time d = d_last_offline d \<and> d_change_time d \<le> 10 \<and>
      (d_lowest_power d = 0 \<or> 140 \<le> d_lowest_power d) \<and> d_current_dr d < 9 \<and>
      - 100 \<le> sint (c_rssi_at d (last_entry d)) \<and> - 5 \<le> sint (c_snr_at d (last_entry d)))"
  by (auto simp: need_write_to_log_def Let_def not_less not_le)


definition demo_ws :: ws_st where
  "demo_ws = file_st.extend demo_file (ws_st.fields \<lparr>time_start = zero_rtc, events = (\<lambda>_. 0)\<rparr>
     ''1.0'' ''1.0'' 0 100 0)"

text \<open>A detector that sent 20 packets in this period.\<close>

definition busy_detector :: single_detector_info where
  "busy_detector = zero_detector\<lparr>d_id := 1234, d_state := 1, d_send_num := 20, d_recv_num := 19, d_c_ptr := 1\<rparr>"

definition busy_ws :: ws_st where
  "busy_ws = demo_ws\<lparr>g_detector_info_list := \<lparr>d_num = 1,
     detector_info = busy_detector # replicate 59 zero_detector\<rparr>\<rparr>"

theorem work_state_time_period_effect_witness:
  "logs_hold (work_state_time_period busy_ws)
     ((\<lambda>_. [])(WORK_STATE_LOG := bytes_of (report_text zero_rtc busy_ws))) \<and>
   row_text busy_detector =
     ''      1234 |     1 |     20 |      0 |     19 |   0 |   0 |   0 |   0 |   0 |   0 |   0 |  0 |    0 |   0 | send'' @ crlf \<and>
   d_last_send (detector_info (g_detector_info_list (work_state_time_period busy_ws)) ! 0) = 20"
proof -
  have f: "flash busy_ws = (\<lambda>_. 0xff)" "log_infos busy_ws = init_info" "lights_wf (g_light_info_list busy_ws)"
    "g_detector_info_list busy_ws = \<lparr>d_num = 1, detector_info = busy_detector # replicate 59 zero_detector\<rparr>"
    "rt_tick busy_ws = 0" "software_version busy_ws = ''1.0''" "dev_rtc busy_ws = False"
    by (simp_all add: busy_ws_def demo_ws_def demo_file_def demo_cfg_def demo_emb_def sys_st.defs emb_st.defs cfg_st.defs
        db_st.defs file_st.defs ws_st.defs demo_sys_def)
  have wf: "detectors_wf (g_detector_info_list busy_ws)" by (simp add: f detectors_wf_def)
  have h: "logs_hold busy_ws (\<lambda>_. [])" using ring_blank by (auto simp: logs_hold_def f same_region_def)
  have z: "zero_rtc = fst (pcf8563_get_datetime zero_rtc busy_ws)" by (simp add: pcf8563_get_datetime_def f)
  have tick: "rt_tick busy_ws < 2 ^ 32" "length (software_version busy_ws) \<le> 236" by (simp_all add: f)
  have row: "row_text busy_detector =
     ''      1234 |     1 |     20 |      0 |     19 |   0 |   0 |   0 |   0 |   0 |   0 |   0 |  0 |    0 |   0 | send'' @ crlf"
    by code_simp
  note e = work_state_time_period_effect [OF h wf f(3) tick z refl refl]
  have g: "g_detector_info_list (x\<lparr>g_detector_info_list := l, g_work_state := w\<rparr>) = l"
    for x :: ws_st and l w by simp
  have "d_last_send (detector_info (g_detector_info_list (work_state_time_period busy_ws)) ! 0) = 20"
    by (subst e [THEN conjunct2], subst g) (simp add: f busy_detector_def)
  with e row show ?thesis by simp
qed

end
