(* ===== verification/File_Transfer.thy ===== *)
theory File_Transfer
  imports Work_State_Log
begin

text \<open>
  File transfer, \<open>download_file\<close>, \<open>upload_file\<close> and \<open>upgrade_confirm\<close> of
  \<open>applications/user_components/external_flash.c\<close>: a file arrives from the management software in
  numbered packets and is stored in its area of the external flash, or is sent back from there (the
  logs through their own readers). A complete list file is entered into the directory and the parking
  lists are read again; a complete firmware file is announced to the boot program, and the firmware
  confirms a start from it by copying it to the backup area.

  A packet is a pointer into the receive buffer, which is a map from offsets to bytes.
\<close>

section \<open>State\<close>

record stu_file_operate_state =
  op_state :: byte
  file_type :: nat
  op_size :: u32
  packet_seq :: byte
  remain :: u32
  flash_addr :: u32
  version_sn :: u32

record ft_st = ws_st +
  file_operate_state :: stu_file_operate_state

abbreviation (input) DOWNLOAD_DOWNLOADING :: nat where "DOWNLOAD_DOWNLOADING \<equiv> 2"
abbreviation (input) DOWNLOAD_OVER :: nat where "DOWNLOAD_OVER \<equiv> 1"
abbreviation (input) DOWNLOAD_ERR :: nat where "DOWNLOAD_ERR \<equiv> 0"

abbreviation (input) FILE_OPT_STATE_DOWNLOAD :: byte where "FILE_OPT_STATE_DOWNLOAD \<equiv> 1"
abbreviation (input) FILE_OPT_STATE_UPLOAD :: byte where "FILE_OPT_STATE_UPLOAD \<equiv> 2"

abbreviation (input) REGION_CONFIG_FILE :: nat where "REGION_CONFIG_FILE \<equiv> 0"
abbreviation (input) LIGHT_CONNECT_FILE :: nat where "LIGHT_CONNECT_FILE \<equiv> 1"
abbreviation (input) LIGHT_PARKING_FILE :: nat where "LIGHT_PARKING_FILE \<equiv> 2"
abbreviation (input) SENSOR_LIST_FILE :: nat where "SENSOR_LIST_FILE \<equiv> 3"
abbreviation (input) UPGRADE_BIN_FILE :: nat where "UPGRADE_BIN_FILE \<equiv> 4"
abbreviation (input) SYSTEM_LOG_FILE :: nat where "SYSTEM_LOG_FILE \<equiv> 5"
abbreviation (input) WORKSTATE_LOG_FILE :: nat where "WORKSTATE_LOG_FILE \<equiv> 6"
abbreviation (input) RESERVED_PARKING :: nat where "RESERVED_PARKING \<equiv> 7"
abbreviation (input) MAX_FILE_TYPE_NUM :: nat where "MAX_FILE_TYPE_NUM \<equiv> 8"

abbreviation (input) MAX_CONFIG_FILE_SIZE :: nat where "MAX_CONFIG_FILE_SIZE \<equiv> 16 * 4096"
abbreviation (input) FIRMWAREUPGRADE_SCT_NUM :: nat where "FIRMWAREUPGRADE_SCT_NUM \<equiv> 64"
abbreviation (input) FIRMWAREUPGRADE_BASE_SCT :: nat where "FIRMWAREUPGRADE_BASE_SCT \<equiv> 864"
abbreviation (input) FIRMWAREBACKUP_BASE_SCT :: nat where "FIRMWAREBACKUP_BASE_SCT \<equiv> 928"
abbreviation (input) FIRMUPINFO_BASE_ADDR :: nat where "FIRMUPINFO_BASE_ADDR \<equiv> 992 * 4096"
abbreviation (input) FIRMBACKINFO_BASE_ADDR :: nat where "FIRMBACKINFO_BASE_ADDR \<equiv> 993 * 4096"

definition file_name_def :: "byte list list" where
  "file_name_def = map bytes_of
     [''LN_region_config_'', ''LN_light_connect_'', ''LN_light_parking_'', ''LN_sensor_'',
      ''LN_upgrade_'', ''LN.log'', ''LN_work_state.log'', ''LN_reserved_parking_'']"

definition zero_file_operate_state :: stu_file_operate_state where
  "zero_file_operate_state = \<lparr>op_state = 0, file_type = 0, op_size = 0, packet_seq = 0, remain = 0,
     flash_addr = 0, version_sn = 0\<rparr>"

definition file_operate_reset :: "'a ft_st_scheme \<Rightarrow> 'a ft_st_scheme" where
  "file_operate_reset s = s\<lparr>file_operate_state := zero_file_operate_state\<rparr>"

abbreviation upd_op :: "(stu_file_operate_state \<Rightarrow> stu_file_operate_state) \<Rightarrow> 'a ft_st_scheme \<Rightarrow> 'a ft_st_scheme" where
  "upd_op f s \<equiv> s\<lparr>file_operate_state := f (file_operate_state s)\<rparr>"

section \<open>Firmware information\<close>

record FIRMUP_FLASHINFO =
  have_firm :: u32
  need_up :: u32
  trycnt :: byte
  success :: u32
  ver :: "byte list"
  bin_len :: u32
  verify :: byte

record FIRMBACK_FLASHINFO =
  useful :: u32
  back_ver :: "byte list"
  back_len :: u32

definition xor_verify :: "byte list \<Rightarrow> byte" where
  "xor_verify data = foldl (XOR) 0 data"

text \<open>The bytes in front of \<open>verify\<close>, and the whole structure.\<close>

definition firmup_body :: "FIRMUP_FLASHINFO \<Rightarrow> byte list" where
  "firmup_body f = le32 (have_firm f) @ le32 (need_up f) @ [trycnt f] @ le32 (success f) @ ver f @ le32 (bin_len f)"

definition firmup_bytes :: "FIRMUP_FLASHINFO \<Rightarrow> byte list" where
  "firmup_bytes f = firmup_body f @ [verify f]"

definition firmup_of :: "byte list \<Rightarrow> FIRMUP_FLASHINFO" where
  "firmup_of b = \<lparr>have_firm = rd_le32 b 0, need_up = rd_le32 b 4, trycnt = b ! 8, success = rd_le32 b 9,
     ver = take 3 (drop 13 b), bin_len = rd_le32 b 16, verify = b ! 20\<rparr>"

definition firmback_bytes :: "FIRMBACK_FLASHINFO \<Rightarrow> byte list" where
  "firmback_bytes f = le32 (useful f) @ back_ver f @ le32 (back_len f)"

definition firmback_of :: "byte list \<Rightarrow> FIRMBACK_FLASHINFO" where
  "firmback_of b = \<lparr>useful = rd_le32 b 0, back_ver = take 3 (drop 4 b), back_len = rd_le32 b 7\<rparr>"

interpretation firmup: flash_record firmup_bytes firmup_of 21 "\<lambda>f. length (ver f) = 3"
proof
  fix f :: FIRMUP_FLASHINFO assume f: "length (ver f) = 3"
  then show "length (firmup_bytes f) = 21" by (simp add: firmup_bytes_def firmup_body_def)
  show "firmup_of (firmup_bytes f) = f"
    using f by (simp add: firmup_of_def firmup_bytes_def firmup_body_def codec_simps nth_append)
qed simp

interpretation firmback: flash_record firmback_bytes firmback_of 11 "\<lambda>f. length (back_ver f) = 3"
proof
  fix f :: FIRMBACK_FLASHINFO assume f: "length (back_ver f) = 3"
  then show "length (firmback_bytes f) = 11" by (simp add: firmback_bytes_def)
  show "firmback_of (firmback_bytes f) = f"
    using f by (simp add: firmback_of_def firmback_bytes_def codec_simps)
qed simp

section \<open>Operations\<close>

definition get_file_type :: "byte list \<Rightarrow> nat" where
  "get_file_type name =
     (case find (\<lambda>i. rt_memcmp name (file_name_def ! i) (rt_strlen (file_name_def ! i)) = 0)
             [0..<MAX_FILE_TYPE_NUM] of
        Some i \<Rightarrow> i
      | None \<Rightarrow> MAX_FILE_TYPE_NUM)"

text \<open>The five list files have an entry of the directory and an area of 16 sectors each.\<close>

definition config_file :: "nat \<Rightarrow> bool" where
  "config_file t \<longleftrightarrow> t \<in> {REGION_CONFIG_FILE, LIGHT_CONNECT_FILE, LIGHT_PARKING_FILE, SENSOR_LIST_FILE,
     RESERVED_PARKING}"

definition config_file_info :: "nat \<Rightarrow> file_info_list_t \<Rightarrow> single_file_info_t" where
  "config_file_info t d =
     (if t = REGION_CONFIG_FILE then region_config d
      else if t = LIGHT_CONNECT_FILE then light_connect d
      else if t = LIGHT_PARKING_FILE then light_parking d
      else if t = SENSOR_LIST_FILE then sensor_list d
      else reserved_parking d)"

definition upd_config_file_info :: "nat \<Rightarrow> (single_file_info_t \<Rightarrow> single_file_info_t) \<Rightarrow>
    file_info_list_t \<Rightarrow> file_info_list_t" where
  "upd_config_file_info t f d =
     (if t = REGION_CONFIG_FILE then d\<lparr>region_config := f (region_config d)\<rparr>
      else if t = LIGHT_CONNECT_FILE then d\<lparr>light_connect := f (light_connect d)\<rparr>
      else if t = LIGHT_PARKING_FILE then d\<lparr>light_parking := f (light_parking d)\<rparr>
      else if t = SENSOR_LIST_FILE then d\<lparr>sensor_list := f (sensor_list d)\<rparr>
      else d\<lparr>reserved_parking := f (reserved_parking d)\<rparr>)"

definition config_base_sct :: "nat \<Rightarrow> nat" where
  "config_base_sct t =
     (if t = REGION_CONFIG_FILE then 16
      else if t = LIGHT_CONNECT_FILE then 32
      else if t = LIGHT_PARKING_FILE then 48
      else if t = SENSOR_LIST_FILE then 64
      else 160)"

definition erase_blocks :: "nat \<Rightarrow> nat \<Rightarrow> 'a flash_st_scheme \<Rightarrow> 'a flash_st_scheme" where
  "erase_blocks base n s = fold (\<lambda>i. ext_blk_erase ((base + i * 16) * FLASH_BYTES_PER_SECTOR)) [0..<n] s"

definition start_file :: "nat \<Rightarrow> u32 \<Rightarrow> 'a ft_st_scheme \<Rightarrow> 'a ft_st_scheme" where
  "start_file base n s = upd_op (\<lambda>p. p\<lparr>flash_addr := of_nat (base * FLASH_BYTES_PER_SECTOR), op_size := n,
     remain := n\<rparr>) s"

definition process_download_type :: "byte list \<Rightarrow> u32 \<Rightarrow> 'a ft_st_scheme \<Rightarrow> bool \<times> 'a ft_st_scheme" where
  "process_download_type name n s =
     (let t = get_file_type name; s1 = upd_op (\<lambda>p. p\<lparr>file_type := t\<rparr>) s
      in if t = MAX_FILE_TYPE_NUM then (False, s1)
         else case sscanf [ScanD, ScanSkip] (c_string (drop (rt_strlen (file_name_def ! t)) name)) of
           [v] \<Rightarrow>
             (let s2 = upd_op (\<lambda>p. p\<lparr>version_sn := of_int v\<rparr>) s1
              in if config_file t
                 then if unat n > MAX_CONFIG_FILE_SIZE then (False, s2)
                      else let s3 = s2\<lparr>g_file_info_list := upd_config_file_info t
                                 (\<lambda>f. f\<lparr>f_size := n, f_name := (rt_strncpy name 256)[255 := 0]\<rparr>)
                                 (g_file_info_list s2)\<rparr>
                           in (True, erase_blocks (config_base_sct t) (16 div 16)
                                       (start_file (config_base_sct t) n s3))
                 else if t = UPGRADE_BIN_FILE
                 then if unat n > FIRMWAREUPGRADE_SCT_NUM * FLASH_BYTES_PER_SECTOR then (False, s2)
                      else (True, erase_blocks FIRMWAREUPGRADE_BASE_SCT (FIRMWAREUPGRADE_SCT_NUM div 16)
                                    (start_file FIRMWAREUPGRADE_BASE_SCT n s2))
                 else (False, s2))
         | _ \<Rightarrow> (False, s1))"

definition new_firmup :: "u32 \<Rightarrow> FIRMUP_FLASHINFO" where
  "new_firmup n =
     (let f = \<lparr>have_firm = 0xa5a5a5a5, need_up = 0xa5a5a5a5, trycnt = 0xff, success = 0xffffffff,
            ver = [0xff, 0xff, 0xff], bin_len = n, verify = 0xff\<rparr>
      in f\<lparr>verify := xor_verify (firmup_body f)\<rparr>)"

definition finish_download_option :: "'a ft_st_scheme \<Rightarrow> 'a ft_st_scheme" where
  "finish_download_option s =
     (let t = file_type (file_operate_state s); v = version_sn (file_operate_state s)
      in if t = UPGRADE_BIN_FILE
         then add_log (fst (rt_snprintf 256 ''upgrade software, version is %d'' [ArgInt v]))
                (rewrite_sector FIRMUPINFO_BASE_ADDR
                   (firmup_bytes (new_firmup (op_size (file_operate_state s)))) s)
         else if t \<in> {LIGHT_CONNECT_FILE, LIGHT_PARKING_FILE, SENSOR_LIST_FILE}
         then let s1 = s\<lparr>g_file_info_list := upd_config_file_info t (\<lambda>f. f\<lparr>f_sn := v\<rparr>) (g_file_info_list s)\<rparr>
              in init_parking_lists (rewrite_sector CONFIG_FILE_INFO_ADDR (dir_bytes (g_file_info_list s1)) s1)
         else s)"

text \<open>The part of \<open>download_file\<close> after the header: \<open>off\<close> is the offset the pointer \<open>data\<close> has
  reached.\<close>

definition store_packet :: "mem \<Rightarrow> nat \<Rightarrow> u16 \<Rightarrow> 'a ft_st_scheme \<Rightarrow> nat \<times> 'a ft_st_scheme" where
  "store_packet data off data_len s =
     (let s1 = ext_write (unat (flash_addr (file_operate_state s))) (mread data off (unat data_len)) s;
          s2 = upd_op (\<lambda>p. p\<lparr>flash_addr := flash_addr p + ucast data_len, remain := remain p - ucast data_len\<rparr>) s1
      in if remain (file_operate_state s2) = 0
         then (DOWNLOAD_OVER, file_operate_reset (finish_download_option s2))
         else (DOWNLOAD_DOWNLOADING, s2))"

definition download_file :: "byte \<Rightarrow> mem \<Rightarrow> u16 \<Rightarrow> 'a ft_st_scheme \<Rightarrow> nat \<times> 'a ft_st_scheme" where
  "download_file pack_sn data data_len s =
     (let s1 = upd_op (\<lambda>p. p\<lparr>packet_seq := packet_seq p + 1\<rparr>) s
      in if packet_seq (file_operate_state s1) \<noteq> pack_sn then (DOWNLOAD_ERR, s1)
         else if pack_sn = 1
         then let s2 = upd_op (\<lambda>p. p\<lparr>op_state := FILE_OPT_STATE_DOWNLOAD\<rparr>) s1;
                  name_len = data 1;
                  name = mread data 2 (unat name_len) @ [0];
                  n = rd_be32 (mread data (2 + unat name_len) 4) 0
              in (case process_download_type name n s2 of
                    (False, s3) \<Rightarrow> (DOWNLOAD_ERR, s3)
                  | (True, s3) \<Rightarrow> store_packet data (unat name_len + 6) (data_len - (ucast name_len + 6)) s3)
         else store_packet data 0 data_len s1)"

definition read_file :: "nat \<Rightarrow> 'a ft_st_scheme \<Rightarrow> byte list \<times> 'a ft_st_scheme" where
  "read_file max_sz s =
     (let p = file_operate_state s; t = file_type p
      in if t \<in> {REGION_CONFIG_FILE, LIGHT_CONNECT_FILE, LIGHT_PARKING_FILE, SENSOR_LIST_FILE}
         then (ext_read (unat (flash_addr p)) max_sz s, s)
         else if t = SYSTEM_LOG_FILE then read_system_log max_sz s
         else if t = WORKSTATE_LOG_FILE then read_work_state_log max_sz s
         else ([], s))"

text \<open>What the first upload packet announces: the size and the name of the file, \<open>None\<close> where the code
  returns \<open>-1\<close>. The stored name is an array of 256 characters; where it has no terminator, the byte
  behind the array is taken to be one.\<close>

definition upload_source :: "nat \<Rightarrow> 'a ft_st_scheme \<Rightarrow> (u32 \<times> byte list \<times> 'a ft_st_scheme) option" where
  "upload_source t s =
     (if t \<in> {REGION_CONFIG_FILE, LIGHT_CONNECT_FILE, LIGHT_PARKING_FILE, SENSOR_LIST_FILE}
      then let f = config_file_info t (g_file_info_list s)
           in if f_sn f = 0xffffffff then None
              else Some (f_size f, f_name f, upd_op (\<lambda>p. p\<lparr>flash_addr :=
                     of_nat (config_base_sct t * FLASH_BYTES_PER_SECTOR)\<rparr>) s)
      else if t = SYSTEM_LOG_FILE
      then case prepare_read_system_log s of (n, s') \<Rightarrow> Some (of_nat n, file_name_def ! SYSTEM_LOG_FILE, s')
      else if t = WORKSTATE_LOG_FILE
      then case prepare_read_work_state_log s of (n, s') \<Rightarrow> Some (of_nat n, file_name_def ! WORKSTATE_LOG_FILE, s')
      else None)"

text \<open>The part that fills the rest of the buffer; \<open>len\<close> bytes of it are in use.\<close>

definition upload_data :: "u16 \<Rightarrow> u16 \<Rightarrow> 'a ft_st_scheme \<Rightarrow> u16 \<times> byte list \<times> 'a ft_st_scheme" where
  "upload_data len free_size s =
     (let left = remain (file_operate_state s)
      in if left > 0
         then let want = (if ucast free_size > left then unat left else unat free_size);
                  (bs, s1) = read_file want s;
                  n = length bs
              in (len + of_nat n, bs,
                  upd_op (\<lambda>p. p\<lparr>remain := remain p - of_nat n, flash_addr := flash_addr p + of_nat n\<rparr>) s1)
         else (len, [], s))"

text \<open>The result: the return value, the bytes stored at \<open>data\<close>, the state.\<close>

definition upload_file :: "byte \<Rightarrow> mem \<Rightarrow> u16 \<Rightarrow> 'a ft_st_scheme \<Rightarrow> int \<times> byte list \<times> 'a ft_st_scheme" where
  "upload_file pack_sn data buf_size s =
     (if pack_sn = 1
      then let t = get_file_type (mread data 2 24);
               s1 = upd_op (\<lambda>p. p\<lparr>op_state := FILE_OPT_STATE_UPLOAD, file_type := t\<rparr>) s
           in if t = MAX_FILE_TYPE_NUM then (-1, [], s1)
              else (case upload_source t s1 of
                  None \<Rightarrow> (-1, [], s1)
                | Some (n, tmp_name, s2) \<Rightarrow>
                    let name_len = (of_nat (rt_strlen tmp_name) :: byte);
                        s3 = upd_op (\<lambda>p. p\<lparr>remain := n\<rparr>) s2;
                        head = [0, name_len] @ take (unat name_len) tmp_name @ be32 n;
                        len = ucast name_len + 6;
                        (len', bs, s4) = upload_data len (buf_size - len) s3
                    in (sint len', head @ bs, s4))
      else let (len', bs, s4) = upload_data 0 buf_size s in (sint len', bs, s4))"

section \<open>Confirming a firmware upgrade\<close>

fun copy_loop :: "nat \<Rightarrow> nat \<Rightarrow> nat \<Rightarrow> 'a flash_st_scheme \<Rightarrow> 'a flash_st_scheme" where
  "copy_loop rd_addr wt_addr size_left s =
     (if size_left = 0 then s
      else let n = (if size_left > 1024 then 1024 else size_left)
           in copy_loop (rd_addr + n) (wt_addr + n) (size_left - n) (ext_write wt_addr (ext_read rd_addr n s) s))"

declare copy_loop.simps [simp del]

definition upgrade_confirm :: "'a ft_st_scheme \<Rightarrow> 'a ft_st_scheme" where
  "upgrade_confirm s =
     (let f = firmup_of (ext_read FIRMUPINFO_BASE_ADDR 21 s)
      in if have_firm f = 0xa5a5a5a5 \<and> need_up f = 0x05050505 \<and> success f = 0xffffffff
         then if verify f \<noteq> xor_verify (firmup_body f) then s
              else let s1 = erase_blocks FIRMWAREBACKUP_BASE_SCT (FIRMWAREUPGRADE_SCT_NUM div 16) s;
                       s2 = copy_loop (FIRMWAREUPGRADE_BASE_SCT * FLASH_BYTES_PER_SECTOR)
                              (FIRMWAREBACKUP_BASE_SCT * FLASH_BYTES_PER_SECTOR) (unat (bin_len f)) s1;
                       b = \<lparr>useful = 0xa5a5a5a5, back_ver = ver f, back_len = bin_len f\<rparr>;
                       s3 = rewrite_sector FIRMBACKINFO_BASE_ADDR (firmback_bytes b) s2;
                       f1 = f\<lparr>success := 0xa5a5a5a5\<rparr>;
                       f2 = f1\<lparr>verify := xor_verify (firmup_body f1)\<rparr>;
                       s4 = rewrite_sector FIRMUPINFO_BASE_ADDR (firmup_bytes f2) s3
                   in add_log ''upgrade new software ok'' s4
         else s)"

section \<open>Areas of the flash\<close>

lemma erase_blocks_only:
  assumes "base mod 16 = 0"
  shows "erase_blocks base n s = s\<lparr>flash := merase (flash s) (base * FLASH_BYTES_PER_SECTOR) (n * FLASH_BYTES_PER_BLOCK)\<rparr>"
proof (induction n)
  case 0
  have "merase m a 0 = m" for m a by (rule ext) (auto simp: merase_def)
  then show ?case by (simp add: erase_blocks_def)
next
  case (Suc n)
  obtain b where b: "base = 16 * b" using assms by (auto elim: dvdE simp: mod_eq_0_iff_dvd)
  have "(base + n * 16) * FLASH_BYTES_PER_SECTOR = (b + n) * FLASH_BYTES_PER_BLOCK" using b by simp
  then have "erase_blocks base (Suc n) s = ext_blk_erase ((b + n) * FLASH_BYTES_PER_BLOCK) (erase_blocks base n s)"
    by (simp add: erase_blocks_def algebra_simps)
  then show ?case
    unfolding Suc by (auto simp: ext_blk_erase_def merase_def b fun_eq_iff)
qed

lemma copy_loop_only:
  "rd + n \<le> wt \<Longrightarrow> copy_loop rd wt n s = s\<lparr>flash := mprogram (flash s) wt (mread (flash s) rd n)\<rparr>"
proof (induction rd wt n s rule: copy_loop.induct)
  case (1 rd wt n s)
  show ?case
  proof (cases "n = 0")
    case True
    then show ?thesis by (simp add: copy_loop.simps)
  next
    case False
    define k where "k = (if n > 1024 then 1024 else n)"
    have k: "0 < k" "k \<le> n" using False by (simp_all add: k_def)
    have e: "copy_loop rd wt n s = copy_loop (rd + k) (wt + k) (n - k) (ext_write wt (ext_read rd k s) s)"
      using False by (subst copy_loop.simps) (simp add: k_def Let_def)
    have "mread (flash s) rd n = mread (flash s) rd k @ mread (flash s) (rd + k) (n - k)"
      using mread_append [of "flash s" rd k "n - k"] k by simp
    moreover have "mread (mprogram (flash s) wt (mread (flash s) rd k)) (rd + k) (n - k) =
        mread (flash s) (rd + k) (n - k)"
      using "1.prems" k by (intro mread_mprogram_other) simp
    moreover have "mprogram (mprogram (flash s) wt (mread (flash s) rd k)) (wt + k) (mread (flash s) (rd + k) (n - k)) =
        mprogram (flash s) wt (mread (flash s) rd k @ mread (flash s) (rd + k) (n - k))"
      using mprogram_append [of "flash s" wt "mread (flash s) rd k"] by simp
    ultimately show ?thesis
      unfolding e using "1.IH" [OF False k_def] "1.prems" k by (simp add: ext_write_def ext_read_def)
  qed
qed

lemma rewrite_sector_only:
  "a mod FLASH_BYTES_PER_SECTOR = 0 \<Longrightarrow> rewrite_sector a bs s =
     s\<lparr>flash := mprogram (merase (flash s) a FLASH_BYTES_PER_SECTOR) a bs\<rparr>"
  by (simp add: rewrite_sector_def ext_write_def ext_sct_erase_def)

text \<open>The addresses of the two logs.\<close>

definition log_area :: "nat \<Rightarrow> bool" where
  "log_area x \<longleftrightarrow> 80 * 4096 \<le> x \<and> x < 96 * 4096 \<or> 112 * 4096 \<le> x \<and> x < 144 * 4096"

lemma log_area_region: "log_area x \<longleftrightarrow> (\<exists>type. in_region (init_info type) x)"
proof -
  have "in_region (init_info SYSTEM_LOG) x \<longleftrightarrow> 80 * 4096 \<le> x \<and> x < 96 * 4096"
    "in_region (init_info WORK_STATE_LOG) x \<longleftrightarrow> 112 * 4096 \<le> x \<and> x < 144 * 4096"
    by (simp_all add: in_region_def init_info_def zero_info_def)
  moreover have "(\<exists>type. P type) \<longleftrightarrow> P SYSTEM_LOG \<or> P WORK_STATE_LOG" for P
    using log_type.exhaust by metis
  ultimately show ?thesis by (simp only: log_area_def)
qed

lemma logs_hold_cong:
  assumes "logs_hold s hs" and "log_infos t = log_infos s" and "\<And>x. log_area x \<Longrightarrow> flash t x = flash s x"
  shows "logs_hold t hs"
  unfolding logs_hold_def
proof
  fix type
  from assms(1) obtain T where r: "same_region (init_info type) (log_infos s type)"
    "ring (flash s) (log_infos s type) T (hs type)" by (auto simp: logs_hold_def)
  have "ring (flash t) (log_infos s type) T (hs type)"
    by (rule ring_flash_cong [OF r(2)]) (use in_region_same [OF r(1)] assms(3) log_area_region in auto)
  with r(1) assms(2) show "same_region (init_info type) (log_infos t type) \<and>
    (\<exists>T. ring (flash t) (log_infos t type) T (hs type))" by auto
qed

lemma logs_hold_frame:
  assumes "logs_hold s hs" and "\<not> log_area x"
  shows "flash (log_write buf type s) x = flash s x"
proof -
  from assms(1) obtain T where r: "same_region (init_info type) (log_infos s type)"
    "ring (flash s) (log_infos s type) T (hs type)" by (auto simp: logs_hold_def)
  then show ?thesis
    using log_write_frame [OF ring_info_ok [OF r(2)], of buf] in_region_same [OF r(1)] assms(2) log_area_region
    by blast
qed

lemma mread_log_write:
  assumes "logs_hold s hs" and "\<And>x. a \<le> x \<Longrightarrow> x < a + n \<Longrightarrow> \<not> log_area x"
  shows "mread (flash (log_write buf type s)) a n = mread (flash s) a n"
  by (rule mread_cong) (rule logs_hold_frame [OF assms(1) assms(2)])

section \<open>The firmware backup\<close>

text \<open>The flash after the copy, the two records that are written, and the state before the log line.\<close>

definition backup_image :: "nat \<Rightarrow> mem \<Rightarrow> mem" where
  "backup_image n m = (let m1 = merase m (928 * 4096) (4 * FLASH_BYTES_PER_BLOCK) in mprogram m1 (928 * 4096) (mread m1 (864 * 4096) n))"

definition backup_record :: "FIRMUP_FLASHINFO \<Rightarrow> FIRMBACK_FLASHINFO" where
  "backup_record f = \<lparr>useful = 0xa5a5a5a5, back_ver = ver f, back_len = bin_len f\<rparr>"

definition marked :: "FIRMUP_FLASHINFO \<Rightarrow> FIRMUP_FLASHINFO" where
  "marked f = f\<lparr>success := 0xa5a5a5a5, verify := xor_verify (firmup_body (f\<lparr>success := 0xa5a5a5a5\<rparr>))\<rparr>"

definition confirmed :: "FIRMUP_FLASHINFO \<Rightarrow> 'a ft_st_scheme \<Rightarrow> 'a ft_st_scheme" where
  "confirmed f s = rewrite_sector FIRMUPINFO_BASE_ADDR (firmup_bytes (marked f))
     (rewrite_sector FIRMBACKINFO_BASE_ADDR (firmback_bytes (backup_record f)) (s\<lparr>flash := backup_image (unat (bin_len f)) (flash s)\<rparr>))"

lemma record_lengths:
  assumes "length (ver f) = 3"
  shows "length (ver (marked f)) = 3" "length (back_ver (backup_record f)) = 3"
    "length (firmup_bytes (marked f)) = 21" "length (firmback_bytes (backup_record f)) = 11"
  using assms firmup.enc_length firmback.enc_length by (simp_all add: marked_def backup_record_def)

lemma backup_image_props:
  assumes "n \<le> 64 * 4096"
  shows "x < 928 * 4096 \<or> 992 * 4096 \<le> x \<Longrightarrow> backup_image n m x = m x"
    and "mread (backup_image n m) (928 * 4096) n = mread m (864 * 4096) n"
proof -
  define m1 where "m1 = merase m (928 * 4096) (4 * FLASH_BYTES_PER_BLOCK)"
  have m1: "m1 x = m x" if "x < 928 * 4096 \<or> 992 * 4096 \<le> x" for x
    using that by (simp add: m1_def merase_other)
  have b: "backup_image n m = mprogram m1 (928 * 4096) (mread m1 (864 * 4096) n)" by (simp add: backup_image_def m1_def Let_def)
  show "x < 928 * 4096 \<or> 992 * 4096 \<le> x \<Longrightarrow> backup_image n m x = m x"
    unfolding b using m1 [of x] assms by (subst mprogram_other) auto
  have "mread m1 (864 * 4096) n = mread m (864 * 4096) n" using assms by (intro mread_cong m1) simp
  moreover have "erased m1 (928 * 4096) (length (mread m1 (864 * 4096) n))" using assms by (simp add: m1_def erased_merase)
  ultimately show "mread (backup_image n m) (928 * 4096) n = mread m (864 * 4096) n"
    using mread_mprogram unfolding b by (metis length_mread)
qed

lemma confirmed_props:
  assumes "unat (bin_len f) \<le> 64 * 4096" and "length (ver f) = 3"
  shows "x < 928 * 4096 \<or> 994 * 4096 \<le> x \<Longrightarrow> flash (confirmed f s) x = flash s x"
    and "ext_read (928 * 4096) (unat (bin_len f)) (confirmed f s) = ext_read (864 * 4096) (unat (bin_len f)) s"
    and "firmback_of (ext_read FIRMBACKINFO_BASE_ADDR 11 (confirmed f s)) = backup_record f"
    and "firmup_of (ext_read FIRMUPINFO_BASE_ADDR 21 (confirmed f s)) = marked f"
    and "log_infos (confirmed f s) = log_infos s"
proof -
  note len = record_lengths [OF assms(2)] and img = backup_image_props [OF assms(1)]
  show "x < 928 * 4096 \<or> 994 * 4096 \<le> x \<Longrightarrow> flash (confirmed f s) x = flash s x"
    using img(1) len by (auto simp: confirmed_def rewrite_sector_only mprogram_other merase_other)
  have "ext_read (928 * 4096) (unat (bin_len f)) (confirmed f s) = mread (backup_image (unat (bin_len f)) (flash s)) (928 * 4096) (unat (bin_len f))"
    using len assms(1) by (simp add: confirmed_def rewrite_sector_only ext_read_def mread_mprogram_other mread_merase_other)
  then show "ext_read (928 * 4096) (unat (bin_len f)) (confirmed f s) = ext_read (864 * 4096) (unat (bin_len f)) s"
    using img(2) [of "flash s"] by (simp add: ext_read_def)
  have "ext_read FIRMBACKINFO_BASE_ADDR 11 (rewrite_sector FIRMUPINFO_BASE_ADDR (firmup_bytes (marked f)) t) = ext_read FIRMBACKINFO_BASE_ADDR 11 t"
    for t :: "'a ft_st_scheme"
    by (rule firmup.load_other) (use len in simp_all)
  then show "firmback_of (ext_read FIRMBACKINFO_BASE_ADDR 11 (confirmed f s)) = backup_record f"
    using firmback.load_stored [of FIRMBACKINFO_BASE_ADDR "backup_record f" "s\<lparr>flash := backup_image (unat (bin_len f)) (flash s)\<rparr>"] len
    by (simp add: confirmed_def)
  show "firmup_of (ext_read FIRMUPINFO_BASE_ADDR 21 (confirmed f s)) = marked f"
    unfolding confirmed_def by (rule firmup.load_stored) (use len in simp_all)
  show "log_infos (confirmed f s) = log_infos s" by (simp add: confirmed_def rewrite_sector_only)
qed

lemma log_line_fits: "length data \<le> 200 \<Longrightarrow> line_bytes t data b = bytes_of (log_line t data)"
proof -
  assume "length data \<le> 200"
  moreover have "length (zpad 4 (unat (year t))) \<le> 5"
    using unat_bounds(1) [of "year t"] length_decimal [of 5 "unat (year t)"] by (simp add: zpad_def)
  ultimately have "length (log_line t data) \<le> 255"
    using zpad_2_byte [of "month t"] zpad_2_byte [of "day t"] zpad_2_byte [of "hour t"] zpad_2_byte [of "minute t"]
      zpad_2_byte [of "second t"] by (simp add: log_line_def time_stamp_def)
  then show ?thesis by (simp add: line_bytes_def)
qed

lemma clock_confirmed:
  "pcf8563_get_datetime u (confirmed f s) = pcf8563_get_datetime u s" "stack_rtc (confirmed f s) = stack_rtc s"
  by (simp_all add: pcf8563_get_datetime_def confirmed_def rewrite_sector_only)

text \<open>C31. Confirming an upgrade: when the boot program has started the new firmware (a pending record
  with a correct check byte) of at most 256 KiB, \<open>upgrade_confirm\<close> leaves a byte-exact copy of it in
  the backup area, a backup record with its version and length, the firmware area unchanged and the upgrade
  record marked as successful with a correct check byte; it appends the line "upgrade new software ok", with
  the time stamp of the clock, to the system log, keeps the work state log and every other part of the
  flash, and a second call does nothing.\<close>

theorem upgrade_confirm_backs_up:
  fixes s :: "'a ft_st_scheme"
  assumes "logs_hold s hs" and "f = firmup_of (ext_read FIRMUPINFO_BASE_ADDR 21 s)"
    and "have_firm f = 0xa5a5a5a5" and "need_up f = 0x05050505" and "success f = 0xffffffff"
    and "verify f = xor_verify (firmup_body f)" and "unat (bin_len f) \<le> 64 * 4096"
    and "s' = upgrade_confirm s"
  shows "ext_read (928 * 4096) (unat (bin_len f)) s' = ext_read (864 * 4096) (unat (bin_len f)) s \<and>
    ext_read (864 * 4096) (64 * 4096) s' = ext_read (864 * 4096) (64 * 4096) s \<and>
    firmback_of (ext_read FIRMBACKINFO_BASE_ADDR 11 s') =
      \<lparr>useful = 0xa5a5a5a5, back_ver = ver f, back_len = bin_len f\<rparr> \<and>
    (let f' = firmup_of (ext_read FIRMUPINFO_BASE_ADDR 21 s')
     in success f' = 0xa5a5a5a5 \<and> verify f' = xor_verify (firmup_body f') \<and> bin_len f' = bin_len f) \<and>
    logs_hold s' (hs(SYSTEM_LOG := hs SYSTEM_LOG @
      bytes_of (time_stamp (fst (pcf8563_get_datetime (stack_rtc s) s)) @ ''  upgrade new software ok'' @ crlf))) \<and>
    (\<forall>x. \<not> log_area x \<and> (x < 928 * 4096 \<or> 994 * 4096 \<le> x) \<longrightarrow> flash s' x = flash s x) \<and>
    upgrade_confirm s' = s'"
proof -
  let ?t = "confirmed f s"
  have ver: "length (ver f) = 3" using assms(2) by (simp add: firmup_of_def ext_read_def)
  note c = confirmed_props [OF assms(7) ver, where s = s]
  have conf: "upgrade_confirm s = add_log ''upgrade new software ok'' ?t"
    using assms(2-7) ver
    by (simp add: upgrade_confirm_def Let_def erase_blocks_only copy_loop_only confirmed_def backup_image_def
        backup_record_def marked_def firmup_body_def)
  have h: "logs_hold ?t hs"
    by (rule logs_hold_cong [OF assms(1) c(5)]) (auto simp: log_area_def intro: c(1))
  define line where "line = bytes_of (time_stamp (fst (pcf8563_get_datetime (stack_rtc s) s)) @ ''  upgrade new software ok'' @ crlf)"
  have s': "s' = log_write line SYSTEM_LOG ?t"
    unfolding assms(8) conf add_log_write clock_confirmed line_def by (subst log_line_fits) (simp_all add: log_line_def)
  have rd: "ext_read a k s' = ext_read a k ?t" if "144 * 4096 \<le> a" for a k
    using that mread_log_write [OF h, of a k line SYSTEM_LOG] by (simp add: ext_read_def s' log_area_def)
  have 1: "ext_read (928 * 4096) (unat (bin_len f)) s' = ext_read (864 * 4096) (unat (bin_len f)) s" using c(2) by (simp add: rd)
  have 2: "ext_read (864 * 4096) (64 * 4096) s' = ext_read (864 * 4096) (64 * 4096) s"
    using c(1) by (simp add: rd) (auto simp: ext_read_def intro!: mread_cong)
  have 3: "firmback_of (ext_read FIRMBACKINFO_BASE_ADDR 11 s') = backup_record f" using c(3) by (simp add: rd)
  have f': "firmup_of (ext_read FIRMUPINFO_BASE_ADDR 21 s') = marked f" using c(4) by (simp add: rd)
  have 4: "success (marked f) = 0xa5a5a5a5 \<and> verify (marked f) = xor_verify (firmup_body (marked f)) \<and> bin_len (marked f) = bin_len f"
    by (simp add: marked_def firmup_body_def)
  have 5: "logs_hold s' (hs(SYSTEM_LOG := hs SYSTEM_LOG @ line))"
    unfolding s' by (rule logs_hold_write [OF h])
  have 6: "flash s' x = flash s x" if "\<not> log_area x \<and> (x < 928 * 4096 \<or> 994 * 4096 \<le> x)" for x
    using that c(1) logs_hold_frame [OF h] by (simp add: s')
  have "upgrade_confirm s' = s'" using 4 f' unfolding upgrade_confirm_def by (simp add: Let_def)
  with 1 2 3 4 5 6 show ?thesis unfolding backup_record_def Let_def f' line_def by blast
qed

section \<open>Downloading a file\<close>

text \<open>A transfer: the packets in the order they arrive, each with its number, the receive buffer and the
  payload length; the results are collected.\<close>

fun download_seq :: "(byte \<times> mem \<times> u16) list \<Rightarrow> 'a ft_st_scheme \<Rightarrow> nat list \<times> 'a ft_st_scheme" where
  "download_seq [] s = ([], s)"
| "download_seq ((q, d, n) # ps) s =
     (let (r, s1) = download_file q d n s; (rs, s2) = download_seq ps s1 in (r # rs, s2))"

text \<open>The payload of the first packet: a mark, the name with its length, the file size, the first bytes.\<close>

definition first_payload :: "byte \<Rightarrow> byte list \<Rightarrow> nat \<Rightarrow> byte list \<Rightarrow> byte list" where
  "first_payload mark name n c = [mark, of_nat (length name)] @ name @ be32 (of_nat n) @ c"

definition payloads :: "byte \<Rightarrow> byte list \<Rightarrow> byte list list \<Rightarrow> byte list list" where
  "payloads mark name cs = first_payload mark name (length (concat cs)) (hd cs) # tl cs"

text \<open>The packets \<open>ps\<close> carry the payloads \<open>bs\<close> and are numbered from \<open>k\<close> on, modulo 256.\<close>

definition carries :: "nat \<Rightarrow> (byte \<times> mem \<times> u16) list \<Rightarrow> byte list list \<Rightarrow> bool" where
  "carries k ps bs \<longleftrightarrow> length ps = length bs \<and> (\<forall>i < length ps. case ps ! i of (q, d, n) \<Rightarrow>
     q = of_nat (k + i) \<and> unat n = length (bs ! i) \<and> mread d 0 (length (bs ! i)) = bs ! i)"

lemma carries_Cons:
  "carries k ps (b # bs) \<longleftrightarrow> (\<exists>d n qs. ps = (of_nat k, d, n) # qs \<and> unat n = length b \<and>
     mread d 0 (length b) = b \<and> carries (Suc k) qs bs)"
proof (cases ps)
  case (Cons p qs)
  show ?thesis
    by (cases p) (auto simp: Cons carries_def All_less_Suc2 ac_simps)
qed (simp add: carries_def)

lemma carries_Nil [simp]: "carries k ps [] \<longleftrightarrow> ps = []"
  by (auto simp: carries_def)

text \<open>The state in the middle of a transfer: \<open>k\<close> packets have arrived with the bytes \<open>dn\<close>.\<close>

definition transfer :: "nat \<Rightarrow> u32 \<Rightarrow> nat \<Rightarrow> nat \<Rightarrow> nat \<Rightarrow> byte list \<Rightarrow> 'a ft_st_scheme \<Rightarrow> 'a ft_st_scheme" where
  "transfer t v base n k dn s = s\<lparr>flash := mprogram (flash s) base dn,
     file_operate_state := \<lparr>op_state = FILE_OPT_STATE_DOWNLOAD, file_type = t, op_size = of_nat n,
       packet_seq = of_nat k, remain = of_nat (n - length dn), flash_addr = of_nat (base + length dn),
       version_sn = v\<rparr>\<rparr>"

lemma store_packet_transfer:
  assumes "unat len = length c" and "mread d off (length c) = c" and "length dn + length c \<le> n"
    and "base + n < 2 ^ 32"
  shows "store_packet d off len (transfer t v base n k dn s) =
    (if length dn + length c = n
     then (DOWNLOAD_OVER, file_operate_reset (finish_download_option (transfer t v base n k (dn @ c) s)))
     else (DOWNLOAD_DOWNLOADING, transfer t v base n k (dn @ c) s))"
proof -
  have u: "unat (of_nat (base + length dn) :: u32) = base + length dn"
    using assms(3,4) by (simp add: unat_of_nat del: of_nat_add)
  have l: "(ucast len :: u32) = of_nat (length c)" 
    using assms(1) unat_bounds(1) [of len] by (simp add: word_unat_eq_iff unat_of_nat)
  have r: "(of_nat (n - length dn) :: u32) - of_nat (length c) = of_nat (n - length (dn @ c))"
    using assms(3) by (simp add: of_nat_diff)
  have "(of_nat j :: u32) = 0 \<longleftrightarrow> j = 0" if "j < 2 ^ 32" for j
    using that by (simp add: word_unat_eq_iff unat_of_nat)
  from this [of "n - length (dn @ c)"]
  have z: "remain (file_operate_state (transfer t v base n k (dn @ c) s)) = 0 \<longleftrightarrow> length dn + length c = n"
    using assms(3,4) by (auto simp: transfer_def)
  have "ext_write (unat (flash_addr (file_operate_state (transfer t v base n k dn s)))) (mread d off (unat len))
      (transfer t v base n k dn s) =
      s\<lparr>flash := mprogram (flash s) base (dn @ c), file_operate_state := file_operate_state (transfer t v base n k dn s)\<rparr>"
    using u unfolding assms(1,2) by (simp add: transfer_def ext_write_def mprogram_append)
  then have s2: "upd_op (\<lambda>p. p\<lparr>flash_addr := flash_addr p + ucast len, remain := remain p - ucast len\<rparr>)
      (ext_write (unat (flash_addr (file_operate_state (transfer t v base n k dn s)))) (mread d off (unat len))
        (transfer t v base n k dn s)) = transfer t v base n k (dn @ c) s"
    using r l by (simp add: transfer_def add.assoc)
  show ?thesis unfolding store_packet_def Let_def s2 z by simp
qed

lemma download_next:
  assumes "unat len = length c" and "mread d 0 (length c) = c" and "length dn + length c \<le> n"
    and "base + n < 2 ^ 32" and "0 < k" and "k < 256"
  shows "download_file (of_nat (Suc k)) d len (transfer t v base n k dn s) =
    (if length dn + length c = n
     then (DOWNLOAD_OVER, file_operate_reset (finish_download_option (transfer t v base n (Suc k) (dn @ c) s)))
     else (DOWNLOAD_DOWNLOADING, transfer t v base n (Suc k) (dn @ c) s))"
proof -
  have "(of_nat k :: byte) \<noteq> 0" using assms(5,6) by (simp add: word_unat_eq_iff unat_of_nat)
  then have "(1 + of_nat k :: byte) \<noteq> 1" by simp
  moreover have "upd_op (\<lambda>p. p\<lparr>packet_seq := packet_seq p + 1\<rparr>) (transfer t v base n k dn s) =
      transfer t v base n (Suc k) dn s"
    by (simp add: transfer_def)
  ultimately show ?thesis
    using store_packet_transfer [OF assms(1-4), of t v "Suc k" s]
    by (simp add: download_file_def Let_def) (simp add: transfer_def)
qed

lemma download_rest:
  assumes "carries (Suc k) ps cs" and "cs \<noteq> []" and "last cs \<noteq> []"
    and "length dn + length (concat cs) = n" and "base + n < 2 ^ 32" and "0 < k" and "k + length cs \<le> 256"
  shows "download_seq ps (transfer t v base n k dn s) =
    (replicate (length cs - 1) DOWNLOAD_DOWNLOADING @ [DOWNLOAD_OVER],
     file_operate_reset (finish_download_option (transfer t v base n (k + length cs) (dn @ concat cs) s)))"
  using assms
proof (induction cs arbitrary: k ps dn)
  case (Cons c cs)
  from Cons.prems(1) obtain d len qs where q: "ps = (of_nat (Suc k), d, len) # qs" "unat len = length c"
    "mread d 0 (length c) = c" "carries (Suc (Suc k)) qs cs" by (auto simp: carries_Cons)
  have "length dn + length c \<le> n" "k < 256" using Cons.prems(4,7) by simp_all
  note step = download_next [OF q(2,3) this(1) Cons.prems(5,6) this(2), of t v s]
  show ?case
  proof (cases "cs = []")
    case True
    then show ?thesis using q(1,4) step Cons.prems(4) by simp
  next
    case False
    then have l: "length dn + length c \<noteq> n" using Cons.prems(3,4)
      by (metis add_left_cancel concat.simps(2) concat_eq_Nil_conv last_ConsR last_in_set length_append
          length_0_conv add.right_neutral add.assoc)
    have "download_seq qs (transfer t v base n (Suc k) (dn @ c) s) =
      (replicate (length cs - 1) DOWNLOAD_DOWNLOADING @ [DOWNLOAD_OVER],
       file_operate_reset (finish_download_option (transfer t v base n (Suc k + length cs) ((dn @ c) @ concat cs) s)))"
      by (rule Cons.IH [OF q(4) False]) (use False Cons.prems in auto)
    then show ?thesis
      using q(1) step l False by (cases cs) simp_all
  qed
qed simp

lemma first_payload_fields:
  assumes "mread d 0 (length (first_payload mark name n c)) = first_payload mark name n c"
    and "length name \<le> 255" and "n < 2 ^ 32"
  shows "d 1 = of_nat (length name)" "unat (d 1) = length name" "mread d 2 (length name) = name"
    "rd_be32 (mread d (2 + length name) 4) 0 = of_nat n" "mread d (length name + 6) (length c) = c"
proof -
  let ?b = "first_payload mark name n c"
  have sub: "mread d x k = take k (drop x ?b)" if "x + k \<le> length ?b" for x k
    using mread_sub [OF that, of d 0] assms(1) by simp
  show d1: "d 1 = of_nat (length name)"
    using sub [of 1 1] by (simp add: first_payload_def mread_def)
  show "unat (d 1) = length name" unfolding d1 using assms(2) by (simp add: unat_of_nat)
  show "mread d 2 (length name) = name"
    using sub [of 2 "length name"] by (simp add: first_payload_def)
  have "mread d (2 + length name) 4 = be32 (of_nat n)"
    using sub [of "2 + length name" 4] by (simp add: first_payload_def)
  then show "rd_be32 (mread d (2 + length name) 4) 0 = of_nat n" by (simp add: codec_simps)
  show "mread d (length name + 6) (length c) = c"
    using sub [of "length name + 6" "length c"] by (simp add: first_payload_def drop_Cons')
qed

definition stored_name :: "byte list \<Rightarrow> byte list" where
  "stored_name name = (rt_strncpy (name @ [0]) 256)[255 := 0]"

text \<open>After a valid header of a list file its area is erased and the directory entry in memory has the
  new name and size.\<close>

definition begun :: "nat \<Rightarrow> nat \<Rightarrow> byte list \<Rightarrow> 'a ft_st_scheme \<Rightarrow> 'a ft_st_scheme" where
  "begun t n name s = s\<lparr>flash := merase (flash s) (config_base_sct t * FLASH_BYTES_PER_SECTOR) FLASH_BYTES_PER_BLOCK,
     g_file_info_list := upd_config_file_info t (\<lambda>f. f\<lparr>f_size := of_nat n, f_name := stored_name name\<rparr>)
       (g_file_info_list s)\<rparr>"

definition file_version :: "nat \<Rightarrow> byte list \<Rightarrow> int list" where
  "file_version t name = sscanf [ScanD, ScanSkip] (c_string (drop (rt_strlen (file_name_def ! t)) (name @ [0])))"

lemma config_base_aligned: "config_base_sct t mod 16 = 0"
  by (simp add: config_base_sct_def)

lemma process_config_file:
  assumes "get_file_type (name @ [0]) = t" and "config_file t" and "file_version t name = [v]" and "n \<le> MAX_CONFIG_FILE_SIZE"
    and "packet_seq (file_operate_state s) = 1" and "op_state (file_operate_state s) = FILE_OPT_STATE_DOWNLOAD"
  shows "process_download_type (name @ [0]) (of_nat n) s =
    (True, transfer t (of_int v) (config_base_sct t * FLASH_BYTES_PER_SECTOR) n 1 [] (begun t n name s))"
proof -
  have t: "t \<noteq> MAX_FILE_TYPE_NUM" using assms(2) by (auto simp: config_file_def)
  have n: "\<not> unat (of_nat n :: u32) > MAX_CONFIG_FILE_SIZE" using assms(4) by (simp add: unat_of_nat)
  have st: "file_operate_state s\<lparr>file_type := a, version_sn := b, flash_addr := c, op_size := d, remain := e\<rparr> =
      \<lparr>op_state = FILE_OPT_STATE_DOWNLOAD, file_type = a, op_size = d, packet_seq = 1, remain = e, flash_addr = c,
        version_sn = b\<rparr>" for a b c d e
    using assms(5,6) by (cases "file_operate_state s") simp
  show ?thesis
    using assms(1-3) t n st
    by (simp add: process_download_type_def Let_def file_version_def erase_blocks_only [OF config_base_aligned]
        start_file_def transfer_def begun_def stored_name_def del: of_nat_mult)
qed

lemma download_first:
  assumes "packet_seq (file_operate_state s) = 0" and "length name \<le> 255"
    and "unat len = length (first_payload mark name n c)"
    and "mread d 0 (length (first_payload mark name n c)) = first_payload mark name n c"
    and "get_file_type (name @ [0]) = t" and "config_file t" and "file_version t name = [v]" and "n \<le> MAX_CONFIG_FILE_SIZE"
    and "length c \<le> n" and "base = config_base_sct t * FLASH_BYTES_PER_SECTOR"
  shows "download_file 1 d len s =
    (if length c = n
     then (DOWNLOAD_OVER, file_operate_reset (finish_download_option
             (transfer t (of_int v) base n 1 c (begun t n name s))))
     else (DOWNLOAD_DOWNLOADING, transfer t (of_int v) base n 1 c (begun t n name s)))"
proof -
  note f = first_payload_fields [OF assms(4,2)]
  have n: "n < 2 ^ 32" using assms(8) by simp
  define s2 where "s2 = upd_op (\<lambda>p. p\<lparr>packet_seq := 1, op_state := FILE_OPT_STATE_DOWNLOAD\<rparr>) s"
  have b: "begun t n name s2 = begun t n name s\<lparr>file_operate_state := file_operate_state s2\<rparr>"
    by (simp add: begun_def s2_def)
  have l: "unat (len - (ucast (d 1) + 6)) = length c"
  proof -
    have "unat (ucast (d 1) + 6 :: u16) = length name + 6"
      using f(2) [OF n] assms(2) by (simp add: unat_word_ariths)
    moreover have "ucast (d 1) + 6 \<le> len"
      using calculation assms(3) by (simp add: word_le_nat_alt first_payload_def)
    ultimately show ?thesis using assms(3) by (simp add: unat_sub first_payload_def)
  qed
  have base: "base + n < 2 ^ 32" using assms(8,10) by (simp add: config_base_sct_def)
  have "process_download_type (name @ [0]) (of_nat n) s2 = (True, transfer t (of_int v) base n 1 [] (begun t n name s))"
    using process_config_file [OF assms(5-8), of s2] b by (simp add: s2_def transfer_def assms(10))
  then have "download_file 1 d len s =
      store_packet d (length name + 6) (len - (ucast (d 1) + 6)) (transfer t (of_int v) base n 1 [] (begun t n name s))"
    using assms(1) f [OF n] by (simp add: download_file_def Let_def s2_def)
  then show ?thesis
    using store_packet_transfer [OF l f(5) [OF n], of "[]" n base t "of_int v" 1 "begun t n name s"] assms(9) base by simp
qed

lemma init_parking_lists_only:
  "init_parking_lists s = s\<lparr>g_file_info_list := dir_of (ext_read CONFIG_FILE_INFO_ADDR 1320 s),
     g_relation_list := g_relation_list (init_parking_lists s),
     g_light_info_list := g_light_info_list (init_parking_lists s),
     g_detector_info_list := g_detector_info_list (init_parking_lists s)\<rparr>"
proof -
  define s0 where "s0 = s\<lparr>g_file_info_list := dir_of (ext_read CONFIG_FILE_INFO_ADDR 1320 s)\<rparr>"
  define s1 where "s1 = read_light_connect_file s0"
  define s2 where "s2 = read_sensor_list_flie s1"
  have 1: "s1 = s0\<lparr>g_relation_list := g_relation_list s1, g_light_info_list := g_light_info_list s1\<rparr>"
    unfolding s1_def by (rule read_light_connect_wf(3))
  have 2: "s2 = s1\<lparr>g_relation_list := g_relation_list s2, g_detector_info_list := g_detector_info_list s2\<rparr>"
    unfolding s2_def by (rule read_sensor_list_wf(3))
  have 3: "read_light_parking_flie s2 = s2\<lparr>g_relation_list := g_relation_list (read_light_parking_flie s2)\<rparr>"
    by (simp add: read_light_parking_flie_def Let_def)
  define r where "r = g_relation_list (read_light_parking_flie s2)"
  have "init_parking_lists s = s2\<lparr>g_relation_list := r\<rparr>"
    using 3 by (simp add: init_parking_lists_def s0_def s1_def s2_def r_def)
  also have "\<dots> = s0\<lparr>g_relation_list := r, g_light_info_list := g_light_info_list s1,
      g_detector_info_list := g_detector_info_list s2\<rparr>"
    by (subst 2, subst 1) simp
  finally show ?thesis by (simp add: s0_def)
qed

lemma dir_wf_upd:
  "dir_wf d \<Longrightarrow> (\<And>x. length (f_name x) = 256 \<Longrightarrow> length (f_name (f x)) = 256) \<Longrightarrow>
     dir_wf (upd_config_file_info t f d)"
  by (simp add: dir_wf_def upd_config_file_info_def)

lemma length_stored_name [simp]: "length (stored_name name) = 256"
  by (simp add: stored_name_def)

lemma finish_list_file:
  assumes "t \<in> {LIGHT_CONNECT_FILE, LIGHT_PARKING_FILE, SENSOR_LIST_FILE}" and "dir_wf (g_file_info_list s)"
    and "base = config_base_sct t * FLASH_BYTES_PER_SECTOR" and "length c = n" and "n \<le> MAX_CONFIG_FILE_SIZE"
    and "s' = file_operate_reset (finish_download_option (transfer t v base n k c (begun t n name s)))"
  shows "ext_read base n s' = c \<and>
    g_file_info_list s' = upd_config_file_info t
      (\<lambda>_. \<lparr>f_sn = v, f_size = of_nat n, f_name = stored_name name\<rparr>) (g_file_info_list s) \<and>
    dir_of (ext_read CONFIG_FILE_INFO_ADDR 1320 s') = g_file_info_list s' \<and>
    file_operate_state s' = zero_file_operate_state \<and>
    (\<forall>x. (x < base \<or> base + 65536 \<le> x) \<and> 4096 \<le> x \<longrightarrow> flash s' x = flash s x) \<and>
    (\<exists>u. s' = file_operate_reset (init_parking_lists u) \<and> flash u = flash s' \<and> wnc_device u = wnc_device s)"
proof -
  define d where "d = upd_config_file_info t (\<lambda>_. \<lparr>f_sn = v, f_size = of_nat n, f_name = stored_name name\<rparr>)
    (g_file_info_list s)"
  define m where "m = mprogram (merase (flash s) base FLASH_BYTES_PER_BLOCK) base c"
  define u where "u = (transfer t v base n k c (begun t n name s))\<lparr>g_file_info_list := d,
    flash := mprogram (merase m 0 FLASH_BYTES_PER_SECTOR) 0 (dir_bytes d)\<rparr>"
  have wf: "dir_wf d" unfolding d_def by (rule dir_wf_upd [OF assms(2)]) simp
  have len: "length (dir_bytes d) = 1320" by (rule dir.enc_length [OF wf])
  have "upd_config_file_info t (\<lambda>f. f\<lparr>f_sn := v\<rparr>) (g_file_info_list (begun t n name s)) = d"
    by (simp add: begun_def d_def upd_config_file_info_def)
  then have fin: "finish_download_option (transfer t v base n k c (begun t n name s)) = init_parking_lists u"
    using assms(1,3) by (auto simp: finish_download_option_def Let_def transfer_def u_def m_def begun_def
        rewrite_sector_only)
  note only = init_parking_lists_only [of u]
  have fl: "flash s' = flash u" unfolding assms(6) fin by (subst only) (simp add: file_operate_reset_def)
  have rd: "dir_of (ext_read CONFIG_FILE_INFO_ADDR 1320 u) = d"
    using dir.load_stored [OF _ wf, of 0 "u\<lparr>flash := m\<rparr>"]
    by (simp add: u_def rewrite_sector_only)
  have dir: "g_file_info_list s' = d"
    unfolding assms(6) fin by (subst only) (simp add: file_operate_reset_def rd)
  have b: "4096 \<le> base" using assms(3) by (simp add: config_base_sct_def)
  have "erased (merase (flash s) base FLASH_BYTES_PER_BLOCK) base (length c)"
    using assms(4,5) by (intro erased_merase) simp_all
  then have "mread m base (length c) = c" unfolding m_def by (rule mread_mprogram)
  then have 1: "ext_read base n s' = c"
    using assms(4) b len by (simp add: ext_read_def fl u_def mread_mprogram_other mread_merase_other)
  have 2: "flash s' x = flash s x" if "(x < base \<or> base + 65536 \<le> x) \<and> 4096 \<le> x" for x
    using that assms(4,5) len by (auto simp: fl u_def m_def mprogram_other merase_other)
  have 3: "wnc_device u = wnc_device s" by (simp add: u_def transfer_def begun_def)
  have "dir_of (ext_read CONFIG_FILE_INFO_ADDR 1320 s') = d" using rd fl by (simp add: ext_read_def)
  moreover have "file_operate_state s' = zero_file_operate_state" by (simp add: assms(6) file_operate_reset_def)
  moreover have "\<exists>u. s' = file_operate_reset (init_parking_lists u) \<and> flash u = flash s' \<and> wnc_device u = wnc_device s"
    using fin fl 3 assms(6) by (intro exI [of _ u]) simp
  ultimately show ?thesis using 1 2 dir unfolding d_def by simp
qed

text \<open>C8. A list file is downloaded completely: from an idle state, packets numbered from 1 that carry a
  valid name, the size and the bytes of the file, split in any way into at most 256 packets of which
  the last carries data, are all accepted, only the last one completes the transfer, and then the area
  of the file holds exactly its bytes, the directory entry has the version, the size and the name in
  memory and on the flash, the parking lists have been read again, the transfer state is idle, and
  nothing else on the flash has changed.\<close>

theorem download_stores_list_file:
  assumes "packet_seq (file_operate_state s) = 0" and "dir_wf (g_file_info_list s)"
    and "t \<in> {LIGHT_CONNECT_FILE, LIGHT_PARKING_FILE, SENSOR_LIST_FILE}"
    and "get_file_type (name @ [0]) = t" and "file_version t name = [v]" and "length name \<le> 255"
    and "cs \<noteq> []" and "tl cs = [] \<or> last cs \<noteq> []" and "length cs \<le> 256"
    and "length (concat cs) \<le> MAX_CONFIG_FILE_SIZE" and "carries 1 ps (payloads mark name cs)"
    and "download_seq ps s = (rs, s')" and "base = config_base_sct t * FLASH_BYTES_PER_SECTOR"
  shows "rs = replicate (length cs - 1) DOWNLOAD_DOWNLOADING @ [DOWNLOAD_OVER] \<and>
    ext_read base (length (concat cs)) s' = concat cs \<and>
    g_file_info_list s' = upd_config_file_info t
      (\<lambda>_. \<lparr>f_sn = of_int v, f_size = of_nat (length (concat cs)), f_name = stored_name name\<rparr>) (g_file_info_list s) \<and>
    dir_of (ext_read CONFIG_FILE_INFO_ADDR 1320 s') = g_file_info_list s' \<and>
    file_operate_state s' = zero_file_operate_state \<and>
    (\<forall>x. (x < base \<or> base + 65536 \<le> x) \<and> 4096 \<le> x \<longrightarrow> flash s' x = flash s x) \<and>
    (\<exists>u. s' = file_operate_reset (init_parking_lists u) \<and> flash u = flash s' \<and> wnc_device u = wnc_device s)"
proof -
  let ?n = "length (concat cs)"
  obtain c cs' where cs: "cs = c # cs'" using assms(7) by (cases cs) auto
  from assms(11) obtain d len qs where q: "ps = (1, d, len) # qs"
    "unat len = length (first_payload mark name ?n c)"
    "mread d 0 (length (first_payload mark name ?n c)) = first_payload mark name ?n c" "carries 2 qs cs'"
    by (auto simp: payloads_def cs carries_Cons numeral_2_eq_2)
  have cf: "config_file t" using assms(3) by (auto simp: config_file_def)
  have b: "base + ?n < 2 ^ 32" using assms(10,13) by (simp add: config_base_sct_def)
  have "length c \<le> ?n" by (simp add: cs)
  note first = download_first [OF assms(1,6) q(2,3) assms(4) cf assms(5,10) this assms(13)]
  have "download_seq ps s = (replicate (length cs - 1) DOWNLOAD_DOWNLOADING @ [DOWNLOAD_OVER],
      file_operate_reset (finish_download_option
        (transfer t (of_int v) base ?n (length cs) (concat cs) (begun t ?n name s))))"
  proof (cases "cs' = []")
    case True
    then show ?thesis using first q(1,4) by (simp add: cs)
  next
    case False
    have "concat cs' \<noteq> []" using assms(8) False last_in_set [OF False] by (auto simp: cs)
    then have n: "length c \<noteq> ?n" by (simp add: cs)
    have "carries (Suc 1) qs cs'" using q(4) by (simp add: numeral_2_eq_2)
    then have "download_seq qs (transfer t (of_int v) base ?n 1 c (begun t ?n name s)) =
      (replicate (length cs' - 1) DOWNLOAD_DOWNLOADING @ [DOWNLOAD_OVER],
       file_operate_reset (finish_download_option
         (transfer t (of_int v) base ?n (1 + length cs') (c @ concat cs') (begun t ?n name s))))"
      by (rule download_rest) (use False assms(8,9) b in \<open>simp_all add: cs\<close>)
    moreover have "replicate (length cs') x = x # replicate (length cs' - 1) x" for x :: nat
      using False by (cases cs') simp_all
    moreover have "concat cs = c @ concat cs'" "length cs = Suc (length cs')" by (simp_all add: cs)
    moreover have "download_file 1 d len s =
        (DOWNLOAD_DOWNLOADING, transfer t (of_int v) base ?n 1 c (begun t ?n name s))"
      unfolding first using n by (simp only: if_False)
    ultimately show ?thesis unfolding q(1) download_seq.simps by simp
  qed
  with assms(12) finish_list_file [OF assms(3,2,13) refl assms(10) refl, of "of_int v" "length cs" name]
  show ?thesis by simp
qed

text \<open>C32. A transfer that has failed blocks the next ones: whenever the packet counter is not zero, the
  first packet of a file is refused and only advances the counter, so that a new download is accepted
  only when the 8-bit counter has come round to zero or something else has reset the state.\<close>

theorem download_restart_refused:
  assumes "packet_seq (file_operate_state s) \<noteq> 0"
  shows "download_file 1 d len s =
    (DOWNLOAD_ERR, upd_op (\<lambda>p. p\<lparr>packet_seq := packet_seq p + 1\<rparr>) s)"
  using assms by (simp add: download_file_def Let_def)

text \<open>The packet counter has 8 bits: after 256 packets of a transfer that is not complete, packet 257
  (number 1 again) is taken for the first packet of a new file; when its bytes are not the header of a
  known file the transfer ends with an error.\<close>

theorem download_packet_257:
  assumes "get_file_type (mread d 2 (unat (d 1)) @ [0]) = MAX_FILE_TYPE_NUM"
  shows "fst (download_file (of_nat 257) d len (transfer t v base n 256 dn s)) = DOWNLOAD_ERR"
  using assms by (simp add: download_file_def Let_def transfer_def process_download_type_def)

section \<open>Concrete transfers\<close>

definition demo_ft :: ft_st where
  "demo_ft = ws_st.extend demo_ws (ft_st.fields zero_file_operate_state)"

definition buffer_of :: "byte list \<Rightarrow> mem" where
  "buffer_of bs = (\<lambda>i. if i < length bs then bs ! i else 0)"

lemma mread_buffer_of [simp]: "mread (buffer_of bs) 0 (length bs) = bs"
  by (rule nth_equalityI) (simp_all add: mread_nth buffer_of_def)

definition packets_of :: "nat \<Rightarrow> byte list list \<Rightarrow> (byte \<times> mem \<times> u16) list" where
  "packets_of k bs = map (\<lambda>(i, b). (of_nat (k + i), buffer_of b, of_nat (length b))) (enumerate 0 bs)"

lemma carries_packets_of:
  "list_all (\<lambda>b. length b < 65536) bs \<Longrightarrow> carries k (packets_of k bs) bs"
  by (auto simp: carries_def packets_of_def nth_enumerate_eq list_all_length unat_of_nat)

lemma demo_ft_fields:
  "flash demo_ft = (\<lambda>_. 0xff)" "log_infos demo_ft = init_info" "g_file_info_list demo_ft = demo_dir"
  "file_operate_state demo_ft = zero_file_operate_state"
  by (simp_all add: demo_ft_def demo_ws_def demo_file_def demo_cfg_def demo_emb_def sys_st.defs emb_st.defs
      cfg_st.defs db_st.defs file_st.defs ws_st.defs ft_st.defs demo_sys_def)

lemma demo_ft_logs: "logs_hold demo_ft (\<lambda>_. [])"
  using ring_blank by (auto simp: logs_hold_def demo_ft_fields same_region_def)

theorem download_stores_list_file_witness:
  "\<exists>s'. download_seq (packets_of 1 (payloads 1 (bytes_of ''LN_light_connect_5.ini'') [[55], [59, 52, 10]])) demo_ft =
     ([2, 1], s') \<and> ext_read (32 * 4096) 4 s' = [55, 59, 52, 10] \<and> f_sn (light_connect (g_file_info_list s')) = 5"
proof -
  let ?n = "bytes_of ''LN_light_connect_5.ini''" and ?cs = "[[55], [59, 52, 10 :: byte]]"
  let ?ps = "packets_of 1 (payloads 1 ?n ?cs)"
  obtain rs s' where r: "download_seq ?ps demo_ft = (rs, s')" by fastforce
  have c: "carries 1 ?ps (payloads 1 ?n ?cs)"
    by (rule carries_packets_of) (simp add: payloads_def first_payload_def)
  have w: "dir_wf demo_dir" by (simp add: dir_wf_def demo_dir_def demo_info_def)
  have t: "get_file_type (?n @ [0]) = 1" by code_simp
  have v: "file_version 1 ?n = [5]" by code_simp
  have four: "4 = Suc (Suc (Suc (Suc 0)))" by simp
  show ?thesis
    unfolding four using download_stores_list_file [of demo_ft 1 ?n 5 ?cs ?ps 1 rs s' "32 * 4096"] r c w t v
    by (simp add: demo_ft_fields zero_file_operate_state_def config_base_sct_def upd_config_file_info_def)
qed

theorem download_restart_refused_witness:
  "fst (download_file 1 (\<lambda>_. 0) 20 (upd_op (\<lambda>p. p\<lparr>packet_seq := 3\<rparr>) demo_ft)) = 0"
  using download_restart_refused [of "upd_op (\<lambda>p. p\<lparr>packet_seq := 3\<rparr>) demo_ft" "\<lambda>_. 0" 20] by simp

theorem download_packet_257_witness:
  "fst (download_file (of_nat 257) (\<lambda>_. 0) 20 (transfer 4 1 (864 * 4096) 262144 256 [] demo_ft)) = 0"
proof -
  have "get_file_type (mread (\<lambda>_. 0) 2 (unat (0 :: byte)) @ [0]) = 8" by code_simp
  then show ?thesis using download_packet_257 [of "\<lambda>_. 0"] by simp
qed

definition demo_firmup :: FIRMUP_FLASHINFO where
  "demo_firmup =
     (let f = \<lparr>have_firm = 0xa5a5a5a5, need_up = 0x05050505, trycnt = 0xff, success = 0xffffffff,
            ver = [0xff, 0xff, 0xff], bin_len = 2, verify = 0\<rparr>
      in f\<lparr>verify := xor_verify (firmup_body f)\<rparr>)"

theorem upgrade_confirm_backs_up_witness:
  "\<exists>s :: ft_st. ext_read (864 * 4096) 2 s = [1, 2] \<and> ext_read (928 * 4096) 2 (upgrade_confirm s) = [1, 2] \<and>
     logs_hold (upgrade_confirm s) ((\<lambda>_. [])(SYSTEM_LOG := bytes_of (''2017-05-18 01:02:03  upgrade new software ok'' @ crlf)))"
proof -
  define s where "s = rewrite_sector FIRMUPINFO_BASE_ADDR (firmup_bytes demo_firmup)
    (demo_ft\<lparr>flash := mprogram (\<lambda>_. 0xff) (864 * 4096) [1, 2]\<rparr>)"
  have w: "length (ver demo_firmup) = 3" by (simp add: demo_firmup_def Let_def)
  have f: "firmup_of (ext_read FIRMUPINFO_BASE_ADDR 21 s) = demo_firmup"
    unfolding s_def by (rule firmup.load_stored) (use w in simp_all)
  have i: "log_infos s = log_infos demo_ft" by (simp add: s_def rewrite_sector_only)
  have h: "logs_hold s (\<lambda>_. [])"
    by (rule logs_hold_cong [OF demo_ft_logs i])
      (auto simp: s_def rewrite_sector_only demo_ft_fields log_area_def mprogram_other merase_other
        firmup.enc_length [OF w])
  have e: "erased (\<lambda>_. 0xff) (864 * 4096) (length [1, 2 :: byte])" by (simp add: erased_def)
  have "ext_read (864 * 4096) 2 s = ext_read (864 * 4096) 2 (demo_ft\<lparr>flash := mprogram (\<lambda>_. 0xff) (864 * 4096) [1, 2]\<rparr>)"
    unfolding s_def by (rule firmup.load_other) (use w in simp_all)
  then have r: "ext_read (864 * 4096) 2 s = [1, 2]"
    using mread_mprogram [OF e] by (simp add: ext_read_def numeral_2_eq_2)
  have t: "time_stamp (fst (pcf8563_get_datetime (stack_rtc s) s)) = ''2017-05-18 01:02:03''"
    by (simp add: s_def rewrite_sector_only pcf8563_get_datetime_def demo_ft_def demo_ws_def demo_file_def demo_cfg_def
        demo_emb_def sys_st.defs emb_st.defs cfg_st.defs db_st.defs file_st.defs ws_st.defs ft_st.defs demo_sys_def
        time_stamp_def zpad_def decimal.simps digit_char_def small_digits_def)
  show ?thesis
    using upgrade_confirm_backs_up [OF h f [symmetric], OF _ _ _ _ _ refl, unfolded t] r
    by (intro exI [of _ s]) (simp add: demo_firmup_def Let_def firmup_body_def)
qed

end
