(* ===== verification/Msg_Queue.thy ===== *)
theory Msg_Queue
  imports Prelude
begin

text \<open>
  The message queues of \<open>rt-thread/kernel/ipc.c\<close> that connect the threads of the application. A queue
  owns a pool of blocks; a block is on the free list, on the queue, or held by a thread that is filling
  it or copying it out. Sending and receiving each consist of short sections with interrupts disabled
  and a copy of the message between them, during which other threads and interrupt handlers can use
  the queue; the step relation below interleaves these sections. Block addresses are their indices in
  the pool.
\<close>

section \<open>The queue object\<close>

record rt_messagequeue =
  next_msg :: "nat \<Rightarrow> nat option"
  body :: "nat \<Rightarrow> byte list"
  msg_queue_head :: "nat option"
  msg_queue_tail :: "nat option"
  msg_queue_free :: "nat option"
  entry :: nat
  msg_size :: nat
  max_msgs :: nat

text \<open>Putting a block on the free list: the last section of \<open>rt_mq_recv\<close> and the loop of \<open>rt_mq_create\<close>.\<close>

definition mq_release :: "nat \<Rightarrow> rt_messagequeue \<Rightarrow> rt_messagequeue" where
  "mq_release msg q = q\<lparr>next_msg := (next_msg q)(msg := msg_queue_free q), msg_queue_free := Some msg\<rparr>"

definition rt_mq_create :: "nat \<Rightarrow> nat \<Rightarrow> (nat \<Rightarrow> byte list) \<Rightarrow> rt_messagequeue" where
  "rt_mq_create sz n pool =
     fold mq_release [0..<n]
       \<lparr>next_msg = (\<lambda>_. None), body = pool, msg_queue_head = None, msg_queue_tail = None,
         msg_queue_free = None, entry = 0, msg_size = (sz + 3) div 4 * 4, max_msgs = n\<rparr>"

section \<open>The sections of the operations\<close>

text \<open>\<open>rt_mq_send\<close> and \<open>rt_mq_urgent\<close>: get a free block (none when the pool is exhausted), fill it, link it.\<close>

definition mq_alloc :: "rt_messagequeue \<Rightarrow> (nat \<times> rt_messagequeue) option" where
  "mq_alloc q = (case msg_queue_free q of
     None \<Rightarrow> None
   | Some msg \<Rightarrow> Some (msg, q\<lparr>msg_queue_free := next_msg q msg\<rparr>))"

definition mq_copy_in :: "nat \<Rightarrow> byte list \<Rightarrow> rt_messagequeue \<Rightarrow> rt_messagequeue" where
  "mq_copy_in msg buffer q = q\<lparr>body := (body q)(msg := buffer @ drop (length buffer) (body q msg))\<rparr>"

definition mq_fill :: "nat \<Rightarrow> byte list \<Rightarrow> rt_messagequeue \<Rightarrow> rt_messagequeue" where
  "mq_fill msg buffer q = mq_copy_in msg buffer (q\<lparr>next_msg := (next_msg q)(msg := None)\<rparr>)"

definition mq_link :: "nat \<Rightarrow> rt_messagequeue \<Rightarrow> rt_messagequeue" where
  "mq_link msg q =
     (let q1 = (case msg_queue_tail q of
                  None \<Rightarrow> q
                | Some t \<Rightarrow> q\<lparr>next_msg := (next_msg q)(t := Some msg)\<rparr>);
          q2 = q1\<lparr>msg_queue_tail := Some msg\<rparr>;
          q3 = (if msg_queue_head q2 = None then q2\<lparr>msg_queue_head := Some msg\<rparr> else q2)
      in q3\<lparr>entry := entry q3 + 1\<rparr>)"

definition mq_push :: "nat \<Rightarrow> rt_messagequeue \<Rightarrow> rt_messagequeue" where
  "mq_push msg q =
     (let q1 = q\<lparr>next_msg := (next_msg q)(msg := msg_queue_head q), msg_queue_head := Some msg\<rparr>;
          q2 = (if msg_queue_tail q1 = None then q1\<lparr>msg_queue_tail := Some msg\<rparr> else q1)
      in q2\<lparr>entry := entry q2 + 1\<rparr>)"

text \<open>\<open>rt_mq_recv\<close>: with a message present, unlink the first block, copy it out, put it on the free list.\<close>

definition mq_take :: "rt_messagequeue \<Rightarrow> (nat \<times> rt_messagequeue) option" where
  "mq_take q = (case msg_queue_head q of
     None \<Rightarrow> None
   | Some msg \<Rightarrow>
       (let q1 = q\<lparr>msg_queue_head := next_msg q msg\<rparr>;
            q2 = (if msg_queue_tail q1 = Some msg then q1\<lparr>msg_queue_tail := None\<rparr> else q1)
        in Some (msg, q2\<lparr>entry := entry q2 - 1\<rparr>)))"

definition mq_copy_out :: "nat \<Rightarrow> nat \<Rightarrow> rt_messagequeue \<Rightarrow> byte list" where
  "mq_copy_out msg n q = take (if n > msg_size q then msg_size q else n) (body q msg)"

section \<open>Uninterrupted calls\<close>

definition rt_mq_send :: "byte list \<Rightarrow> rt_messagequeue \<Rightarrow> int \<times> rt_messagequeue" where
  "rt_mq_send buffer q =
     (if length buffer > msg_size q then (- RT_ERROR, q)
      else case mq_alloc q of
        None \<Rightarrow> (- RT_EFULL, q)
      | Some (msg, q1) \<Rightarrow> (RT_EOK, mq_link msg (mq_fill msg buffer q1)))"

definition rt_mq_urgent :: "byte list \<Rightarrow> rt_messagequeue \<Rightarrow> int \<times> rt_messagequeue" where
  "rt_mq_urgent buffer q =
     (if length buffer > msg_size q then (- RT_ERROR, q)
      else case mq_alloc q of
        None \<Rightarrow> (- RT_EFULL, q)
      | Some (msg, q1) \<Rightarrow> (RT_EOK, mq_push msg (mq_copy_in msg buffer q1)))"

text \<open>Receiving without waiting (\<open>timeout == 0\<close>).\<close>

definition rt_mq_recv :: "nat \<Rightarrow> rt_messagequeue \<Rightarrow> int \<times> byte list \<times> rt_messagequeue" where
  "rt_mq_recv n q =
     (if entry q = 0 then (- RT_ETIMEOUT, [], q)
      else case mq_take q of
        None \<Rightarrow> (- RT_ETIMEOUT, [], q)
      | Some (msg, q1) \<Rightarrow> (RT_EOK, mq_copy_out msg n q1, mq_release msg q1))"

text \<open>The loop of \<open>rt_mq_control\<close> that releases every message of the queue; the fuel is the number of blocks.\<close>

fun mq_release_all :: "nat \<Rightarrow> rt_messagequeue \<Rightarrow> rt_messagequeue" where
  "mq_release_all 0 q = q"
| "mq_release_all (Suc n) q =
     (case msg_queue_head q of
        None \<Rightarrow> q
      | Some msg \<Rightarrow>
          (let q1 = q\<lparr>msg_queue_head := next_msg q msg\<rparr>;
               q2 = (if msg_queue_tail q1 = Some msg then q1\<lparr>msg_queue_tail := None\<rparr> else q1)
           in mq_release_all n (mq_release msg q2)))"

section \<open>Linked lists in the pool\<close>

primrec chain :: "(nat \<Rightarrow> nat option) \<Rightarrow> nat option \<Rightarrow> nat list \<Rightarrow> bool" where
  "chain nx p [] \<longleftrightarrow> p = None"
| "chain nx p (a # as) \<longleftrightarrow> p = Some a \<and> chain nx (nx a) as"

lemma chain_None [simp]: "chain nx None as \<longleftrightarrow> as = []"
  by (cases as) auto

lemma chain_Some: "chain nx (Some a) as \<longleftrightarrow> (\<exists>bs. as = a # bs \<and> chain nx (nx a) bs)"
  by (cases as) auto

lemma chain_upd [simp]: "a \<notin> set as \<Longrightarrow> chain (nx(a := v)) p as = chain nx p as"
  by (induction as arbitrary: p) auto

lemma chain_unique: "chain nx p as \<Longrightarrow> chain nx p bs \<Longrightarrow> as = bs"
  by (induction as arbitrary: p bs) (auto simp: chain_Some)

lemma chain_snoc:
  assumes "chain nx p as" and "as \<noteq> []" and "a \<notin> set as" and "distinct as" and "nx a = None"
  shows "chain (nx(last as := Some a)) p (as @ [a])"
  using assms
proof (induction as arbitrary: p)
  case (Cons b as)
  then show ?case by (cases as) auto
qed simp

text \<open>The shape of a queue: the blocks on the queue and on the free list.\<close>

definition shape :: "rt_messagequeue \<Rightarrow> nat list \<Rightarrow> nat list \<Rightarrow> bool" where
  "shape q xs fs \<longleftrightarrow> chain (next_msg q) (msg_queue_head q) xs \<and> chain (next_msg q) (msg_queue_free q) fs \<and>
     msg_queue_tail q = (if xs = [] then None else Some (last xs)) \<and> entry q = length xs \<and>
     distinct (xs @ fs)"

lemma shape_unique: "shape q xs fs \<Longrightarrow> shape q ys gs \<Longrightarrow> xs = ys \<and> fs = gs"
  unfolding shape_def by (metis chain_unique)

lemma shape_alloc:
  assumes "shape q xs fs" and "mq_alloc q = Some (m, q')"
  shows "\<exists>fs'. fs = m # fs' \<and> shape q' xs fs' \<and> next_msg q' = next_msg q \<and> body q' = body q"
  using assms by (cases fs) (auto simp: shape_def mq_alloc_def split: option.splits)

lemma shape_full: "shape q xs fs \<Longrightarrow> mq_alloc q = None \<longleftrightarrow> fs = []"
  by (cases fs) (auto simp: shape_def mq_alloc_def)

lemma shape_fill:
  "shape q xs fs \<Longrightarrow> m \<notin> set xs \<Longrightarrow> m \<notin> set fs \<Longrightarrow> shape (mq_fill m b q) xs fs"
  "shape q xs fs \<Longrightarrow> m \<notin> set xs \<Longrightarrow> m \<notin> set fs \<Longrightarrow> shape (mq_copy_in m b q) xs fs"
  by (auto simp: shape_def mq_fill_def mq_copy_in_def)

lemma shape_link:
  assumes "shape q xs fs" and "m \<notin> set xs" and "m \<notin> set fs" and "next_msg q m = None"
  shows "shape (mq_link m q) (xs @ [m]) fs"
proof (cases "xs = []")
  case True
  then show ?thesis using assms by (auto simp: shape_def mq_link_def Let_def)
next
  case False
  have "set xs \<inter> set fs = {}" using assms(1) by (simp add: shape_def)
  then have l: "last xs \<notin> set fs" "last xs \<noteq> m" using last_in_set [OF False] assms(2) by blast+
  have h: "msg_queue_head q \<noteq> None" using assms(1) False by (auto simp: shape_def)
  then show ?thesis
    using l assms False h chain_snoc [of "next_msg q" "msg_queue_head q" xs m]
    by (auto simp: shape_def mq_link_def Let_def)
qed

lemma shape_push:
  assumes "shape q xs fs" and "m \<notin> set xs" and "m \<notin> set fs"
  shows "shape (mq_push m q) (m # xs) fs"
  using assms by (auto simp: shape_def mq_push_def Let_def)

lemma shape_take:
  assumes "shape q (m # xs) fs"
  shows "\<exists>q'. mq_take q = Some (m, q') \<and> shape q' xs fs \<and> next_msg q' = next_msg q \<and> body q' = body q \<and>
    msg_size q' = msg_size q \<and> max_msgs q' = max_msgs q"
proof -
  have "last (m # xs) = m \<longleftrightarrow> xs = []" using assms by (auto simp: shape_def)
  then show ?thesis using assms by (auto simp: shape_def mq_take_def Let_def)
qed

lemma shape_release:
  assumes "shape q xs fs" and "m \<notin> set xs" and "m \<notin> set fs"
  shows "shape (mq_release m q) xs (m # fs)"
  using assms by (auto simp: shape_def mq_release_def)

lemma mq_release_fields [simp]:
  "msg_size (mq_release m q) = msg_size q" "max_msgs (mq_release m q) = max_msgs q" "body (mq_release m q) = body q"
  by (simp_all add: mq_release_def)

lemma shape_create:
  "shape (rt_mq_create sz n pool) [] (rev [0..<n]) \<and> msg_size (rt_mq_create sz n pool) = (sz + 3) div 4 * 4 \<and>
   max_msgs (rt_mq_create sz n pool) = n \<and> body (rt_mq_create sz n pool) = pool"
proof -
  let ?q = "\<lparr>next_msg = (\<lambda>_. None), body = pool, msg_queue_head = None, msg_queue_tail = None,
    msg_queue_free = None, entry = 0, msg_size = (sz + 3) div 4 * 4, max_msgs = n\<rparr>"
  have "shape (fold mq_release [0..<k] ?q) [] (rev [0..<k]) \<and>
      msg_size (fold mq_release [0..<k] ?q) = (sz + 3) div 4 * 4 \<and>
      max_msgs (fold mq_release [0..<k] ?q) = n \<and> body (fold mq_release [0..<k] ?q) = pool" for k
  proof (induction k)
    case (Suc k)
    then show ?case using shape_release [of "fold mq_release [0..<k] ?q" "[]" "rev [0..<k]" k] by simp
  qed (simp add: shape_def)
  then show ?thesis by (simp add: rt_mq_create_def)
qed

section \<open>The interface\<close>

text \<open>What the threads rely on: a bounded first-in first-out queue. The laws are over an abstraction \<open>abs\<close>
  to the list of the messages, the oldest one first, for states that satisfy \<open>wf\<close>.\<close>

locale msg_fifo =
  fixes send :: "'m \<Rightarrow> 'q \<Rightarrow> int \<times> 'q" and recv :: "'q \<Rightarrow> int \<times> 'm \<times> 'q"
    and abs :: "'q \<Rightarrow> 'm list" and wf :: "'q \<Rightarrow> bool" and cap :: "'q \<Rightarrow> nat" and ok :: "'q \<Rightarrow> 'm \<Rightarrow> bool"
  assumes send_room: "wf q \<Longrightarrow> ok q m \<Longrightarrow> length (abs q) < cap q \<Longrightarrow> send m q = (e, q') \<Longrightarrow>
      e = RT_EOK \<and> wf q' \<and> abs q' = abs q @ [m] \<and> cap q' = cap q \<and> ok q' = ok q"
    and send_full: "wf q \<Longrightarrow> ok q m \<Longrightarrow> \<not> length (abs q) < cap q \<Longrightarrow> send m q = (- RT_EFULL, q)"
    and recv_some: "wf q \<Longrightarrow> abs q = m # ms \<Longrightarrow> recv q = (e, m', q') \<Longrightarrow>
      e = RT_EOK \<and> m' = m \<and> wf q' \<and> abs q' = ms \<and> cap q' = cap q \<and> ok q' = ok q"
    and recv_none: "wf q \<Longrightarrow> abs q = [] \<Longrightarrow> fst (recv q) = - RT_ETIMEOUT"
    and bounded: "wf q \<Longrightarrow> length (abs q) \<le> cap q"
begin

text \<open>Sending a list of messages, and receiving until the queue is empty.\<close>

definition sends :: "'m list \<Rightarrow> 'q \<Rightarrow> 'q" where
  "sends ms q = fold (\<lambda>m q. snd (send m q)) ms q"

fun recvs :: "nat \<Rightarrow> 'q \<Rightarrow> 'm list \<times> 'q" where
  "recvs 0 q = ([], q)"
| "recvs (Suc n) q = (case recv q of (e, m, q') \<Rightarrow> case recvs n q' of (ms, q'') \<Rightarrow> (m # ms, q''))"

lemma sends_abs:
  "wf q \<Longrightarrow> list_all (ok q) ms \<Longrightarrow>
     wf (sends ms q) \<and> abs (sends ms q) = abs q @ take (cap q - length (abs q)) ms \<and> cap (sends ms q) = cap q"
proof (induction ms arbitrary: q)
  case Nil
  then show ?case by (simp add: sends_def)
next
  case (Cons m ms)
  have u: "sends (m # ms) q = sends ms (snd (send m q))" by (simp add: sends_def)
  show ?case
  proof (cases "length (abs q) < cap q")
    case True
    then show ?thesis
      using Cons send_room [of q m "fst (send m q)" "snd (send m q)"] by (simp add: u take_Cons')
  next
    case False
    then have "sends (m # ms) q = sends ms q" using Cons.prems send_full u by simp
    then show ?thesis using Cons False bounded [OF Cons.prems(1)] by simp
  qed
qed

lemma recvs_abs:
  "wf q \<Longrightarrow> n \<le> length (abs q) \<Longrightarrow> fst (recvs n q) = take n (abs q) \<and> wf (snd (recvs n q)) \<and>
     abs (snd (recvs n q)) = drop n (abs q)"
proof (induction n arbitrary: q)
  case (Suc n)
  then obtain m ms where a: "abs q = m # ms" by (cases "abs q") auto
  obtain e m' q' where r: "recv q = (e, m', q')" by (cases "recv q") auto
  from recv_some [OF Suc.prems(1) a r] Suc.IH [of q'] Suc.prems a r show ?case
    by (cases "recvs n q'") auto
qed simp

text \<open>First in, first out: the messages that found room come out in the order they were sent.\<close>

lemma fifo:
  assumes "wf q" and "list_all (ok q) ms" and "length (abs q) + length ms \<le> cap q"
  shows "fst (recvs (length (abs q) + length ms) (sends ms q)) = abs q @ ms"
  using sends_abs [OF assms(1,2)] recvs_abs [of "sends ms q" "length (abs q) + length ms"] assms(3) by simp

end

text \<open>The queue object implements the interface between calls, when the blocks hold whole messages.\<close>

primrec walk :: "(nat \<Rightarrow> nat option) \<Rightarrow> nat \<Rightarrow> nat option \<Rightarrow> nat list" where
  "walk nx 0 p = []"
| "walk nx (Suc n) p = (case p of None \<Rightarrow> [] | Some a \<Rightarrow> a # walk nx n (nx a))"

definition mq_blocks :: "rt_messagequeue \<Rightarrow> nat list" where
  "mq_blocks q = walk (next_msg q) (entry q) (msg_queue_head q)"

definition mq_abs :: "rt_messagequeue \<Rightarrow> byte list list" where
  "mq_abs q = map (body q) (mq_blocks q)"

definition mq_wf :: "rt_messagequeue \<Rightarrow> bool" where
  "mq_wf q \<longleftrightarrow> (\<exists>xs fs. shape q xs fs \<and> set (xs @ fs) = {0..<max_msgs q}) \<and>
     (\<forall>m < max_msgs q. length (body q m) = msg_size q)"

lemma walk_chain: "chain nx p xs \<Longrightarrow> walk nx (length xs) p = xs"
  by (induction xs arbitrary: p) auto

lemma mq_blocks_shape: "shape q xs fs \<Longrightarrow> mq_blocks q = xs"
  by (auto simp: shape_def mq_blocks_def walk_chain)

lemma mq_wfE:
  assumes "mq_wf q"
  obtains xs fs where "shape q xs fs" "mq_blocks q = xs" "set (xs @ fs) = {0..<max_msgs q}"
    "length xs + length fs = max_msgs q" "\<And>m. m < max_msgs q \<Longrightarrow> length (body q m) = msg_size q"
proof -
  from assms obtain xs fs where s: "shape q xs fs" "set (xs @ fs) = {0..<max_msgs q}"
    "\<And>m. m < max_msgs q \<Longrightarrow> length (body q m) = msg_size q" by (auto simp: mq_wf_def)
  have "distinct (xs @ fs)" using s(1) by (simp add: shape_def)
  then have "length xs + length fs = max_msgs q" using s(2) distinct_card [of "xs @ fs"] by simp
  with s show ?thesis using that mq_blocks_shape by blast
qed

lemma mq_wfI:
  "shape q xs fs \<Longrightarrow> set (xs @ fs) = {0..<max_msgs q} \<Longrightarrow>
     (\<And>m. m < max_msgs q \<Longrightarrow> length (body q m) = msg_size q) \<Longrightarrow> mq_wf q"
  unfolding mq_wf_def by blast

lemma mq_wf_create:
  "(\<And>m. length (pool m) = (sz + 3) div 4 * 4) \<Longrightarrow> mq_wf (rt_mq_create sz n pool)"
  using shape_create [of sz n pool] by (intro mq_wfI [of _ "[]" "rev [0..<n]"]) auto

lemma fill_link_fields:
  "body (mq_link m q) = body q" "msg_size (mq_link m q) = msg_size q" "max_msgs (mq_link m q) = max_msgs q"
  "body (mq_fill m b q) = (body q)(m := b @ drop (length b) (body q m))" "msg_size (mq_fill m b q) = msg_size q"
  "max_msgs (mq_fill m b q) = max_msgs q" "next_msg (mq_fill m b q) m = None"
  by (auto simp: mq_link_def mq_fill_def mq_copy_in_def Let_def split: option.splits)

interpretation rt_mq: msg_fifo rt_mq_send "\<lambda>q. rt_mq_recv (msg_size q) q" mq_abs mq_wf max_msgs
  "\<lambda>q m. length m = msg_size q"
proof
  fix q :: rt_messagequeue and m :: "byte list" and e q'
  assume wf: "mq_wf q" and len: "length m = msg_size q" and room: "length (mq_abs q) < max_msgs q"
    and send: "rt_mq_send m q = (e, q')"
  obtain xs fs where s: "shape q xs fs" "mq_blocks q = xs" "set (xs @ fs) = {0..<max_msgs q}"
    "length xs + length fs = max_msgs q" "\<And>m. m < max_msgs q \<Longrightarrow> length (body q m) = msg_size q"
    by (rule mq_wfE [OF wf], rule that)
  have "fs \<noteq> []" using room s(2,4) by (auto simp: mq_abs_def)
  then obtain b q1 where a: "mq_alloc q = Some (b, q1)" using shape_full [OF s(1)] by auto
  obtain fs' where f: "fs = b # fs'" "shape q1 xs fs'" "next_msg q1 = next_msg q" "body q1 = body q"
    using shape_alloc [OF s(1) a] by blast
  have q1: "msg_size q1 = msg_size q" "max_msgs q1 = max_msgs q"
    using a by (auto simp: mq_alloc_def split: option.splits)
  have b: "b \<notin> set xs" "b \<notin> set fs'" "b < max_msgs q" using s(1,3) f(1) by (auto simp: shape_def)
  have e: "e = RT_EOK" "q' = mq_link b (mq_fill b m q1)" using send a len by (simp_all add: rt_mq_send_def)
  have sh: "shape q' (xs @ [b]) fs'"
    unfolding e by (rule shape_link [OF shape_fill(1) [OF f(2)]]) (use b in \<open>simp_all add: fill_link_fields\<close>)
  have bd: "body q' = (body q)(b := m)" using len s(5) [OF b(3)] by (simp add: e fill_link_fields f(4))
  have "mq_wf q'"
  proof (rule mq_wfI [OF sh])
    show "set ((xs @ [b]) @ fs') = {0..<max_msgs q'}"
      using s(3) f(1) by (auto simp: e(2) fill_link_fields q1)
    show "length (body q' k) = msg_size q'" if "k < max_msgs q'" for k
      using that s(5) len unfolding bd by (auto simp: e(2) fill_link_fields q1)
  qed
  moreover have "mq_abs q' = mq_abs q @ [m]"
    using mq_blocks_shape [OF sh] s(2) b(1) by (auto simp: mq_abs_def bd)
  ultimately show "e = RT_EOK \<and> mq_wf q' \<and> mq_abs q' = mq_abs q @ [m] \<and> max_msgs q' = max_msgs q \<and>
    (\<lambda>m. length m = msg_size q') = (\<lambda>m. length m = msg_size q)"
    by (simp add: e fill_link_fields q1)
next
  fix q :: rt_messagequeue and m :: "byte list"
  assume wf: "mq_wf q" and len: "length m = msg_size q" and full: "\<not> length (mq_abs q) < max_msgs q"
  obtain xs fs where s: "shape q xs fs" "mq_blocks q = xs" "set (xs @ fs) = {0..<max_msgs q}"
    "length xs + length fs = max_msgs q" "\<And>m. m < max_msgs q \<Longrightarrow> length (body q m) = msg_size q"
    by (rule mq_wfE [OF wf], rule that)
  have "length xs = length (mq_abs q)" using s(2) by (simp add: mq_abs_def)
  then have "length fs = 0" using full s(4) by linarith
  then have "mq_alloc q = None" using shape_full [OF s(1)] by simp
  then show "rt_mq_send m q = (- RT_EFULL, q)" using len by (simp add: rt_mq_send_def)
next
  fix q :: rt_messagequeue and m ms e m' q'
  assume wf: "mq_wf q" and ab: "mq_abs q = m # ms" and recv: "rt_mq_recv (msg_size q) q = (e, m', q')"
  obtain xs fs where s: "shape q xs fs" "mq_blocks q = xs" "set (xs @ fs) = {0..<max_msgs q}"
    "length xs + length fs = max_msgs q" "\<And>m. m < max_msgs q \<Longrightarrow> length (body q m) = msg_size q"
    by (rule mq_wfE [OF wf], rule that)
  obtain x xs' where x: "xs = x # xs'" "m = body q x" "ms = map (body q) xs'"
    using ab s(2) by (cases xs) (auto simp: mq_abs_def)
  obtain q1 where t: "mq_take q = Some (x, q1)" "shape q1 xs' fs" "body q1 = body q" "msg_size q1 = msg_size q"
    "max_msgs q1 = max_msgs q" using shape_take s(1) x(1) by blast
  have x': "x \<notin> set xs'" "x \<notin> set fs" "x < max_msgs q" using s(1,3) x(1) by (auto simp: shape_def)
  have "entry q \<noteq> 0" using s(1) x(1) by (simp add: shape_def)
  then have e: "e = RT_EOK" "m' = m" "q' = mq_release x q1"
    using recv t s(5) [OF x'(3)] x(2) by (auto simp: rt_mq_recv_def mq_copy_out_def)
  have sh: "shape q' xs' (x # fs)" unfolding e by (rule shape_release [OF t(2) x'(1,2)])
  have "mq_wf q'"
    by (rule mq_wfI [OF sh]) (use s(3,5) x(1) in \<open>auto simp: e(3) t\<close>)
  moreover have "mq_abs q' = ms" using mq_blocks_shape [OF sh] x(3) by (simp add: mq_abs_def e(3) t(3))
  ultimately show "e = RT_EOK \<and> m' = m \<and> mq_wf q' \<and> mq_abs q' = ms \<and> max_msgs q' = max_msgs q \<and>
    (\<lambda>m. length m = msg_size q') = (\<lambda>m. length m = msg_size q)" by (simp add: e t)
next
  fix q :: rt_messagequeue
  assume wf: "mq_wf q"
  obtain xs fs where s: "shape q xs fs" "mq_blocks q = xs" "set (xs @ fs) = {0..<max_msgs q}"
    "length xs + length fs = max_msgs q" "\<And>m. m < max_msgs q \<Longrightarrow> length (body q m) = msg_size q"
    by (rule mq_wfE [OF wf], rule that)
  then show "length (mq_abs q) \<le> max_msgs q" by (simp add: mq_abs_def)
  assume "mq_abs q = []"
  then have "entry q = 0" using s(1,2) by (simp add: mq_abs_def shape_def)
  then show "fst (rt_mq_recv (msg_size q) q) = - RT_ETIMEOUT" by (simp add: rt_mq_recv_def)
qed

lemma release_all_shape:
  "shape (q\<lparr>entry := length xs\<rparr>) xs fs \<Longrightarrow> length xs \<le> k \<Longrightarrow>
     shape ((mq_release_all k q)\<lparr>entry := 0\<rparr>) [] (rev xs @ fs) \<and> msg_queue_head (mq_release_all k q) = None \<and>
     body (mq_release_all k q) = body q \<and> msg_size (mq_release_all k q) = msg_size q \<and>
     max_msgs (mq_release_all k q) = max_msgs q"
proof (induction xs arbitrary: q fs k)
  case Nil
  then show ?case by (cases k) (auto simp: shape_def)
next
  case (Cons x xs)
  obtain j where k: "k = Suc j" using Cons.prems(2) by (cases k) auto
  define q2 where "q2 = (let q1 = q\<lparr>msg_queue_head := next_msg q x\<rparr>
    in mq_release x (if msg_queue_tail q1 = Some x then q1\<lparr>msg_queue_tail := None\<rparr> else q1))"
  have h: "msg_queue_head q = Some x" "last (x # xs) = x \<longleftrightarrow> xs = []" using Cons.prems(1) by (auto simp: shape_def)
  have "shape (q2\<lparr>entry := length xs\<rparr>) xs (x # fs)"
    using Cons.prems(1) h(2) by (auto simp: q2_def shape_def mq_release_def Let_def)
  moreover have "mq_release_all k q = mq_release_all j q2" using h(1) by (simp add: k q2_def Let_def)
  moreover have "body q2 = body q" "msg_size q2 = msg_size q" "max_msgs q2 = max_msgs q" by (simp_all add: q2_def Let_def)
  ultimately show ?case using Cons.IH [where q = q2 and fs = "x # fs" and k = j] Cons.prems(2) by (simp add: k)
qed

text \<open>First in, first out: messages of the queue's size sent to a new queue that has room for them are
  received in the order they were sent, each with its bytes.\<close>

theorem rt_mq_send_recv:
  assumes "length ms \<le> n" and "list_all (\<lambda>m. length m = (sz + 3) div 4 * 4) ms" and "\<And>m. length (pool m) = (sz + 3) div 4 * 4"
  shows "fst (rt_mq.recvs (length ms) (rt_mq.sends ms (rt_mq_create sz n pool))) = ms"
proof -
  let ?q = "rt_mq_create sz n pool"
  have c: "shape ?q [] (rev [0..<n])" "msg_size ?q = (sz + 3) div 4 * 4" "max_msgs ?q = n"
    using shape_create [of sz n pool] by simp_all
  have a: "mq_abs ?q = []" using mq_blocks_shape [OF c(1)] by (simp add: mq_abs_def)
  show ?thesis using rt_mq.fifo [OF mq_wf_create [of pool sz n], of ms] assms by (simp add: a c)
qed

theorem rt_mq_send_recv_witness:
  "fst (rt_mq.recvs (length [[1, 2, 3, 4 :: byte], [5, 6, 7, 8]]) (rt_mq.sends [[1, 2, 3, 4], [5, 6, 7, 8]]
     (rt_mq_create 4 3 (\<lambda>_. [0, 0, 0, 0])))) = [[1, 2, 3, 4], [5, 6, 7, 8]]"
  by (rule rt_mq_send_recv) simp_all

section \<open>Interleaved calls\<close>

text \<open>Where a thread is inside its call. \<open>Waiting\<close> threads are on the list of suspended threads; a sender
  resumes the first one, which then looks at the queue again. The last component of \<open>RTook\<close> records the
  message that was in the block when it was unlinked.\<close>

datatype mq_pc = Idle
  | SAlloc nat "byte list" | SFilled nat "byte list"
  | UAlloc nat "byte list" | UFilled nat "byte list"
  | Waiting | Resumed | RTook nat nat "byte list" | RCopied nat

record mq_sys =
  mq_obj :: rt_messagequeue
  pcs :: "nat \<Rightarrow> mq_pc"
  suspend_thread :: "nat list"

datatype mq_event = Tau | Full | Enq "byte list" | Push "byte list" | Deq "byte list" | Got "byte list"

definition at_pc :: "nat \<Rightarrow> mq_pc \<Rightarrow> rt_messagequeue \<Rightarrow> mq_sys \<Rightarrow> mq_sys" where
  "at_pc t p q s = s\<lparr>mq_obj := q, pcs := (pcs s)(t := p)\<rparr>"

definition rt_ipc_list_resume :: "mq_sys \<Rightarrow> mq_sys" where
  "rt_ipc_list_resume s = (case suspend_thread s of
     [] \<Rightarrow> s
   | w # ws \<Rightarrow> s\<lparr>suspend_thread := ws, pcs := (pcs s)(w := Resumed)\<rparr>)"

text \<open>\<open>rt_mq_control\<close> with \<open>RT_IPC_CMD_RESET\<close>: every waiting thread returns with an error, every message is released.\<close>

definition rt_ipc_list_resume_all :: "mq_sys \<Rightarrow> mq_sys" where
  "rt_ipc_list_resume_all s =
     s\<lparr>pcs := (\<lambda>t. if t \<in> set (suspend_thread s) then Idle else pcs s t), suspend_thread := []\<rparr>"

definition rt_mq_control :: "bool \<Rightarrow> mq_sys \<Rightarrow> int \<times> mq_sys" where
  "rt_mq_control reset s =
     (if reset
      then (let s1 = rt_ipc_list_resume_all s; q = mq_obj s1
            in (RT_EOK, s1\<lparr>mq_obj := (mq_release_all (max_msgs q) q)\<lparr>entry := 0\<rparr>\<rparr>))
      else (- RT_ERROR, s))"

inductive mq_step :: "mq_sys \<Rightarrow> nat \<Rightarrow> mq_event \<Rightarrow> mq_sys \<Rightarrow> bool" where
  send_alloc: "pcs s t = Idle \<Longrightarrow> length b \<le> msg_size (mq_obj s) \<Longrightarrow> mq_alloc (mq_obj s) = Some (m, q) \<Longrightarrow>
    mq_step s t Tau (at_pc t (SAlloc m b) q s)"
| urgent_alloc: "pcs s t = Idle \<Longrightarrow> length b \<le> msg_size (mq_obj s) \<Longrightarrow> mq_alloc (mq_obj s) = Some (m, q) \<Longrightarrow>
    mq_step s t Tau (at_pc t (UAlloc m b) q s)"
| send_full: "pcs s t = Idle \<Longrightarrow> mq_alloc (mq_obj s) = None \<Longrightarrow> mq_step s t Full s"
| send_fill: "pcs s t = SAlloc m b \<Longrightarrow> mq_step s t Tau (at_pc t (SFilled m b) (mq_fill m b (mq_obj s)) s)"
| urgent_fill: "pcs s t = UAlloc m b \<Longrightarrow> mq_step s t Tau (at_pc t (UFilled m b) (mq_copy_in m b (mq_obj s)) s)"
| send_link: "pcs s t = SFilled m b \<Longrightarrow>
    mq_step s t (Enq (body (mq_obj s) m)) (rt_ipc_list_resume (at_pc t Idle (mq_link m (mq_obj s)) s))"
| urgent_link: "pcs s t = UFilled m b \<Longrightarrow>
    mq_step s t (Push (body (mq_obj s) m)) (rt_ipc_list_resume (at_pc t Idle (mq_push m (mq_obj s)) s))"
| recv_take: "pcs s t = Idle \<or> pcs s t = Resumed \<Longrightarrow> entry (mq_obj s) \<noteq> 0 \<Longrightarrow> mq_take (mq_obj s) = Some (m, q) \<Longrightarrow>
    mq_step s t (Deq (body (mq_obj s) m)) (at_pc t (RTook m n (body (mq_obj s) m)) q s)"
| recv_suspend: "pcs s t = Idle \<or> pcs s t = Resumed \<Longrightarrow> entry (mq_obj s) = 0 \<Longrightarrow> suspend_thread s = ws @ vs \<Longrightarrow>
    mq_step s t Tau (at_pc t Waiting (mq_obj s) s\<lparr>suspend_thread := ws @ t # vs\<rparr>)"
| recv_none: "pcs s t = Idle \<or> pcs s t = Resumed \<Longrightarrow> entry (mq_obj s) = 0 \<Longrightarrow>
    mq_step s t Tau (at_pc t Idle (mq_obj s) s)"
| recv_timeout: "pcs s t = Waiting \<Longrightarrow>
    mq_step s t Tau (at_pc t Idle (mq_obj s) s\<lparr>suspend_thread := removeAll t (suspend_thread s)\<rparr>)"
| recv_copy: "pcs s t = RTook m n g \<Longrightarrow>
    mq_step s t (Got (mq_copy_out m n (mq_obj s))) (at_pc t (RCopied m) (mq_obj s) s)"
| recv_release: "pcs s t = RCopied m \<Longrightarrow> mq_step s t Tau (at_pc t Idle (mq_release m (mq_obj s)) s)"

text \<open>The states reachable from a new queue, with the events that led there.\<close>

inductive mq_reach :: "nat \<Rightarrow> nat \<Rightarrow> (nat \<Rightarrow> byte list) \<Rightarrow> (nat \<times> mq_event) list \<Rightarrow> mq_sys \<Rightarrow> bool" for sz n pool where
  init: "mq_reach sz n pool [] \<lparr>mq_obj = rt_mq_create sz n pool, pcs = (\<lambda>_. Idle), suspend_thread = []\<rparr>"
| step: "mq_reach sz n pool tr s \<Longrightarrow> mq_step s t e s' \<Longrightarrow> mq_reach sz n pool (tr @ [(t, e)]) s'"

fun held :: "mq_pc \<Rightarrow> nat option" where
  "held (SAlloc m b) = Some m"
| "held (SFilled m b) = Some m"
| "held (UAlloc m b) = Some m"
| "held (UFilled m b) = Some m"
| "held (RTook m n g) = Some m"
| "held (RCopied m) = Some m"
| "held _ = None"

text \<open>Every block is in exactly one place; \<open>H\<close> gives the block a thread holds.\<close>

definition blocks_inv :: "rt_messagequeue \<Rightarrow> (nat \<Rightarrow> nat option) \<Rightarrow> nat list \<Rightarrow> nat list \<Rightarrow> bool" where
  "blocks_inv q H xs fs \<longleftrightarrow> shape q xs fs \<and>
     (\<forall>t m. H t = Some m \<longrightarrow> m < max_msgs q \<and> m \<notin> set xs \<and> m \<notin> set fs) \<and>
     (\<forall>t t' m. H t = Some m \<longrightarrow> H t' = Some m \<longrightarrow> t = t') \<and>
     (\<forall>m < max_msgs q. m \<in> set xs \<or> m \<in> set fs \<or> (\<exists>t. H t = Some m)) \<and>
     (\<forall>m. m \<in> set xs \<or> m \<in> set fs \<longrightarrow> m < max_msgs q)"

abbreviation held_by :: "mq_sys \<Rightarrow> nat \<Rightarrow> nat option" where
  "held_by s \<equiv> \<lambda>t. held (pcs s t)"

text \<open>What a thread has put into its block, or found there, stays there.\<close>

definition local_inv :: "mq_sys \<Rightarrow> bool" where
  "local_inv s \<longleftrightarrow>
     (\<forall>t m b. pcs s t = SFilled m b \<longrightarrow> next_msg (mq_obj s) m = None \<and> take (length b) (body (mq_obj s) m) = b) \<and>
     (\<forall>t m b. pcs s t = UFilled m b \<longrightarrow> take (length b) (body (mq_obj s) m) = b) \<and>
     (\<forall>t m n g. pcs s t = RTook m n g \<longrightarrow> body (mq_obj s) m = g)"

text \<open>While threads wait, there is a resumed thread for every message.\<close>

definition wake_inv :: "mq_sys \<Rightarrow> bool" where
  "wake_inv s \<longleftrightarrow> (\<forall>t. pcs s t = Waiting \<longleftrightarrow> t \<in> set (suspend_thread s)) \<and> distinct (suspend_thread s) \<and>
     finite {t. pcs s t = Resumed} \<and>
     (suspend_thread s \<noteq> [] \<longrightarrow> entry (mq_obj s) \<le> card {t. pcs s t = Resumed})"

lemma blocks_invD:
  assumes "blocks_inv q H xs fs"
  shows "shape q xs fs" "H t = Some m \<Longrightarrow> m < max_msgs q" "H t = Some m \<Longrightarrow> m \<notin> set xs \<union> set fs"
    "H t = Some m \<Longrightarrow> H t' = Some m \<Longrightarrow> t = t'" "m < max_msgs q \<Longrightarrow> m \<in> set xs \<union> set fs \<or> (\<exists>t. H t = Some m)"
    "m \<in> set xs \<union> set fs \<Longrightarrow> m < max_msgs q"
  using assms unfolding blocks_inv_def by (blast+)

lemma blocks_invI:
  assumes "shape q xs fs" and "\<And>t m. H t = Some m \<Longrightarrow> m < max_msgs q \<and> m \<notin> set xs \<union> set fs"
    and "\<And>t t' m. H t = Some m \<Longrightarrow> H t' = Some m \<Longrightarrow> t = t'"
    and "\<And>m. m < max_msgs q \<Longrightarrow> m \<in> set xs \<union> set fs \<or> (\<exists>t. H t = Some m)"
    and "\<And>m. m \<in> set xs \<union> set fs \<Longrightarrow> m < max_msgs q"
  shows "blocks_inv q H xs fs"
  using assms unfolding blocks_inv_def by blast

lemma blocks_get:
  assumes "blocks_inv q H xs fs" and "H t = None" and "shape q' xs' fs'"
    and "set xs \<union> set fs = insert m (set xs' \<union> set fs')" and "m \<notin> set xs' \<union> set fs'" and "max_msgs q' = max_msgs q"
  shows "blocks_inv q' (H(t := Some m)) xs' fs'"
proof (rule blocks_invI [OF assms(3)])
  note D = blocks_invD [OF assms(1)]
  have m: "m \<in> set xs \<union> set fs" using assms(4) by blast
  then have no: "H u \<noteq> Some m" for u using D(3) by blast
  show "k < max_msgs q' \<and> k \<notin> set xs' \<union> set fs'" if "(H(t := Some m)) u = Some k" for u k
    using that D(2,3) [of u k] D(6) [OF m] assms(4-6) by (auto split: if_splits)
  show "u = v" if "(H(t := Some m)) u = Some k" "(H(t := Some m)) v = Some k" for u v k
    using that no D(4) by (auto split: if_splits)
  show "k \<in> set xs' \<union> set fs' \<or> (\<exists>u. (H(t := Some m)) u = Some k)" if lt: "k < max_msgs q'" for k
  proof (cases "k = m \<or> k \<in> set xs' \<union> set fs'")
    case False
    then have "k \<notin> set xs \<union> set fs" using assms(4) by blast
    then obtain u where "H u = Some k" using D(5) [of k] lt assms(6) by auto
    moreover have "u \<noteq> t" using calculation assms(2) by auto
    ultimately show ?thesis by (intro disjI2 exI [of _ u]) simp
  qed auto
  show "k < max_msgs q'" if "k \<in> set xs' \<union> set fs'" for k
    using that D(6) [of k] assms(4,6) by auto
qed

lemma blocks_alloc:
  assumes "blocks_inv q H xs fs" and "H t = None" and "mq_alloc q = Some (m, q')"
  shows "\<exists>fs'. fs = m # fs' \<and> blocks_inv q' (H(t := Some m)) xs fs'"
proof -
  note s = blocks_invD(1) [OF assms(1)]
  obtain fs' where f: "fs = m # fs'" "shape q' xs fs'" using shape_alloc [OF s assms(3)] by blast
  have "max_msgs q' = max_msgs q" using assms(3) by (auto simp: mq_alloc_def split: option.splits)
  moreover have "m \<notin> set xs \<union> set fs'" using s f(1) by (auto simp: shape_def)
  ultimately have "blocks_inv q' (H(t := Some m)) xs fs'"
    using blocks_get [OF assms(1,2) f(2), of m] f(1) by simp
  with f(1) show ?thesis by blast
qed

lemma blocks_put:
  assumes "blocks_inv q H xs fs" and "H t = Some m" and "shape q' xs' fs'"
    and "set xs' \<union> set fs' = insert m (set xs \<union> set fs)" and "max_msgs q' = max_msgs q"
  shows "blocks_inv q' (H(t := None)) xs' fs'"
proof (rule blocks_invI [OF assms(3)])
  note D = blocks_invD [OF assms(1)]
  show "k < max_msgs q' \<and> k \<notin> set xs' \<union> set fs'" if "(H(t := None)) u = Some k" for u k
  proof -
    have u: "u \<noteq> t" "H u = Some k" using that by (auto split: if_splits)
    then have "k \<noteq> m" using D(4) [of u k t] assms(2) by auto
    then show ?thesis using D(2,3) [OF u(2)] assms(4,5) by auto
  qed
  show "u = v" if "(H(t := None)) u = Some k" "(H(t := None)) v = Some k" for u v k
    using that D(4) by (auto split: if_splits)
  show "k \<in> set xs' \<union> set fs' \<or> (\<exists>u. (H(t := None)) u = Some k)" if lt: "k < max_msgs q'" for k
  proof (cases "k \<in> set xs' \<union> set fs'")
    case False
    then have "k \<noteq> m" "k \<notin> set xs \<union> set fs" using assms(4) by auto
    then obtain u where u: "H u = Some k" using D(5) [of k] lt assms(5) by auto
    then have "u \<noteq> t" using assms(2) \<open>k \<noteq> m\<close> by auto
    with u show ?thesis by (intro disjI2 exI [of _ u]) simp
  qed auto
  show "k < max_msgs q'" if "k \<in> set xs' \<union> set fs'" for k
    using that D(2) [OF assms(2)] D(6) [of k] assms(4,5) by auto
qed

lemma blocks_take:
  assumes "blocks_inv q H xs fs" and "H t = None" and "mq_take q = Some (m, q')"
  shows "\<exists>xs'. xs = m # xs' \<and> blocks_inv q' (H(t := Some m)) xs' fs \<and> body q' = body q \<and> next_msg q' = next_msg q"
proof -
  have s: "shape q xs fs" using assms(1) by (simp add: blocks_inv_def)
  have "xs \<noteq> []" using assms(3) s by (auto simp: mq_take_def shape_def)
  then obtain x xs' where x: "xs = x # xs'" by (cases xs) auto
  obtain q1 where q1: "mq_take q = Some (x, q1)" "shape q1 xs' fs" "next_msg q1 = next_msg q" "body q1 = body q"
    "msg_size q1 = msg_size q" "max_msgs q1 = max_msgs q" using shape_take s x by blast
  have "x \<notin> set xs' \<union> set fs" using s x by (auto simp: shape_def)
  then have "blocks_inv q1 (H(t := Some x)) xs' fs"
    using blocks_get [OF assms(1,2) q1(2), of x] q1(6) x by simp
  then show ?thesis using q1 assms(3) x by auto
qed

lemma held_upd: "(\<lambda>u. held (((pcs s)(t := p)) u)) = (held_by s)(t := held p)"
  by auto

text \<open>The specification: what each event does to the list of messages.\<close>

fun mq_effect :: "mq_event \<Rightarrow> byte list list \<Rightarrow> byte list list \<Rightarrow> bool" where
  "mq_effect (Enq m) ms ms' \<longleftrightarrow> ms' = ms @ [m]"
| "mq_effect (Push m) ms ms' \<longleftrightarrow> ms' = m # ms"
| "mq_effect (Deq m) ms ms' \<longleftrightarrow> ms = m # ms'"
| "mq_effect _ ms ms' \<longleftrightarrow> ms' = ms"

lemma section_fields [simp]:
  "max_msgs (mq_fill m b q) = max_msgs q" "max_msgs (mq_copy_in m b q) = max_msgs q"
  "max_msgs (mq_link m q) = max_msgs q" "max_msgs (mq_push m q) = max_msgs q"
  "body (mq_link m q) = body q" "body (mq_push m q) = body q"
  "body (mq_fill m b q) = (body q)(m := b @ drop (length b) (body q m))"
  "body (mq_copy_in m b q) = (body q)(m := b @ drop (length b) (body q m))"
  "next_msg (mq_copy_in m b q) = next_msg q" "next_msg (mq_fill m b q) = (next_msg q)(m := None)"
  by (auto simp: mq_link_def mq_push_def mq_fill_def mq_copy_in_def Let_def split: option.splits)

lemma at_pc_fields [simp]:
  "mq_obj (at_pc t p q s) = q" "pcs (at_pc t p q s) = (pcs s)(t := p)" "suspend_thread (at_pc t p q s) = suspend_thread s"
  by (simp_all add: at_pc_def)

lemma resume_fields [simp]: "mq_obj (rt_ipc_list_resume s) = mq_obj s"
  by (simp add: rt_ipc_list_resume_def split: list.splits)

lemma resume_held:
  "\<forall>w \<in> set (suspend_thread s). pcs s w = Waiting \<Longrightarrow> held_by (rt_ipc_list_resume s) = held_by s"
  by (auto simp: rt_ipc_list_resume_def fun_eq_iff split: list.splits)

lemma wake_inv_waits: "wake_inv s \<Longrightarrow> w \<in> set (suspend_thread s) \<Longrightarrow> pcs s w = Waiting"
  by (simp add: wake_inv_def)

lemma resume_held_at:
  assumes "wake_inv s" and "pcs s t \<noteq> Waiting"
  shows "held_by (rt_ipc_list_resume (at_pc t Idle q s)) = (held_by s)(t := None)"
proof -
  have "pcs (at_pc t Idle q s) w = Waiting" if "w \<in> set (suspend_thread s)" for w
    using wake_inv_waits [OF assms(1) that] assms(2) by auto
  then show ?thesis by (subst resume_held) (auto simp: held_upd)
qed

lemma blocks_same:
  assumes "blocks_inv q H xs fs" and "H t = Some m" and "shape q' xs fs" and "max_msgs q' = max_msgs q"
  shows "blocks_inv q' H xs fs"
  using assms unfolding blocks_inv_def by simp

lemma blocks_fill:
  assumes "blocks_inv q H xs fs" and "H t = Some m"
  shows "blocks_inv (mq_fill m b q) H xs fs" "blocks_inv (mq_copy_in m b q) H xs fs"
    "map (body (mq_fill m b q)) xs = map (body q) xs" "map (body (mq_copy_in m b q)) xs = map (body q) xs"
proof -
  have m: "m \<notin> set xs" "m \<notin> set fs" using blocks_invD(3) [OF assms] by auto
  note s = blocks_invD(1) [OF assms(1)]
  show "blocks_inv (mq_fill m b q) H xs fs"
    by (rule blocks_same [OF assms shape_fill(1) [OF s m]]) simp
  show "blocks_inv (mq_copy_in m b q) H xs fs"
    by (rule blocks_same [OF assms shape_fill(2) [OF s m]]) simp
  show "map (body (mq_fill m b q)) xs = map (body q) xs" "map (body (mq_copy_in m b q)) xs = map (body q) xs"
    using m(1) by auto
qed

lemma step_blocks:
  assumes "blocks_inv (mq_obj s) (held_by s) xs fs" and "local_inv s" and "wake_inv s" and "mq_step s t e s'"
  shows "\<exists>xs' fs'. blocks_inv (mq_obj s') (held_by s') xs' fs' \<and>
    mq_effect e (map (body (mq_obj s)) xs) (map (body (mq_obj s')) xs')"
  using assms(4)
proof cases
  case (send_alloc b m q)
  then have h: "held_by s t = None" by simp
  obtain fs' where "blocks_inv q ((held_by s)(t := Some m)) xs fs'"
    using blocks_alloc [OF assms(1) h send_alloc(5)] by blast
  moreover have "body q = body (mq_obj s)" using shape_alloc [OF blocks_invD(1) [OF assms(1)] send_alloc(5)] by blast
  ultimately show ?thesis using send_alloc
    by (intro exI [of _ xs] exI [of _ fs']) (simp add: held_upd del: fun_upd_apply)
next
  case (urgent_alloc b m q)
  then have h: "held_by s t = None" by simp
  obtain fs' where "blocks_inv q ((held_by s)(t := Some m)) xs fs'"
    using blocks_alloc [OF assms(1) h urgent_alloc(5)] by blast
  moreover have "body q = body (mq_obj s)" using shape_alloc [OF blocks_invD(1) [OF assms(1)] urgent_alloc(5)] by blast
  ultimately show ?thesis using urgent_alloc
    by (intro exI [of _ xs] exI [of _ fs']) (simp add: held_upd del: fun_upd_apply)
next
  case send_full
  then show ?thesis using assms(1) by auto
next
  case (send_fill m b)
  then have h: "held_by s t = Some m" by simp
  then have "held_by s' = held_by s" using send_fill by (auto simp: held_upd)
  then show ?thesis using blocks_fill [OF assms(1) h, of b] send_fill
    by (intro exI [of _ xs] exI [of _ fs]) simp
next
  case (urgent_fill m b)
  then have h: "held_by s t = Some m" by simp
  then have "held_by s' = held_by s" using urgent_fill by (auto simp: held_upd)
  then show ?thesis using blocks_fill [OF assms(1) h, of b] urgent_fill
    by (intro exI [of _ xs] exI [of _ fs]) simp
next
  case (send_link m b)
  then have h: "held_by s t = Some m" by simp
  have m: "m \<notin> set xs" "m \<notin> set fs" using blocks_invD(3) [OF assms(1) h] by auto
  have n: "next_msg (mq_obj s) m = None" using assms(2) send_link(3) unfolding local_inv_def by blast
  have sh: "shape (mq_link m (mq_obj s)) (xs @ [m]) fs"
    by (rule shape_link [OF blocks_invD(1) [OF assms(1)] m n])
  have "blocks_inv (mq_link m (mq_obj s)) ((held_by s)(t := None)) (xs @ [m]) fs"
    by (rule blocks_put [OF assms(1) h sh]) auto
  moreover have "held_by s' = (held_by s)(t := None)"
    unfolding send_link(2) by (rule resume_held_at [OF assms(3)]) (simp add: send_link(3))
  ultimately show ?thesis
    using send_link by (intro exI [of _ "xs @ [m]"] exI [of _ fs]) simp
next
  case (urgent_link m b)
  then have h: "held_by s t = Some m" by simp
  have m: "m \<notin> set xs" "m \<notin> set fs" using blocks_invD(3) [OF assms(1) h] by auto
  have sh: "shape (mq_push m (mq_obj s)) (m # xs) fs"
    by (rule shape_push [OF blocks_invD(1) [OF assms(1)] m])
  have "blocks_inv (mq_push m (mq_obj s)) ((held_by s)(t := None)) (m # xs) fs"
    by (rule blocks_put [OF assms(1) h sh]) auto
  moreover have "held_by s' = (held_by s)(t := None)"
    unfolding urgent_link(2) by (rule resume_held_at [OF assms(3)]) (simp add: urgent_link(3))
  ultimately show ?thesis
    using urgent_link by (intro exI [of _ "m # xs"] exI [of _ fs]) simp
next
  case (recv_take m q n)
  then have h: "held_by s t = None" by auto
  from blocks_take [OF assms(1) h recv_take(5)] obtain xs' where x: "xs = m # xs'"
    "blocks_inv q ((held_by s)(t := Some m)) xs' fs" "body q = body (mq_obj s)" by blast
  then show ?thesis
    using recv_take by (intro exI [of _ xs'] exI [of _ fs]) (simp add: held_upd del: fun_upd_apply)
next
  case (recv_suspend ws vs)
  then have "held_by s' = held_by s" by (auto simp: held_upd)
  then show ?thesis using assms(1) recv_suspend by auto
next
  case recv_none
  then have "held_by s' = held_by s" by (auto simp: held_upd)
  then show ?thesis using assms(1) recv_none by auto
next
  case recv_timeout
  then have "held_by s' = held_by s" by (auto simp: held_upd)
  then show ?thesis using assms(1) recv_timeout by auto
next
  case (recv_copy m n g)
  then have "held_by s' = held_by s" by (auto simp: held_upd)
  then show ?thesis using assms(1) recv_copy by auto
next
  case (recv_release m)
  then have h: "held_by s t = Some m" by simp
  have m: "m \<notin> set xs" "m \<notin> set fs" using blocks_invD(3) [OF assms(1) h] by auto
  have sh: "shape (mq_release m (mq_obj s)) xs (m # fs)"
    by (rule shape_release [OF blocks_invD(1) [OF assms(1)] m])
  have "blocks_inv (mq_release m (mq_obj s)) ((held_by s)(t := None)) xs (m # fs)"
    by (rule blocks_put [OF assms(1) h sh]) auto
  then show ?thesis
    using recv_release by (intro exI [of _ xs] exI [of _ "m # fs"]) (simp add: held_upd del: fun_upd_apply)
qed

text \<open>The block a thread holds is not touched by the steps of the others.\<close>

lemma link_frame: "shape q xs fs \<Longrightarrow> k \<notin> set xs \<Longrightarrow> next_msg (mq_link m q) k = next_msg q k"
  by (cases "xs = []") (auto simp: shape_def mq_link_def Let_def last_in_set)

lemma mq_section_frame:
  assumes "blocks_inv (mq_obj s) (held_by s) xs fs" and "wake_inv s" and "mq_step s t e s'" and "u \<noteq> t"
    and "held_by s u = Some k"
  shows "pcs s' u = pcs s u \<and> body (mq_obj s') k = body (mq_obj s) k \<and> next_msg (mq_obj s') k = next_msg (mq_obj s) k"
proof -
  note D = blocks_invD [OF assms(1)]
  have ne: "k \<noteq> m" if "held_by s t = Some m" for m using D(4) [OF assms(5)] that assms(4) by auto
  have k: "k \<notin> set xs" "k \<notin> set fs" using D(3) [OF assms(5)] by auto
  have w: "u \<notin> set (suspend_thread s)" using wake_inv_waits [OF assms(2)] assms(5) by force
  have r: "pcs (rt_ipc_list_resume (at_pc t p q s)) u = pcs s u" for p q
    using w assms(4) by (auto simp: rt_ipc_list_resume_def split: list.splits)
  show ?thesis
    using assms(3)
  proof cases
    case (send_alloc b m q)
    then show ?thesis using assms(4) shape_alloc [OF D(1) send_alloc(5)] by auto
  next
    case (urgent_alloc b m q)
    then show ?thesis using assms(4) shape_alloc [OF D(1) urgent_alloc(5)] by auto
  next
    case (send_link m b)
    then show ?thesis using r link_frame [OF D(1) k(1)] by simp
  next
    case (urgent_link m b)
    then show ?thesis using r ne [of m] by (simp add: mq_push_def Let_def)
  next
    case (recv_take m q n)
    then show ?thesis using assms(4) blocks_take [OF assms(1) _ recv_take(5), of t] by auto
  next
    case (recv_release m)
    then show ?thesis using assms(4) ne [of m] by (simp add: mq_release_def)
  qed (use assms(4) ne in auto)
qed

lemma local_invI:
  assumes "\<And>t m b. pcs s t = SFilled m b \<Longrightarrow> next_msg (mq_obj s) m = None \<and> take (length b) (body (mq_obj s) m) = b"
    and "\<And>t m b. pcs s t = UFilled m b \<Longrightarrow> take (length b) (body (mq_obj s) m) = b"
    and "\<And>t m n g. pcs s t = RTook m n g \<Longrightarrow> body (mq_obj s) m = g"
  shows "local_inv s"
  using assms unfolding local_inv_def by blast

lemma local_invD:
  assumes "local_inv s"
  shows "pcs s t = SFilled m b \<Longrightarrow> next_msg (mq_obj s) m = None" "pcs s t = SFilled m b \<Longrightarrow> take (length b) (body (mq_obj s) m) = b"
    "pcs s t = UFilled m b \<Longrightarrow> take (length b) (body (mq_obj s) m) = b" "pcs s t = RTook m n g \<Longrightarrow> body (mq_obj s) m = g"
  using assms unfolding local_inv_def by blast+

text \<open>A thread whose place holds a block is the one that moved, or it did not move at all.\<close>

lemma resume_pc: "pcs (rt_ipc_list_resume s) u = p \<Longrightarrow> p \<noteq> Resumed \<Longrightarrow> pcs s u = p"
  by (auto simp: rt_ipc_list_resume_def split: list.splits if_splits)

lemma step_pc_other:
  "mq_step s t e s' \<Longrightarrow> u \<noteq> t \<Longrightarrow> held_by s' u \<noteq> None \<Longrightarrow> pcs s u = pcs s' u"
  by (induction rule: mq_step.induct) (auto simp: rt_ipc_list_resume_def split: list.splits if_splits)

lemma step_pc_self:
  assumes "mq_step s t e s'" and "blocks_inv (mq_obj s) (held_by s) xs fs" and "wake_inv s"
  shows "pcs s' t = SFilled m b \<Longrightarrow> next_msg (mq_obj s') m = None \<and> take (length b) (body (mq_obj s') m) = b"
    and "pcs s' t = UFilled m b \<Longrightarrow> take (length b) (body (mq_obj s') m) = b"
    and "pcs s' t = RTook m n g \<Longrightarrow> body (mq_obj s') m = g"
proof -
  have r: "pcs (rt_ipc_list_resume (at_pc t Idle q s)) t \<noteq> SFilled m b"
    "pcs (rt_ipc_list_resume (at_pc t Idle q s)) t \<noteq> UFilled m b"
    "pcs (rt_ipc_list_resume (at_pc t Idle q s)) t \<noteq> RTook m n g" for q m b n g
    using resume_pc [of "at_pc t Idle q s" t] by fastforce+
  show "next_msg (mq_obj s') m = None \<and> take (length b) (body (mq_obj s') m) = b" if p: "pcs s' t = SFilled m b"
    using assms(1) p by cases (use r in auto)
  show "take (length b) (body (mq_obj s') m) = b" if p: "pcs s' t = UFilled m b"
    using assms(1) p by cases (use r in auto)
  show "body (mq_obj s') m = g" if p: "pcs s' t = RTook m n g"
    using assms(1)
  proof cases
    case (recv_take k q j)
    then show ?thesis using p blocks_take [OF assms(2) _ recv_take(5), of t] by auto
  qed (use p r in auto)
qed

lemma step_local:
  assumes "blocks_inv (mq_obj s) (held_by s) xs fs" and "wake_inv s" and "local_inv s" and "mq_step s t e s'"
  shows "local_inv s'"
proof (rule local_invI)
  note self = step_pc_self [OF assms(4,1,2)] and L = local_invD [OF assms(3)]
  have other: "pcs s u = pcs s' u \<and> body (mq_obj s') k = body (mq_obj s) k \<and> next_msg (mq_obj s') k = next_msg (mq_obj s) k"
    if "u \<noteq> t" "held_by s' u = Some k" for u k
    using step_pc_other [OF assms(4) that(1)] mq_section_frame [OF assms(1,2,4) that(1), of k] that(2) by auto
  show "next_msg (mq_obj s') m = None \<and> take (length b) (body (mq_obj s') m) = b" if "pcs s' u = SFilled m b" for u m b
    using that self(1) other [of u m] L(1,2) [of u m b] by (cases "u = t") auto
  show "take (length b) (body (mq_obj s') m) = b" if "pcs s' u = UFilled m b" for u m b
    using that self(2) other [of u m] L(3) [of u m b] by (cases "u = t") auto
  show "body (mq_obj s') m = g" if "pcs s' u = RTook m n g" for u m n g
    using that self(3) other [of u m] L(4) [of u m n g] by (cases "u = t") auto
qed

lemma wake_invI:
  assumes "\<And>t. pcs s t = Waiting \<longleftrightarrow> t \<in> set (suspend_thread s)" and "distinct (suspend_thread s)"
    and "finite {t. pcs s t = Resumed}" and "suspend_thread s \<noteq> [] \<Longrightarrow> entry (mq_obj s) \<le> card {t. pcs s t = Resumed}"
  shows "wake_inv s"
  using assms unfolding wake_inv_def by blast

lemma resumed_upd:
  "{u. ((pcs s)(t := p)) u = Resumed} = (if p = Resumed then insert t {u. pcs s u = Resumed} else {u. pcs s u = Resumed} - {t})"
  by auto

text \<open>A step that leaves the list of suspended threads alone and does not add a message keeps the wake-up invariant.\<close>

lemma wake_at:
  assumes "wake_inv s" and "pcs s t \<noteq> Waiting" and "p \<noteq> Waiting"
    and "entry q \<le> (if pcs s t = Resumed \<and> p \<noteq> Resumed then entry (mq_obj s) - 1 else entry (mq_obj s))"
  shows "wake_inv (at_pc t p q s)"
proof (rule wake_invI)
  show "pcs (at_pc t p q s) u = Waiting \<longleftrightarrow> u \<in> set (suspend_thread (at_pc t p q s))" for u
    using assms(1-3) by (auto simp: wake_inv_def)
  have f: "finite {u. pcs s u = Resumed}" using assms(1) by (simp add: wake_inv_def)
  then show "finite {u. pcs (at_pc t p q s) u = Resumed}" by (simp only: at_pc_fields resumed_upd) simp
  assume "suspend_thread (at_pc t p q s) \<noteq> []"
  then have "entry (mq_obj s) \<le> card {u. pcs s u = Resumed}" using assms(1) by (simp add: wake_inv_def)
  then show "entry (mq_obj (at_pc t p q s)) \<le> card {u. pcs (at_pc t p q s) u = Resumed}"
    using assms(4) f by (simp only: at_pc_fields resumed_upd) (auto simp: card_insert_if split: if_splits)
qed (use assms(1) in \<open>simp add: wake_inv_def\<close>)

lemma wake_resume:
  assumes "wake_inv s" and "pcs s t \<noteq> Waiting" and "pcs s t \<noteq> Resumed" and "entry q = entry (mq_obj s) + 1"
  shows "wake_inv (rt_ipc_list_resume (at_pc t Idle q s))"
proof (cases "suspend_thread s")
  case Nil
  then show ?thesis using assms
    by (auto simp: rt_ipc_list_resume_def wake_inv_def resumed_upd simp del: fun_upd_apply split: if_splits)
      (auto split: if_splits)
next
  case (Cons w ws)
  let ?R = "{u. pcs s u = Resumed}"
  have w: "pcs s w = Waiting" "w \<noteq> t" using wake_inv_waits [OF assms(1), of w] Cons assms(2) by auto
  have R: "{u. ((pcs s)(t := Idle, w := Resumed)) u = Resumed} = insert w ?R" using assms(3) w by auto
  have f: "finite ?R" "entry (mq_obj s) \<le> card ?R" "\<And>u. pcs s u = Waiting \<longleftrightarrow> u \<in> set (w # ws)" "distinct (w # ws)"
    using assms(1) unfolding wake_inv_def Cons by simp_all
  have "rt_ipc_list_resume (at_pc t Idle q s) =
      s\<lparr>mq_obj := q, suspend_thread := ws, pcs := (pcs s)(t := Idle, w := Resumed)\<rparr>"
    by (simp add: rt_ipc_list_resume_def at_pc_def Cons)
  moreover have "((pcs s)(t := Idle, w := Resumed)) u = Waiting \<longleftrightarrow> u \<in> set ws" for u
    using f(3) [of u] f(3) [of t] f(4) assms(2) by auto
  moreover have "entry q \<le> card (insert w ?R)" using f(1,2) w assms(4) by simp
  ultimately show ?thesis
    using f(1,4) by (intro wake_invI) (simp_all add: R del: fun_upd_apply)
qed

lemma section_entry:
  "entry (mq_fill m b q) = entry q" "entry (mq_copy_in m b q) = entry q" "entry (mq_release m q) = entry q"
  "entry (mq_link m q) = entry q + 1" "entry (mq_push m q) = entry q + 1"
  "mq_alloc q = Some (m, q') \<Longrightarrow> entry q' = entry q" "mq_take q = Some (m, q') \<Longrightarrow> entry q' = entry q - 1"
  by (auto simp: mq_link_def mq_push_def mq_fill_def mq_copy_in_def mq_release_def mq_alloc_def mq_take_def Let_def
    split: option.splits if_splits)

lemma step_wake:
  assumes "wake_inv s" and "mq_step s t e s'"
  shows "wake_inv s'"
  using assms(2)
proof cases
  case (recv_suspend ws vs)
  have f: "finite {u. pcs s u = Resumed}" "\<And>u. pcs s u = Waiting \<longleftrightarrow> u \<in> set (ws @ vs)" "distinct (ws @ vs)"
    using assms(1) unfolding wake_inv_def recv_suspend(5) by simp_all
  then have "t \<notin> set (ws @ vs)" using f(2) [of t] recv_suspend(3)
    by (elim disjE) simp_all
  note t = this
  have s': "mq_obj s' = mq_obj s" "pcs s' = (pcs s)(t := Waiting)" "suspend_thread s' = ws @ t # vs"
    using recv_suspend(2) by simp_all
  show ?thesis
  proof (rule wake_invI)
    show "pcs s' u = Waiting \<longleftrightarrow> u \<in> set (suspend_thread s')" for u
      using f(2) [of u] by (simp add: s')
    show "finite {u. pcs s' u = Resumed}" unfolding s' resumed_upd using f(1) by simp
  qed (use f(3) t recv_suspend(4) in \<open>auto simp: s'\<close>)
next
  case recv_timeout
  have s': "mq_obj s' = mq_obj s" "pcs s' = (pcs s)(t := Idle)" "suspend_thread s' = removeAll t (suspend_thread s)"
    using recv_timeout(2) by simp_all
  have f: "finite {u. pcs s u = Resumed}" "\<And>u. pcs s u = Waiting \<longleftrightarrow> u \<in> set (suspend_thread s)"
    "distinct (suspend_thread s)" "suspend_thread s \<noteq> [] \<Longrightarrow> entry (mq_obj s) \<le> card {u. pcs s u = Resumed}"
    using assms(1) unfolding wake_inv_def by simp_all
  have R: "{u. pcs s' u = Resumed} = {u. pcs s u = Resumed}" using recv_timeout(3) by (auto simp: s' split: if_splits)
  show ?thesis
  proof (rule wake_invI)
    show "pcs s' u = Waiting \<longleftrightarrow> u \<in> set (suspend_thread s')" for u
      using f(2) [of u] by (simp add: s')
    show "entry (mq_obj s') \<le> card {u. pcs s' u = Resumed}" if "suspend_thread s' \<noteq> []"
      unfolding R s'(1) by (rule f(4)) (use that in \<open>auto simp: s'(3)\<close>)
    show "finite {u. pcs s' u = Resumed}" unfolding R by (rule f(1))
  qed (use f(3) in \<open>simp add: s' distinct_removeAll\<close>)
next
  case (send_link m b)
  then show ?thesis using wake_resume [OF assms(1)] by (simp add: section_entry)
next
  case (urgent_link m b)
  then show ?thesis using wake_resume [OF assms(1)] by (simp add: section_entry)
qed (use assms(1) in \<open>auto intro!: wake_at simp: section_entry\<close>)

definition mq_inv :: "mq_sys \<Rightarrow> bool" where
  "mq_inv s \<longleftrightarrow> (\<exists>xs fs. blocks_inv (mq_obj s) (held_by s) xs fs) \<and> local_inv s \<and> wake_inv s"

lemma blocks_abs: "blocks_inv q H xs fs \<Longrightarrow> mq_abs q = map (body q) xs"
  by (simp add: mq_abs_def mq_blocks_shape [OF blocks_invD(1)])

lemma step_inv:
  assumes "mq_inv s" and "mq_step s t e s'"
  shows "mq_inv s' \<and> mq_effect e (mq_abs (mq_obj s)) (mq_abs (mq_obj s'))"
proof -
  obtain xs fs where b: "blocks_inv (mq_obj s) (held_by s) xs fs" and l: "local_inv s" and w: "wake_inv s"
    using assms(1) by (auto simp: mq_inv_def)
  obtain xs' fs' where b': "blocks_inv (mq_obj s') (held_by s') xs' fs'"
    and e: "mq_effect e (map (body (mq_obj s)) xs) (map (body (mq_obj s')) xs')"
    using step_blocks [OF b l w assms(2)] by blast
  show ?thesis
    using b' e step_local [OF b w l assms(2)] step_wake [OF w assms(2)] blocks_abs [OF b] blocks_abs [OF b']
    by (auto simp: mq_inv_def)
qed

lemma init_inv: "mq_inv \<lparr>mq_obj = rt_mq_create sz n pool, pcs = (\<lambda>_. Idle), suspend_thread = []\<rparr>"
proof -
  have "blocks_inv (rt_mq_create sz n pool) (\<lambda>_. None) [] (rev [0..<n])"
    using shape_create [of sz n pool] by (intro blocks_invI) auto
  then show ?thesis by (auto simp: mq_inv_def local_inv_def wake_inv_def)
qed

lemma reach_inv: "mq_reach sz n pool tr s \<Longrightarrow> mq_inv s"
  by (induction rule: mq_reach.induct) (auto simp: init_inv dest: step_inv)

lemma step_params: "mq_step s t e s' \<Longrightarrow> msg_size (mq_obj s') = msg_size (mq_obj s) \<and> max_msgs (mq_obj s') = max_msgs (mq_obj s)"
  by (induction rule: mq_step.induct)
    (auto simp: mq_alloc_def mq_take_def mq_fill_def mq_copy_in_def mq_link_def mq_push_def Let_def split: option.splits if_splits)

lemma reach_params: "mq_reach sz n pool tr s \<Longrightarrow> msg_size (mq_obj s) = (sz + 3) div 4 * 4 \<and> max_msgs (mq_obj s) = n"
  by (induction rule: mq_reach.induct) (use shape_create step_params in auto)

text \<open>The messages linked at the tail and those unlinked at the head, in the order of the events.\<close>

fun enqs :: "(nat \<times> mq_event) list \<Rightarrow> byte list list" where
  "enqs [] = []"
| "enqs ((t, Enq m) # tr) = m # enqs tr"
| "enqs (_ # tr) = enqs tr"

fun deqs :: "(nat \<times> mq_event) list \<Rightarrow> byte list list" where
  "deqs [] = []"
| "deqs ((t, Deq m) # tr) = m # deqs tr"
| "deqs (_ # tr) = deqs tr"

lemma enqs_append [simp]: "enqs (tr @ tr') = enqs tr @ enqs tr'"
  by (induction tr rule: enqs.induct) auto

lemma deqs_append [simp]: "deqs (tr @ tr') = deqs tr @ deqs tr'"
  by (induction tr rule: deqs.induct) auto

text \<open>C6: in every interleaving of senders and receivers that do not use \<open>rt_mq_urgent\<close>, the messages linked so far
  are the messages taken so far, in the same order, followed by the messages on the queue: no message is
  lost, duplicated, reordered or changed while it is queued.\<close>

theorem mq_interleaved_fifo:
  assumes "mq_reach sz n pool tr s" and "\<And>t m. (t, Push m) \<notin> set tr"
  shows "enqs tr = deqs tr @ mq_abs (mq_obj s)"
  using assms
proof (induction rule: mq_reach.induct)
  case init
  then show ?case using mq_blocks_shape [of _ "[]"] shape_create [of sz n pool] by (auto simp: mq_abs_def)
next
  case (step tr s t e s')
  have IH: "enqs tr = deqs tr @ mq_abs (mq_obj s)" by (rule step.IH) (use step.prems in auto)
  have "mq_effect e (mq_abs (mq_obj s)) (mq_abs (mq_obj s'))" using step_inv [OF reach_inv [OF step.hyps(1)] step.hyps(2)] by simp
  then show ?case using IH step.prems by (cases e) auto
qed

lemma reach_took:
  "mq_reach sz n pool tr s \<Longrightarrow> pcs s t = RTook k j g \<Longrightarrow> \<exists>tr1 tr2. tr = tr1 @ (t, Deq g) # tr2 \<and> t \<notin> fst ` set tr2"
proof (induction arbitrary: k j g rule: mq_reach.induct)
  case (step tr s u e s')
  show ?case
  proof (cases "u = t")
    case True
    have "e = Deq g" using step.hyps(2) step.prems unfolding True
      by cases (auto dest: resume_pc)
    then show ?thesis by (intro exI [of _ tr] exI [of _ "[]"]) (simp add: True)
  next
    case False
    then have "pcs s t = RTook k j g" using step_pc_other [OF step.hyps(2)] step.prems by simp
    then obtain tr1 tr2 where "tr = tr1 @ (t, Deq g) # tr2" "t \<notin> fst ` set tr2" using step.IH by blast
    then show ?thesis using False by (intro exI [of _ tr1] exI [of _ "tr2 @ [(u, e)]"]) auto
  qed
qed simp

text \<open>C33: what a receiver is given is the message it unlinked in its last step, cut to the smaller of the
  size \<open>j\<close> it asked for (which its state \<open>RTook\<close> records) and the queue's message size rounded up to
  a multiple of four, although other threads run between the two sections; and what a sender links
  starts with the bytes it was asked to send.\<close>

theorem mq_delivers:
  assumes "mq_reach sz n pool tr s" and "mq_step s t e s'"
  shows "(\<forall>d. e = Got d \<longrightarrow> (\<exists>k j m tr1 tr2. pcs s t = RTook k j m \<and> tr = tr1 @ (t, Deq m) # tr2 \<and>
        t \<notin> fst ` set tr2 \<and> d = take (min j ((sz + 3) div 4 * 4)) m)) \<and>
     (\<forall>m. e = Enq m \<longrightarrow> (\<exists>k b. pcs s t = SFilled k b \<and> take (length b) m = b)) \<and>
     (\<forall>m. e = Push m \<longrightarrow> (\<exists>k b. pcs s t = UFilled k b \<and> take (length b) m = b))"
proof (intro conjI allI impI)
  have l: "local_inv s" using reach_inv [OF assms(1)] by (simp add: mq_inv_def)
  fix d assume "e = Got d"
  with assms(2) obtain k j g where k: "pcs s t = RTook k j g" "d = mq_copy_out k j (mq_obj s)" by cases auto
  have "d = take (min j ((sz + 3) div 4 * 4)) g"
    using k(2) local_invD(4) [OF l k(1)] reach_params [OF assms(1)] by (simp add: mq_copy_out_def min_def)
  then show "\<exists>k j m tr1 tr2. pcs s t = RTook k j m \<and> tr = tr1 @ (t, Deq m) # tr2 \<and> t \<notin> fst ` set tr2 \<and>
      d = take (min j ((sz + 3) div 4 * 4)) m"
    using k(1) reach_took [OF assms(1) k(1)] by blast
next
  have l: "local_inv s" using reach_inv [OF assms(1)] by (simp add: mq_inv_def)
  show "\<exists>k b. pcs s t = SFilled k b \<and> take (length b) m = b" if "e = Enq m" for m
    using assms(2) that by cases (auto dest: local_invD(2) [OF l])
  show "\<exists>k b. pcs s t = UFilled k b \<and> take (length b) m = b" if "e = Push m" for m
    using assms(2) that by cases (auto dest: local_invD(3) [OF l])
qed

text \<open>C20: no wake-up is lost. Whenever threads are suspended on a queue that holds messages, at least as many
  threads have been resumed as there are messages, and each of them can take one.\<close>

theorem mq_no_lost_wakeup:
  assumes "mq_reach sz n pool tr s" and "suspend_thread s \<noteq> []"
  shows "length (mq_abs (mq_obj s)) \<le> card {t. pcs s t = Resumed} \<and>
    (mq_abs (mq_obj s) \<noteq> [] \<longrightarrow> (\<forall>t. pcs s t = Resumed \<longrightarrow> (\<exists>s'. mq_step s t (Deq (hd (mq_abs (mq_obj s)))) s')))"
proof -
  obtain xs fs where b: "blocks_inv (mq_obj s) (held_by s) xs fs" and w: "wake_inv s"
    using reach_inv [OF assms(1)] by (auto simp: mq_inv_def)
  have e: "entry (mq_obj s) = length xs" using blocks_invD(1) [OF b] by (simp add: shape_def)
  have "\<exists>s'. mq_step s t (Deq (hd (mq_abs (mq_obj s)))) s'" if t: "pcs s t = Resumed" and ne: "mq_abs (mq_obj s) \<noteq> []" for t
  proof -
    obtain x xs' where x: "xs = x # xs'" using ne blocks_abs [OF b] by (cases xs) auto
    obtain q where "mq_take (mq_obj s) = Some (x, q)" using shape_take blocks_invD(1) [OF b] x by blast
    then have "mq_step s t (Deq (body (mq_obj s) x)) (at_pc t (RTook x 0 (body (mq_obj s) x)) q s)"
      using t e x by (intro mq_step.recv_take) auto
    then show ?thesis using blocks_abs [OF b] x by auto
  qed
  then show ?thesis using w assms(2) e blocks_abs [OF b] by (auto simp: wake_inv_def)
qed

lemma blocks_count:
  assumes "blocks_inv q H xs fs"
  shows "finite {t. H t \<noteq> None}" "length xs + length fs + card {t. H t \<noteq> None} = max_msgs q"
proof -
  note D = blocks_invD [OF assms]
  let ?T = "{t. H t \<noteq> None}" and ?B = "{m. \<exists>t. H t = Some m}"
  have inj: "inj_on (\<lambda>t. the (H t)) ?T" using D(4) by (auto simp: inj_on_def)
  have img: "(\<lambda>t. the (H t)) ` ?T = ?B" by (force simp: image_iff)
  have "x \<in> set (xs @ fs) \<union> ?B \<longleftrightarrow> x < max_msgs q" for x
    using D(5,6) [of x] D(2) by auto
  then have B: "set (xs @ fs) \<union> ?B = {0..<max_msgs q}"
    by (intro set_eqI) (simp only: atLeastLessThan_iff le0 simp_thms)
  have N: "set (xs @ fs) \<inter> ?B = {}" using D(3) by auto
  have fin: "finite ?B" using B by (metis finite_Un finite_atLeastLessThan)
  then show "finite ?T" using finite_imageD [OF _ inj] img by simp
  have "card (set (xs @ fs)) = length xs + length fs" using D(1) distinct_card [of "xs @ fs"] by (simp add: shape_def)
  moreover have "card ?B = card ?T" using card_image [OF inj] img by simp
  moreover have "card (set (xs @ fs) \<union> ?B) = card (set (xs @ fs)) + card ?B"
    by (rule card_Un_disjoint) (use N fin in auto)
  ultimately show "length xs + length fs + card ?T = max_msgs q" using B by simp
qed

text \<open>C34: a block of the pool is never lost: the messages on the queue, the blocks the threads hold and the free
  blocks are always as many as the queue was created with, so that a sender is only refused while every
  block carries a message or is being filled or copied out.\<close>

theorem mq_full_only_when_full:
  assumes "mq_reach sz n pool tr s" and "mq_step s t Full s'"
  shows "length (mq_abs (mq_obj s)) + card {t. held (pcs s t) \<noteq> None} = n"
proof -
  obtain xs fs where b: "blocks_inv (mq_obj s) (held_by s) xs fs"
    using reach_inv [OF assms(1)] by (auto simp: mq_inv_def)
  have "mq_alloc (mq_obj s) = None" using assms(2) by cases
  then have "fs = []" using shape_full [OF blocks_invD(1) [OF b]] by simp
  then show ?thesis using blocks_count(2) [OF b] reach_params [OF assms(1)] blocks_abs [OF b] by simp
qed

lemma release_all_blocks:
  assumes "blocks_inv q H xs fs"
  shows "blocks_inv ((mq_release_all (max_msgs q) q)\<lparr>entry := 0\<rparr>) H [] (rev xs @ fs) \<and>
    msg_queue_head (mq_release_all (max_msgs q) q) = None \<and> body (mq_release_all (max_msgs q) q) = body q"
proof -
  note D = blocks_invD [OF assms]
  have "q\<lparr>entry := length xs\<rparr> = q" using D(1) by (simp add: shape_def)
  moreover have "length xs \<le> max_msgs q" using blocks_count(2) [OF assms] by linarith
  ultimately have r: "shape ((mq_release_all (max_msgs q) q)\<lparr>entry := 0\<rparr>) [] (rev xs @ fs)"
    "msg_queue_head (mq_release_all (max_msgs q) q) = None" "body (mq_release_all (max_msgs q) q) = body q"
    "max_msgs (mq_release_all (max_msgs q) q) = max_msgs q"
    using release_all_shape [where q = q and xs = xs and fs = fs and k = "max_msgs q"] D(1) by simp_all
  have "blocks_inv ((mq_release_all (max_msgs q) q)\<lparr>entry := 0\<rparr>) H [] (rev xs @ fs)"
    using assms r(1,4) unfolding blocks_inv_def by simp
  with r show ?thesis by blast
qed

text \<open>C35: a reset of a queue in any reachable state ends and empties it: no message and no waiting thread is left,
  the blocks other threads hold stay theirs, all other blocks are free, and the queue keeps working as before.\<close>

theorem rt_mq_control_resets:
  assumes "mq_reach sz n pool tr s" and "rt_mq_control True s = (e, s')"
  shows "e = RT_EOK \<and> mq_abs (mq_obj s') = [] \<and> msg_queue_head (mq_obj s') = None \<and> suspend_thread s' = [] \<and>
    (\<exists>fs. blocks_inv (mq_obj s') (held_by s) [] fs) \<and> wake_inv s'"
proof -
  obtain xs fs where b: "blocks_inv (mq_obj s) (held_by s) xs fs" and w: "wake_inv s"
    using reach_inv [OF assms(1)] by (auto simp: mq_inv_def)
  note r = release_all_blocks [OF b]
  have s': "s' = s\<lparr>mq_obj := (mq_release_all (max_msgs (mq_obj s)) (mq_obj s))\<lparr>entry := 0\<rparr>,
      pcs := (\<lambda>t. if t \<in> set (suspend_thread s) then Idle else pcs s t), suspend_thread := []\<rparr>" "e = RT_EOK"
    using assms(2) by (auto simp: rt_mq_control_def rt_ipc_list_resume_all_def Let_def)
  have "finite {t. pcs s t = Resumed}" "\<And>t. pcs s t = Waiting \<longleftrightarrow> t \<in> set (suspend_thread s)"
    using w by (simp_all add: wake_inv_def)
  then have "wake_inv s'" by (intro wake_invI) (auto simp: s' elim: finite_subset [rotated])
  then show ?thesis using r blocks_abs [of "mq_obj s'" "held_by s" "[]"] by (auto simp: s')
qed

section \<open>A run\<close>

text \<open>Two threads wait on a queue with one block; a third one sends a message; the first takes and copies it.\<close>

definition demo_q :: rt_messagequeue where
  "demo_q = rt_mq_create 4 1 (\<lambda>_. [0, 0, 0, 0])"

definition demo_pcs :: "nat \<Rightarrow> nat \<Rightarrow> mq_pc" where
  "demo_pcs k = [\<lambda>_. Idle, (\<lambda>_. Idle)(1 := Waiting), (\<lambda>_. Idle)(1 := Waiting, 2 := Waiting),
     (\<lambda>_. Idle)(1 := Waiting, 2 := Waiting, 0 := SAlloc 0 [7, 8]),
     (\<lambda>_. Idle)(1 := Waiting, 2 := Waiting, 0 := SFilled 0 [7, 8]),
     (\<lambda>_. Idle)(2 := Waiting, 0 := Idle, 1 := Resumed),
     (\<lambda>_. Idle)(2 := Waiting, 0 := Idle, 1 := RTook 0 3 [7, 8, 0, 0]),
     (\<lambda>_. Idle)(2 := Waiting, 0 := Idle, 1 := RCopied 0)] ! k"

definition demo_obj :: "nat \<Rightarrow> rt_messagequeue" where
  "demo_obj k = (let e = demo_q\<lparr>msg_queue_free := None\<rparr>; f = mq_fill 0 [7, 8] e
     in [demo_q, demo_q, demo_q, e, f, mq_link 0 f, f, f] ! k)"

definition demo_s :: "nat \<Rightarrow> mq_sys" where
  "demo_s k = \<lparr>mq_obj = demo_obj k, pcs = demo_pcs k, suspend_thread = [[], [1], [1, 2], [1, 2], [1, 2], [2], [2], [2]] ! k\<rparr>"

definition demo_tr :: "(nat \<times> mq_event) list" where
  "demo_tr = [(1, Tau), (2, Tau), (0, Tau), (0, Tau), (0, Enq [7, 8, 0, 0]), (1, Deq [7, 8, 0, 0]), (1, Got [7, 8, 0])]"

lemmas demo_eval = demo_s_def demo_pcs_def demo_obj_def demo_tr_def demo_q_def rt_mq_create_def mq_release_def at_pc_def mq_alloc_def mq_fill_def
  mq_copy_in_def mq_link_def mq_take_def mq_copy_out_def rt_ipc_list_resume_def Let_def

lemma demo_step:
  "mq_step (demo_s 0) 1 Tau (demo_s 1)" "mq_step (demo_s 1) 2 Tau (demo_s 2)" "mq_step (demo_s 2) 0 Tau (demo_s 3)"
  "mq_step (demo_s 3) 0 Tau (demo_s 4)" "mq_step (demo_s 4) 0 (Enq [7, 8, 0, 0]) (demo_s 5)"
  "mq_step (demo_s 5) 1 (Deq [7, 8, 0, 0]) (demo_s 6)" "mq_step (demo_s 6) 1 (Got [7, 8, 0]) (demo_s 7)"
  "mq_step (demo_s 3) 3 Full (demo_s 3)"
  subgoal using mq_step.recv_suspend [of "demo_s 0" 1 "[]" "[]"] by (simp add: demo_eval)
  subgoal using mq_step.recv_suspend [of "demo_s 1" 2 "[1]" "[]"] by (simp add: demo_eval)
  subgoal using mq_step.send_alloc [of "demo_s 2" 0 "[7, 8]" 0] by (simp add: demo_eval)
  subgoal using mq_step.send_fill [of "demo_s 3" 0 0 "[7, 8]"] by (simp add: demo_eval)
  subgoal using mq_step.send_link [of "demo_s 4" 0 0 "[7, 8]"] by (simp add: demo_eval)
  subgoal using mq_step.recv_take [of "demo_s 5" 1 0 "mq_obj (demo_s 6)" 3] by (simp add: demo_eval)
  subgoal using mq_step.recv_copy [of "demo_s 6" 1 0 3 "[7, 8, 0, 0]"] by (simp add: demo_eval)
  subgoal using mq_step.send_full [of "demo_s 3" 3] by (simp add: demo_eval)
  done

lemma demo_reach:
  "mq_reach 4 1 (\<lambda>_. [0, 0, 0, 0]) (take 3 demo_tr) (demo_s 3)" "mq_reach 4 1 (\<lambda>_. [0, 0, 0, 0]) (take 5 demo_tr) (demo_s 5)"
  "mq_reach 4 1 (\<lambda>_. [0, 0, 0, 0]) (take 6 demo_tr) (demo_s 6)"
proof -
  have "mq_reach 4 1 (\<lambda>_. [0, 0, 0, 0]) [] (demo_s 0)"
    using mq_reach.init [of 4 1 "\<lambda>_. [0, 0, 0, 0]"] by (simp add: demo_s_def demo_obj_def demo_pcs_def Let_def demo_q_def)
  from mq_reach.step [OF mq_reach.step [OF mq_reach.step [OF this demo_step(1)] demo_step(2)] demo_step(3)]
  show *: "mq_reach 4 1 (\<lambda>_. [0, 0, 0, 0]) (take 3 demo_tr) (demo_s 3)" by (simp add: demo_tr_def)
  from mq_reach.step [OF mq_reach.step [OF this demo_step(4)] demo_step(5)]
  show *: "mq_reach 4 1 (\<lambda>_. [0, 0, 0, 0]) (take 5 demo_tr) (demo_s 5)" by (simp add: demo_tr_def)
  from mq_reach.step [OF this demo_step(6)]
  show "mq_reach 4 1 (\<lambda>_. [0, 0, 0, 0]) (take 6 demo_tr) (demo_s 6)" by (simp add: demo_tr_def)
qed

theorem mq_interleaved_fifo_witness:
  "enqs (take 5 demo_tr) = deqs (take 5 demo_tr) @ mq_abs (mq_obj (demo_s 5)) \<and> enqs (take 5 demo_tr) = [[7, 8, 0, 0]]"
  using mq_interleaved_fifo [OF demo_reach(2)] by (auto simp: demo_tr_def)

theorem mq_delivers_witness:
  "\<exists>tr1 tr2. take 6 demo_tr = tr1 @ (1, Deq [7, 8, 0, 0]) # tr2 \<and> 1 \<notin> fst ` set tr2 \<and> [7, 8, 0] = take (min 3 4) [7, 8, 0, 0 :: byte]"
proof -
  have "\<exists>k j m tr1 tr2. pcs (demo_s 6) 1 = RTook k j m \<and> take 6 demo_tr = tr1 @ (1, Deq m) # tr2 \<and>
      1 \<notin> fst ` set tr2 \<and> [7, 8, 0] = take (min j 4) m"
    using mq_delivers [OF demo_reach(3) demo_step(7)] by simp
  then show ?thesis by (simp add: demo_eval)
qed

theorem mq_no_lost_wakeup_witness:
  "pcs (demo_s 5) 1 = Resumed \<and> pcs (demo_s 5) 2 = Waiting \<and>
   (\<exists>s'. mq_step (demo_s 5) 1 (Deq (hd (mq_abs (mq_obj (demo_s 5))))) s')"
proof -
  have s: "suspend_thread (demo_s 5) \<noteq> []" "mq_abs (mq_obj (demo_s 5)) \<noteq> []" "pcs (demo_s 5) 1 = Resumed" "pcs (demo_s 5) 2 = Waiting"
    by (simp_all add: demo_eval mq_abs_def mq_blocks_def)
  then show ?thesis using mq_no_lost_wakeup [OF demo_reach(2) s(1)] by blast
qed

theorem mq_full_only_when_full_witness:
  "length (mq_abs (mq_obj (demo_s 3))) + card {t. held (pcs (demo_s 3) t) \<noteq> None} = 1"
  by (rule mq_full_only_when_full [OF demo_reach(1) demo_step(8)])

theorem rt_mq_control_resets_witness:
  "mq_abs (mq_obj (demo_s 5)) = [[7, 8, 0, 0]] \<and> mq_abs (mq_obj (snd (rt_mq_control True (demo_s 5)))) = []"
proof
  show "mq_abs (mq_obj (demo_s 5)) = [[7, 8, 0, 0]]" by (simp add: mq_abs_def mq_blocks_def demo_eval)
  show "mq_abs (mq_obj (snd (rt_mq_control True (demo_s 5)))) = []"
    using rt_mq_control_resets [OF demo_reach(2) surjective_pairing] by blast
qed

end
