(* ===== verification/App_Base.thy ===== *)
theory App_Base
  imports File_Transfer Msg_Queue
begin

text \<open>
  What the application threads share: the messages they send each other (\<open>user_ipc.h\<close>,
  \<open>thread_lora.h\<close>, \<open>thread_led.h\<close>, \<open>thread_sysctrl.h\<close>), the bounded queues that carry them, the
  LoRa packet, the socket output, and the small functions several threads call (\<open>set_led\<close>,
  \<open>threads_feed_dog\<close>, \<open>get_tx_freq\<close>, the datarate codes). A message is a value of a datatype with the
  names of the message types as constructors; the queue object of \<open>Msg_Queue\<close> and the bounded list used
  here satisfy the same interface \<open>msg_fifo\<close>.
\<close>

section \<open>Messages\<close>

record rt_lora_pkt =
  p_freq_hz :: u32
  p_rssi :: u16
  p_snr :: byte
  p_datarate :: byte
  p_len :: byte
  p_payload :: "byte list"

datatype stu_lora_msg =
    MSG_LORA_RECV_DATA rt_lora_pkt
  | MSG_LORA_SEND_DATA rt_lora_pkt
  | MSG_ANALIZE_LIGHT_STATE
  | MSG_CHECK_DEVICE_CONNECT
  | MSG_LORA_SEND_TEST
  | MSG_LORA_RECV_TEST int
  | MSG_LORA_CONFIG_NODE_BY_RANGE int "byte list"
  | MSG_LORA_CONFIG_NODE_BY_ID int "byte list"
  | MSG_LORA_INIT_NODE int "byte list"
  | MSG_LORA_SEND_FEED_DOG
  | MSG_DATA_PROC_FEED_DOG

datatype led_state = OFF | ON

datatype stu_led_msg = MSG_LED_REFRESH | MSG_LED_SET_LED led_state byte byte | MSG_LED_TEST

datatype stu_sysctrl_msg = MSG_SYS_1_SEC | MSG_SYS_USER_REBOOT | MSG_SYS_UDP_CONFIRM

datatype threads_soft_dog = LORA_RECV_DOG | LORA_SEND_DOG | DATA_PROC_DOG | UDP_CLINT_DOG

datatype work_mode = MODE_NORMAL | MODE_RECV_TEST | MODE_CONFIG_NODE_BY_RANGE | MODE_CONFIG_NODE_BY_ID | MODE_INIT_NODE

record lora_mode =
  m_fd :: int
  m_pack_sn :: byte
  m_mode :: work_mode

section \<open>Queues\<close>

text \<open>All queues of the application have ten entries; a full queue refuses the message, and no sender looks at
  the result.\<close>

abbreviation (input) RT_MQ_NUM :: nat where "RT_MQ_NUM \<equiv> 10"

definition mq_put :: "'m \<Rightarrow> 'm list \<Rightarrow> 'm list" where
  "mq_put m q = (if length q < RT_MQ_NUM then q @ [m] else q)"

definition list_send :: "'m \<Rightarrow> 'm list \<Rightarrow> int \<times> 'm list" where
  "list_send m q = (if length q < RT_MQ_NUM then RT_EOK else - RT_EFULL, mq_put m q)"

definition list_recv :: "'m \<Rightarrow> 'm list \<Rightarrow> int \<times> 'm \<times> 'm list" where
  "list_recv old q = (case q of [] \<Rightarrow> (- RT_ETIMEOUT, old, []) | m # ms \<Rightarrow> (RT_EOK, m, ms))"

interpretation list_mq: msg_fifo list_send "list_recv old" "\<lambda>q. q" "\<lambda>q. length q \<le> RT_MQ_NUM" "\<lambda>_. RT_MQ_NUM" "\<lambda>_ _. True"
  by unfold_locales (auto simp: list_send_def list_recv_def mq_put_def)

lemma mq_put_length: "length q \<le> RT_MQ_NUM \<Longrightarrow> length (mq_put m q) \<le> RT_MQ_NUM"
  by (simp add: mq_put_def)

lemma set_mq_put: "set (mq_put m q) \<subseteq> insert m (set q)"
  by (auto simp: mq_put_def)

section \<open>The state of the application threads\<close>

text \<open>\<open>tcp_out\<close> is the sequence of \<open>send\<close> calls on sockets; \<open>stack_pkt\<close> is what an uninitialised packet on the
  stack holds; \<open>light_index\<close> is the static variable of \<open>analyse_light_state\<close>.\<close>

record app_st = ft_st +
  mq_lora_send :: "stu_lora_msg list"
  mq_data_proc :: "stu_lora_msg list"
  mq_led :: "stu_led_msg list"
  mq_sys_ctrl :: "stu_sysctrl_msg list"
  thread_soft_dogs :: "byte list"
  base_freq :: u32
  base_powr :: byte
  working_mode :: lora_mode
  lora_tcp_buf :: "byte list"
  light_index :: nat
  tcp_out :: "(int \<times> byte list) list"
  stack_pkt :: rt_lora_pkt

definition send_lora :: "stu_lora_msg \<Rightarrow> 'a app_st_scheme \<Rightarrow> 'a app_st_scheme" where
  "send_lora m s = s\<lparr>mq_lora_send := mq_put m (mq_lora_send s)\<rparr>"

definition send_data_proc :: "stu_lora_msg \<Rightarrow> 'a app_st_scheme \<Rightarrow> 'a app_st_scheme" where
  "send_data_proc m s = s\<lparr>mq_data_proc := mq_put m (mq_data_proc s)\<rparr>"

definition send_sys_ctrl :: "stu_sysctrl_msg \<Rightarrow> 'a app_st_scheme \<Rightarrow> 'a app_st_scheme" where
  "send_sys_ctrl m s = s\<lparr>mq_sys_ctrl := mq_put m (mq_sys_ctrl s)\<rparr>"

definition set_led :: "led_state \<Rightarrow> byte \<Rightarrow> byte \<Rightarrow> 'a app_st_scheme \<Rightarrow> 'a app_st_scheme" where
  "set_led state row column s =
     (if row > 7 \<or> column > 7 then s
      else s\<lparr>mq_led := mq_put (MSG_LED_SET_LED state row column) (mq_led s)\<rparr>)"

fun dog_index :: "threads_soft_dog \<Rightarrow> nat" where
  "dog_index LORA_RECV_DOG = 0"
| "dog_index LORA_SEND_DOG = 1"
| "dog_index DATA_PROC_DOG = 2"
| "dog_index UDP_CLINT_DOG = 3"

definition threads_feed_dog :: "threads_soft_dog \<Rightarrow> 'a app_st_scheme \<Rightarrow> 'a app_st_scheme" where
  "threads_feed_dog d s =
     s\<lparr>thread_soft_dogs := (thread_soft_dogs s)[dog_index d := thread_soft_dogs s ! dog_index d + 1]\<rparr>"

definition get_tx_freq :: "'a app_st_scheme \<Rightarrow> u32" where
  "get_tx_freq s = base_freq s + 1800000"

definition get_tx_power :: "'a app_st_scheme \<Rightarrow> byte" where
  "get_tx_power s = base_powr s"

text \<open>The datarate codes of the radio library are bit masks.\<close>

abbreviation (input) DR_LORA_SF7 :: byte where "DR_LORA_SF7 \<equiv> 0x02"
abbreviation (input) DR_LORA_SF8 :: byte where "DR_LORA_SF8 \<equiv> 0x04"
abbreviation (input) DR_LORA_SF9 :: byte where "DR_LORA_SF9 \<equiv> 0x08"
abbreviation (input) DR_LORA_SF10 :: byte where "DR_LORA_SF10 \<equiv> 0x10"

definition lora_get_datarate :: "byte \<Rightarrow> byte" where
  "lora_get_datarate dr =
     (if dr = DR_LORA_SF7 then 7 else if dr = DR_LORA_SF8 then 8 else if dr = DR_LORA_SF9 then 9
      else if dr = DR_LORA_SF10 then 10 else 0)"

definition lora_set_datarate :: "byte \<Rightarrow> byte" where
  "lora_set_datarate dr =
     (if dr = 7 then DR_LORA_SF7 else if dr = 8 then DR_LORA_SF8 else if dr = 9 then DR_LORA_SF9
      else if dr = 10 then DR_LORA_SF10 else 0)"

lemma datarate_inverse: "lora_get_datarate (lora_set_datarate d) = (if d \<in> {7, 8, 9, 10} then d else 0)"
  by (simp add: lora_get_datarate_def lora_set_datarate_def)

section \<open>The system log, formatted lines\<close>

definition log_fmt :: "nat \<Rightarrow> string \<Rightarrow> fmt_arg list \<Rightarrow> 'a sys_st_scheme \<Rightarrow> 'a sys_st_scheme" where
  "log_fmt n fmt args s = add_log (fst (rt_snprintf n fmt args)) s"

lemma add_log_only:
  "add_log d s = s\<lparr>flash := flash (add_log d s), log_infos := log_infos (add_log d s)\<rparr>"
  unfolding add_log_write by (rule log_write_only)

lemma log_fmt_only:
  "log_fmt n fmt args s = s\<lparr>flash := flash (log_fmt n fmt args s), log_infos := log_infos (log_fmt n fmt args s)\<rparr>"
  unfolding log_fmt_def by (rule add_log_only)

end
