(* ===== verification/Data_Process.thy ===== *)
theory Data_Process
  imports App_Base
begin

text \<open>
  The data process thread, \<open>user_thread/thread_lora/thread_data_process.c\<close>: the checksum of the LoRa
  packets, the bookkeeping of detectors and lights, the choice of the light colours, the detection of
  lost nodes, and the special modes in which nodes are configured on behalf of a connected computer.
  \<open>thread_data_process\<close> handles one message; it has no result where the code does not return.
\<close>

section \<open>Checksum\<close>

definition crc_bit :: "u16 \<Rightarrow> u16" where
  "crc_bit c = (if c AND 0x0001 \<noteq> 0 then drop_bit 1 c XOR 0xa001 else drop_bit 1 c)"

definition crc_byte :: "byte \<Rightarrow> u16 \<Rightarrow> u16" where
  "crc_byte b c = (crc_bit ^^ 8) (c XOR ucast b)"

definition crc_calculate :: "byte list \<Rightarrow> u16" where
  "crc_calculate data = fold crc_byte data 0xFFFF"

section \<open>Access to the lists\<close>

abbreviation det :: "'a db_st_scheme \<Rightarrow> nat \<Rightarrow> single_detector_info" where
  "det s i \<equiv> detector_info (g_detector_info_list s) ! i"

abbreviation light :: "'a db_st_scheme \<Rightarrow> nat \<Rightarrow> single_light_info" where
  "light s i \<equiv> light_info (g_light_info_list s) ! i"

definition upd_det :: "nat \<Rightarrow> (single_detector_info \<Rightarrow> single_detector_info) \<Rightarrow> 'a db_st_scheme \<Rightarrow> 'a db_st_scheme" where
  "upd_det i f s = s\<lparr>g_detector_info_list := (g_detector_info_list s)
     \<lparr>detector_info := (detector_info (g_detector_info_list s))[i := f (det s i)]\<rparr>\<rparr>"

definition upd_light :: "nat \<Rightarrow> (single_light_info \<Rightarrow> single_light_info) \<Rightarrow> 'a db_st_scheme \<Rightarrow> 'a db_st_scheme" where
  "upd_light i f s = s\<lparr>g_light_info_list := (g_light_info_list s)
     \<lparr>light_info := (light_info (g_light_info_list s))[i := f (light s i)]\<rparr>\<rparr>"

text \<open>The loops that look for a node and stop at the first match.\<close>

definition find_detector :: "u32 \<Rightarrow> 'a db_st_scheme \<Rightarrow> nat option" where
  "find_detector i s = find (\<lambda>k. d_id (det s k) = i) [0..<d_num (g_detector_info_list s)]"

section \<open>Adaptive data rate\<close>

text \<open>C division truncates towards zero; a divisor 0 gives 0 on this processor.\<close>

definition cdiv :: "int \<Rightarrow> int \<Rightarrow> int" where
  "cdiv a b = sgn a * (\<bar>a\<bar> div b)"

definition ring_put :: "rt_lora_pkt \<Rightarrow> single_detector_info \<Rightarrow> single_detector_info" where
  "ring_put rx d =
     (let p = unat (d_c_ptr d); d1 = d\<lparr>d_c_rssi := (d_c_rssi d)[p := p_rssi rx], d_c_snr := (d_c_snr d)[p := p_snr rx],
        d_c_ptr := d_c_ptr d + 1\<rparr>
      in (if d_c_ptr d1 \<ge> of_nat MAX_AVG_NUM then d1\<lparr>d_c_ptr := 0\<rparr> else d1)\<lparr>d_current_dr := p_datarate rx\<rparr>)"

text \<open>The sum of the signal-to-noise ratios is kept in an \<open>rt_int8_t\<close>.\<close>

definition avg_rssi_of :: "nat \<Rightarrow> single_detector_info \<Rightarrow> int" where
  "avg_rssi_of num d = cdiv (sum_list (map sint (take num (d_c_rssi d)))) (int num)"

definition avg_snr_of :: "nat \<Rightarrow> single_detector_info \<Rightarrow> byte" where
  "avg_snr_of num d = of_int (cdiv (sint (sum_list (take num (d_c_snr d)))) (int num))"

definition adr_decide :: "rt_lora_pkt \<Rightarrow> int \<Rightarrow> int \<Rightarrow> byte" where
  "adr_decide rx avg_rssi avg_snr =
     (let good = (\<lambda>r n. sint (p_rssi rx) > r \<and> sint (p_snr rx) > n \<and> avg_rssi > r \<and> avg_snr > n)
      in if p_datarate rx = 8 then of_bool (good (-90) 5)
         else if p_datarate rx = 9 then of_bool (good (-100) 0)
         else if p_datarate rx = 10 then of_bool (good (-125) (-5))
         else 0)"

definition adr_control :: "rt_lora_pkt \<Rightarrow> nat \<Rightarrow> 'a db_st_scheme \<Rightarrow> byte \<times> 'a db_st_scheme" where
  "adr_control rx index s =
     (let num = min MAX_AVG_NUM (unat (d_recv_num (det s index) + 1));
          d = ring_put rx (det s index);
          rssi = avg_rssi_of num d; snr = avg_snr_of num d
      in (adr_decide rx rssi (sint snr),
          upd_det index (\<lambda>_. d\<lparr>d_c_avg_rssi := of_int rssi, d_c_avg_snr := snr\<rparr>) s))"

section \<open>Refreshing the lists\<close>

text \<open>The counters of one detector; the log lines are written by \<open>refresh_detector_info\<close> below.\<close>

definition missed :: "byte \<Rightarrow> byte \<Rightarrow> nat option" where
  "missed cnt old =
     (if cnt < old \<and> unat cnt + 256 > unat old + 1 then Some (unat cnt + 256 - unat old - 1)
      else if unat cnt > unat old + 1 then Some (unat cnt - unat old - 1) else None)"

definition count_packet :: "byte \<Rightarrow> single_detector_info \<Rightarrow> single_detector_info" where
  "count_packet cnt d =
     (if d_recv_pack_flag d = 0
      then d\<lparr>d_recv_pack_flag := 1, d_first_cnt := ucast cnt - 1, d_abs_recv_num := d_abs_recv_num d + 1\<rparr>
      else
        (let d1 = (case missed cnt (d_cnt d) of None \<Rightarrow> d | Some k \<Rightarrow> d\<lparr>d_miss_recv_num := d_miss_recv_num d + of_nat k\<rparr>);
             d2 = (if cnt = d_cnt d1 then d1\<lparr>d_miss_send_num := d_miss_send_num d1 + 1\<rparr>
                   else d1\<lparr>d_abs_recv_num := d_abs_recv_num d1 + 1\<rparr>)
         in if cnt < d_cnt d2 then d2\<lparr>d_rounds := d_rounds d2 + 1\<rparr> else d2))"

definition set_state :: "single_detector_info \<Rightarrow> single_detector_info \<Rightarrow> single_detector_info" where
  "set_state n d =
     (let d1 = (if d_state n \<noteq> d_state d then d\<lparr>d_is_park_state_changed := 1, d_change_time := d_change_time d + 1\<rparr> else d);
          d2 = d1\<lparr>d_state := d_state n, d_value := d_value n, d_battery := d_battery n\<rparr>
      in if (d_battery n < d_lowest_power d2 \<or> d_lowest_power d2 = 0) \<and> \<not> d_battery n < 90
         then d2\<lparr>d_lowest_power := d_battery n\<rparr> else d2)"

definition set_rest :: "single_detector_info \<Rightarrow> single_detector_info \<Rightarrow> single_detector_info" where
  "set_rest n d =
     d\<lparr>d_rssi := d_rssi n, d_cnt := d_cnt n, d_snr := d_snr n, d_interval := 0,
       d_resend1 := d_resend1 d + d_resend1 n, d_resend2 := d_resend2 d + d_resend2 n, d_resend3 := d_resend3 d + d_resend3 n,
       d_send_num := d_send_num_before_this_time d + 256 * d_rounds d + ucast (d_cnt n) - d_first_cnt d\<rparr>"

definition refresh_detector_info :: "single_detector_info \<Rightarrow> nat \<Rightarrow> 'a db_st_scheme \<Rightarrow> 'a db_st_scheme" where
  "refresh_detector_info n index s =
     (let d = det s index;
          s1 = (if d_recv_pack_flag d \<noteq> 0 \<and> missed (d_cnt n) (d_cnt d) \<noteq> None
                then log_fmt 128 ''%d miss frame(s), lasc cnt %d, now cnt %d, SF%d, avg rssi %d, avg snr %d''
                  [ArgInt (d_id d), ArgInt (ucast (d_cnt d)), ArgInt (ucast (d_cnt n)), ArgInt (ucast (d_current_dr d)),
                   ArgInt (scast (d_c_avg_rssi d)), ArgInt (scast (d_c_avg_snr d))] s
                else s);
          d1 = count_packet (d_cnt n) d;
          d2 = d1\<lparr>d_recv_num := d_recv_num d1 + 1\<rparr>;
          s2 = (if d_state n \<noteq> d_state d2
                then log_fmt 128 ''%d from %d to %d, value %d''
                  [ArgInt (d_id n), ArgInt (ucast (d_state d2)), ArgInt (ucast (d_state n)), ArgInt (ucast (d_value n))] s1
                else s1);
          s3 = (if (d_battery n < d_lowest_power d2 \<or> d_lowest_power d2 = 0) \<and> d_battery n < 90
                then log_fmt 128 ''%d got battery %d V'' [ArgInt (d_id n), ArgInt (ucast (d_battery n) * 2)] s2
                else s2)
      in upd_det index (\<lambda>_. set_rest n (set_state n d2)) s3)"

definition refresh_light_info :: "single_light_info \<Rightarrow> nat \<Rightarrow> 'a db_st_scheme \<Rightarrow> 'a db_st_scheme" where
  "refresh_light_info n index s =
     upd_light index (\<lambda>l. l\<lparr>l_state := 0, l_rssi := l_rssi n, l_snr := l_snr n, l_current_color := l_current_color n,
       l_interval := 0, l_time_left := 10\<rparr>) s"

abbreviation (input) NEW_DEVICE_REPORT_TIMES :: byte where "NEW_DEVICE_REPORT_TIMES \<equiv> 3"

definition insert_new_device :: "u32 \<Rightarrow> byte \<Rightarrow> 'a db_st_scheme \<Rightarrow> 'a db_st_scheme" where
  "insert_new_device i type s =
     (let l = g_new_node_list s
      in case find (\<lambda>k. n_id (n_node l ! k) = i) [0..<n_num l] of
        Some k \<Rightarrow> s\<lparr>g_new_node_list := l\<lparr>n_node := (n_node l)[k := (n_node l ! k)\<lparr>n_time_left := NEW_DEVICE_REPORT_TIMES\<rparr>]\<rparr>\<rparr>
      | None \<Rightarrow>
          if n_num l < MAX_NODE_WHOLE_PARKING_LOT
          then s\<lparr>g_new_node_list := l\<lparr>n_node := (n_node l)[n_num l := (n_node l ! n_num l)
                 \<lparr>n_id := i, n_device_type := type, n_time_left := NEW_DEVICE_REPORT_TIMES\<rparr>], n_num := n_num l + 1\<rparr>\<rparr>
          else s)"

section \<open>Answers to the connected computer\<close>

text \<open>The packet header is 12 bytes. The checksum is taken over \<open>len - 1\<close> bytes from \<open>data\<close> on, past its end, and
  stored one place behind the last byte that is sent.\<close>

definition lora_send_tcp_data :: "int \<Rightarrow> byte \<Rightarrow> byte list \<Rightarrow> byte \<Rightarrow> 'a app_st_scheme \<Rightarrow> 'a app_st_scheme" where
  "lora_send_tcp_data fd cmd data pack_sn s =
     (let n = length data;
          header = [cmd] @ be32 (dev_id (wnc_device s)) @ bytes_of ''LN'' @ take 2 (drop 7 (lora_tcp_buf s)) @ [pack_sn] @ be16 (of_nat n);
          buf = header @ data @ drop (12 + n) (lora_tcp_buf s);
          len = 12 + n + 1;
          buf1 = buf[12 + n + 1 := xor_verify (data @ map (stack_mem s) [n..<len - 1])]
      in s\<lparr>lora_tcp_buf := buf1, tcp_out := tcp_out s @ [(fd, take len buf1)]\<rparr>)"

definition next_pack :: "'a app_st_scheme \<Rightarrow> 'a app_st_scheme" where
  "next_pack s = s\<lparr>working_mode := (working_mode s)\<lparr>m_pack_sn := m_pack_sn (working_mode s) + 1\<rparr>\<rparr>"

section \<open>Special modes\<close>

abbreviation (input) LORA_CMD_SET_PERIOD :: byte where "LORA_CMD_SET_PERIOD \<equiv> 0x04"
abbreviation (input) LORA_CMD_SET_FREQ :: byte where "LORA_CMD_SET_FREQ \<equiv> 0x06"
abbreviation (input) LORA_CMD_CONTROL_LIGHT :: byte where "LORA_CMD_CONTROL_LIGHT \<equiv> 0x18"
abbreviation (input) LORA_CMD_LIGHT_RESPONSE :: byte where "LORA_CMD_LIGHT_RESPONSE \<equiv> 0x18"
abbreviation (input) LORA_CMD_INIT_PARAMS :: byte where "LORA_CMD_INIT_PARAMS \<equiv> 0x1f"
abbreviation (input) LORA_CMD_RECV_TEST :: byte where "LORA_CMD_RECV_TEST \<equiv> 0x52"
abbreviation (input) LORA_CMD_NODE_ENTER_CFG :: byte where "LORA_CMD_NODE_ENTER_CFG \<equiv> 0x81"
abbreviation (input) LORA_CMD_NODE_ONLINE :: byte where "LORA_CMD_NODE_ONLINE \<equiv> 0xF8"
abbreviation (input) LORA_CMD_LIGHT_HEART_BEAT :: byte where "LORA_CMD_LIGHT_HEART_BEAT \<equiv> 0xFC"
abbreviation (input) LORA_CMD_DETECTOR_HEART_BEAT :: byte where "LORA_CMD_DETECTOR_HEART_BEAT \<equiv> 0xFE"

abbreviation (input) CMD_LORA_RECV_TEST :: byte where "CMD_LORA_RECV_TEST \<equiv> 245"
abbreviation (input) CMD_LORA_CONFIG_NODE_BY_RANGE :: byte where "CMD_LORA_CONFIG_NODE_BY_RANGE \<equiv> 246"
abbreviation (input) CMD_LORA_INIT_NODE :: byte where "CMD_LORA_INIT_NODE \<equiv> 247"
abbreviation (input) CMD_LORA_CONFIG_NODE_BY_ID :: byte where "CMD_LORA_CONFIG_NODE_BY_ID \<equiv> 248"

text \<open>The last two bytes of a packet are the checksum of the first ten.\<close>

definition put_crc :: "byte list \<Rightarrow> byte list" where
  "put_crc pl = (let crc = crc_calculate (take 10 pl) in pl[10 := ucast (drop_bit 8 crc), 11 := ucast crc])"

definition crc_ok :: "byte list \<Rightarrow> bool" where
  "crc_ok pl \<longleftrightarrow> crc_calculate (take 10 pl) = word16 (pl ! 10) (pl ! 11)"

definition pkt_id :: "rt_lora_pkt \<Rightarrow> u32" where
  "pkt_id rx = rd_be32 (p_payload rx) 0"

text \<open>A packet on the stack: the first ten bytes come from the received packet, the others are not initialised.\<close>

definition answer_pkt :: "rt_lora_pkt \<Rightarrow> (byte list \<Rightarrow> byte list) \<Rightarrow> u32 \<Rightarrow> 'a app_st_scheme \<Rightarrow> rt_lora_pkt" where
  "answer_pkt rx f freq s =
     (stack_pkt s)\<lparr>p_payload := put_crc (f (take 10 (p_payload rx) @ drop 10 (p_payload (stack_pkt s)))), p_len := 12,
       p_datarate := p_datarate rx, p_freq_hz := freq\<rparr>"

definition config_heart_beat :: "rt_lora_pkt \<Rightarrow> work_mode \<Rightarrow> 'a app_st_scheme \<Rightarrow> 'a app_st_scheme" where
  "config_heart_beat rx mode s =
     (let c = g_config_node_list s;
          pkt = (if p_payload rx ! 5 = 0x0b
            then answer_pkt rx (\<lambda>pl. case mode of
                MODE_CONFIG_NODE_BY_RANGE \<Rightarrow> pl[4 := LORA_CMD_SET_PERIOD, 5 := ucast (drop_bit 8 (cn_period c)), 6 := ucast (cn_period c)]
              | MODE_CONFIG_NODE_BY_ID \<Rightarrow> pl[4 := LORA_CMD_SET_PERIOD, 5 := ucast (drop_bit 8 (cn_period c)), 6 := ucast (cn_period c)]
              | MODE_INIT_NODE \<Rightarrow> pl[4 := LORA_CMD_INIT_PARAMS]
              | _ \<Rightarrow> pl) (p_freq_hz rx) s
            else answer_pkt rx (\<lambda>pl. pl[5 := 0x0a]) (get_tx_freq s) s)
      in send_lora (MSG_LORA_SEND_DATA pkt) s)"

definition config_set_freq :: "rt_lora_pkt \<Rightarrow> 'a app_st_scheme \<Rightarrow> 'a app_st_scheme" where
  "config_set_freq rx s =
     (let f = be32 (cn_freq (g_config_node_list s))
      in send_lora (MSG_LORA_SEND_DATA (answer_pkt rx
           (\<lambda>pl. pl[4 := LORA_CMD_SET_FREQ, 5 := f ! 0, 6 := f ! 1, 7 := f ! 2, 8 := f ! 3]) (p_freq_hz rx) s)) s)"

definition config_done :: "int \<Rightarrow> byte \<Rightarrow> u32 \<Rightarrow> nat \<Rightarrow> 'a app_st_scheme \<Rightarrow> 'a app_st_scheme" where
  "config_done fd cmd i k s =
     (let c = g_config_node_list s;
          s1 = s\<lparr>g_config_node_list := c\<lparr>cn_node := (cn_node c)[k := (cn_node c ! k)\<lparr>cn_done := 1\<rparr>]\<rparr>\<rparr>
      in next_pack (lora_send_tcp_data fd cmd (be32 i) (m_pack_sn (working_mode s1)) s1))"

definition swap32 :: "u32 \<Rightarrow> u32" where
  "swap32 w = rd_be32 (le32 w) 0"

text \<open>One round of the loop over the nodes to be configured. The local \<open>id\<close> keeps its byte order swapped once a
  node is done; \<open>cmd\<close> is not initialised in the initialisation mode.\<close>

definition config_node :: "int \<Rightarrow> rt_lora_pkt \<Rightarrow> work_mode \<Rightarrow> nat \<Rightarrow> u32 \<times> 'a app_st_scheme \<Rightarrow> u32 \<times> 'a app_st_scheme" where
  "config_node fd rx mode k = (\<lambda>(i, s).
     (let c = g_config_node_list s; cmd = p_payload rx ! 4
      in if i = cn_id (cn_node c ! k) \<and> cn_done (cn_node c ! k) = 0
         then
           (if cmd = LORA_CMD_DETECTOR_HEART_BEAT then (i, config_heart_beat rx mode s)
            else if cmd = LORA_CMD_SET_PERIOD then (i, config_set_freq rx s)
            else if cmd = LORA_CMD_SET_FREQ then
              (swap32 i, config_done fd (case mode of
                  MODE_CONFIG_NODE_BY_RANGE \<Rightarrow> CMD_LORA_CONFIG_NODE_BY_RANGE
                | MODE_CONFIG_NODE_BY_ID \<Rightarrow> CMD_LORA_CONFIG_NODE_BY_ID
                | _ \<Rightarrow> stack_mem s 0) i k s)
            else if cmd = LORA_CMD_INIT_PARAMS then (swap32 i, config_done fd CMD_LORA_INIT_NODE i k s)
            else (i, s))
         else (i, s)))"

definition config_lora_node :: "int \<Rightarrow> rt_lora_pkt \<Rightarrow> work_mode \<Rightarrow> 'a app_st_scheme \<Rightarrow> 'a app_st_scheme" where
  "config_lora_node fd rx mode s =
     snd (fold (config_node fd rx mode) [0..<cn_num (g_config_node_list s)] (pkt_id rx, s))"

definition analyze_special_mode :: "rt_lora_pkt \<Rightarrow> 'a app_st_scheme \<Rightarrow> bool \<times> 'a app_st_scheme" where
  "analyze_special_mode rx s =
     (case m_mode (working_mode s) of
        MODE_NORMAL \<Rightarrow> (False, s)
      | MODE_RECV_TEST \<Rightarrow>
          (True, if p_payload rx ! 4 = LORA_CMD_RECV_TEST
                 then next_pack (lora_send_tcp_data (m_fd (working_mode s)) CMD_LORA_RECV_TEST
                   (be32 (p_freq_hz rx) @ be32 (scast (p_rssi rx)) @ be32 (scast (p_snr rx))) (m_pack_sn (working_mode s)) s)
                 else s)
      | mode \<Rightarrow> (True, config_lora_node (m_fd (working_mode s)) rx mode s))"

section \<open>Received packets\<close>

text \<open>What a detector reports in its heartbeat.\<close>

definition heart_beat_info :: "rt_lora_pkt \<Rightarrow> single_detector_info" where
  "heart_beat_info rx =
     (let b = p_payload rx; resend = (drop_bit 6 (b ! 9)) AND 0x03
      in zero_detector\<lparr>d_id := pkt_id rx, d_state := (drop_bit 7 (b ! 5)) AND 0x01, d_value := (b ! 5) AND 0x7f,
           d_battery := b ! 6, d_rssi := b ! 7, d_cnt := b ! 8, d_snr := ((b ! 9) AND 0x3f) - 20, d_interval := 0,
           d_resend1 := of_bool (resend = 1), d_resend2 := of_bool (resend = 2), d_resend3 := of_bool (resend = 3)\<rparr>)"

definition detector_heart_beat :: "rt_lora_pkt \<Rightarrow> nat \<Rightarrow> 'a app_st_scheme \<Rightarrow> 'a app_st_scheme" where
  "detector_heart_beat rx i s =
     (let (adr, s1) = adr_control rx i s;
          tx = rx\<lparr>p_payload := put_crc ((p_payload rx)[5 := adr]), p_freq_hz := get_tx_freq s1\<rparr>;
          s2 = send_lora (MSG_LORA_SEND_DATA tx) s1;
          s3 = (if d_is_in_config (det s2 i) = 1
                then log_fmt 128 ''%d exit config'' [ArgInt (d_id (det s2 i))] (upd_det i (\<lambda>d. d\<lparr>d_is_in_config := 0\<rparr>) s2)
                else s2);
          s4 = (if (drop_bit 6 (p_payload rx ! 5)) AND 0x01 \<noteq> 0
                then log_fmt 64 ''%d not stable'' [ArgInt (pkt_id rx)] s3 else s3)
      in refresh_detector_info (heart_beat_info rx) i s4)"

definition light_heart_beat :: "rt_lora_pkt \<Rightarrow> nat \<Rightarrow> 'a app_st_scheme \<Rightarrow> 'a app_st_scheme" where
  "light_heart_beat rx i s =
     (if l_id (light s i) = pkt_id rx
      then refresh_light_info (zero_light\<lparr>l_id := pkt_id rx, l_current_color := p_payload rx ! 5, l_rssi := p_payload rx ! 7,
             l_snr := p_payload rx ! 8\<rparr>) i s
      else s)"

definition node_online :: "nat \<Rightarrow> 'a app_st_scheme \<Rightarrow> 'a app_st_scheme" where
  "node_online i s =
     (let s1 = upd_det i (\<lambda>d. d\<lparr>d_send_num_before_this_time :=
            d_send_num_before_this_time d + (d_rounds d * 256 + ucast (d_cnt d) - d_first_cnt d),
            d_rounds := 0, d_recv_pack_flag := 0, d_reset_time := d_reset_time d + 1\<rparr>) s;
          s2 = fst (work_state_log_add_event EVENT_DETECTOR_RESTART s1)
      in log_fmt 128 ''%d restart'' [ArgInt (d_id (det s2 i))] s2)"

definition node_enter_cfg :: "nat \<Rightarrow> 'a app_st_scheme \<Rightarrow> 'a app_st_scheme" where
  "node_enter_cfg i s =
     (let s1 = upd_det i (\<lambda>d. d\<lparr>d_is_in_config := 1\<rparr>) s in log_fmt 128 ''%d enter config'' [ArgInt (d_id (det s1 i))] s1)"

definition dispatch_pkt :: "rt_lora_pkt \<Rightarrow> 'a app_st_scheme \<Rightarrow> 'a app_st_scheme" where
  "dispatch_pkt rx s =
     (let i = pkt_id rx; cmd = p_payload rx ! 4
      in if cmd = LORA_CMD_DETECTOR_HEART_BEAT then
           (case find_detector i s of
              Some k \<Rightarrow> detector_heart_beat rx k s
            | None \<Rightarrow> insert_new_device i NODE_DEVICE_TYPE_DETECTOR s)
         else if cmd = LORA_CMD_LIGHT_RESPONSE \<or> cmd = LORA_CMD_LIGHT_HEART_BEAT then
           (let s1 = fold (light_heart_beat rx) [0..<l_num (g_light_info_list s)] s
            in if l_num (g_light_info_list s1) \<ge> d_num (g_detector_info_list s1)
               then insert_new_device i NODE_DEVICE_TYPE_LIGHT s1 else s1)
         else if cmd = LORA_CMD_NODE_ONLINE then
           (case find_detector i s of Some k \<Rightarrow> node_online k s | None \<Rightarrow> s)
         else if cmd = LORA_CMD_NODE_ENTER_CFG then
           (case find_detector i s of Some k \<Rightarrow> node_enter_cfg k s | None \<Rightarrow> s)
         else s)"

definition analyze_lora_pkt :: "rt_lora_pkt \<Rightarrow> 'a app_st_scheme \<Rightarrow> 'a app_st_scheme" where
  "analyze_lora_pkt rx s =
     (if \<not> crc_ok (p_payload rx) then s
      else case analyze_special_mode rx s of (special, s1) \<Rightarrow> if special then s1 else dispatch_pkt rx s1)"

section \<open>Light colours\<close>

text \<open>The number of free parking places of every light.\<close>

definition count_free :: "'a db_st_scheme \<Rightarrow> nat \<Rightarrow> nat list \<Rightarrow> nat list" where
  "count_free s i emp =
     (if d_state (det s i) = 0
      then fold (\<lambda>j e. if (mask_bytes (relation (g_relation_list s) ! i) ! (j div 8)) AND push_bit (j mod 8) 0x01 \<noteq> 0
                       then e[j := e ! j + 1] else e)
             [0..<light_num (g_relation_list s)] emp
      else emp)"

definition calc_empty :: "'a db_st_scheme \<Rightarrow> 'a db_st_scheme" where
  "calc_empty s = s\<lparr>g_relation_list := (g_relation_list s)\<lparr>empty :=
     fold (count_free s) [0..<d_num (g_detector_info_list s)] (replicate MAX_LIGHT_PER_WNC 0)\<rparr>\<rparr>"

definition set_correct :: "nat \<Rightarrow> 'a db_st_scheme \<Rightarrow> 'a db_st_scheme" where
  "set_correct i s = upd_light i (\<lambda>l. l\<lparr>l_correct_color :=
     if empty (g_relation_list s) ! i > 0 then LIGHT_COLOR_GREEN else LIGHT_COLOR_RED\<rparr>) s"

definition control_pkt :: "single_light_info \<Rightarrow> 'a app_st_scheme \<Rightarrow> rt_lora_pkt" where
  "control_pkt l s = \<lparr>p_freq_hz = get_tx_freq s, p_rssi = 0, p_snr = 0, p_datarate = 9, p_len = 12,
     p_payload = put_crc (be32 (l_id l) @ [LORA_CMD_CONTROL_LIGHT, l_correct_color l] @ replicate 26 0)\<rparr>"

definition control_light :: "nat \<Rightarrow> 'a app_st_scheme \<Rightarrow> 'a app_st_scheme" where
  "control_light i s =
     (let l = light s i;
          s1 = log_fmt 128 ''light %d color to %d'' [ArgInt (l_id l), ArgInt (ucast (l_correct_color l))] s;
          s2 = send_lora (MSG_LORA_SEND_DATA (control_pkt l s1)) s1;
          s3 = upd_light i (\<lambda>l. l\<lparr>l_time_left := l_time_left l - 1\<rparr>) s2
      in s3\<lparr>light_index := (if i + 1 \<ge> l_num (g_light_info_list s3) then 0 else i + 1)\<rparr>)"

text \<open>The loop over the lights from the static index on. It ends when it is back at the index, or when it has sent
  a command; it has no result where it would run forever.\<close>

partial_function (option) light_loop :: "nat \<Rightarrow> bool \<Rightarrow> 'a app_st_scheme \<Rightarrow> 'a app_st_scheme option" where
  "light_loop i is_first s =
     (if (i \<noteq> light_index s \<or> is_first) \<and> l_num (g_light_info_list s) > 0
      then
        (let s1 = set_correct i s; l = light s1 i;
             wrong = l_state l \<noteq> NODE_STATE_OFFLINE \<and> l_correct_color l \<noteq> l_current_color l
         in if wrong \<and> l_time_left l > 0 then Some (control_light i s1)
            else
              (let s2 = (if wrong then upd_light i (\<lambda>l. l\<lparr>l_state := NODE_STATE_OFFLINE\<rparr>) s1 else s1)
               in light_loop (if i + 1 \<ge> l_num (g_light_info_list s2) then 0 else i + 1) False s2))
      else Some s)"

definition analyse_light_state :: "'a app_st_scheme \<Rightarrow> 'a app_st_scheme option" where
  "analyse_light_state s = (let s1 = calc_empty s in light_loop (light_index s1) True s1)"

section \<open>Lost nodes\<close>

definition check_detector :: "nat \<Rightarrow> 'a app_st_scheme \<Rightarrow> 'a app_st_scheme" where
  "check_detector i s =
     (if d_state (det s i) \<noteq> NODE_STATE_OFFLINE
      then if d_interval (det s i) < 35
           then set_led ON (of_nat (i div 8)) (of_nat (i mod 8)) (upd_det i (\<lambda>d. d\<lparr>d_interval := d_interval d + 1\<rparr>) s)
           else
             (let s1 = set_led OFF (of_nat (i div 8)) (of_nat (i mod 8)) (upd_det i (\<lambda>d. d\<lparr>d_state := NODE_STATE_OFFLINE\<rparr>) s);
                  s2 = fst (work_state_log_add_event EVENT_DETECTOR_OFFLINE s1);
                  s3 = log_fmt 128 ''%d offline'' [ArgInt (d_id (det s2 i))] s2
              in upd_det i (\<lambda>d. d\<lparr>d_offline_time := d_offline_time d + 1\<rparr>) s3)
      else s)"

definition check_light :: "nat \<Rightarrow> 'a app_st_scheme \<Rightarrow> 'a app_st_scheme" where
  "check_light i s =
     (if l_state (light s i) \<noteq> NODE_STATE_OFFLINE
      then if l_interval (light s i) < 35
           then upd_light i (\<lambda>l. l\<lparr>l_interval := l_interval l + 1\<rparr>) s
           else fst (work_state_log_add_event EVENT_LIGHT_OFFLINE (upd_light i (\<lambda>l. l\<lparr>l_state := NODE_STATE_OFFLINE\<rparr>) s))
      else s)"

definition check_lora_node_connect :: "'a app_st_scheme \<Rightarrow> 'a app_st_scheme" where
  "check_lora_node_connect s =
     (let s1 = fold check_detector [0..<d_num (g_detector_info_list s)] s
      in fold check_light [0..<l_num (g_light_info_list s1)] s1)"

section \<open>The detector report\<close>

definition detector_entry :: "single_detector_info \<Rightarrow> byte list" where
  "detector_entry d = be32 (d_id d) @ be16 (d_c_avg_rssi d) @ [d_c_avg_snr d, d_current_dr d, d_lowest_power d,
     if d_state d = NODE_STATE_OFFLINE then d_state d else d_value d]"

definition get_self_detector_info :: "'a db_st_scheme \<Rightarrow> u16 \<times> byte list" where
  "get_self_detector_info s =
     (let n = d_num (g_detector_info_list s); num = of_nat n :: byte
      in (of_nat (unat num * 10 + 1), num # concat (map (\<lambda>i. detector_entry (det s i)) [0..<n])))"

section \<open>Preparing the special modes\<close>

text \<open>The bytes behind the socket in a message; a read behind the message finds the stack.\<close>

definition msg_mem :: "byte list \<Rightarrow> 'a sys_st_scheme \<Rightarrow> mem" where
  "msg_mem data s i = (if i < length data then data ! i else stack_mem s i)"

definition mem_be32 :: "mem \<Rightarrow> nat \<Rightarrow> u32" where
  "mem_be32 m i = word32 (m i) (m (i + 1)) (m (i + 2)) (m (i + 3))"

definition mem_be16 :: "mem \<Rightarrow> nat \<Rightarrow> u16" where
  "mem_be16 m i = word16 (m i) (m (i + 1))"

definition zero_config_list :: config_node_list where
  "zero_config_list = \<lparr>cn_num = 0, cn_freq = 0, cn_period = 0,
     cn_node = replicate MAX_NODE_WHOLE_PARKING_LOT \<lparr>cn_id = 0, cn_done = 0\<rparr>\<rparr>"

definition add_config_node :: "u32 \<Rightarrow> config_node_list \<Rightarrow> config_node_list" where
  "add_config_node i c = c\<lparr>cn_node := (cn_node c)[cn_num c := (cn_node c ! cn_num c)\<lparr>cn_id := i\<rparr>], cn_num := cn_num c + 1\<rparr>"

function range_loop :: "u32 \<Rightarrow> u32 \<Rightarrow> config_node_list \<Rightarrow> config_node_list" where
  "range_loop tmp_id last_id c =
     (if tmp_id < last_id + 1
      then (let c1 = add_config_node tmp_id c
            in if cn_num c1 \<ge> MAX_NODE_WHOLE_PARKING_LOT then c1 else range_loop (tmp_id + 1) last_id c1)
      else c)"
  by pat_completeness auto

termination
  by (relation "measure (\<lambda>(t, l, c). MAX_NODE_WHOLE_PARKING_LOT - cn_num c)") (auto simp: add_config_node_def)

definition mode_start :: "int \<Rightarrow> 'a app_st_scheme \<Rightarrow> 'a app_st_scheme" where
  "mode_start fd s = s\<lparr>working_mode := (working_mode s)\<lparr>m_fd := fd, m_pack_sn := 1\<rparr>\<rparr>"

definition mode_reply :: "byte \<Rightarrow> byte \<Rightarrow> 'a app_st_scheme \<Rightarrow> 'a app_st_scheme" where
  "mode_reply cmd result s = lora_send_tcp_data (m_fd (working_mode s)) cmd [result] (m_pack_sn (working_mode s)) s"

definition mode_enter :: "byte \<Rightarrow> work_mode \<Rightarrow> config_node_list \<Rightarrow> 'a app_st_scheme \<Rightarrow> 'a app_st_scheme" where
  "mode_enter cmd mode c s =
     (let s1 = next_pack (mode_reply cmd 1 (s\<lparr>g_config_node_list := c\<rparr>))
      in s1\<lparr>working_mode := (working_mode s1)\<lparr>m_mode := mode\<rparr>\<rparr>)"

definition perpare_config_node_by_range :: "int \<Rightarrow> byte list \<Rightarrow> 'a app_st_scheme \<Rightarrow> 'a app_st_scheme" where
  "perpare_config_node_by_range fd data s =
     (let s1 = mode_start fd s; m = msg_mem data s1; freq = mem_be32 m 0; period = mem_be16 m 4
      in if freq < 470300000 \<or> freq > 489300000 then mode_reply CMD_LORA_CONFIG_NODE_BY_RANGE 0 s1
         else if period < 1 \<or> period > 7200 then mode_reply CMD_LORA_CONFIG_NODE_BY_RANGE 0 s1
         else mode_enter CMD_LORA_CONFIG_NODE_BY_RANGE MODE_CONFIG_NODE_BY_RANGE
           (range_loop (mem_be32 m 6) (mem_be32 m 10) (zero_config_list\<lparr>cn_freq := freq, cn_period := period\<rparr>)) s1)"

text \<open>With a one-byte count the list of 1024 nodes cannot become full.\<close>

definition perpare_config_node_by_id :: "int \<Rightarrow> byte list \<Rightarrow> 'a app_st_scheme \<Rightarrow> 'a app_st_scheme" where
  "perpare_config_node_by_id fd data s =
     (let s1 = mode_start fd s; m = msg_mem data s1; freq = mem_be32 m 0; period = mem_be16 m 4
      in if freq < 470300000 \<or> freq > 489300000 then mode_reply CMD_LORA_CONFIG_NODE_BY_RANGE 0 s1
         else if period < 1 \<or> period > 7200 then mode_reply CMD_LORA_CONFIG_NODE_BY_RANGE 0 s1
         else mode_enter CMD_LORA_CONFIG_NODE_BY_RANGE MODE_CONFIG_NODE_BY_ID
           (fold (\<lambda>i. add_config_node (mem_be32 m (7 + 4 * i))) [0..<unat (m 6)]
              (zero_config_list\<lparr>cn_freq := freq, cn_period := period\<rparr>)) s1)"

definition perpair_init_node :: "int \<Rightarrow> byte list \<Rightarrow> 'a app_st_scheme \<Rightarrow> 'a app_st_scheme" where
  "perpair_init_node fd data s =
     (let s1 = mode_start fd s; m = msg_mem data s1
      in mode_enter CMD_LORA_INIT_NODE MODE_INIT_NODE (range_loop (mem_be32 m 0) (mem_be32 m 4) zero_config_list) s1)"

section \<open>The thread\<close>

fun thread_data_process :: "stu_lora_msg \<Rightarrow> 'a app_st_scheme \<Rightarrow> 'a app_st_scheme option" where
  "thread_data_process (MSG_LORA_RECV_DATA rx) s = Some (analyze_lora_pkt rx s)"
| "thread_data_process MSG_ANALIZE_LIGHT_STATE s = analyse_light_state s"
| "thread_data_process MSG_CHECK_DEVICE_CONNECT s = Some (check_lora_node_connect s)"
| "thread_data_process (MSG_LORA_RECV_TEST fd) s =
     Some (if m_mode (working_mode s) \<noteq> MODE_RECV_TEST
           then s\<lparr>working_mode := \<lparr>m_fd = fd, m_pack_sn = 1, m_mode = MODE_RECV_TEST\<rparr>\<rparr>
           else s\<lparr>working_mode := (working_mode s)\<lparr>m_mode := MODE_NORMAL\<rparr>\<rparr>)"
| "thread_data_process (MSG_LORA_CONFIG_NODE_BY_RANGE fd data) s = Some (perpare_config_node_by_range fd data s)"
| "thread_data_process (MSG_LORA_CONFIG_NODE_BY_ID fd data) s = Some (perpare_config_node_by_id fd data s)"
| "thread_data_process (MSG_LORA_INIT_NODE fd data) s = Some (perpair_init_node fd data s)"
| "thread_data_process MSG_DATA_PROC_FEED_DOG s = Some (threads_feed_dog DATA_PROC_DOG s)"
| "thread_data_process _ s = Some s"

definition callback_timer_analyze_light :: "'a app_st_scheme \<Rightarrow> 'a app_st_scheme" where
  "callback_timer_analyze_light s = send_data_proc MSG_ANALIZE_LIGHT_STATE s"

definition callback_timer_dev_connect :: "'a app_st_scheme \<Rightarrow> 'a app_st_scheme" where
  "callback_timer_dev_connect s = send_data_proc MSG_CHECK_DEVICE_CONNECT s"

section \<open>Frame facts\<close>

named_theorems app_simps \<open>what the operations of the application threads leave alone\<close>

lemma log_fmt_fields [app_simps]:
  fixes s :: "'a app_st_scheme"
  shows "g_detector_info_list (log_fmt n fmt args s) = g_detector_info_list s"
    "g_relation_list (log_fmt n fmt args s) = g_relation_list s" "g_light_info_list (log_fmt n fmt args s) = g_light_info_list s"
    "g_new_node_list (log_fmt n fmt args s) = g_new_node_list s" "g_config_node_list (log_fmt n fmt args s) = g_config_node_list s"
    "mq_lora_send (log_fmt n fmt args s) = mq_lora_send s" "mq_data_proc (log_fmt n fmt args s) = mq_data_proc s"
    "mq_led (log_fmt n fmt args s) = mq_led s" "mq_sys_ctrl (log_fmt n fmt args s) = mq_sys_ctrl s"
    "thread_soft_dogs (log_fmt n fmt args s) = thread_soft_dogs s" "base_freq (log_fmt n fmt args s) = base_freq s"
    "working_mode (log_fmt n fmt args s) = working_mode s" "lora_tcp_buf (log_fmt n fmt args s) = lora_tcp_buf s"
    "light_index (log_fmt n fmt args s) = light_index s" "tcp_out (log_fmt n fmt args s) = tcp_out s"
    "stack_pkt (log_fmt n fmt args s) = stack_pkt s"
  by (subst log_fmt_only, simp)+

lemmas app_defs = send_lora_def send_data_proc_def set_led_def upd_det_def upd_light_def work_state_log_add_event_def
  next_pack_def mode_start_def mode_reply_def lora_send_tcp_data_def threads_feed_dog_def Let_def

section \<open>The invariant of the thread\<close>

text \<open>The arrays keep their lengths and the counters stay inside them; the ring buffers of the detectors are used
  within their bounds; no node is listed twice among the new nodes; the queues hold at most ten messages; and every
  packet that waits for transmission is twelve bytes long and carries its checksum.\<close>

definition detector_ok :: "single_detector_info \<Rightarrow> bool" where
  "detector_ok d \<longleftrightarrow> length (d_c_rssi d) = MAX_AVG_NUM \<and> length (d_c_snr d) = MAX_AVG_NUM \<and> unat (d_c_ptr d) < MAX_AVG_NUM"

definition new_nodes_ok :: "new_node_list \<Rightarrow> bool" where
  "new_nodes_ok n \<longleftrightarrow> new_nodes_wf n \<and> distinct (map n_id (take (n_num n) (n_node n)))"

definition pkt_ok :: "rt_lora_pkt \<Rightarrow> bool" where
  "pkt_ok p \<longleftrightarrow> p_len p = 12 \<and> length (p_payload p) = 32"

fun tx_msg_ok :: "stu_lora_msg \<Rightarrow> bool" where
  "tx_msg_ok (MSG_LORA_SEND_DATA p) \<longleftrightarrow> pkt_ok p \<and> crc_ok (p_payload p)"
| "tx_msg_ok _ \<longleftrightarrow> True"

fun rx_msg_ok :: "stu_lora_msg \<Rightarrow> bool" where
  "rx_msg_ok (MSG_LORA_RECV_DATA p) \<longleftrightarrow> pkt_ok p"
| "rx_msg_ok _ \<longleftrightarrow> True"

definition app_wf :: "'a app_st_scheme \<Rightarrow> bool" where
  "app_wf s \<longleftrightarrow> detectors_wf (g_detector_info_list s) \<and> list_all detector_ok (detector_info (g_detector_info_list s)) \<and>
     relations_wf (g_relation_list s) \<and> lights_wf (g_light_info_list s) \<and> new_nodes_ok (g_new_node_list s) \<and>
     config_nodes_wf (g_config_node_list s) \<and> light_index s < MAX_LIGHT_PER_WNC \<and>
     length (mq_lora_send s) \<le> RT_MQ_NUM \<and> list_all tx_msg_ok (mq_lora_send s) \<and> length (mq_led s) \<le> RT_MQ_NUM \<and>
     length (lora_tcp_buf s) = 1024 \<and> length (p_payload (stack_pkt s)) = 32"

lemma list_all_upd: "list_all P xs \<Longrightarrow> (i < length xs \<Longrightarrow> P x) \<Longrightarrow> list_all P (xs[i := x])"
  by (cases "i < length xs") (auto simp: list_all_length nth_list_update list_update_beyond)

lemma wf_log_fmt [simp]: "app_wf (log_fmt n fmt args s) = app_wf s"
  unfolding app_wf_def app_simps ..

lemma wf_event [simp]: "app_wf (fst (work_state_log_add_event e s)) = app_wf s"
  by (simp add: app_wf_def work_state_log_add_event_def Let_def)

lemma wf_upd_det:
  "app_wf s \<Longrightarrow> (i < length (detector_info (g_detector_info_list s)) \<Longrightarrow> detector_ok (f (det s i))) \<Longrightarrow> app_wf (upd_det i f s)"
  by (auto simp: app_wf_def upd_det_def detectors_wf_def intro!: list_all_upd)

lemma wf_det_ok: "app_wf s \<Longrightarrow> i < length (detector_info (g_detector_info_list s)) \<Longrightarrow> detector_ok (det s i)"
  by (simp add: app_wf_def list_all_length)

lemma wf_upd: "app_wf s \<Longrightarrow> (\<And>d. detector_ok d \<Longrightarrow> detector_ok (f d)) \<Longrightarrow> app_wf (upd_det i f s)"
  by (rule wf_upd_det) (simp_all add: wf_det_ok)

lemma wf_upd_light: "app_wf s \<Longrightarrow> app_wf (upd_light i f s)"
  by (auto simp: app_wf_def upd_light_def lights_wf_def)

lemma wf_send_lora: "app_wf s \<Longrightarrow> tx_msg_ok m \<Longrightarrow> app_wf (send_lora m s)"
  by (auto simp: app_wf_def send_lora_def mq_put_def)

lemma wf_set_led: "app_wf s \<Longrightarrow> app_wf (set_led st r c s)"
  by (auto simp: app_wf_def set_led_def mq_put_def)

lemma wf_insert:
  assumes "app_wf s"
  shows "app_wf (insert_new_device i ty s)"
proof -
  let ?l = "g_new_node_list s"
  have l: "length (n_node ?l) = 1024" "n_num ?l \<le> 1024" "distinct (map n_id (take (n_num ?l) (n_node ?l)))"
    using assms by (auto simp: app_wf_def new_nodes_ok_def new_nodes_wf_def)
  show ?thesis
  proof (cases "find (\<lambda>k. n_id (n_node ?l ! k) = i) [0..<n_num ?l]")
    case (Some k)
    have "map n_id ((n_node ?l)[k := (n_node ?l ! k)\<lparr>n_time_left := 3\<rparr>]) = map n_id (n_node ?l)"
      by (simp add: map_update) (metis list_update_id map_update)
    then show ?thesis using assms l Some
      by (auto simp: insert_new_device_def Let_def app_wf_def new_nodes_ok_def new_nodes_wf_def take_map [symmetric])
  next
    case None
    have new: "i \<notin> set (map n_id (take (n_num ?l) (n_node ?l)))"
      using None l by (auto simp: find_None_iff in_set_conv_nth) blast
    show ?thesis
    proof (cases "n_num ?l < 1024")
      case True
      have "map n_id (take (n_num ?l + 1) ((n_node ?l)[n_num ?l := (n_node ?l ! n_num ?l)
          \<lparr>n_id := i, n_device_type := ty, n_time_left := 3\<rparr>])) = map n_id (take (n_num ?l) (n_node ?l)) @ [i]"
        using True l by (simp add: take_Suc_conv_app_nth)
      then show ?thesis using assms l None True new
        by (auto simp: insert_new_device_def Let_def app_wf_def new_nodes_ok_def new_nodes_wf_def)
    qed (use assms None in \<open>simp add: insert_new_device_def Let_def\<close>)
  qed
qed

lemma crc_put [simp]: "length pl = 32 \<Longrightarrow> crc_ok (put_crc pl)" "length (put_crc pl) = length pl"
  by (simp_all add: crc_ok_def put_crc_def Let_def word16_split)

lemma wf_tcp: "app_wf s \<Longrightarrow> length data \<le> 12 \<Longrightarrow> app_wf (lora_send_tcp_data fd cmd data sn' s)"
  by (auto simp: app_wf_def lora_send_tcp_data_def Let_def)

lemma wf_next_pack [simp]: "app_wf (next_pack s) = app_wf s"
  by (simp add: app_wf_def next_pack_def)

lemma detector_ok_ring: "detector_ok d \<Longrightarrow> detector_ok (ring_put rx d)"
  by (auto simp: detector_ok_def ring_put_def Let_def word_le_nat_alt unat_word_ariths unat_bounds)

lemma detector_ok_refresh: "detector_ok d \<Longrightarrow> detector_ok (set_rest n (set_state n ((count_packet c d)\<lparr>d_recv_num := k\<rparr>)))"
  by (simp add: detector_ok_def set_rest_def set_state_def count_packet_def Let_def split: option.splits)

lemma wf_adr_control: "app_wf s \<Longrightarrow> app_wf (snd (adr_control rx i s))"
  unfolding adr_control_def Let_def snd_conv
  by (rule wf_upd_det) (use detector_ok_ring wf_det_ok in \<open>auto simp: detector_ok_def\<close>)

lemma wf_refresh:
  assumes "app_wf s"
  shows "app_wf (refresh_detector_info n i s)"
  unfolding refresh_detector_info_def Let_def
proof (rule wf_upd_det, goal_cases)
  case 2
  then have "i < length (detector_info (g_detector_info_list s))" by (simp add: app_simps split: if_splits)
  then show ?case by (intro detector_ok_refresh wf_det_ok [OF assms])
qed (use assms in simp)

lemma wf_heart_beat:
  assumes "app_wf s" and "pkt_ok rx"
  shows "app_wf (detector_heart_beat rx i s)"
proof -
  obtain a s1 where a: "adr_control rx i s = (a, s1)" by (cases "adr_control rx i s")
  have s1: "app_wf s1" using wf_adr_control [OF assms(1), of rx i] a by simp
  then have "app_wf (send_lora (MSG_LORA_SEND_DATA (rx\<lparr>p_payload := put_crc ((p_payload rx)[5 := a]), p_freq_hz := f\<rparr>)) s1)" for f
    by (rule wf_send_lora) (use assms(2) in \<open>simp add: pkt_ok_def\<close>)
  note s2 = this
  show ?thesis
    unfolding detector_heart_beat_def Let_def a by (auto simp: detector_ok_def intro!: wf_refresh wf_upd s2)
qed

lemma wf_light_heart_beat: "app_wf s \<Longrightarrow> app_wf (light_heart_beat rx i s)"
  by (simp add: light_heart_beat_def refresh_light_info_def wf_upd_light)

lemma wf_fold: "app_wf s \<Longrightarrow> (\<And>x s. app_wf s \<Longrightarrow> app_wf (f x s)) \<Longrightarrow> app_wf (fold f xs s)"
  by (induction xs arbitrary: s) auto

lemma wf_node_online: "app_wf s \<Longrightarrow> app_wf (node_online i s)"
  unfolding node_online_def Let_def wf_log_fmt wf_event
  by (rule wf_upd) (auto simp: detector_ok_def)

lemma wf_node_enter_cfg: "app_wf s \<Longrightarrow> app_wf (node_enter_cfg i s)"
  unfolding node_enter_cfg_def Let_def wf_log_fmt
  by (rule wf_upd) (auto simp: detector_ok_def)

lemma wf_answer:
  assumes "app_wf s" and "pkt_ok rx" and "\<And>pl. length (f pl) = length pl"
  shows "app_wf (send_lora (MSG_LORA_SEND_DATA (answer_pkt rx f fr s)) s)"
proof (rule wf_send_lora [OF assms(1)])
  have "length (f (take 10 (p_payload rx) @ drop 10 (p_payload (stack_pkt s)))) = 32"
    using assms by (simp add: app_wf_def pkt_ok_def)
  then show "tx_msg_ok (MSG_LORA_SEND_DATA (answer_pkt rx f fr s))" by (simp add: answer_pkt_def pkt_ok_def)
qed

lemma wf_config_done: "app_wf s \<Longrightarrow> app_wf (config_done fd cmd i k s)"
  unfolding config_done_def Let_def wf_next_pack
  by (rule wf_tcp) (auto simp: app_wf_def config_nodes_wf_def)

lemma wf_config_node:
  "app_wf s \<Longrightarrow> pkt_ok rx \<Longrightarrow> app_wf (snd (config_node fd rx mode k (i, s)))"
  by (auto simp: config_node_def config_heart_beat_def config_set_freq_def Let_def wf_config_done
      intro!: wf_answer split: work_mode.splits)

lemma wf_config_lora_node:
  assumes "app_wf s" and "pkt_ok rx"
  shows "app_wf (config_lora_node fd rx mode s)"
proof -
  have "app_wf (snd p) \<Longrightarrow> app_wf (snd (fold (config_node fd rx mode) ks p))" for ks and p :: "u32 \<times> 'a app_st_scheme"
  proof (induction ks arbitrary: p)
    case (Cons k ks)
    then show ?case using wf_config_node [OF _ assms(2), of "snd p" fd mode k "fst p"] by simp
  qed simp
  then show ?thesis using assms(1) by (simp add: config_lora_node_def)
qed

lemma wf_special: "app_wf s \<Longrightarrow> pkt_ok rx \<Longrightarrow> app_wf (snd (analyze_special_mode rx s))"
  by (auto simp: analyze_special_mode_def wf_config_lora_node wf_tcp split: work_mode.splits)

lemma wf_dispatch: "app_wf s \<Longrightarrow> pkt_ok rx \<Longrightarrow> app_wf (dispatch_pkt rx s)"
  by (auto simp: dispatch_pkt_def Let_def wf_heart_beat wf_insert wf_node_online wf_node_enter_cfg
      intro!: wf_insert wf_fold wf_light_heart_beat split: option.splits)

lemma wf_analyze_lora_pkt: "app_wf s \<Longrightarrow> pkt_ok rx \<Longrightarrow> app_wf (analyze_lora_pkt rx s)"
  using wf_special [of s rx] wf_dispatch [of _ rx] by (auto simp: analyze_lora_pkt_def split: prod.splits)

lemma count_free_length [simp]: "length (count_free s i e) = length e"
proof -
  have "length (fold (\<lambda>j e. if P j then e[j := e ! j + 1] else e) js e) = length e" for P js and e :: "nat list"
    by (induction js arbitrary: e) auto
  then show ?thesis by (simp add: count_free_def)
qed

lemma fold_count_free_length [simp]: "length (fold (count_free s) is e) = length e"
  by (induction "is" arbitrary: e) auto

lemma wf_calc_empty: "app_wf s \<Longrightarrow> app_wf (calc_empty s)"
  by (auto simp: app_wf_def calc_empty_def relations_wf_def)

lemma wf_index: "app_wf s \<Longrightarrow> i < MAX_LIGHT_PER_WNC \<Longrightarrow> app_wf (s\<lparr>light_index := if l_num (g_light_info_list s) \<le> i + 1 then 0 else i + 1\<rparr>)"
  by (auto simp: app_wf_def lights_wf_def)

lemma wf_control_light:
  assumes "app_wf s" and "i < MAX_LIGHT_PER_WNC"
  shows "app_wf (control_light i s)"
  unfolding control_light_def Let_def
proof (rule wf_index [OF _ assms(2)], rule wf_upd_light, rule wf_send_lora)
  show "tx_msg_ok (MSG_LORA_SEND_DATA (control_pkt l s'))" for l and s' :: "'a app_st_scheme"
    by (simp add: control_pkt_def pkt_ok_def)
qed (use assms(1) in simp)

lemma set_correct_num [simp]: "l_num (g_light_info_list (set_correct i s)) = l_num (g_light_info_list s)"
  "l_num (g_light_info_list (upd_light i f s)) = l_num (g_light_info_list s)"
  by (simp_all add: set_correct_def upd_light_def)

lemma wf_light_loop:
  assumes "light_loop i b s = Some s'"
  shows "app_wf s \<longrightarrow> i < MAX_LIGHT_PER_WNC \<longrightarrow> app_wf s'"
proof (rule light_loop.raw_induct [where P = "\<lambda>i b s s'. app_wf s \<longrightarrow> i < MAX_LIGHT_PER_WNC \<longrightarrow> app_wf s'", OF _ assms], intro impI, goal_cases)
  case (1 loop i b s s')
  have c: "app_wf (set_correct i s)" using 1(3) by (simp add: set_correct_def wf_upd_light)
  have n: "(if i + 1 \<ge> l_num (g_light_info_list s) then 0 else i + 1) < MAX_LIGHT_PER_WNC"
    using 1(3) by (auto simp: app_wf_def lights_wf_def)
  show ?case
    using 1(1) [of "if i + 1 \<ge> l_num (g_light_info_list s) then 0 else i + 1" False _ s'] 1(2,3) n c
      wf_control_light [OF c 1(4)] wf_upd_light [OF c]
    by (auto simp: Let_def split: if_splits)
qed

lemma wf_check: "app_wf s \<Longrightarrow> app_wf (check_lora_node_connect s)"
proof -
  have "app_wf (check_detector i s)" if "app_wf s" for i and s :: "'a app_st_scheme"
    using that by (auto simp: check_detector_def Let_def detector_ok_def intro!: wf_upd wf_set_led)
  moreover have "app_wf (check_light i s)" if "app_wf s" for i and s :: "'a app_st_scheme"
    using that by (auto simp: check_light_def wf_upd_light)
  moreover assume "app_wf s"
  ultimately show ?thesis unfolding check_lora_node_connect_def Let_def by (intro wf_fold)
qed

lemma wf_config_list:
  "cn_num c < MAX_NODE_WHOLE_PARKING_LOT \<Longrightarrow> config_nodes_wf c \<Longrightarrow> config_nodes_wf (range_loop t l c)"
proof (induction t l c rule: range_loop.induct)
  case (1 t l c)
  show ?case
    using 1 by (subst range_loop.simps) (auto simp: config_nodes_wf_def add_config_node_def Let_def)
qed

lemma wf_config_ids:
  "config_nodes_wf c \<Longrightarrow> cn_num c + length is \<le> MAX_NODE_WHOLE_PARKING_LOT \<Longrightarrow>
     config_nodes_wf (fold (\<lambda>i. add_config_node (f i)) is c)"
  by (induction "is" arbitrary: c) (auto simp: config_nodes_wf_def add_config_node_def)

lemma zero_config_wf [simp]:
  "config_nodes_wf zero_config_list" "config_nodes_wf (zero_config_list\<lparr>cn_freq := f, cn_period := p\<rparr>)" "cn_num zero_config_list = 0"
  by (simp_all add: config_nodes_wf_def zero_config_list_def)

lemma wf_mode [simp]: "app_wf (s\<lparr>working_mode := m\<rparr>) = app_wf s"
  by (simp add: app_wf_def)

lemma wf_feed [simp]: "app_wf (threads_feed_dog d s) = app_wf s"
  by (simp add: app_wf_def threads_feed_dog_def)

lemma wf_mode_reply: "app_wf s \<Longrightarrow> app_wf (mode_reply cmd r s)"
  by (simp add: mode_reply_def wf_tcp)

lemma wf_mode_start [simp]: "app_wf (mode_start fd s) = app_wf s"
  by (simp add: mode_start_def app_wf_def)

lemma wf_mode_enter:
  assumes "app_wf s" and "config_nodes_wf c"
  shows "app_wf (mode_enter cmd mode c s)"
proof -
  have "app_wf (s\<lparr>g_config_node_list := c\<rparr>)" using assms by (simp add: app_wf_def)
  then show ?thesis by (simp add: mode_enter_def Let_def wf_mode_reply)
qed

lemma wf_config_modes:
  assumes "app_wf s"
  shows "app_wf (perpare_config_node_by_range fd data s)" "app_wf (perpare_config_node_by_id fd data s)"
    "app_wf (perpair_init_node fd data s)"
proof -
  have s: "app_wf (mode_start fd s)" using assms by simp
  have "unat (m 6) \<le> 1024" for m :: mem using unsigned_less [of "m 6", where 'a = nat] by simp
  then show "app_wf (perpare_config_node_by_id fd data s)"
    unfolding perpare_config_node_by_id_def Let_def
    by (auto intro!: wf_mode_reply wf_mode_enter s wf_config_ids)
  show "app_wf (perpare_config_node_by_range fd data s)"
    unfolding perpare_config_node_by_range_def Let_def
    by (auto intro!: wf_mode_reply wf_mode_enter s wf_config_list simp del: range_loop.simps)
  show "app_wf (perpair_init_node fd data s)"
    unfolding perpair_init_node_def Let_def
    by (auto intro!: wf_mode_enter s wf_config_list simp del: range_loop.simps)
qed

text \<open>Whatever message the thread handles, in every mode, the invariant is kept.\<close>

lemma wf_thread_data_process:
  assumes "app_wf s" and "rx_msg_ok m" and "thread_data_process m s = Some s'"
  shows "app_wf s'"
proof -
  have l: "light_index (calc_empty s) < MAX_LIGHT_PER_WNC" using assms(1) by (simp add: app_wf_def calc_empty_def)
  show ?thesis
  proof (cases m)
    case MSG_ANALIZE_LIGHT_STATE
    then have "light_loop (light_index (calc_empty s)) True (calc_empty s) = Some s'"
      using assms(3) by (simp add: analyse_light_state_def Let_def)
    from wf_light_loop [OF this] show ?thesis using l wf_calc_empty [OF assms(1)] by blast
  qed (use assms in \<open>auto simp: wf_analyze_lora_pkt wf_check wf_config_modes\<close>)
qed

section \<open>A concentrator with two detectors and two lights\<close>

text \<open>The place of detector 9 is free and belongs to light 7, that of detector 10 is taken and belongs to light 8; both
  lights show red.\<close>

definition demo_detectors :: detector_info_list where
  "demo_detectors = \<lparr>d_num = 2, detector_info = (replicate MAX_DETECTOR_PER_WNC zero_detector)
     [0 := zero_detector\<lparr>d_id := 9\<rparr>, 1 := zero_detector\<lparr>d_id := 10, d_state := 1\<rparr>]\<rparr>"

definition demo_lights :: light_info_list where
  "demo_lights = \<lparr>l_num = 2, light_info = (replicate MAX_LIGHT_PER_WNC zero_light)
     [0 := zero_light\<lparr>l_id := 7, l_current_color := LIGHT_COLOR_RED, l_time_left := 10\<rparr>,
      1 := zero_light\<lparr>l_id := 8, l_current_color := LIGHT_COLOR_RED, l_time_left := 10\<rparr>]\<rparr>"

definition demo_relations :: relation_list where
  "demo_relations = \<lparr>light_num = 2, light_id = (replicate MAX_LIGHT_PER_WNC 0)[0 := 7, 1 := 8],
     empty = replicate MAX_LIGHT_PER_WNC 0, detector_num = 2,
     relation = (replicate MAX_DETECTOR_PER_WNC zero_relation)
       [0 := \<lparr>detector_id = 9, mask_bytes = [1, 0, 0, 0, 0]\<rparr>, 1 := \<lparr>detector_id = 10, mask_bytes = [2, 0, 0, 0, 0]\<rparr>]\<rparr>"

definition demo_pkt :: "byte list \<Rightarrow> rt_lora_pkt" where
  "demo_pkt bs = \<lparr>p_freq_hz = 470500000, p_rssi = -80, p_snr = 8, p_datarate = 8, p_len = 12,
     p_payload = put_crc (bs @ replicate (32 - length bs) 0)\<rparr>"

definition demo_app :: app_st where
  "demo_app = (ft_st.extend demo_ft (app_st.fields [] [] [] [] [0, 0, 0, 0] 470300000 20
     \<lparr>m_fd = 0, m_pack_sn = 1, m_mode = MODE_NORMAL\<rparr> (replicate 1024 0) 0 [] (demo_pkt [])))
     \<lparr>g_detector_info_list := demo_detectors, g_light_info_list := demo_lights, g_relation_list := demo_relations\<rparr>"

lemma demo_app_fields [simp]:
  "g_detector_info_list demo_app = demo_detectors" "g_light_info_list demo_app = demo_lights" "g_relation_list demo_app = demo_relations"
  "g_new_node_list demo_app = \<lparr>n_num = 0, n_node = replicate MAX_NODE_WHOLE_PARKING_LOT
     \<lparr>n_id = 0, n_device_type = 0, n_rssi = 0, n_snr = 0, n_time_left = 0\<rparr>\<rparr>"
  "g_config_node_list demo_app = zero_config_list" "mq_lora_send demo_app = []" "mq_data_proc demo_app = []" "mq_led demo_app = []"
  "mq_sys_ctrl demo_app = []" "thread_soft_dogs demo_app = [0, 0, 0, 0]" "base_freq demo_app = 470300000"
  "working_mode demo_app = \<lparr>m_fd = 0, m_pack_sn = 1, m_mode = MODE_NORMAL\<rparr>" "lora_tcp_buf demo_app = replicate 1024 0"
  "light_index demo_app = 0" "tcp_out demo_app = []" "stack_pkt demo_app = demo_pkt []"
  by (simp_all add: demo_app_def demo_ft_def demo_ws_def demo_file_def demo_cfg_def demo_emb_def sys_st.defs emb_st.defs
      cfg_st.defs db_st.defs file_st.defs ws_st.defs ft_st.defs app_st.defs demo_sys_def zero_config_list_def)

lemma demo_pkt_ok [simp]: "length bs \<le> 32 \<Longrightarrow> pkt_ok (demo_pkt bs)" "length bs \<le> 32 \<Longrightarrow> crc_ok (p_payload (demo_pkt bs))"
  by (simp_all add: demo_pkt_def pkt_ok_def)

lemma demo_app_wf: "app_wf demo_app"
proof -
  have z: "list_all detector_ok (replicate 60 zero_detector)"
    by (simp add: list_all_iff detector_ok_def zero_detector_def)
  have "list_all detector_ok (detector_info demo_detectors)"
    unfolding demo_detectors_def detector_info_list.simps
    by (intro list_all_upd z) (simp_all add: detector_ok_def zero_detector_def)
  moreover have "relations_wf demo_relations"
  proof -
    have "list_all (\<lambda>x. length (mask_bytes x) = 5) (replicate 60 zero_relation)" by (simp add: list_all_iff zero_relation_def)
    then show ?thesis by (auto simp: relations_wf_def demo_relations_def intro!: list_all_upd)
  qed
  moreover have "length (p_payload (demo_pkt [])) = 32" by (simp add: demo_pkt_def)
  ultimately show ?thesis
    by (simp add: app_wf_def detectors_wf_def demo_detectors_def lights_wf_def demo_lights_def new_nodes_ok_def new_nodes_wf_def)
qed

end
