(* ===== verification/Packet_Check.thy ===== *)
theory Packet_Check
  imports Data_Process
begin

text \<open>
  What the checksum of the LoRa packets is worth: \<open>crc_calculate\<close> is the CRC-16 with the reflected
  polynomial \<open>0xa001\<close>; its update is a bijection of the register for every data byte, and two bytes
  amount to one 16-bit word. A packet in which a single byte, or two neighbouring data bytes, were changed is
  never accepted.
\<close>

section \<open>The register\<close>

lemma crc_bit_xor: "crc_bit c = drop_bit 1 c XOR (if odd c then 0xa001 else 0)"
  by (simp add: crc_bit_def and_one_eq odd_iff_mod_2_eq_one even_iff_mod_2_eq_zero)

lemma drop_parity_eq:
  assumes "drop_bit 1 c = drop_bit 1 d" and "odd c \<longleftrightarrow> odd d"
  shows "c = (d :: u16)"
proof (rule bit_word_eqI)
  fix n
  have "bit (drop_bit 1 c) k \<longleftrightarrow> bit (drop_bit 1 d) k" for k using assms(1) by simp
  then show "bit c n \<longleftrightarrow> bit d n"
    using assms(2) by (cases n) (simp_all add: bit_0 bit_drop_bit_eq)
qed

lemma xor_right_cancel: "a XOR c = b XOR c \<longleftrightarrow> a = (b :: u16)"
  by (metis xor.assoc xor_self_eq xor.right_neutral)

lemma crc_bit_inj: "inj crc_bit"
proof (rule injI)
  fix c d assume eq: "crc_bit c = crc_bit d"
  have top: "\<not> bit (drop_bit 1 x) 15" for x :: u16
    by (simp add: bit_drop_bit_eq bit_imp_le_length) (use bit_imp_le_length [of x 16] in auto)
  have b15: "bit (crc_bit x) 15 \<longleftrightarrow> odd x" for x
    using top [of x] by (simp add: crc_bit_xor bit_xor_iff)
  have p: "odd c \<longleftrightarrow> odd d" using b15 [of c] b15 [of d] eq by simp
  have "drop_bit 1 c = drop_bit 1 d"
    using eq p xor_right_cancel [of "drop_bit 1 c" "0xa001" "drop_bit 1 d"] by (auto simp: crc_bit_xor split: if_splits)
  then show "c = d" using p by (rule drop_parity_eq)
qed

lemma crc_bits_inj: "inj (crc_bit ^^ n)"
  using crc_bit_inj by (rule inj_fn)

lemma crc_byte_state: "crc_byte b c = crc_byte b d \<longleftrightarrow> c = d"
  using crc_bits_inj [of 8] by (auto simp: crc_byte_def inj_eq xor_right_cancel)

lemma crc_fold_state: "fold crc_byte bs c = fold crc_byte bs d \<longleftrightarrow> c = d"
  by (induction bs arbitrary: c d) (auto simp: crc_byte_state)

text \<open>Data above the lowest bit only moves down.\<close>

lemma crc_bit_high:
  assumes "\<not> bit z 15"
  shows "crc_bit (x XOR push_bit 1 z) = crc_bit x XOR z"
proof -
  have "bit (drop_bit 1 (push_bit 1 z)) n \<longleftrightarrow> bit z n" if "n < 16" for n
    unfolding bit_drop_bit_eq o_def bit_push_bit_iff using that assms by (cases "n = 15") auto
  then have "drop_bit 1 (push_bit 1 z) = z" by (intro bit_word_eqI) simp
  then show ?thesis by (simp add: crc_bit_xor drop_bit_xor even_xor_iff ac_simps)
qed

lemma crc_bits_high: "(crc_bit ^^ n) (x XOR push_bit n z) = (crc_bit ^^ n) x XOR z" if "n \<le> 8" "\<And>k. 8 \<le> k \<Longrightarrow> \<not> bit z k"
  using that(1)
proof (induction n arbitrary: x)
  case (Suc n)
  have "\<not> bit (push_bit n z) 15" using that(2) [of "15 - n"] Suc.prems by (simp add: bit_push_bit_iff)
  then have "crc_bit (x XOR push_bit (Suc n) z) = crc_bit x XOR push_bit n z"
    using crc_bit_high [of "push_bit n z" x] by (simp add: push_bit_push_bit)
  then show ?case using Suc by (simp add: funpow_swap1)
qed simp

lemma crc_two_bytes:
  "crc_byte b (crc_byte a c) = (crc_bit ^^ 16) (c XOR ucast a XOR push_bit 8 (ucast b))"
proof -
  have "\<not> bit (ucast b :: u16) k" if "8 \<le> k" for k
    using that by (auto simp: bit_ucast_iff dest: bit_imp_le_length)
  then have "(crc_bit ^^ 8) ((c XOR ucast a) XOR push_bit 8 (ucast b)) = (crc_bit ^^ 8) (c XOR ucast a) XOR ucast b"
    by (intro crc_bits_high) auto
  moreover have "(crc_bit ^^ 16) x = (crc_bit ^^ 8) ((crc_bit ^^ 8) x)" for x
    using funpow_add [of 8 8 crc_bit] by simp
  ultimately show ?thesis by (simp add: crc_byte_def xor.assoc)
qed

lemma word_of_bytes_inj:
  "ucast a XOR push_bit 8 (ucast b) = (ucast a' XOR push_bit 8 (ucast b') :: u16) \<longleftrightarrow> a = a' \<and> b = b'"
  for a b a' b' :: byte
proof -
  have w: "ucast a XOR push_bit 8 (ucast b) = word16 b a" for a b :: byte
    by (rule bit_word_eqI) (auto simp: word16_def bit_or_iff bit_xor_iff bit_push_bit_iff bit_ucast_iff dest: bit_imp_le_length)
  have "b = b' \<and> a = a'" if "word16 b a = word16 b' a'"
    using arg_cong [OF that, of "\<lambda>w. ucast (drop_bit 8 w) :: byte"] arg_cong [OF that, of "\<lambda>w. ucast w :: byte"]
    by (simp add: word16_parts)
  then show ?thesis unfolding w by blast
qed

lemma crc_two_bytes_inj: "crc_byte b (crc_byte a c) = crc_byte b' (crc_byte a' c) \<longleftrightarrow> a = a' \<and> b = b'"
proof -
  have "crc_byte b (crc_byte a c) = crc_byte b' (crc_byte a' c) \<longleftrightarrow>
      (ucast a XOR push_bit 8 (ucast b) :: u16) XOR c = (ucast a' XOR push_bit 8 (ucast b')) XOR c"
    unfolding crc_two_bytes by (simp add: inj_eq [OF crc_bits_inj] ac_simps)
  then show ?thesis by (simp add: xor_right_cancel word_of_bytes_inj)
qed

section \<open>Damaged packets\<close>

lemma crc_two_changed:
  assumes "i + 1 < length xs"
  shows "crc_calculate (xs[i := a, i + 1 := b]) = crc_calculate xs \<longleftrightarrow> a = xs ! i \<and> b = xs ! (i + 1)"
proof -
  define p q where "p = take i xs" and "q = drop (i + 2) xs"
  have x: "xs = p @ xs ! i # xs ! (i + 1) # q"
    using assms unfolding p_def q_def
    by (metis Suc_eq_plus1 add_2_eq_Suc' append_take_drop_id Cons_nth_drop_Suc Suc_lessD)
  have l: "length p = i" using assms by (simp add: p_def)
  have y: "xs[i := a, i + 1 := b] = p @ a # b # q"
    by (subst x) (simp add: l list_update_append)
  have "crc_calculate xs = fold crc_byte q (crc_byte (xs ! (i + 1)) (crc_byte (xs ! i) (fold crc_byte p 0xFFFF)))"
    by (subst x) (simp add: crc_calculate_def)
  then show ?thesis unfolding y by (simp add: crc_calculate_def crc_fold_state crc_two_bytes_inj)
qed

lemma take_update_low: "i < n \<Longrightarrow> take n (xs[i := a]) = (take n xs)[i := a]"
  by (simp add: take_update_swap)

lemma two_changed_rejected:
  assumes "crc_ok pl" and "i + 1 < 10" and "12 \<le> length pl" and "a \<noteq> pl ! i \<or> b \<noteq> pl ! (i + 1)"
  shows "\<not> crc_ok (pl[i := a, i + 1 := b])"
  using assms crc_two_changed [of i "take 10 pl" a b] by (auto simp: crc_ok_def take_update_low)

lemma one_changed_rejected:
  assumes "crc_ok pl" and "i < 12" and "12 \<le> length pl" and "a \<noteq> pl ! i"
  shows "\<not> crc_ok (pl[i := a])"
proof -
  consider "i + 1 < 10" | "i = 9" | "i = 10" | "i = 11" using assms(2) by fastforce
  then show ?thesis
  proof cases
    case 1
    have "pl[i := a, i + 1 := pl ! (i + 1)] = pl[i := a]"
      by (metis Suc_eq_plus1 list_update_id n_not_Suc_n nth_list_update_neq)
    then show ?thesis using two_changed_rejected [OF assms(1) 1 assms(3), of a "pl ! (i + 1)"] assms(4) by simp
  next
    case 2
    then have "pl[i := a] = pl[8 := pl ! 8, 8 + 1 := a]" by simp
    then show ?thesis using two_changed_rejected [OF assms(1) _ assms(3), of 8 "pl ! 8" a] assms(4) 2 by auto
  next
    case 3
    then show ?thesis using assms by (auto simp: crc_ok_def) (metis word16_parts(1))
  next
    case 4
    then show ?thesis using assms by (auto simp: crc_ok_def) (metis word16_parts(2))
  qed
qed

text \<open>C36: a packet that was valid and then had one of its twelve bytes, or two neighbouring bytes in front of the
  checksum, changed on the air is dropped: it changes nothing in the concentrator and is not answered.\<close>

theorem damaged_packet_ignored:
  assumes "pkt_ok rx" and "crc_ok (p_payload rx)"
    and "i < 12 \<and> a \<noteq> p_payload rx ! i \<and> pl = (p_payload rx)[i := a] \<or>
      i < 9 \<and> (a \<noteq> p_payload rx ! i \<or> b \<noteq> p_payload rx ! (i + 1)) \<and> pl = (p_payload rx)[i := a, i + 1 := b]"
  shows "analyze_lora_pkt (rx\<lparr>p_payload := pl\<rparr>) s = s"
proof -
  have l: "12 \<le> length (p_payload rx)" using assms(1) by (simp add: pkt_ok_def)
  have "\<not> crc_ok pl"
    using assms(3) one_changed_rejected [OF assms(2) _ l, of i a] two_changed_rejected [OF assms(2) _ l, of i a b] by auto
  then show ?thesis by (simp add: analyze_lora_pkt_def)
qed

theorem damaged_packet_ignored_witness:
  "analyze_lora_pkt ((demo_pkt [0, 0, 0, 9, 0xFE])\<lparr>p_payload := (p_payload (demo_pkt [0, 0, 0, 9, 0xFE]))[3 := 10]\<rparr>) demo_app = demo_app"
proof -
  have "p_payload (demo_pkt [0, 0, 0, 9, 0xFE]) ! 3 = 9" by (simp add: demo_pkt_def put_crc_def Let_def)
  then show ?thesis by (intro damaged_packet_ignored [of _ 3 10 _ 0] disjI1) simp_all
qed

end
