(* ===== verification/Detector_Statistics.thy ===== *)
theory Detector_Statistics
  imports Data_Process
begin

text \<open>
  The packet statistics of the detectors. Every counter is a 32-bit unsigned integer and the equations hold
  modulo \<open>2 ^ 32\<close>: what was received is what was new plus what was repeated, and what a detector has sent is
  what arrived plus what was counted as missing, across the wrap-around of the one-byte packet counter and across
  restarts of the detector.
\<close>

definition book :: "single_detector_info \<Rightarrow> bool" where
  "book d \<longleftrightarrow> d_recv_num d = d_abs_recv_num d + d_miss_send_num d \<and>
     d_abs_recv_num d + d_miss_recv_num d = (if d_recv_pack_flag d = 0 then d_send_num_before_this_time d else d_send_num d) \<and>
     (d_recv_pack_flag d \<noteq> 0 \<longrightarrow>
        d_send_num d = d_send_num_before_this_time d + 256 * d_rounds d + ucast (d_cnt d) - d_first_cnt d) \<and>
     (d_recv_pack_flag d = 0 \<longrightarrow> d_rounds d = 0)"

definition books :: "'a db_st_scheme \<Rightarrow> bool" where
  "books s \<longleftrightarrow> list_all book (detector_info (g_detector_info_list s))"

section \<open>One packet\<close>

lemma ucast_of_unat: "(ucast b :: u32) = of_nat (unat b)" for b :: byte
  by simp

lemma missed_cases:
  "missed c c = None"
  "old < c \<Longrightarrow> missed c old = (if unat c = unat old + 1 then None else Some (unat c - unat old - 1))"
  "c < old \<Longrightarrow> missed c old = (if c = 0 \<and> old = 255 then None else Some (unat c + 256 - unat old - 1))"
proof -
  show "missed c c = None" by (simp add: missed_def)
  show "old < c \<Longrightarrow> missed c old = (if unat c = unat old + 1 then None else Some (unat c - unat old - 1))"
    by (auto simp: missed_def word_less_nat_alt)
  have b: "unat c < 256" "unat old < 256" using unsigned_less [of c, where 'a = nat] unsigned_less [of old, where 'a = nat] by simp_all
  assume lt: "c < old"
  have "(c = 0 \<and> old = 255) = (unat c = 0 \<and> unat old = 255)" by (auto simp: word_unat_eq_iff)
  then show "missed c old = (if c = 0 \<and> old = 255 then None else Some (unat c + 256 - unat old - 1))"
    using lt b by (auto simp: missed_def word_less_nat_alt)
qed

text \<open>The packets sent between two receptions: the difference of the counters modulo 256.\<close>

lemma missed_send:
  fixes c old :: byte
  assumes "c \<noteq> old"
  shows "(case missed c old of None \<Rightarrow> 0 | Some k \<Rightarrow> of_nat k) + 1 =
    (ucast c :: u32) - ucast old + (if c < old then 256 else 0)"
proof -
  have b: "unat c < 256" "unat old < 256" using unsigned_less [of c, where 'a = nat] unsigned_less [of old, where 'a = nat] by simp_all
  have ne: "unat c \<noteq> unat old" using assms by (simp add: word_unat_eq_iff)
  define k where "k = (case missed c old of None \<Rightarrow> 0 | Some k \<Rightarrow> k)"
  have k: "(case missed c old of None \<Rightarrow> 0 | Some k \<Rightarrow> of_nat k) = (of_nat k :: u32)" by (simp add: k_def split: option.splits)
  have "k + 1 + unat old = unat c + (if c < old then 256 else 0)"
  proof (cases "c < old")
    case True
    then show ?thesis using b missed_cases(3) [OF True] by (auto simp: k_def word_less_nat_alt)
  next
    case False
    then have "old < c" using assms by auto
    then show ?thesis using False missed_cases(2) [OF \<open>old < c\<close>] by (auto simp: k_def word_less_nat_alt)
  qed
  then have "(of_nat (k + 1 + unat old) :: u32) = of_nat (unat c + (if c < old then 256 else 0))" by simp
  then show ?thesis unfolding k by (simp add: algebra_simps split: if_splits)
qed

lemma book_rest:
  "book (set_rest n (set_state n d)) \<longleftrightarrow> d_recv_num d = d_abs_recv_num d + d_miss_send_num d \<and>
     (if d_recv_pack_flag d = 0 then d_abs_recv_num d + d_miss_recv_num d = d_send_num_before_this_time d \<and> d_rounds d = 0
      else d_abs_recv_num d + d_miss_recv_num d =
        d_send_num_before_this_time d + 256 * d_rounds d + ucast (d_cnt n) - d_first_cnt d)"
proof -
  have "d_recv_num (set_state n d) = d_recv_num d" "d_abs_recv_num (set_state n d) = d_abs_recv_num d"
    "d_miss_send_num (set_state n d) = d_miss_send_num d" "d_miss_recv_num (set_state n d) = d_miss_recv_num d"
    "d_recv_pack_flag (set_state n d) = d_recv_pack_flag d" "d_rounds (set_state n d) = d_rounds d"
    "d_send_num_before_this_time (set_state n d) = d_send_num_before_this_time d" "d_first_cnt (set_state n d) = d_first_cnt d"
    by (simp_all add: set_state_def Let_def)
  then show ?thesis by (auto simp: book_def set_rest_def)
qed

lemma count_packet_new:
  assumes "d_recv_pack_flag d \<noteq> 0" and "c \<noteq> d_cnt d"
  shows "count_packet c d = d\<lparr>d_miss_recv_num := d_miss_recv_num d + (case missed c (d_cnt d) of None \<Rightarrow> 0 | Some k \<Rightarrow> of_nat k),
    d_abs_recv_num := d_abs_recv_num d + 1, d_rounds := d_rounds d + (if c < d_cnt d then 1 else 0)\<rparr>"
  using assms by (simp add: count_packet_def Let_def split: option.splits)

lemma book_refresh:
  assumes "book d"
  shows "book (set_rest n (set_state n ((count_packet (d_cnt n) d)\<lparr>d_recv_num := d_recv_num (count_packet (d_cnt n) d) + 1\<rparr>)))"
proof (cases "d_recv_pack_flag d = 0")
  case True
  then have "d_recv_num d = d_abs_recv_num d + d_miss_send_num d" "d_rounds d = 0"
    "d_abs_recv_num d + d_miss_recv_num d = d_send_num_before_this_time d"
    using assms by (simp_all add: book_def)
  then show ?thesis unfolding book_rest using True by (simp add: count_packet_def algebra_simps)
next
  case flag: False
  have b: "d_recv_num d = d_abs_recv_num d + d_miss_send_num d"
    "d_abs_recv_num d + d_miss_recv_num d = d_send_num_before_this_time d + 256 * d_rounds d + ucast (d_cnt d) - d_first_cnt d"
    using assms flag by (simp_all add: book_def)
  show ?thesis
  proof (cases "d_cnt n = d_cnt d")
    case True
    then show ?thesis unfolding book_rest using b flag by (simp add: count_packet_def Let_def missed_cases(1))
  next
    case False
    define M where "M = (case missed (d_cnt n) (d_cnt d) of None \<Rightarrow> 0 | Some k \<Rightarrow> (of_nat k :: u32))"
    have m: "M = ucast (d_cnt n) - ucast (d_cnt d) + (if d_cnt n < d_cnt d then 256 else 0) - 1"
      using missed_send [OF False] by (simp add: M_def algebra_simps)
    have "d_abs_recv_num d + 1 + (d_miss_recv_num d + M) = (d_abs_recv_num d + d_miss_recv_num d) + (M + 1)"
      by (simp add: algebra_simps)
    also have "\<dots> = d_send_num_before_this_time d + 256 * (d_rounds d + (if d_cnt n < d_cnt d then 1 else 0)) +
        ucast (d_cnt n) - d_first_cnt d"
      unfolding b(2) m by (simp add: algebra_simps)
    finally show ?thesis
      unfolding book_rest using flag b(1) by (simp add: count_packet_new [OF flag False] M_def [symmetric])
  qed
qed

section \<open>All messages\<close>

lemma books_upd: "books s \<Longrightarrow> (book (det s i) \<Longrightarrow> book (f (det s i))) \<Longrightarrow> books (upd_det i f s)"
  unfolding books_def upd_det_def by simp (rule list_all_upd, assumption, simp add: list_all_length)

lemma books_cong: "g_detector_info_list s' = g_detector_info_list s \<Longrightarrow> books s' = books s"
  by (simp add: books_def)

lemma dets_frame [simp]:
  fixes s :: "'a app_st_scheme"
  shows "g_detector_info_list (insert_new_device i ty s) = g_detector_info_list s"
    "g_detector_info_list (send_lora m s) = g_detector_info_list s" "g_detector_info_list (next_pack s) = g_detector_info_list s"
    "g_detector_info_list (lora_send_tcp_data fd cmd data k s) = g_detector_info_list s"
    "g_detector_info_list (upd_light j f s) = g_detector_info_list s" "g_detector_info_list (set_led st r c s) = g_detector_info_list s"
    "g_detector_info_list (fst (work_state_log_add_event e s)) = g_detector_info_list s"
    "g_detector_info_list (mode_start fd s) = g_detector_info_list s" "g_detector_info_list (threads_feed_dog d s) = g_detector_info_list s"
  by (simp_all add: insert_new_device_def app_defs split: option.splits)

lemma dets_frame_calls [simp]:
  fixes s :: "'a app_st_scheme"
  shows "g_detector_info_list (light_heart_beat rx j s) = g_detector_info_list s"
    "g_detector_info_list (config_done fd cmd i k s) = g_detector_info_list s"
    "g_detector_info_list (config_heart_beat rx mode s) = g_detector_info_list s"
    "g_detector_info_list (config_set_freq rx s) = g_detector_info_list s"
    "g_detector_info_list (mode_reply cmd r s) = g_detector_info_list s" "g_detector_info_list (mode_enter cmd mode c s) = g_detector_info_list s"
    "g_detector_info_list (control_light j s) = g_detector_info_list s" "g_detector_info_list (set_correct j s) = g_detector_info_list s"
    "g_detector_info_list (calc_empty s) = g_detector_info_list s" "g_detector_info_list (check_light j s) = g_detector_info_list s"
  by (simp_all add: light_heart_beat_def refresh_light_info_def config_done_def config_heart_beat_def config_set_freq_def mode_reply_def
      mode_enter_def control_light_def set_correct_def calc_empty_def check_light_def Let_def app_simps)

lemma fold_frame: "(\<And>x s. g (f x s) = g s) \<Longrightarrow> g (fold f xs s) = g s"
  by (induction xs arbitrary: s) auto

lemma dets_config_lora_node [simp]: "g_detector_info_list (config_lora_node fd rx mode s) = g_detector_info_list s"
  for s :: "'a app_st_scheme"
proof -
  have "g_detector_info_list (snd (config_node fd rx mode k p)) = g_detector_info_list (snd p)" for k and p :: "u32 \<times> 'a app_st_scheme"
    by (cases p) (simp add: config_node_def Let_def)
  then show ?thesis
    unfolding config_lora_node_def
    using fold_frame [of "\<lambda>p. g_detector_info_list (snd p)" "config_node fd rx mode"] by fastforce
qed

lemma dets_special [simp]: "g_detector_info_list (snd (analyze_special_mode rx s)) = g_detector_info_list s"
  by (simp add: analyze_special_mode_def split: work_mode.splits)

lemma dets_config_modes [simp]:
  "g_detector_info_list (perpare_config_node_by_range fd data s) = g_detector_info_list s"
  "g_detector_info_list (perpare_config_node_by_id fd data s) = g_detector_info_list s"
  "g_detector_info_list (perpair_init_node fd data s) = g_detector_info_list s"
  by (simp_all add: perpare_config_node_by_range_def perpare_config_node_by_id_def perpair_init_node_def Let_def)

lemma dets_light_loop:
  assumes "light_loop i b s = Some s'"
  shows "g_detector_info_list s' = g_detector_info_list s"
proof (rule light_loop.raw_induct [where P = "\<lambda>i b s s'. g_detector_info_list s' = g_detector_info_list s", OF _ assms], goal_cases)
  case (1 loop i b s s')
  show ?case
    using 1(2) by (auto simp: Let_def split: if_splits dest!: 1(1))
qed

lemma books_log [simp]: "books (log_fmt n fmt args s) = books s" for s :: "'a app_st_scheme"
  by (rule books_cong) (simp add: app_simps)

lemma books_heart_beat:
  fixes s :: "'a app_st_scheme"
  assumes "books s"
  shows "books (detector_heart_beat rx i s)"
proof -
  have r: "books (refresh_detector_info n i s)" if "books s" for n and s :: "'a app_st_scheme"
    unfolding refresh_detector_info_def Let_def
  proof (rule books_upd, goal_cases)
    case 2
    then show ?case by (simp add: app_simps book_refresh split: if_splits)
  qed (use that in simp)
  have a: "books (snd (adr_control rx i s))"
    unfolding adr_control_def Let_def snd_conv using assms
    by (rule books_upd) (simp add: book_def ring_put_def Let_def)
  have c: "books (upd_det i (d_is_in_config_update (\<lambda>_. 0)) s)" if "books s" for s :: "'a app_st_scheme"
    using that by (rule books_upd) (simp add: book_def)
  have l: "books (send_lora m s) = books s" for m and s :: "'a app_st_scheme" by (rule books_cong) simp
  show ?thesis
    unfolding detector_heart_beat_def Let_def using a by (auto simp: l intro!: r c split: prod.splits)
qed

text \<open>A restart notice from a detector that has not been heard since its last restart.\<close>

fun restart_again :: "stu_lora_msg \<Rightarrow> 'a db_st_scheme \<Rightarrow> bool" where
  "restart_again (MSG_LORA_RECV_DATA rx) s \<longleftrightarrow> p_payload rx ! 4 = LORA_CMD_NODE_ONLINE \<and>
     (case find_detector (pkt_id rx) s of None \<Rightarrow> False | Some k \<Rightarrow> d_recv_pack_flag (det s k) = 0)"
| "restart_again _ s \<longleftrightarrow> False"

lemma books_online:
  fixes s :: "'a app_st_scheme"
  assumes "books s" and "d_recv_pack_flag (det s k) \<noteq> 0"
  shows "books (node_online k s)"
proof -
  have e: "books (fst (work_state_log_add_event e s)) = books s" for e and s :: "'a app_st_scheme" by (rule books_cong) simp
  show ?thesis
    unfolding node_online_def Let_def books_log e using assms(1)
    by (rule books_upd) (use assms(2) in \<open>simp add: book_def algebra_simps\<close>)
qed

lemma books_dispatch:
  fixes s :: "'a app_st_scheme"
  assumes "books s" and "\<not> restart_again (MSG_LORA_RECV_DATA rx) s"
  shows "books (dispatch_pkt rx s)"
proof -
  have f: "g_detector_info_list (fold (light_heart_beat rx) js s) = g_detector_info_list s" for js by (rule fold_frame) simp
  have l: "books (fold (light_heart_beat rx) js s)" for js using assms(1) by (simp add: books_cong [OF f])
  have n: "books (insert_new_device j ty s) = books s" for j ty and s :: "'a app_st_scheme" by (rule books_cong) simp
  have c: "books (node_enter_cfg k s)" for k
    unfolding node_enter_cfg_def Let_def books_log using assms(1) by (rule books_upd) (simp add: book_def)
  show ?thesis
    using assms books_heart_beat [OF assms(1)] books_online [OF assms(1)]
    by (auto simp: dispatch_pkt_def Let_def n l c split: option.splits)
qed

lemma books_check:
  fixes s :: "'a app_st_scheme"
  assumes "books s"
  shows "books (check_lora_node_connect s)"
proof -
  have u: "books (upd_det i f s)" if "books s" "\<And>d. book (f d) = book d" for i f and s :: "'a app_st_scheme"
    using that(1) by (rule books_upd) (simp add: that(2))
  have e: "books (fst (work_state_log_add_event e s)) = books s" "books (set_led st r c s) = books s" for e st r c and s :: "'a app_st_scheme"
    by (rule books_cong, simp)+
  have d: "books (check_detector i s)" if "books s" for i and s :: "'a app_st_scheme"
    using that unfolding check_detector_def Let_def by (auto simp: book_def e intro!: u)
  have "books (fold check_detector is s)" for "is"
    using assms by (induction "is" arbitrary: s) (auto simp: d)
  moreover have "books (fold check_light js s') = books s'" for js and s' :: "'a app_st_scheme"
    by (rule books_cong, rule fold_frame) simp
  ultimately show ?thesis by (simp add: check_lora_node_connect_def Let_def)
qed

text \<open>C16: the statistics of every detector add up: received packets are new packets plus repetitions, and the packets
  the detector has sent are the new ones plus those counted as missing. Every message the thread handles keeps
  the two equations, except a restart notice from a detector of which no packet has come since its last restart notice, or
  since the start.\<close>

theorem detector_books_balance:
  fixes s :: "'a app_st_scheme"
  assumes "books s" and "\<not> restart_again m s" and "thread_data_process m s = Some s'"
  shows "books s'"
proof -
  have w: "books (s\<lparr>working_mode := x\<rparr>) = books s" "books (threads_feed_dog DATA_PROC_DOG s) = books s" for x
    by (rule books_cong, simp)+
  have c: "books (perpare_config_node_by_range fd data s) = books s" "books (perpare_config_node_by_id fd data s) = books s"
    "books (perpair_init_node fd data s) = books s" for fd data
    by (rule books_cong, simp)+
  show ?thesis
  proof (cases m)
    case (MSG_LORA_RECV_DATA rx)
    obtain sp s1 where sp: "analyze_special_mode rx s = (sp, s1)" by (cases "analyze_special_mode rx s")
    have g: "g_detector_info_list s1 = g_detector_info_list s" using dets_special [of rx s] sp by simp
    then have "restart_again m s1 = restart_again m s" by (simp add: MSG_LORA_RECV_DATA find_detector_def split: option.splits)
    then have "books (dispatch_pkt rx s1)"
      using books_dispatch [of s1 rx] assms(1,2) books_cong [OF g] MSG_LORA_RECV_DATA by simp
    then show ?thesis using assms(1,3) books_cong [OF g] sp MSG_LORA_RECV_DATA by (auto simp: analyze_lora_pkt_def split: if_splits)
  next
    case MSG_ANALIZE_LIGHT_STATE
    then have "light_loop (light_index (calc_empty s)) True (calc_empty s) = Some s'"
      using assms(3) by (simp add: analyse_light_state_def Let_def)
    then have "g_detector_info_list s' = g_detector_info_list s" using dets_light_loop by fastforce
    then show ?thesis using assms(1) books_cong by blast
  qed (use assms books_check [OF assms(1)] in \<open>auto simp: w c\<close>)
qed

text \<open>The excluded case: after two restart notices in a row the packets of the last round are counted twice.\<close>

lemma det_node_online:
  fixes s :: "'a app_st_scheme"
  assumes "k < length (detector_info (g_detector_info_list s))"
  shows "det (node_online k s) k = (det s k)\<lparr>d_send_num_before_this_time := d_send_num_before_this_time (det s k) +
      (d_rounds (det s k) * 256 + ucast (d_cnt (det s k)) - d_first_cnt (det s k)), d_rounds := 0, d_recv_pack_flag := 0,
      d_reset_time := d_reset_time (det s k) + 1\<rparr>"
    "length (detector_info (g_detector_info_list (node_online k s))) = length (detector_info (g_detector_info_list s))"
  using assms by (simp_all add: node_online_def Let_def app_simps upd_det_def)

theorem restart_twice_overcounts:
  fixes s :: "'a app_st_scheme"
  assumes "k < length (detector_info (g_detector_info_list s))" and "book (det s k)" and "d_recv_pack_flag (det s k) \<noteq> 0"
  shows "d_send_num_before_this_time (det (node_online k (node_online k s)) k) =
    d_send_num (det s k) + (ucast (d_cnt (det s k)) - d_first_cnt (det s k))"
  using assms by (simp add: det_node_online book_def algebra_simps)

lemma demo_books: "books demo_app"
proof -
  have z: "list_all book (replicate 60 zero_detector)" by (simp add: list_all_iff book_def zero_detector_def)
  show ?thesis
    unfolding books_def demo_app_fields demo_detectors_def detector_info_list.simps
    by (intro list_all_upd z) (simp_all add: book_def zero_detector_def)
qed

theorem detector_books_balance_witness:
  "\<exists>s'. thread_data_process (MSG_LORA_RECV_DATA (demo_pkt [0, 0, 0, 9, 0xFE, 0x80, 150, 0, 1, 20])) demo_app = Some s' \<and> books s'"
proof -
  let ?m = "MSG_LORA_RECV_DATA (demo_pkt [0, 0, 0, 9, 0xFE, 0x80, 150, 0, 1, 20])"
  have "p_payload (demo_pkt [0, 0, 0, 9, 0xFE, 0x80, 150, 0, 1, 20]) ! 4 = 0xFE" by (simp add: demo_pkt_def put_crc_def Let_def)
  then have "\<not> restart_again ?m demo_app" by simp
  then show ?thesis using detector_books_balance [OF demo_books, of ?m] by simp
qed

end
