(* ===== verification/Light_Colours.thy ===== *)
theory Light_Colours
  imports Data_Process
begin

text \<open>
  The choice of the light colours, \<open>analyse_light_state\<close>: what the counters of free places mean, a reference
  definition of the loop over the lights as a search for the first light that needs a command, the result of one
  call, and the state in which the loop of the code does not end.
\<close>

section \<open>Free places\<close>

definition watches :: "'a db_st_scheme \<Rightarrow> nat \<Rightarrow> nat \<Rightarrow> bool" where
  "watches s j i \<longleftrightarrow> j < light_num (g_relation_list s) \<and>
     (mask_bytes (relation (g_relation_list s) ! i) ! (j div 8)) AND push_bit (j mod 8) 0x01 \<noteq> 0"

definition free_places :: "'a db_st_scheme \<Rightarrow> nat \<Rightarrow> nat set" where
  "free_places s j = {i. i < d_num (g_detector_info_list s) \<and> d_state (det s i) = 0 \<and> watches s j i}"

lemma count_fold_nth:
  assumes "j < length e" and "distinct js" and "set js \<subseteq> {..<length e}"
  shows "fold (\<lambda>j e. if P j then e[j := e ! j + 1] else e) js e ! j = e ! j + (if j \<in> set js \<and> P j then 1 else (0 :: nat))"
  using assms
proof (induction js arbitrary: e)
  case (Cons k js)
  then have "fold (\<lambda>j e. if P j then e[j := e ! j + 1] else e) js (if P k then e[k := e ! k + 1] else e) ! j =
      (if P k then e[k := e ! k + 1] else e) ! j + (if j \<in> set js \<and> P j then 1 else 0)" by (intro Cons.IH) auto
  then show ?case using Cons.prems by (auto simp: nth_list_update)
qed simp

lemma count_free_nth:
  assumes "j < length e" and "light_num (g_relation_list s) \<le> length e"
  shows "count_free s i e ! j = e ! j + (if d_state (det s i) = 0 \<and> watches s j i then 1 else 0)"
proof -
  let ?P = "\<lambda>j. (mask_bytes (relation (g_relation_list s) ! i) ! (j div 8)) AND push_bit (j mod 8) 0x01 \<noteq> 0"
  have "fold (\<lambda>j e. if ?P j then e[j := e ! j + 1] else e) [0..<light_num (g_relation_list s)] e ! j =
      e ! j + (if j \<in> set [0..<light_num (g_relation_list s)] \<and> ?P j then 1 else 0)"
    by (rule count_fold_nth) (use assms in auto)
  then show ?thesis unfolding count_free_def watches_def by simp
qed

lemma empty_counts:
  assumes "j < MAX_LIGHT_PER_WNC" and "light_num (g_relation_list s) \<le> MAX_LIGHT_PER_WNC"
  shows "empty (g_relation_list (calc_empty s)) ! j = card (free_places s j)"
proof -
  have "fold (count_free s) [0..<n] (replicate 40 0) ! j = card {i. i < n \<and> d_state (det s i) = 0 \<and> watches s j i}" for n
  proof (induction n)
    case (Suc n)
    have "{i. i < Suc n \<and> d_state (det s i) = 0 \<and> watches s j i} =
        (if d_state (det s n) = 0 \<and> watches s j n then insert n {i. i < n \<and> d_state (det s i) = 0 \<and> watches s j i}
         else {i. i < n \<and> d_state (det s i) = 0 \<and> watches s j i})"
      by (auto simp: less_Suc_eq)
    then show ?case using Suc assms count_free_nth [of j "fold (count_free s) [0..<n] (replicate 40 0)" s n] by simp
  qed (use assms(1) in simp)
  then show ?thesis by (simp add: calc_empty_def free_places_def)
qed

section \<open>The loop as a search\<close>

definition colour :: "'a db_st_scheme \<Rightarrow> nat \<Rightarrow> byte" where
  "colour s i = (if empty (g_relation_list s) ! i > 0 then LIGHT_COLOR_GREEN else LIGHT_COLOR_RED)"

definition needs :: "'a db_st_scheme \<Rightarrow> nat \<Rightarrow> bool" where
  "needs s i \<longleftrightarrow> l_state (light s i) \<noteq> NODE_STATE_OFFLINE \<and> l_current_color (light s i) \<noteq> colour s i \<and> l_time_left (light s i) > 0"

definition settle :: "nat \<Rightarrow> 'a db_st_scheme \<Rightarrow> 'a db_st_scheme" where
  "settle i s = upd_light i (\<lambda>l. if l_state l \<noteq> NODE_STATE_OFFLINE \<and> l_current_color l \<noteq> colour s i
     then l\<lparr>l_correct_color := colour s i, l_state := NODE_STATE_OFFLINE\<rparr> else l\<lparr>l_correct_color := colour s i\<rparr>) s"

definition nxt :: "'a db_st_scheme \<Rightarrow> nat \<Rightarrow> nat" where
  "nxt s i = (if i + 1 \<ge> l_num (g_light_info_list s) then 0 else i + 1)"

primrec scan :: "nat \<Rightarrow> nat \<Rightarrow> 'a app_st_scheme \<Rightarrow> 'a app_st_scheme" where
  "scan 0 i s = s"
| "scan (Suc r) i s = (if needs s i then control_light i (set_correct i s) else scan r (nxt s i) (settle i s))"

lemma settle_fields [simp]:
  "light_index (settle i s) = light_index s" "g_relation_list (settle i s) = g_relation_list s"
  "l_num (g_light_info_list (settle i s)) = l_num (g_light_info_list s)"
  "length (light_info (g_light_info_list (settle i s))) = length (light_info (g_light_info_list s))"
  "colour (settle i s) = colour s" "nxt (settle i s) = nxt s"
  for s :: "'a app_st_scheme"
  by (auto simp: settle_def upd_light_def colour_def nxt_def fun_eq_iff)

lemma settle_other: "j \<noteq> i \<Longrightarrow> light (settle i s) j = light s j"
  by (simp add: settle_def upd_light_def)

lemma light_loop_step:
  fixes s :: "'a app_st_scheme"
  assumes "i < length (light_info (g_light_info_list s))"
  shows "light_loop i b s =
    (if (i \<noteq> light_index s \<or> b) \<and> l_num (g_light_info_list s) > 0
     then if needs s i then Some (control_light i (set_correct i s)) else light_loop (nxt s i) False (settle i s)
     else Some s)"
proof -
  have c: "set_correct i s = upd_light i (\<lambda>l. l\<lparr>l_correct_color := colour s i\<rparr>) s" by (simp add: set_correct_def colour_def)
  have l: "light (set_correct i s) i = (light s i)\<lparr>l_correct_color := colour s i\<rparr>" using assms by (simp add: c upd_light_def)
  have u: "upd_light i (\<lambda>l. l\<lparr>l_state := NODE_STATE_OFFLINE\<rparr>) (set_correct i s) =
      upd_light i (\<lambda>l. l\<lparr>l_correct_color := colour s i, l_state := NODE_STATE_OFFLINE\<rparr>) s"
    using assms by (simp add: c upd_light_def)
  have n: "needs s i \<longleftrightarrow> (l_state (light s i) \<noteq> 251 \<and> colour s i \<noteq> l_current_color (light s i)) \<and> l_time_left (light s i) > 0"
    by (auto simp: needs_def)
  show ?thesis
  proof (cases "(i \<noteq> light_index s \<or> b) \<and> l_num (g_light_info_list s) > 0")
    case True
    have t: "settle i s = (if l_state (light s i) \<noteq> 251 \<and> colour s i \<noteq> l_current_color (light s i)
        then upd_light i (\<lambda>l. l\<lparr>l_state := NODE_STATE_OFFLINE\<rparr>) (set_correct i s) else set_correct i s)"
      unfolding u by (auto simp: settle_def c upd_light_def)
    show ?thesis using True by (subst light_loop.simps) (simp add: Let_def l n t nxt_def)
  next
    case False
    then show ?thesis by (subst light_loop.simps) auto
  qed
qed

text \<open>The number of lights left to visit: all of them at the start, then up to the static index.\<close>

definition left :: "nat \<Rightarrow> nat \<Rightarrow> nat \<Rightarrow> nat" where
  "left n idx i = (if i \<le> idx then idx - i else n + idx - i)"

lemma light_loop_scan:
  fixes s :: "'a app_st_scheme"
  assumes "light_index s < l_num (g_light_info_list s)" and "l_num (g_light_info_list s) \<le> length (light_info (g_light_info_list s))"
    and "i < l_num (g_light_info_list s)"
    and "r = (if b then Suc (left (l_num (g_light_info_list s)) (light_index s) (nxt s i)) else left (l_num (g_light_info_list s)) (light_index s) i)"
  shows "light_loop i b s = Some (scan r i s)"
  using assms
proof (induction r arbitrary: i b s)
  case 0
  then have "i = light_index s" "\<not> b" by (auto simp: left_def split: if_splits)
  then show ?case using 0 by (simp add: light_loop_step)
next
  case (Suc r)
  let ?n = "l_num (g_light_info_list s)" and ?x = "light_index s"
  have i: "i < length (light_info (g_light_info_list s))" using Suc.prems by simp
  have go: "i \<noteq> ?x \<or> b" using Suc.prems(4) by (auto simp: left_def split: if_splits)
  have nx: "nxt s i < ?n" using Suc.prems(3) by (auto simp: nxt_def)
  have r: "r = left ?n ?x (nxt s i)"
    using Suc.prems go by (auto simp: left_def nxt_def split: if_splits)
  show ?case
  proof (cases "needs s i")
    case True
    then show ?thesis using go Suc.prems(3) by (simp add: light_loop_step [OF i])
  next
    case False
    have "light_loop (nxt s i) False (settle i s) = Some (scan r (nxt s i) (settle i s))"
      by (rule Suc.IH) (use Suc.prems nx r in simp_all)
    then show ?thesis using False go Suc.prems(3) by (simp add: light_loop_step [OF i])
  qed
qed

text \<open>The lights in the order of the loop.\<close>

lemma nxt_mod: "i < l_num (g_light_info_list s) \<Longrightarrow> nxt s i = (i + 1) mod l_num (g_light_info_list s)"
  by (auto simp: nxt_def mod_if)

lemma analyse_scan:
  fixes s :: "'a app_st_scheme"
  assumes "light_index s < l_num (g_light_info_list s)" and "lights_wf (g_light_info_list s)"
  shows "analyse_light_state s = Some (scan (l_num (g_light_info_list s)) (light_index s) (calc_empty s))"
proof -
  have f: "light_index (calc_empty s) = light_index s" "g_light_info_list (calc_empty s) = g_light_info_list s"
    by (simp_all add: calc_empty_def)
  show ?thesis unfolding analyse_light_state_def Let_def f(1)
    by (rule light_loop_scan) (use assms in \<open>auto simp: f lights_wf_def left_def nxt_def\<close>)
qed

definition pos :: "'a db_st_scheme \<Rightarrow> nat \<Rightarrow> nat \<Rightarrow> nat" where
  "pos s i k = (i + k) mod l_num (g_light_info_list s)"

lemma pos_nxt: "i < l_num (g_light_info_list s) \<Longrightarrow> pos s (nxt s i) k = pos s i (Suc k)"
  by (simp add: pos_def nxt_mod mod_simps)

lemma pos_inj:
  assumes "pos s i k = pos s i k'" and "k < l_num (g_light_info_list s)" and "k' < l_num (g_light_info_list s)"
  shows "k = k'"
proof -
  have "k = k'" if "k \<le> k'" "(i + k') mod n = (i + k) mod n" "k' < n" for k k' n :: nat
  proof -
    have "n dvd k' - k" using that(1,2) mod_eq_dvd_iff_nat [of "i + k" "i + k'" n] by simp
    then show ?thesis using that(1,3) by (metis diff_is_0_eq dvd_imp_le le_antisym less_imp_diff_less not_le neq0_conv)
  qed
  from this [of k k' "l_num (g_light_info_list s)"] this [of k' k "l_num (g_light_info_list s)"]
  show ?thesis using assms by (cases "k \<le> k'") (auto simp: pos_def)
qed

text \<open>One pass: either no light needs a command, and every visited light has its colour recorded and shows it or is
  given up; or the first light that needs one is commanded and the search goes on behind it next time.\<close>

lemma set_correct_light: "i < length (light_info (g_light_info_list s)) \<Longrightarrow>
    light (set_correct i s) i = (light s i)\<lparr>l_correct_color := colour s i\<rparr>"
  by (simp add: set_correct_def upd_light_def colour_def)

lemma settle_light: "i < length (light_info (g_light_info_list s)) \<Longrightarrow> light (settle i s) i =
    (if l_state (light s i) \<noteq> NODE_STATE_OFFLINE \<and> l_current_color (light s i) \<noteq> colour s i
     then (light s i)\<lparr>l_correct_color := colour s i, l_state := NODE_STATE_OFFLINE\<rparr> else (light s i)\<lparr>l_correct_color := colour s i\<rparr>)"
  by (simp add: settle_def upd_light_def)

lemma settle_mq [simp]: "mq_lora_send (settle i s) = mq_lora_send s" "base_freq (settle i s) = base_freq s" for s :: "'a app_st_scheme"
  by (simp_all add: settle_def upd_light_def)

lemma needs_settle: "j \<noteq> i \<Longrightarrow> needs (settle i s) j = needs s j" for s :: "'a app_st_scheme"
  by (simp add: needs_def settle_other)

lemma pos_0: "i < l_num (g_light_info_list s) \<Longrightarrow> pos s i 0 = i"
  by (simp add: pos_def)

lemma pos_settle [simp]: "pos (settle i s) = pos s" for s :: "'a app_st_scheme"
  by (simp add: pos_def fun_eq_iff)

lemma settle_settle_light:
  "j \<noteq> i \<Longrightarrow> light (settle j (settle i s)) j = light (settle j s) j" for s :: "'a app_st_scheme"
  by (cases "j < length (light_info (g_light_info_list s))")
    (auto simp: settle_light settle_other, simp add: settle_def upd_light_def list_update_beyond)

definition commanded :: "'a app_st_scheme \<Rightarrow> nat \<Rightarrow> 'a app_st_scheme \<Rightarrow> bool" where
  "commanded s j s' \<longleftrightarrow> (\<exists>s1. s' = control_light j s1 \<and> mq_lora_send s1 = mq_lora_send s \<and> base_freq s1 = base_freq s \<and>
     light s1 j = (light s j)\<lparr>l_correct_color := colour s j\<rparr> \<and> l_num (g_light_info_list s1) = l_num (g_light_info_list s))"

lemma control_light_lights:
  fixes s :: "'a app_st_scheme"
  assumes "i < length (light_info (g_light_info_list s))"
  shows "light (control_light i s) i = (light s i)\<lparr>l_time_left := l_time_left (light s i) - 1\<rparr>"
    "j \<noteq> i \<Longrightarrow> light (control_light i s) j = light s j"
  using assms by (auto simp: control_light_def Let_def send_lora_def upd_light_def app_simps)

text \<open>The lights after a pass that stopped with a command at the \<open>k\<close>-th light.\<close>

definition visited :: "'a app_st_scheme \<Rightarrow> nat \<Rightarrow> nat \<Rightarrow> 'a app_st_scheme \<Rightarrow> bool" where
  "visited s i k s' \<longleftrightarrow> (\<forall>k' < k. light s' (pos s i k') = light (settle (pos s i k') s) (pos s i k')) \<and>
     light s' (pos s i k) = (light s (pos s i k))\<lparr>l_correct_color := colour s (pos s i k),
       l_time_left := l_time_left (light s (pos s i k)) - 1\<rparr> \<and>
     (\<forall>j. (\<forall>k' \<le> k. j \<noteq> pos s i k') \<longrightarrow> light s' j = light s j)"

lemma visited_first:
  fixes s :: "'a app_st_scheme"
  assumes "pos s i 0 = i" and "i < length (light_info (g_light_info_list s))"
  shows "visited s i 0 (control_light i (set_correct i s))"
proof -
  have i: "i < length (light_info (g_light_info_list (set_correct i s)))"
    using assms(2) by (simp add: set_correct_def upd_light_def)
  have "light (set_correct i s) j = light s j" if "j \<noteq> i" for j
    using that by (simp add: set_correct_def upd_light_def)
  then show ?thesis
    using control_light_lights [OF i] set_correct_light [OF assms(2)] assms(1) by (simp add: visited_def)
qed

lemma visited_Suc:
  fixes s :: "'a app_st_scheme"
  assumes v: "visited (settle i s) (nxt s i) k s'" and ps: "\<And>k. pos s (nxt s i) k = pos s i (Suc k)"
    and p0: "pos s i 0 = i" and ne: "\<And>k'. k' \<le> k \<Longrightarrow> pos s i (Suc k') \<noteq> i"
  shows "visited s i (Suc k) s'"
proof -
  note v' = v [unfolded visited_def pos_settle ps settle_fields(5)]
  have "light s' (pos s i k') = light (settle (pos s i k') s) (pos s i k')" if "k' < Suc k" for k'
  proof (cases k')
    case 0
    have "\<forall>x \<le> k. i \<noteq> pos s i (Suc x)" using ne by metis
    then show ?thesis using v' by (simp add: 0 p0)
  next
    case (Suc x)
    then show ?thesis using v' that ne [of x] settle_settle_light [of "pos s i k'" i s] by simp
  qed
  moreover have "light s' j = light s j" if j: "\<forall>k' \<le> Suc k. j \<noteq> pos s i k'" for j
  proof -
    have "j \<noteq> i" "\<forall>k' \<le> k. j \<noteq> pos s i (Suc k')" using j p0 by force+
    then show ?thesis using v' settle_other [of j i s] by simp
  qed
  ultimately show ?thesis using v' settle_other [OF ne [of k], of s] by (simp add: visited_def)
qed

lemma scan_result:
  fixes s :: "'a app_st_scheme"
  assumes "i < l_num (g_light_info_list s)" and "l_num (g_light_info_list s) \<le> length (light_info (g_light_info_list s))"
    and "r \<le> l_num (g_light_info_list s)"
  shows "(\<forall>k < r. \<not> needs s (pos s i k)) \<and> mq_lora_send (scan r i s) = mq_lora_send s \<and>
      light_index (scan r i s) = light_index s \<and>
      (\<forall>k < r. light (scan r i s) (pos s i k) = light (settle (pos s i k) s) (pos s i k)) \<and>
      (\<forall>j. (\<forall>k < r. j \<noteq> pos s i k) \<longrightarrow> light (scan r i s) j = light s j) \<or>
    (\<exists>k < r. needs s (pos s i k) \<and> (\<forall>k' < k. \<not> needs s (pos s i k')) \<and> commanded s (pos s i k) (scan r i s) \<and>
      visited s i k (scan r i s))"
  using assms
proof (induction r arbitrary: i s)
  case (Suc r)
  let ?n = "l_num (g_light_info_list s)"
  have i: "i < length (light_info (g_light_info_list s))" and p0: "pos s i 0 = i" using Suc.prems pos_0 by auto
  show ?case
  proof (cases "needs s i")
    case True
    have "commanded s i (control_light i (set_correct i s))"
      unfolding commanded_def using i
      by (intro exI [of _ "set_correct i s"]) (auto simp: set_correct_light, auto simp: set_correct_def upd_light_def)
    then show ?thesis using True p0 visited_first [OF p0 i] by (intro disjI2 exI [of _ 0]) simp
  next
    case False
    let ?s = "settle i s"
    have nx: "nxt s i < ?n" using Suc.prems(1) by (auto simp: nxt_def)
    have ps: "pos s (nxt s i) k = pos s i (Suc k)" for k by (rule pos_nxt [OF Suc.prems(1)])
    have ne: "pos s i (Suc k) \<noteq> i" if "k < r" for k
      using pos_inj [of s i "Suc k" 0] that Suc.prems(3) p0 by auto
    have nd: "needs ?s (pos s i (Suc k)) = needs s (pos s i (Suc k))" if "k < r" for k
      by (rule needs_settle [OF ne [OF that]])
    have sc: "scan (Suc r) i s = scan r (nxt s i) ?s" using False by simp
    have IH: "(\<forall>k < r. \<not> needs ?s (pos s i (Suc k))) \<and> mq_lora_send (scan r (nxt s i) ?s) = mq_lora_send s \<and>
        light_index (scan r (nxt s i) ?s) = light_index s \<and>
        (\<forall>k < r. light (scan r (nxt s i) ?s) (pos s i (Suc k)) = light (settle (pos s i (Suc k)) ?s) (pos s i (Suc k))) \<and>
        (\<forall>j. (\<forall>k < r. j \<noteq> pos s i (Suc k)) \<longrightarrow> light (scan r (nxt s i) ?s) j = light ?s j) \<or>
      (\<exists>k < r. needs ?s (pos s i (Suc k)) \<and> (\<forall>k' < k. \<not> needs ?s (pos s i (Suc k'))) \<and>
        commanded ?s (pos s i (Suc k)) (scan r (nxt s i) ?s) \<and> visited ?s (nxt s i) k (scan r (nxt s i) ?s))"
      using Suc.IH [of "nxt s i" ?s] nx Suc.prems by (simp add: ps)
    then show ?thesis
    proof (elim disjE exE conjE)
      assume a: "\<forall>k < r. \<not> needs ?s (pos s i (Suc k))" "mq_lora_send (scan r (nxt s i) ?s) = mq_lora_send s"
        "\<forall>k < r. light (scan r (nxt s i) ?s) (pos s i (Suc k)) = light (settle (pos s i (Suc k)) ?s) (pos s i (Suc k))"
        "\<forall>j. (\<forall>k < r. j \<noteq> pos s i (Suc k)) \<longrightarrow> light (scan r (nxt s i) ?s) j = light ?s j"
        and x: "light_index (scan r (nxt s i) ?s) = light_index s"
      have "\<not> needs s (pos s i k)" if "k < Suc r" for k
        using that a(1) False p0 nd by (cases k) auto
      moreover have "light (scan (Suc r) i s) (pos s i k) = light (settle (pos s i k) s) (pos s i k)" if "k < Suc r" for k
      proof (cases k)
        case 0
        have "\<forall>k < r. i \<noteq> pos s i (Suc k)" using ne by metis
        then show ?thesis using a(4) by (simp only: sc 0 p0)
      next
        case (Suc k')
        then show ?thesis using a(3) that ne [of k'] settle_settle_light [of "pos s i k" i s] by (simp add: sc del: scan.simps)
      qed
      moreover have "light (scan (Suc r) i s) j = light s j" if j: "\<forall>k < Suc r. j \<noteq> pos s i k" for j
      proof -
        have "j \<noteq> i" using j p0 by force
        moreover have "\<forall>k < r. j \<noteq> pos s i (Suc k)" using j by auto
        ultimately show ?thesis using a(4) settle_other [of j i s] by (simp add: sc del: scan.simps)
      qed
      ultimately show ?thesis using a(2) x by (simp add: sc del: scan.simps)
    next
      fix k assume k: "k < r" "needs ?s (pos s i (Suc k))" "\<forall>k' < k. \<not> needs ?s (pos s i (Suc k'))"
        "commanded ?s (pos s i (Suc k)) (scan r (nxt s i) ?s)" "visited ?s (nxt s i) k (scan r (nxt s i) ?s)"
      have b: "\<not> needs s (pos s i k')" if "k' < Suc k" for k'
        using that k(1,3) False p0 nd by (cases k') auto
      have "commanded s (pos s i (Suc k)) (scan (Suc r) i s)"
        using k(4) settle_other [OF ne [OF k(1)], of s] unfolding commanded_def sc by simp
      moreover have "needs s (pos s i (Suc k))" using k(2) nd [OF k(1)] by simp
      moreover have "visited s i (Suc k) (scan (Suc r) i s)"
        unfolding sc by (rule visited_Suc [OF k(5) ps p0 ne]) (use k(1) in simp)
      ultimately show ?thesis using k(1) b by (intro disjI2 exI [of _ "Suc k"]) auto
    qed
  qed
qed simp

section \<open>Properties\<close>

lemma colour_calc:
  assumes "j < MAX_LIGHT_PER_WNC" and "relations_wf (g_relation_list s)"
  shows "colour (calc_empty s) j = (if free_places s j \<noteq> {} then LIGHT_COLOR_GREEN else LIGHT_COLOR_RED)"
proof -
  have f: "finite (free_places s j)" by (simp add: free_places_def)
  have "light_num (g_relation_list s) \<le> MAX_LIGHT_PER_WNC" using assms(2) by (simp add: relations_wf_def)
  then show ?thesis using empty_counts [OF assms(1), of s] card_gt_0_iff [of "free_places s j"] f by (simp add: colour_def)
qed

lemma control_light_result:
  fixes s :: "'a app_st_scheme"
  assumes "j < l_num (g_light_info_list s)"
  shows "mq_lora_send (control_light j s) = mq_put (MSG_LORA_SEND_DATA (control_pkt (light s j) s)) (mq_lora_send s)"
    "light_index (control_light j s) = (j + 1) mod l_num (g_light_info_list s)"
  using assms by (auto simp: control_light_def Let_def send_lora_def upd_light_def app_simps control_pkt_def get_tx_freq_def mod_if)

text \<open>C9: one call of the light control, with the lists within their bounds and the static index inside the light list
  (otherwise it may not end). A light is to be green when one of the detectors it belongs to reports a free place, red
  otherwise. The call ends, and either no light waits for a command: every light has its colour recorded and shows it, or is
  offline afterwards, nothing is queued and the index stays; or exactly one command is queued, to the first light in turn
  that is online, shows the wrong colour and still has tries left: it has its colour recorded and one try less, the
  lights before it have their colour recorded and show it or are offline afterwards, the lights behind it are unchanged, and
  the next call starts behind it.\<close>

theorem analyse_light_state_commands:
  fixes s :: "'a app_st_scheme"
  assumes "app_wf s" and "light_index s < l_num (g_light_info_list s)"
  defines "goal \<equiv> \<lambda>j. if free_places s j \<noteq> {} then LIGHT_COLOR_GREEN else LIGHT_COLOR_RED"
  defines "waits \<equiv> \<lambda>j. l_state (light s j) \<noteq> NODE_STATE_OFFLINE \<and> l_current_color (light s j) \<noteq> goal j \<and> l_time_left (light s j) > 0"
  defines "settled \<equiv> \<lambda>j. (light s j)\<lparr>l_correct_color := goal j,
    l_state := if l_current_color (light s j) = goal j then l_state (light s j) else NODE_STATE_OFFLINE\<rparr>"
  shows "\<exists>s'. analyse_light_state s = Some s' \<and>
    ((\<forall>j < l_num (g_light_info_list s). \<not> waits j \<and> light s' j = settled j) \<and>
        mq_lora_send s' = mq_lora_send s \<and> light_index s' = light_index s \<or>
     (\<exists>k < l_num (g_light_info_list s). let j = (light_index s + k) mod l_num (g_light_info_list s) in
        waits j \<and> light s' j = (light s j)\<lparr>l_correct_color := goal j, l_time_left := l_time_left (light s j) - 1\<rparr> \<and>
        (\<forall>k' < k. let j' = (light_index s + k') mod l_num (g_light_info_list s) in \<not> waits j' \<and> light s' j' = settled j') \<and>
        (\<forall>j'. (\<forall>k' \<le> k. j' \<noteq> (light_index s + k') mod l_num (g_light_info_list s)) \<longrightarrow> light s' j' = light s j') \<and>
        light_index s' = (j + 1) mod l_num (g_light_info_list s) \<and>
        mq_lora_send s' = mq_put (MSG_LORA_SEND_DATA (control_pkt (zero_light\<lparr>l_id := l_id (light s j), l_correct_color := goal j\<rparr>) s))
          (mq_lora_send s)))"
proof -
  let ?n = "l_num (g_light_info_list s)" and ?i = "light_index s" and ?e = "calc_empty s"
  have w: "lights_wf (g_light_info_list s)" "relations_wf (g_relation_list s)" "?n \<le> length (light_info (g_light_info_list s))" "?n \<le> 40"
    using assms(1) by (auto simp: app_wf_def lights_wf_def)
  have f: "g_light_info_list ?e = g_light_info_list s" "mq_lora_send ?e = mq_lora_send s" "base_freq ?e = base_freq s"
    "light_index ?e = light_index s" by (simp_all add: calc_empty_def)
  have pe: "pos ?e = pos s" by (simp add: pos_def f fun_eq_iff)
  have lt: "pos s ?i k < ?n" for k using assms(2) by (simp add: pos_def)
  have g: "colour ?e j = goal j" if "j < ?n" for j using colour_calc [OF _ w(2), of j] that w(4) by (simp add: goal_def)
  have nd: "needs ?e j = waits j" if "j < ?n" for j using g [OF that] by (simp add: needs_def waits_def f)
  have st: "light (settle j ?e) j = settled j" if "j < ?n" "\<not> waits j" for j
    using that w(3) g [OF that(1)] settle_light [of j ?e] by (auto simp: settled_def waits_def f)
  let ?s = "scan ?n ?i ?e"
  have r: "analyse_light_state s = Some ?s" by (rule analyse_scan [OF assms(2) w(1)])
  have "(\<forall>k < ?n. \<not> needs ?e (pos s ?i k)) \<and> mq_lora_send ?s = mq_lora_send s \<and> light_index ?s = light_index s \<and>
      (\<forall>k < ?n. light ?s (pos s ?i k) = light (settle (pos s ?i k) ?e) (pos s ?i k)) \<or>
    (\<exists>k < ?n. needs ?e (pos s ?i k) \<and> (\<forall>k' < k. \<not> needs ?e (pos s ?i k')) \<and> commanded ?e (pos s ?i k) ?s \<and> visited ?e ?i k ?s)"
    using scan_result [of ?i ?e ?n] assms(2) w(3) unfolding pe f by blast
  then show ?thesis
  proof (elim disjE exE conjE)
    assume a: "\<forall>k < ?n. \<not> needs ?e (pos s ?i k)" "mq_lora_send ?s = mq_lora_send s" "light_index ?s = light_index s"
      "\<forall>k < ?n. light ?s (pos s ?i k) = light (settle (pos s ?i k) ?e) (pos s ?i k)"
    have "\<not> waits j \<and> light ?s j = settled j" if j: "j < ?n" for j
    proof -
      define k where "k = (j + ?n - ?i) mod ?n"
      have k: "k < ?n" "pos s ?i k = j" using j assms(2) by (auto simp: k_def pos_def mod_simps)
      have "\<not> waits j" using a(1) k nd [OF j] by metis
      moreover have "light ?s j = light (settle j ?e) j" using a(4) k by metis
      ultimately show ?thesis using st [OF j] by simp
    qed
    then show ?thesis using r a(2,3) by blast
  next
    fix k assume k: "k < ?n" "needs ?e (pos s ?i k)" "\<forall>k' < k. \<not> needs ?e (pos s ?i k')" "commanded ?e (pos s ?i k) ?s"
      "visited ?e ?i k ?s"
    let ?j = "pos s ?i k"
    obtain s1 where s1: "?s = control_light ?j s1" "mq_lora_send s1 = mq_lora_send s" "base_freq s1 = base_freq s"
      "light s1 ?j = (light s ?j)\<lparr>l_correct_color := goal ?j\<rparr>" "l_num (g_light_info_list s1) = ?n"
      using k(4) g [OF lt] unfolding commanded_def f by auto
    have m: "mq_lora_send ?s = mq_put (MSG_LORA_SEND_DATA (control_pkt (light s1 ?j) s1)) (mq_lora_send s1)"
      "light_index ?s = pos s ?j 1"
      using control_light_result [of ?j s1] lt [of k] unfolding s1(1,5) by (simp_all add: pos_def [of s ?j])
    have p: "control_pkt (light s1 ?j) s1 = control_pkt (zero_light\<lparr>l_id := l_id (light s ?j), l_correct_color := goal ?j\<rparr>) s"
      by (simp add: control_pkt_def s1(3,4) get_tx_freq_def)
    have b: "\<not> waits (pos s ?i k')" if "k' < k" for k' using k(3) that nd [OF lt] by blast
    have v: "light ?s (pos s ?i k') = settled (pos s ?i k')" if "k' < k" for k'
      using k(5) that st [OF lt b [OF that]] unfolding visited_def pe f by simp
    have u: "light ?s ?j = (light s ?j)\<lparr>l_correct_color := goal ?j, l_time_left := l_time_left (light s ?j) - 1\<rparr>"
      using k(5) g [OF lt] unfolding visited_def pe f by simp
    have o: "light ?s j' = light s j'" if "\<forall>k' \<le> k. j' \<noteq> pos s ?i k'" for j'
      using k(5) that unfolding visited_def pe f by blast
    show ?thesis
      unfolding pos_def [symmetric] Let_def
      using r k(1,2) nd [OF lt, of k] m p s1(2) b v u o by (intro exI [of _ ?s] conjI disjI2 exI [of _ k] allI impI) simp_all
  qed
qed

text \<open>The static index behind the end of the list, and no light that needs a command.\<close>

definition stuck :: "'a app_st_scheme \<Rightarrow> bool" where
  "stuck s \<longleftrightarrow> 0 < l_num (g_light_info_list s) \<and> l_num (g_light_info_list s) \<le> light_index s \<and>
     light_index s < length (light_info (g_light_info_list s)) \<and> \<not> needs s (light_index s) \<and>
     (\<forall>i < l_num (g_light_info_list s). \<not> needs s i)"

lemma stuck_settle: "stuck s \<Longrightarrow> \<not> needs s i \<Longrightarrow> i < length (light_info (g_light_info_list s)) \<Longrightarrow> stuck (settle i s)"
  for s :: "'a app_st_scheme"
proof -
  assume a: "stuck s" "\<not> needs s i" "i < length (light_info (g_light_info_list s))"
  have "\<not> needs (settle i s) i" using a(2,3) settle_light [OF a(3)] by (auto simp: needs_def)
  then have "\<not> needs (settle i s) j" if "\<not> needs s j" for j using that needs_settle [of j i s] by (cases "j = i") auto
  then show ?thesis using a(1) by (simp add: stuck_def)
qed

lemma stuck_loop:
  assumes "light_loop i b s = Some s'"
  shows "\<not> (stuck s \<and> (i < l_num (g_light_info_list s) \<or> i = light_index s \<and> b))"
proof (rule light_loop.raw_induct [where P = "\<lambda>i b s s'. \<not> (stuck s \<and> (i < l_num (g_light_info_list s) \<or> i = light_index s \<and> b))",
    OF _ assms], rule notI, goal_cases)
  case (1 loop i b s s')
  have s: "0 < l_num (g_light_info_list s)" "l_num (g_light_info_list s) \<le> light_index s" "i < length (light_info (g_light_info_list s))"
    and n: "\<not> needs s i" and st: "stuck s" using 1(3) by (auto simp: stuck_def)
  let ?w = "l_state (light (set_correct i s) i) \<noteq> 251 \<and> l_correct_color (light (set_correct i s) i) \<noteq> l_current_color (light (set_correct i s) i)"
  let ?t = "if ?w then upd_light i (\<lambda>l. l\<lparr>l_state := NODE_STATE_OFFLINE\<rparr>) (set_correct i s) else set_correct i s"
  have l: "light (set_correct i s) i = (light s i)\<lparr>l_correct_color := colour s i\<rparr>" by (rule set_correct_light [OF s(3)])
  have t: "?t = settle i s"
    using s(3) unfolding l by (auto simp: settle_def set_correct_def upd_light_def colour_def)
  have nw: "\<not> (?w \<and> 0 < l_time_left (light (set_correct i s) i))" using n unfolding l by (auto simp: needs_def)
  have go: "i \<noteq> light_index s \<or> b" using 1(3) s by auto
  have "loop (if i + 1 \<ge> l_num (g_light_info_list ?t) then 0 else i + 1) False ?t = Some s'"
    using 1(2) go s(1) nw by (auto simp: Let_def split: if_splits)
  then have "\<not> (stuck (settle i s) \<and> nxt s i < l_num (g_light_info_list s))"
    unfolding t using 1(1) by (force simp: nxt_def)
  moreover have "nxt s i < l_num (g_light_info_list s)" using s(1) by (simp add: nxt_def)
  ultimately show ?case using stuck_settle [OF st n s(3)] by blast
qed

text \<open>C37: when a new light list is not empty but ends before the static index that the last command left behind, and neither a
  light of the list nor the one at the index waits for a command, the light control never returns: the search passes the end of the list, starts again at the first
  light and never meets the index, so that the data process thread hangs.\<close>

theorem analyse_light_state_hangs:
  fixes s :: "'a app_st_scheme"
  assumes "app_wf s" and "0 < l_num (g_light_info_list s)" and "l_num (g_light_info_list s) \<le> light_index s"
    and "\<And>j. j < l_num (g_light_info_list s) \<or> j = light_index s \<Longrightarrow> l_state (light s j) = NODE_STATE_OFFLINE \<or>
      l_current_color (light s j) = (if free_places s j \<noteq> {} then LIGHT_COLOR_GREEN else LIGHT_COLOR_RED) \<or> l_time_left (light s j) = 0"
  shows "analyse_light_state s = None"
proof -
  have w: "relations_wf (g_relation_list s)" "l_num (g_light_info_list s) \<le> 40" "light_index s < 40" "length (light_info (g_light_info_list s)) = 40"
    using assms(1) by (auto simp: app_wf_def lights_wf_def)
  have f: "g_light_info_list (calc_empty s) = g_light_info_list s" "light_index (calc_empty s) = light_index s"
    by (simp_all add: calc_empty_def)
  have "\<not> needs (calc_empty s) j" if "j < l_num (g_light_info_list s) \<or> j = light_index s" for j
    using assms(4) [OF that] colour_calc [OF _ w(1), of j] that w(2,3) by (auto simp: needs_def f)
  then have st: "stuck (calc_empty s)" using assms(2,3) w(3,4) unfolding stuck_def f by auto
  show ?thesis
  proof (cases "analyse_light_state s")
    case (Some s')
    then have "light_loop (light_index (calc_empty s)) True (calc_empty s) = Some s'" by (simp add: analyse_light_state_def Let_def)
    from stuck_loop [OF this] show ?thesis using st by simp
  qed
qed

section \<open>Concrete calls\<close>

lemma demo_nth:
  "d_num demo_detectors = Suc (Suc 0)" "d_state (detector_info demo_detectors ! 0) = 0" "d_state (detector_info demo_detectors ! Suc 0) = 1"
  "light_num demo_relations = Suc (Suc 0)" "mask_bytes (relation demo_relations ! 0) = [1, 0, 0, 0, 0]"
  "mask_bytes (relation demo_relations ! Suc 0) = [2, 0, 0, 0, 0]"
  by (simp_all add: demo_detectors_def demo_relations_def zero_detector_def)

lemma below_two: "{i. i < Suc (Suc 0) \<and> P i} = (if P 0 then {0} else {}) \<union> (if P (Suc 0) then {Suc 0} else {})"
  by (auto simp: less_Suc_eq split: if_splits) (metis gr0I)+

lemma demo_free: "free_places demo_app 0 = {0}" "free_places demo_app (Suc 0) = {}" "free_places (demo_app\<lparr>light_index := 5\<rparr>) 5 = {}"
  "free_places (demo_app\<lparr>light_index := 5, g_light_info_list := l\<rparr>) 5 = {}"
  "free_places (demo_app\<lparr>light_index := 5, g_light_info_list := l\<rparr>) (Suc 0) = {}"
  by (simp_all add: free_places_def watches_def demo_nth below_two)

theorem analyse_light_state_commands_witness:
  "\<exists>s'. analyse_light_state demo_app = Some s' \<and> mq_lora_send s' =
     [MSG_LORA_SEND_DATA (control_pkt (zero_light\<lparr>l_id := 7, l_correct_color := LIGHT_COLOR_GREEN\<rparr>) demo_app)]"
proof -
  have i: "light_index demo_app < l_num (g_light_info_list demo_app)" by (simp add: demo_lights_def)
  have l: "l_num demo_lights = Suc (Suc 0)" "light_info demo_lights ! 0 = zero_light\<lparr>l_id := 7, l_current_color := LIGHT_COLOR_RED, l_time_left := 10\<rparr>"
    "light_info demo_lights ! Suc 0 = zero_light\<lparr>l_id := 8, l_current_color := LIGHT_COLOR_RED, l_time_left := 10\<rparr>"
    by (simp_all add: demo_lights_def)
  show ?thesis
    using analyse_light_state_commands [OF demo_app_wf i]
    by (auto simp: l less_Suc_eq pos_def demo_free zero_light_def mq_put_def)
qed

theorem analyse_light_state_hangs_witness:
  "analyse_light_state (demo_app\<lparr>light_index := 5, g_light_info_list := demo_lights
     \<lparr>light_info := (light_info demo_lights)[0 := zero_light\<lparr>l_state := NODE_STATE_OFFLINE\<rparr>]\<rparr>\<rparr>) = None"
proof (rule analyse_light_state_hangs, goal_cases)
  case 1
  then show ?case using demo_app_wf by (simp add: app_wf_def lights_wf_def demo_lights_def)
next
  case (4 j)
  then have "j = 0 \<or> j = Suc 0 \<or> j = 5" by (auto simp: demo_lights_def)
  then show ?case by (auto simp: demo_free demo_lights_def zero_light_def)
qed (simp_all add: demo_lights_def)

end
