(* ===== verification/Led_Thread.thy ===== *)
theory Led_Thread
  imports App_Base
begin

text \<open>
  The LED matrix, \<open>user_thread/thread_led/thread_led.c\<close>: a buffer of eight bytes, one per row, that the
  refresh shows row by row, and the test pattern. The state has the static variables of the functions and the levels of
  the row and column pins (true for a pin that is switched on).
\<close>

record led_st =
  dot_buf :: "byte list"
  led_row :: byte
  rows_on :: "bool list"
  columns_on :: "bool list"
  direction :: bool
  line_num :: byte
  test_value :: byte
  test_mode :: bool
  test_timer :: bool

definition led_init :: "led_st \<Rightarrow> led_st" where
  "led_init s = s\<lparr>dot_buf := (replicate 8 0)[7 := 0x05]\<rparr>"

definition refresh_led :: "led_st \<Rightarrow> led_st" where
  "refresh_led s =
     (let row = unat (led_row s);
          s1 = s\<lparr>rows_on := map (\<lambda>i. row = i) [0..<8],
            columns_on := map (\<lambda>i. (dot_buf s ! row) AND drop_bit i 0x80 \<noteq> 0) [0..<8], led_row := led_row s + 1\<rparr>
      in if led_row s1 > 7 then s1\<lparr>led_row := 0\<rparr> else s1)"

definition led_test_fresh_buf :: "led_st \<Rightarrow> led_st" where
  "led_test_fresh_buf s =
     (if direction s
      then (let s1 = s\<lparr>dot_buf := (replicate 8 0)[unat (line_num s) := 0xff], line_num := line_num s + 1\<rparr>
            in if line_num s1 > 7 then s1\<lparr>line_num := 0, direction := \<not> direction s1\<rparr> else s1)
      else (let s1 = s\<lparr>dot_buf := replicate 8 (test_value s), test_value := drop_bit 1 (test_value s)\<rparr>
            in if test_value s1 = 0 then s1\<lparr>test_value := 0x80, direction := \<not> direction s1\<rparr> else s1))"

fun thread_led :: "stu_led_msg \<Rightarrow> led_st \<Rightarrow> led_st" where
  "thread_led MSG_LED_REFRESH s = refresh_led s"
| "thread_led (MSG_LED_SET_LED st row column) s =
     (let b = dot_buf s ! unat row; m = drop_bit (unat column) 0x80
      in s\<lparr>dot_buf := (dot_buf s)[unat row := if st = OFF then b AND NOT m else b OR m]\<rparr>)"
| "thread_led MSG_LED_TEST s =
     (if \<not> test_mode s then s\<lparr>test_mode := True, test_timer := True\<rparr>
      else led_init (s\<lparr>test_mode := False, test_timer := False\<rparr>))"

definition callback_timer_led_test :: "led_st \<Rightarrow> led_st" where
  "callback_timer_led_test s = (if test_timer s then led_test_fresh_buf s else s)"

section \<open>Invariant\<close>

definition led_wf :: "led_st \<Rightarrow> bool" where
  "led_wf s \<longleftrightarrow> length (dot_buf s) = 8 \<and> led_row s \<le> 7 \<and> line_num s \<le> 7"

lemma small_next: "(r :: byte) \<le> 7 \<Longrightarrow> r + 1 > 7 \<longleftrightarrow> r = 7" "(r :: byte) \<le> 7 \<Longrightarrow> unat r < 8"
  "(r :: byte) \<le> 7 \<Longrightarrow> r \<noteq> 7 \<Longrightarrow> unat (r + 1) = unat r + 1"
proof -
  assume "r \<le> 7"
  then have u: "unat r \<le> 7" by (simp add: word_le_nat_alt)
  then have s: "unat (r + 1) = unat r + 1" by (simp add: unat_word_ariths)
  have e: "r = 7 \<longleftrightarrow> unat r = 7" by (auto simp: word_unat_eq_iff)
  show "r + 1 > 7 \<longleftrightarrow> r = 7" using u s e by (auto simp: word_less_nat_alt)
  show "unat r < 8" using u by simp
  show "r \<noteq> 7 \<Longrightarrow> unat (r + 1) = unat r + 1" using s by simp
qed

lemma led_wf_refresh: "led_wf s \<Longrightarrow> led_wf (refresh_led s)"
  "led_wf s \<Longrightarrow> unat (led_row (refresh_led s)) = (unat (led_row s) + 1) mod 8" "dot_buf (refresh_led s) = dot_buf s"
proof -
  assume w: "led_wf s"
  then have r: "led_row s \<le> 7" by (simp add: led_wf_def)
  note n = small_next [OF r]
  show "led_wf (refresh_led s)"
    using w n(1) by (auto simp: led_wf_def refresh_led_def Let_def)
  show "unat (led_row (refresh_led s)) = (unat (led_row s) + 1) mod 8"
  proof (cases "led_row s = 7")
    case False
    then have "unat (led_row s) \<noteq> 7" by (simp add: word_unat_eq_iff)
    then show ?thesis using n False by (auto simp: refresh_led_def Let_def)
  qed (simp add: refresh_led_def Let_def)
qed (simp add: refresh_led_def Let_def)

lemma led_wf_steps: "led_wf s \<Longrightarrow> led_wf (thread_led m s)" "led_wf s \<Longrightarrow> led_wf (callback_timer_led_test s)"
proof -
  assume w: "led_wf s"
  show "led_wf (thread_led m s)"
    using w led_wf_refresh(1) [OF w] by (cases m) (auto simp: led_wf_def led_init_def Let_def)
  have l: "line_num s \<le> 7" using w by (simp add: led_wf_def)
  show "led_wf (callback_timer_led_test s)"
    using w small_next(1) [OF l] by (auto simp: led_wf_def callback_timer_led_test_def led_test_fresh_buf_def Let_def)
qed

section \<open>What the matrix shows\<close>

lemma mask_bit: "c < 8 \<Longrightarrow> (b :: byte) AND drop_bit c 0x80 \<noteq> 0 \<longleftrightarrow> bit b (7 - c)"
proof -
  assume "c < 8"
  then have "c = 0 \<or> c = 1 \<or> c = 2 \<or> c = 3 \<or> c = 4 \<or> c = 5 \<or> c = 6 \<or> c = 7" by linarith
  then have "drop_bit c 0x80 = (push_bit (7 - c) 1 :: byte)" by (elim disjE) simp_all
  then show ?thesis by (simp add: bit_iff_and_push_bit_not_eq_0)
qed

lemma refresh_iter:
  assumes "led_wf s"
  shows "led_wf ((refresh_led ^^ k) s) \<and> dot_buf ((refresh_led ^^ k) s) = dot_buf s \<and>
    unat (led_row ((refresh_led ^^ k) s)) = (unat (led_row s) + k) mod 8"
proof (induction k)
  case 0
  then show ?case using assms small_next(2) [of "led_row s"] by (simp add: led_wf_def)
next
  case (Suc k)
  then show ?case using led_wf_refresh [of "(refresh_led ^^ k) s"] by (simp add: mod_simps)
qed

lemma refresh_shows:
  assumes "led_wf s"
  shows "rows_on (refresh_led s) = map (\<lambda>i. unat (led_row s) = i) [0..<8]"
    "c < 8 \<Longrightarrow> columns_on (refresh_led s) ! c \<longleftrightarrow> bit (dot_buf s ! unat (led_row s)) (7 - c)"
  by (simp_all add: refresh_led_def Let_def mask_bit)

text \<open>C38: the matrix shows what was set. After a command that sets one LED, eight refreshes in a row, starting at
  whatever row is next, switch on each row exactly once, each with the columns of the old picture in which only
  that LED has its new state.\<close>

theorem led_shows_picture:
  fixes st :: led_state
  assumes "led_wf s" and "row \<le> 7" and "column \<le> 7" and "k < 8"
  defines "s' \<equiv> (refresh_led ^^ Suc k) (thread_led (MSG_LED_SET_LED st row column) s)"
    and "r \<equiv> (unat (led_row s) + k) mod 8"
  shows "rows_on s' = map (\<lambda>i. r = i) [0..<8] \<and>
    (\<forall>c < 8. columns_on s' ! c = (if r = unat row \<and> c = unat column then st = ON else bit (dot_buf s ! r) (7 - c)))"
proof -
  let ?s1 = "thread_led (MSG_LED_SET_LED st row column) s"
  have w1: "led_wf ?s1" by (rule led_wf_steps(1) [OF assms(1)])
  have lr: "led_row ?s1 = led_row s" by (simp add: Let_def)
  define t where "t = (refresh_led ^^ k) ?s1"
  have t: "led_wf t" "dot_buf t = dot_buf ?s1" "unat (led_row t) = r"
    using refresh_iter [OF w1, of k] lr by (simp_all add: t_def r_def)
  have s': "s' = refresh_led t" by (simp add: s'_def t_def)
  have rc: "unat row < 8" "unat column < 8" "r < 8" "length (dot_buf s) = 8"
    using small_next(2) assms(1-3) by (auto simp: r_def led_wf_def)
  have "columns_on s' ! c = (if r = unat row \<and> c = unat column then st = ON else bit (dot_buf s ! r) (7 - c))" if c: "c < 8" for c
  proof -
    have m: "bit (drop_bit (unat column) 0x80 :: byte) (7 - c) \<longleftrightarrow> c = unat column"
    proof -
      have "drop_bit (unat column) 0x80 AND drop_bit c 0x80 \<noteq> (0 :: byte) \<longleftrightarrow> c = unat column"
      proof -
        have "unat column \<in> {0, 1, 2, 3, 4, 5, 6, 7}" "c \<in> {0, 1, 2, 3, 4, 5, 6, 7}" using rc(2) c by auto
        then show ?thesis by (elim insertE emptyE) simp_all
      qed
      then show ?thesis using mask_bit [OF c] by simp
    qed
    have "columns_on s' ! c \<longleftrightarrow> bit (dot_buf ?s1 ! r) (7 - c)"
      unfolding s' using refresh_shows(2) [OF t(1) c] t(2,3) by simp
    then show ?thesis using rc c m
      by (cases "r = unat row"; cases st) (auto simp: Let_def bit_and_iff bit_or_iff bit_not_iff)
  qed
  moreover have "rows_on s' = map (\<lambda>i. r = i) [0..<8]" unfolding s' using refresh_shows(1) [OF t(1)] t(3) by simp
  ultimately show ?thesis by blast
qed

definition demo_led :: led_st where
  "demo_led = led_init \<lparr>dot_buf = replicate 8 0, led_row = 6, rows_on = [], columns_on = [], direction = False, line_num = 0,
     test_value = 0x80, test_mode = False, test_timer = False\<rparr>"

theorem led_shows_picture_witness:
  "columns_on ((refresh_led ^^ Suc 1) (thread_led (MSG_LED_SET_LED ON 7 6) demo_led)) ! 6"
  using led_shows_picture [of demo_led 7 6 1 ON] by (simp add: demo_led_def led_init_def led_wf_def)

end
