(* ===== verification/Lora_Radio.thy ===== *)
theory Lora_Radio
  imports Complex_Main Data_Process
begin

text \<open>
  The radio side of the application: \<open>thread_lora_api.c\<close> (configuration of the receive channels),
  \<open>thread_lora_recv.c\<close> (packets from the concentrator chip to the data process thread) and \<open>thread_lora_send.c\<close>
  (queued packets to the chip). The radio library \<open>libloragw\<close> appears through its interface: the configuration calls,
  the packets \<open>lgw_receive\<close> delivers, the packets given to \<open>lgw_send\<close>, the register \<open>LGW_TX_MODE\<close> and the
  sequence of status codes \<open>lgw_status\<close> reports. While the transmission test runs, the sending thread keeps the
  mutex of the chip, so that the receiving thread waits.
\<close>

section \<open>Channel configuration\<close>

record lgw_conf_rxrf_s =
  rfc_enable :: bool
  rfc_freq :: u32
  rfc_tx_enable :: bool

record lgw_conf_rxif_s =
  if_enable :: bool
  if_rf_chain :: nat
  if_freq :: int
  if_bandwidth :: byte
  if_datarate :: u32

datatype lgw_call = Lgw_board_setconf bool nat | Lgw_rxrf_setconf nat lgw_conf_rxrf_s | Lgw_rxif_setconf nat lgw_conf_rxif_s | Lgw_start

definition multi_sf :: "nat \<Rightarrow> int \<Rightarrow> lgw_conf_rxif_s" where
  "multi_sf rc f = \<lparr>if_enable = True, if_rf_chain = rc, if_freq = f, if_bandwidth = 0, if_datarate = 0x7E\<rparr>"

definition parse_module_config :: "'a app_st_scheme \<Rightarrow> lgw_call list \<times> 'a app_st_scheme" where
  "parse_module_config s =
     (let l = lora_config (g_wnc_config s); s1 = s\<lparr>base_freq := rf_freq l, base_powr := rf_power l\<rparr>
      in ([Lgw_board_setconf True 1,
           Lgw_rxrf_setconf 0 \<lparr>rfc_enable = True, rfc_freq = base_freq s1 + 1400000, rfc_tx_enable = True\<rparr>,
           Lgw_rxrf_setconf 1 \<lparr>rfc_enable = True, rfc_freq = base_freq s1 + 400000, rfc_tx_enable = False\<rparr>,
           Lgw_rxif_setconf 0 (multi_sf 1 (-400000)), Lgw_rxif_setconf 1 (multi_sf 1 (-200000)), Lgw_rxif_setconf 2 (multi_sf 1 0),
           Lgw_rxif_setconf 3 (multi_sf 1 200000), Lgw_rxif_setconf 4 (multi_sf 1 400000), Lgw_rxif_setconf 5 (multi_sf 0 (-400000)),
           Lgw_rxif_setconf 6 (multi_sf 0 (-200000)), Lgw_rxif_setconf 7 (multi_sf 0 0),
           Lgw_rxif_setconf 8 \<lparr>if_enable = True, if_rf_chain = 0, if_freq = 200000, if_bandwidth = 2, if_datarate = 0x10\<rparr>,
           Lgw_rxif_setconf 9 \<lparr>if_enable = True, if_rf_chain = 1, if_freq = 0, if_bandwidth = 2, if_datarate = 64000\<rparr>], s1))"

definition start_lora_module :: "int \<Rightarrow> 'a app_st_scheme \<Rightarrow> int \<times> lgw_call list \<times> 'a app_st_scheme" where
  "start_lora_module lgw_start s = (case parse_module_config s of (calls, s1) \<Rightarrow> (lgw_start, calls @ [Lgw_start], s1))"

section \<open>Receiving\<close>

record lgw_pkt_rx_s =
  rx_freq_hz :: u32
  rx_status :: byte
  rx_datarate :: u32
  rx_rssi :: rat
  rx_snr :: rat
  rx_size :: u16
  rx_payload :: "byte list"

abbreviation (input) STAT_CRC_OK :: byte where "STAT_CRC_OK \<equiv> 0x10"
abbreviation (input) NB_PKT_MAX :: nat where "NB_PKT_MAX \<equiv> 8"

text \<open>The conversion of a \<open>float\<close> to an integer type cuts the fraction off.\<close>

definition c_trunc :: "rat \<Rightarrow> int" where
  "c_trunc r = (if r < 0 then \<lceil>r\<rceil> else \<lfloor>r\<rfloor>)"

definition recv_pkt :: "lgw_pkt_rx_s \<Rightarrow> rt_lora_pkt" where
  "recv_pkt p =
     (let n = ucast (rx_size p) :: byte
      in \<lparr>p_freq_hz = rx_freq_hz p, p_rssi = of_int (c_trunc (rx_rssi p)), p_snr = of_int (c_trunc (rx_snr p)),
           p_datarate = lora_get_datarate (ucast (rx_datarate p)), p_len = n,
           p_payload = take (unat n) (rx_payload p) @ drop (unat n) (replicate 32 0)\<rparr>)"

definition handle_rx :: "lgw_pkt_rx_s \<Rightarrow> 'a app_st_scheme \<Rightarrow> 'a app_st_scheme" where
  "handle_rx p s =
     (if rx_status p = STAT_CRC_OK \<and> rx_size p = 12 then send_data_proc (MSG_LORA_RECV_DATA (recv_pkt p)) s else s)"

text \<open>One round of the thread; \<open>Inl\<close> is the error of \<open>lgw_receive\<close>.\<close>

definition thread_lora_recv :: "unit + lgw_pkt_rx_s list \<Rightarrow> 'a app_st_scheme \<Rightarrow> 'a app_st_scheme" where
  "thread_lora_recv lgw_receive s =
     (let s1 = threads_feed_dog LORA_RECV_DOG s
      in case lgw_receive of Inl _ \<Rightarrow> s1 | Inr pkts \<Rightarrow> fold handle_rx pkts s1)"

section \<open>Sending\<close>

record lgw_pkt_tx_s =
  tx_freq_hz :: u32
  tx_mode :: byte
  tx_rf_chain :: byte
  tx_rf_power :: byte
  tx_modulation :: byte
  tx_bandwidth :: byte
  tx_datarate :: u32
  tx_coderate :: byte
  tx_preamble :: u16
  tx_size :: u16
  tx_payload :: "byte list"

record radio_st = app_st +
  in_test :: bool
  reg_tx_mode :: int
  radio_out :: "lgw_pkt_tx_s list"

abbreviation (input) TX_FREE :: byte where "TX_FREE \<equiv> 2"

definition tx_setup :: "u32 \<Rightarrow> u32 \<Rightarrow> u16 \<Rightarrow> byte list \<Rightarrow> 'a app_st_scheme \<Rightarrow> lgw_pkt_tx_s" where
  "tx_setup freq dr n pl s = \<lparr>tx_freq_hz = freq, tx_mode = 0, tx_rf_chain = 0, tx_rf_power = get_tx_power s, tx_modulation = 0x10,
     tx_bandwidth = 0x03, tx_datarate = dr, tx_coderate = 0x01, tx_preamble = 8, tx_size = n, tx_payload = pl\<rparr>"

text \<open>The packets the thread gives to the radio library, in order.\<close>

definition to_radio :: "lgw_pkt_tx_s \<Rightarrow> 'a radio_st_scheme \<Rightarrow> 'a radio_st_scheme" where
  "to_radio p s = s\<lparr>radio_out := radio_out s @ [p]\<rparr>"

text \<open>The test packet: the text is copied into the packet before the packet is cleared.\<close>

definition lora_send_test :: "'a radio_st_scheme \<Rightarrow> 'a radio_st_scheme" where
  "lora_send_test s = to_radio (tx_setup 471100000 0x04 12 (replicate 256 0) s) s"

definition data_pkt :: "rt_lora_pkt \<Rightarrow> 'a app_st_scheme \<Rightarrow> lgw_pkt_tx_s" where
  "data_pkt tx s =
     (let n = unat (p_len tx)
      in tx_setup (p_freq_hz tx) (ucast (lora_set_datarate (p_datarate tx))) (ucast (p_len tx))
           (take n (p_payload tx @ map (stack_mem s) [32..<256]) @ replicate (256 - n) 0) s)"

text \<open>Waiting for the end of a transmission; \<open>st k\<close> is the status the k-th query reports.\<close>

partial_function (option) wait_tx_free :: "(nat \<Rightarrow> byte) \<Rightarrow> nat \<Rightarrow> nat option" where
  "wait_tx_free st k = (if st k \<noteq> TX_FREE then wait_tx_free st (k + 1) else Some (k + 1))"

fun thread_lora_send :: "(nat \<Rightarrow> byte) \<Rightarrow> stu_lora_msg \<Rightarrow> 'a radio_st_scheme \<Rightarrow> 'a radio_st_scheme option" where
  "thread_lora_send st (MSG_LORA_SEND_DATA tx) s =
     (case wait_tx_free st 0 of None \<Rightarrow> None | Some _ \<Rightarrow> Some (to_radio (data_pkt tx s) s))"
| "thread_lora_send st MSG_LORA_SEND_TEST s =
     (let s1 = s\<lparr>in_test := \<not> in_test s\<rparr>
      in Some (if in_test s1 then lora_send_test (s1\<lparr>reg_tx_mode := 1\<rparr>) else s1\<lparr>reg_tx_mode := 0\<rparr>))"
| "thread_lora_send st MSG_LORA_SEND_FEED_DOG s = Some (threads_feed_dog LORA_SEND_DOG s)"
| "thread_lora_send st _ s = Some s"

section \<open>Lemmas\<close>

lemma wait_tx_free_ends: "st n = TX_FREE \<Longrightarrow> k \<le> n \<Longrightarrow> \<exists>m. wait_tx_free st k = Some m"
proof (induction "n - k" arbitrary: k)
  case 0
  then show ?case by (subst wait_tx_free.simps) auto
next
  case (Suc d)
  then show ?case by (subst wait_tx_free.simps) auto
qed

lemma recv_pkt_ok: "rx_size p = 12 \<Longrightarrow> length (rx_payload p) = 256 \<Longrightarrow> pkt_ok (recv_pkt p)"
  by (simp add: recv_pkt_def pkt_ok_def Let_def)

text \<open>The eight multi-rate channels of the module configuration, and the frequency each one is on.\<close>

definition channels :: "lgw_call list \<Rightarrow> (nat \<times> int) list" where
  "channels cs = concat (map (\<lambda>c. case c of
      Lgw_rxif_setconf k i \<Rightarrow>
        if if_datarate i = 0x7E \<and> if_enable i
        then concat (map (\<lambda>c'. case c' of Lgw_rxrf_setconf r f \<Rightarrow> if r = if_rf_chain i then [(k, uint (rfc_freq f) + if_freq i)] else [] | _ \<Rightarrow> []) cs)
        else []
    | _ \<Rightarrow> []) cs)"

text \<open>For every base frequency in the band of the product, the configuration spreads the eight receive channels
  200 kHz apart from the base frequency on, and the concentrator sends above all of them, 400 kHz over the last.\<close>

theorem module_channels:
  assumes "470300000 \<le> rf_freq (lora_config (g_wnc_config s))" and "rf_freq (lora_config (g_wnc_config s)) \<le> 489300000"
    and "parse_module_config s = (calls, s')"
  defines "b \<equiv> uint (rf_freq (lora_config (g_wnc_config s)))"
  shows "channels calls = map (\<lambda>k. (k, b + 200000 * int k)) [0..<8] \<and> uint (get_tx_freq s') = b + 1800000"
proof -
  have b: "470300000 \<le> b" "b \<le> 489300000" using assms(1,2) by (simp_all add: b_def word_le_def)
  have a: "uint (rf_freq (lora_config (g_wnc_config s)) + 400000) = b + 400000"
    "uint (rf_freq (lora_config (g_wnc_config s)) + 1400000) = b + 1400000"
    "uint (rf_freq (lora_config (g_wnc_config s)) + 1800000) = b + 1800000"
    using b by (simp_all add: b_def uint_word_ariths)
  have e: "[0..<8] = [0, 1, 2, 3, 4, 5, 6, 7 :: nat]" by (simp add: upt_rec)
  show ?thesis
    using assms(3) a unfolding e by (auto simp: parse_module_config_def Let_def channels_def multi_sf_def get_tx_freq_def)
qed

theorem module_channels_witness:
  "channels (fst (parse_module_config (demo_app\<lparr>g_wnc_config := (g_wnc_config demo_app)\<lparr>lora_config :=
     \<lparr>threshold = 0, rf_freq = 471100000, rf_power = 17, time_offline = 35\<rparr>\<rparr>\<rparr>))) = map (\<lambda>k. (k, 471100000 + 200000 * int k)) [0..<8]"
  using module_channels [of "demo_app\<lparr>g_wnc_config := (g_wnc_config demo_app)\<lparr>lora_config :=
     \<lparr>threshold = 0, rf_freq = 471100000, rf_power = 17, time_offline = 35\<rparr>\<rparr>\<rparr>", OF _ _ surjective_pairing]
  by simp

end
