(* ===== verification/Sys_Ctrl.thy ===== *)
theory Sys_Ctrl
  imports App_Base
begin

text \<open>
  The system control thread, \<open>user_thread/thread_sysctrl/thread_sysctrl.c\<close>, and the hardware watchdog
  pin of \<open>bsp/watchdog.c\<close>: supervision of the network and of the other threads, the hourly report, and the
  reboot, in which the timer that feeds the hardware watchdog is stopped. The result of \<open>network_restart\<close> is an argument.
\<close>

datatype network_state = LINK_ERROR | LINK_GOOD

text \<open>The counters of the thread have type \<open>int\<close>; \<open>timer_cnt\<close> would need 68 years to overflow, and the two
  others are bounded by 121 and 20, so that they are natural numbers here.\<close>

record ctrl_st = app_st +
  net_state :: network_state
  network_no_pack_time :: nat
  timer_cnt :: nat
  net_reset_cnt :: nat
  cnt_1_sec :: bool
  dog_pin :: bool
  timer_sys_ctrl :: bool

definition thread_name :: "nat \<Rightarrow> string" where
  "thread_name i = [''lora_recv'', ''lora_send'', ''data_porc'', ''udp_serv''] ! i"

definition feed_dog :: "'a ctrl_st_scheme \<Rightarrow> 'a ctrl_st_scheme" where
  "feed_dog s = s\<lparr>dog_pin := \<not> dog_pin s\<rparr>"

definition callback_timer_sysctrl :: "'a ctrl_st_scheme \<Rightarrow> 'a ctrl_st_scheme" where
  "callback_timer_sysctrl s =
     (if timer_sys_ctrl s
      then (let s1 = feed_dog s; s2 = (if cnt_1_sec s1 then send_sys_ctrl MSG_SYS_1_SEC s1 else s1)
            in s2\<lparr>cnt_1_sec := \<not> cnt_1_sec s2\<rparr>)
      else s)"

definition check_threads_alive :: "'a app_st_scheme \<Rightarrow> int \<times> 'a app_st_scheme" where
  "check_threads_alive s =
     (let (ret, s1) = fold (\<lambda>i (ret, s). if thread_soft_dogs s ! i = 0
            then (RT_ERROR, log_fmt 256 ''thread %s is dead'' [ArgStr (thread_name i)] s) else (ret, s)) [0..<4] (RT_EOK, s)
      in (ret, s1\<lparr>thread_soft_dogs := replicate 4 0\<rparr>))"

definition request_feed_soft_dogs :: "'a app_st_scheme \<Rightarrow> 'a app_st_scheme" where
  "request_feed_soft_dogs s = send_data_proc MSG_DATA_PROC_FEED_DOG (send_lora MSG_LORA_SEND_FEED_DOG s)"

abbreviation (input) TIME_WRITE_WORK_STATE_LOG :: nat where "TIME_WRITE_WORK_STATE_LOG \<equiv> 3600"

definition check_network :: "bool \<Rightarrow> 'a ctrl_st_scheme \<Rightarrow> bool \<times> 'a ctrl_st_scheme" where
  "check_network restart_ok s =
     (if net_state s = LINK_GOOD
      then (let s1 = set_led ON 7 6 s; s2 = s1\<lparr>network_no_pack_time := network_no_pack_time s1 + 1\<rparr>
            in (False, if network_no_pack_time s2 > 120
                       then add_log ''no network data over 2 min'' (s2\<lparr>net_state := LINK_ERROR\<rparr>) else s2))
      else (let s1 = set_led OFF 7 6 s; s2 = s1\<lparr>net_reset_cnt := net_reset_cnt s1 + 1\<rparr>
            in if net_reset_cnt s2 > 20
               then (let s3 = s2\<lparr>net_reset_cnt := 0\<rparr>
                     in if restart_ok then (False, s3) else (True, add_log ''restart network failed'' s3))
               else (False, s2)))"

definition one_second :: "bool \<Rightarrow> 'a ctrl_st_scheme \<Rightarrow> bool \<times> 'a ctrl_st_scheme" where
  "one_second restart_ok s =
     (let s1 = s\<lparr>timer_cnt := timer_cnt s + 1\<rparr>;
          (r1, s2) = check_network restart_ok s1;
          s3 = (if timer_cnt s2 mod 20 = 0 then request_feed_soft_dogs s2 else s2);
          (r2, s4) = (if timer_cnt s3 mod 60 = 0 then (case check_threads_alive s3 of (e, s') \<Rightarrow> (e \<noteq> RT_EOK, s')) else (False, s3));
          s5 = (if timer_cnt s4 mod TIME_WRITE_WORK_STATE_LOG = 0 then work_state_time_period s4 else s4)
      in (r1 \<or> r2, s5))"

text \<open>After a decision to reboot the thread stops the timer and loops for ever, so a stopped timer means that no
  further message is handled.\<close>

definition thread_system_control :: "bool \<Rightarrow> stu_sysctrl_msg \<Rightarrow> 'a ctrl_st_scheme \<Rightarrow> 'a ctrl_st_scheme" where
  "thread_system_control restart_ok m s =
     (if \<not> timer_sys_ctrl s then s else
      let (need_reboot, s1) = (case m of
            MSG_SYS_1_SEC \<Rightarrow> one_second restart_ok s
          | MSG_SYS_USER_REBOOT \<Rightarrow> (True, add_log ''user reboot'' s)
          | MSG_SYS_UDP_CONFIRM \<Rightarrow>
              (let s1 = s\<lparr>network_no_pack_time := 0\<rparr>
               in (False, if net_state s1 \<noteq> LINK_GOOD then (add_log ''network recovered'' s1)\<lparr>net_state := LINK_GOOD\<rparr> else s1)))
      in if need_reboot then (add_log ''system reboot...'' s1)\<lparr>timer_sys_ctrl := False\<rparr> else s1)"

section \<open>What a second leaves alone\<close>

definition keeps :: "'a ws_st_scheme \<Rightarrow> 'a ws_st_scheme \<Rightarrow> bool" where
  "keeps s s' \<longleftrightarrow> s' = s\<lparr>flash := flash s', log_infos := log_infos s', g_detector_info_list := g_detector_info_list s',
     g_work_state := g_work_state s'\<rparr>"

lemma keeps_refl [simp]: "keeps s s"
  by (simp add: keeps_def)

lemma keeps_trans:
  assumes "keeps s t" and "keeps t u"
  shows "keeps s u"
proof -
  have "u = t\<lparr>flash := flash u, log_infos := log_infos u, g_detector_info_list := g_detector_info_list u, g_work_state := g_work_state u\<rparr>"
    using assms(2) by (simp add: keeps_def)
  also have "\<dots> = s\<lparr>flash := flash u, log_infos := log_infos u, g_detector_info_list := g_detector_info_list u, g_work_state := g_work_state u\<rparr>"
    by (subst assms(1) [unfolded keeps_def]) simp
  finally show ?thesis by (simp add: keeps_def)
qed

lemma keeps_dets: "keeps s (s\<lparr>g_detector_info_list := d\<rparr>)" "keeps s (s\<lparr>g_work_state := w\<rparr>)"
  "keeps s (s\<lparr>flash := f, log_infos := l\<rparr>)"
  by (simp_all add: keeps_def)

lemma keeps_reports: "reports txt s t \<Longrightarrow> keeps s t" for s :: "'a ws_st_scheme"
  unfolding reports_def by (elim conjE) (erule ssubst, rule keeps_dets(3))

lemma keeps_log: "keeps s (add_log d s)" for s :: "'a ws_st_scheme"
  by (subst add_log_only) (rule keeps_dets(3))

lemma keeps_report: "keeps s (fold report_detector js s)"
proof (induction js arbitrary: s)
  case (Cons j js)
  have "keeps s (report_detector j s)"
    using report_detector_state [of s j] keeps_trans [OF keeps_reports keeps_dets(1)] by metis
  then show ?case using keeps_trans Cons.IH by fastforce
qed simp

lemma keeps_write: "keeps s (log_write buf type s)" for s :: "'a ws_st_scheme"
  by (subst log_write_only) (rule keeps_dets(3))

lemma keeps_printf: "keeps s (ws_printf fmt args s)" "keeps s (ws_puts txt s)" for s :: "'a ws_st_scheme"
  by (simp_all add: ws_printf_def ws_puts_def keeps_write split: prod.split)

lemma keeps_fold: "keeps s (fold (\<lambda>(fmt, args). ws_printf fmt args) xs s)"
proof (induction xs arbitrary: s)
  case (Cons x xs)
  show ?case using keeps_trans [OF keeps_printf(1) Cons.IH] by (simp add: case_prod_unfold)
qed simp

lemma keeps_period: "keeps s (work_state_time_period s)"
proof -
  let ?s3 = "ws_printf table_head [] (ws_puts (''detector state:'' @ crlf)
     (fold (\<lambda>(fmt, args). ws_printf fmt args) (period_events s) (ws_puts (''errors:'' @ crlf)
       (fold (\<lambda>(fmt, args). ws_printf fmt args) (period_head (fst (pcf8563_get_datetime zero_rtc s)) s) s))))"
  have "keeps s ?s3" by (meson keeps_trans keeps_printf keeps_fold)
  from keeps_trans [OF keeps_trans [OF this keeps_report] keeps_dets(2)]
  show ?thesis unfolding work_state_time_period_def Let_def .
qed

lemma keeps_app: "keeps s s' \<Longrightarrow> thread_soft_dogs s' = thread_soft_dogs s" for s :: "'a app_st_scheme"
  unfolding keeps_def by (erule ssubst) simp

lemma keeps_ctrl:
  "keeps s s' \<Longrightarrow> timer_cnt s' = timer_cnt s" "keeps s s' \<Longrightarrow> timer_sys_ctrl s' = timer_sys_ctrl s"
  "keeps s s' \<Longrightarrow> net_state s' = net_state s" "keeps s s' \<Longrightarrow> network_no_pack_time s' = network_no_pack_time s"
  "keeps s s' \<Longrightarrow> net_reset_cnt s' = net_reset_cnt s" for s :: "'a ctrl_st_scheme"
  unfolding keeps_def by (erule ssubst, simp)+

lemmas keeps_log_fields = keeps_app [OF keeps_log] keeps_ctrl [OF keeps_log]

section \<open>Supervision of the threads\<close>

lemma check_threads_alive_result:
  fixes s :: "'a app_st_scheme"
  shows "fst (check_threads_alive s) = (if \<exists>i < 4. thread_soft_dogs s ! i = 0 then RT_ERROR else RT_EOK)"
    "\<exists>t. keeps s t \<and> snd (check_threads_alive s) = t\<lparr>thread_soft_dogs := replicate 4 0\<rparr>"
proof -
  let ?f = "\<lambda>i (ret, s). if thread_soft_dogs s ! i = 0
    then (RT_ERROR, log_fmt 256 ''thread %s is dead'' [ArgStr (thread_name i)] s) else (ret, s)"
  have *: "keeps s (snd (fold ?f is (r, s))) \<and>
      fst (fold ?f is (r, s)) = (if \<exists>i \<in> set is. thread_soft_dogs s ! i = 0 then RT_ERROR else r)" for "is" r and s :: "'a app_st_scheme"
  proof (induction "is" arbitrary: r s)
    case (Cons i "is")
    let ?t = "log_fmt 256 ''thread %s is dead'' [ArgStr (thread_name i)] s"
    have k: "keeps s ?t" unfolding log_fmt_def by (rule keeps_log)
    show ?case
      using Cons.IH [of ?t RT_ERROR] Cons.IH [of s r] keeps_trans [OF k] keeps_app [OF k] by auto
  qed simp
  have e: "{0..<4} = {i. i < (4 :: nat)}" by auto
  show "fst (check_threads_alive s) = (if \<exists>i < 4. thread_soft_dogs s ! i = 0 then RT_ERROR else RT_EOK)"
    using * [of s "[0..<4]" RT_EOK] by (simp add: check_threads_alive_def case_prod_unfold Let_def e Bex_def)
  show "\<exists>t. keeps s t \<and> snd (check_threads_alive s) = t\<lparr>thread_soft_dogs := replicate 4 0\<rparr>"
    using * [of s "[0..<4]" RT_EOK] by (auto simp: check_threads_alive_def case_prod_unfold Let_def)
qed

lemma dog_index_inj: "dog_index d = dog_index e \<longleftrightarrow> d = e" "dog_index d < 4"
  by (cases d; cases e; simp) (cases d; simp)

lemma dog_all: "(\<exists>i < 4. P i) \<longleftrightarrow> (\<exists>d. P (dog_index d))"
proof
  assume "\<exists>i < 4. P i"
  then obtain i where i: "i < 4" "P i" by blast
  then have "i = 0 \<or> i = 1 \<or> i = 2 \<or> i = 3" by linarith
  then have "\<exists>d. dog_index d = i" by (metis dog_index.simps)
  with i(2) show "\<exists>d. P (dog_index d)" by blast
qed (use dog_index_inj(2) in blast)

text \<open>The life of the concentrator between two checks: the system control thread handles its messages, the one-second
  message with the result that \<open>network_restart\<close> has if it is called, and between them the other threads feed
  their counters.\<close>

datatype ctrl_event = Second bool | Confirm | Reboot | Feed threads_soft_dog

fun ctrl_run :: "ctrl_event list \<Rightarrow> 'a ctrl_st_scheme \<Rightarrow> 'a ctrl_st_scheme" where
  "ctrl_run [] s = s"
| "ctrl_run (Second restart_ok # es) s = ctrl_run es (thread_system_control restart_ok MSG_SYS_1_SEC s)"
| "ctrl_run (Confirm # es) s = ctrl_run es (thread_system_control True MSG_SYS_UDP_CONFIRM s)"
| "ctrl_run (Reboot # es) s = ctrl_run es (thread_system_control True MSG_SYS_USER_REBOOT s)"
| "ctrl_run (Feed d # es) s = ctrl_run es (threads_feed_dog d s)"

fun seconds :: "ctrl_event list \<Rightarrow> nat" where
  "seconds [] = 0"
| "seconds (Second _ # es) = Suc (seconds es)"
| "seconds (_ # es) = seconds es"

text \<open>The results of the restarts of the network that fall due. While the link is good it is given up after more
  than 120 seconds without a confirmation (\<open>quiet\<close> counts them); while it is not, a restart is due in every 21st
  second (\<open>waited\<close> counts those before it).\<close>

fun restarts :: "ctrl_event list \<Rightarrow> bool \<Rightarrow> nat \<Rightarrow> nat \<Rightarrow> bool list" where
  "restarts [] good quiet waited = []"
| "restarts (Second r # es) good quiet waited =
     (if good then restarts es (quiet < 120) (quiet + 1) waited
      else if waited < 20 then restarts es False quiet (waited + 1) else r # restarts es False quiet 0)"
| "restarts (Confirm # es) good quiet waited = restarts es True 0 waited"
| "restarts (_ # es) good quiet waited = restarts es good quiet waited"

abbreviation due :: "ctrl_event list \<Rightarrow> 'a ctrl_st_scheme \<Rightarrow> bool list" where
  "due es s \<equiv> restarts es (net_state s = LINK_GOOD) (network_no_pack_time s) (net_reset_cnt s)"

lemma stopped_run: "\<not> timer_sys_ctrl s \<Longrightarrow> \<not> timer_sys_ctrl (ctrl_run es s)" for s :: "'a ctrl_st_scheme"
  by (induction es s rule: ctrl_run.induct) (auto simp: thread_system_control_def threads_feed_dog_def)

text \<open>Whether a restart is due in this second.\<close>

definition restart_due :: "'a ctrl_st_scheme \<Rightarrow> bool" where
  "restart_due s \<longleftrightarrow> net_state s \<noteq> LINK_GOOD \<and> 20 \<le> net_reset_cnt s"

lemma check_network_keeps:
  fixes s :: "'a ctrl_st_scheme"
  shows "fst (check_network r s) \<longleftrightarrow> restart_due s \<and> \<not> r" "thread_soft_dogs (snd (check_network r s)) = thread_soft_dogs s"
    "timer_cnt (snd (check_network r s)) = timer_cnt s" "timer_sys_ctrl (snd (check_network r s)) = timer_sys_ctrl s"
    "restarts (Second r # es) (net_state s = LINK_GOOD) (network_no_pack_time s) (net_reset_cnt s) =
       (if restart_due s then [r] else []) @ due es (snd (check_network r s))"
  by (auto simp: check_network_def restart_due_def Let_def set_led_def keeps_log_fields intro: network_state.exhaust)

lemma request_fields:
  "thread_soft_dogs (request_feed_soft_dogs s) = thread_soft_dogs s" for s :: "'a app_st_scheme"
  by (simp add: request_feed_soft_dogs_def send_data_proc_def send_lora_def)

lemma request_ctrl:
  "timer_cnt (request_feed_soft_dogs s) = timer_cnt s" "timer_sys_ctrl (request_feed_soft_dogs s) = timer_sys_ctrl s"
  "due es (request_feed_soft_dogs s) = due es s"
  for s :: "'a ctrl_st_scheme"
  by (simp_all add: request_feed_soft_dogs_def send_data_proc_def send_lora_def)

lemma second_fields:
  fixes s :: "'a ctrl_st_scheme" and r :: bool
  assumes on: "timer_sys_ctrl s"
  defines "s' \<equiv> thread_system_control r MSG_SYS_1_SEC s" and "dead \<equiv> \<exists>i < 4. thread_soft_dogs s ! i = 0"
    and "failed \<equiv> restart_due s \<and> \<not> r"
  shows "timer_cnt s' = timer_cnt s + 1"
    "(timer_cnt s + 1) mod 60 \<noteq> 0 \<Longrightarrow> thread_soft_dogs s' = thread_soft_dogs s"
    "timer_sys_ctrl s' \<longleftrightarrow> \<not> failed \<and> ((timer_cnt s + 1) mod 60 = 0 \<longrightarrow> \<not> dead)"
    "due (Second r # es) s = (if restart_due s then [r] else []) @ due es s'"
proof -
  let ?s1 = "s\<lparr>timer_cnt := timer_cnt s + 1\<rparr>"
  obtain r1 s2 where n: "check_network r ?s1 = (r1, s2)" by fastforce
  have d1: "restart_due ?s1 = restart_due s" by (simp add: restart_due_def)
  have s2: "r1 = failed" "thread_soft_dogs s2 = thread_soft_dogs s" "timer_cnt s2 = timer_cnt s + 1" "timer_sys_ctrl s2 = timer_sys_ctrl s"
    "due (Second r # es) s = (if restart_due s then [r] else []) @ due es s2" for es
    using check_network_keeps [where r = r and s = ?s1] n unfolding d1 failed_def by simp_all
  define s3 where "s3 = (if timer_cnt s2 mod 20 = 0 then request_feed_soft_dogs s2 else s2)"
  have s3: "thread_soft_dogs s3 = thread_soft_dogs s" "timer_cnt s3 = timer_cnt s + 1" "timer_sys_ctrl s3 = timer_sys_ctrl s"
    "due es s3 = due es s2" for es
    using s2 by (simp_all add: s3_def request_fields request_ctrl)
  obtain e s4 where c: "check_threads_alive s3 = (e, s4)" by fastforce
  obtain t where t: "keeps s3 t" "s4 = t\<lparr>thread_soft_dogs := replicate 4 0\<rparr>"
    using check_threads_alive_result(2) [of s3] c by auto
  have e: "e \<noteq> RT_EOK \<longleftrightarrow> dead" using check_threads_alive_result(1) [of s3] c s3(1) by (auto simp: dead_def split: if_splits)
  have s4: "timer_cnt s4 = timer_cnt s + 1" "timer_sys_ctrl s4 = timer_sys_ctrl s" "due es s4 = due es s2" for es
    using keeps_ctrl [OF t(1)] t(2) s3 by simp_all
  have o: "one_second r s =
     (if (timer_cnt s + 1) mod 60 = 0
      then (failed \<or> dead, if (timer_cnt s + 1) mod 3600 = 0 then work_state_time_period s4 else s4)
      else (failed, if (timer_cnt s + 1) mod 3600 = 0 then work_state_time_period s3 else s3))"
    unfolding one_second_def Let_def n prod.case s3_def [symmetric] using s2(1) s3(2) s4(1) e by (simp add: c)
  note k = keeps_ctrl [OF keeps_period] keeps_app [OF keeps_period] keeps_log_fields
  show "timer_cnt s' = timer_cnt s + 1" using on by (simp add: s'_def thread_system_control_def o k s3 s4)
  show "(timer_cnt s + 1) mod 60 \<noteq> 0 \<Longrightarrow> thread_soft_dogs s' = thread_soft_dogs s"
    using on by (simp add: s'_def thread_system_control_def o k s3)
  show "timer_sys_ctrl s' \<longleftrightarrow> \<not> failed \<and> ((timer_cnt s + 1) mod 60 = 0 \<longrightarrow> \<not> dead)"
    using on by (simp add: s'_def thread_system_control_def o k s3 s4)
  show "due (Second r # es) s = (if restart_due s then [r] else []) @ due es s'"
    unfolding s2(5) using on by (simp add: s'_def thread_system_control_def o k s3(4) s4(3))
qed

lemma confirm_fields:
  fixes s :: "'a ctrl_st_scheme" and r :: bool
  assumes "timer_sys_ctrl s"
  defines "s' \<equiv> thread_system_control r MSG_SYS_UDP_CONFIRM s"
  shows "timer_cnt s' = timer_cnt s" "thread_soft_dogs s' = thread_soft_dogs s" "timer_sys_ctrl s'"
    "due (Confirm # es) s = due es s'"
  using assms(1) by (simp_all add: s'_def thread_system_control_def keeps_log_fields Let_def)

lemma reboot_stops: "\<not> timer_sys_ctrl (thread_system_control r MSG_SYS_USER_REBOOT s)"
  by (simp add: thread_system_control_def)

lemma feed_fields:
  fixes s :: "'a ctrl_st_scheme"
  assumes "length (thread_soft_dogs s) = 4"
  shows "timer_cnt (threads_feed_dog d s) = timer_cnt s" "timer_sys_ctrl (threads_feed_dog d s) = timer_sys_ctrl s"
    "length (thread_soft_dogs (threads_feed_dog d s)) = 4" "due (Feed d # es) s = due es (threads_feed_dog d s)"
    "thread_soft_dogs (threads_feed_dog d s) ! dog_index e = thread_soft_dogs s ! dog_index e + (if e = d then 1 else 0)"
  using assms dog_index_inj by (auto simp: threads_feed_dog_def)

text \<open>From any moment to the next check.\<close>

lemma run_to_check:
  fixes s :: "'a ctrl_st_scheme"
  assumes "timer_cnt s mod 60 + seconds es = 59" and "length (thread_soft_dogs s) = 4" and "timer_sys_ctrl s"
  shows "timer_sys_ctrl (ctrl_run (es @ [Second r]) s) \<longleftrightarrow> Reboot \<notin> set es \<and> False \<notin> set (due (es @ [Second r]) s) \<and>
    (\<forall>d. thread_soft_dogs s ! dog_index d + of_nat (count_list es (Feed d)) \<noteq> 0)"
  using assms
proof (induction es s rule: ctrl_run.induct)
  case (1 s)
  have "(timer_cnt s + 1) mod 60 = 0" using "1.prems"(1) by simp presburger
  then show ?case
    using second_fields(3) [OF "1.prems"(3), where r = r] second_fields(4) [OF "1.prems"(3), where r = r and es = "[]"] dog_all
    by (auto split: if_splits)
next
  case (2 r' es s)
  have m: "(timer_cnt s + 1) mod 60 \<noteq> 0" "(timer_cnt s + 1) mod 60 = timer_cnt s mod 60 + 1"
    using "2.prems"(1) by (auto simp: mod_Suc split: if_splits)
  note f = second_fields [OF "2.prems"(3), where r = r']
  show ?case
  proof (cases "restart_due s \<and> \<not> r'")
    case True
    then show ?thesis using f(3) f(4) [where es = "es @ [Second r]"] stopped_run by (auto simp del: restarts.simps)
  next
    case False
    then have on: "timer_sys_ctrl (thread_system_control r' MSG_SYS_1_SEC s)" using f(3) m by simp
    show ?thesis
      using 2 on f m False by (auto simp del: restarts.simps)
  qed
next
  case (3 es s)
  then show ?case using confirm_fields [OF "3.prems"(3), where r = True] by (auto simp del: restarts.simps)
next
  case (4 es s)
  then show ?case using stopped_run [OF reboot_stops] by simp
next
  case (5 d es s)
  then show ?case using feed_fields [OF "5.prems"(2), where d = d] by (auto simp: algebra_simps simp del: restarts.simps)
qed

text \<open>C17: the supervision, exactly. Take any messages and feedings from one check of the threads to the next: 59
  one-second messages, with confirmations from the server, reboot commands and feedings of the soft dogs anywhere among
  them, and then the 60th second. Whatever results the calls of \<open>network_restart\<close> have, the timer callback
  still feeds the hardware watchdog afterwards if and only if no reboot command came, every restart of the network
  that fell due succeeded, and every supervised thread fed its counter a number of times that is not a multiple of 256. A
  thread that hangs for a minute therefore leads to a reboot, and so does a busy one whose eight-bit counter happens to
  return to zero.\<close>

theorem watchdog_supervision:
  fixes s :: "'a ctrl_st_scheme"
  assumes "timer_sys_ctrl s" and "timer_cnt s mod 60 = 0" and "thread_soft_dogs s = replicate 4 0" and "seconds es = 59"
    and "s' = ctrl_run (es @ [Second r]) s"
  shows "dog_pin (callback_timer_sysctrl s') \<noteq> dog_pin s' \<longleftrightarrow> Reboot \<notin> set es \<and>
    False \<notin> set (restarts (es @ [Second r]) (net_state s = LINK_GOOD) (network_no_pack_time s) (net_reset_cnt s)) \<and>
    (\<forall>d. count_list es (Feed d) mod 256 \<noteq> 0)"
proof -
  have p: "dog_pin (callback_timer_sysctrl s') \<noteq> dog_pin s' \<longleftrightarrow> timer_sys_ctrl s'"
    by (simp add: callback_timer_sysctrl_def feed_dog_def Let_def send_sys_ctrl_def)
  have z: "thread_soft_dogs s ! dog_index d + of_nat (count_list es (Feed d)) \<noteq> 0 \<longleftrightarrow> count_list es (Feed d) mod 256 \<noteq> 0" for d
    using dog_index_inj(2) [of d] assms(3) by (simp add: word_of_nat_eq_0_iff dvd_eq_mod_eq_0)
  have "timer_sys_ctrl s' \<longleftrightarrow> Reboot \<notin> set es \<and> False \<notin> set (due (es @ [Second r]) s) \<and>
      (\<forall>d. thread_soft_dogs s ! dog_index d + of_nat (count_list es (Feed d)) \<noteq> 0)"
    unfolding assms(5) by (rule run_to_check) (use assms in simp_all)
  then show ?thesis unfolding p z .
qed

definition demo_ctrl :: ctrl_st where
  "demo_ctrl = app_st.extend (ft_st.extend demo_ft (app_st.fields [] [] [] [] (replicate 4 0) 470300000 20
     \<lparr>m_fd = 0, m_pack_sn = 1, m_mode = MODE_NORMAL\<rparr> (replicate 1024 0) 0 []
     \<lparr>p_freq_hz = 0, p_rssi = 0, p_snr = 0, p_datarate = 0, p_len = 0, p_payload = replicate 32 0\<rparr>))
     (ctrl_st.fields LINK_ERROR 0 0 0 True False True)"

theorem watchdog_supervision_witness:
  "dog_pin (callback_timer_sysctrl (ctrl_run ([Feed LORA_RECV_DOG, Feed LORA_SEND_DOG, Feed DATA_PROC_DOG, Feed UDP_CLINT_DOG, Confirm] @
       replicate 59 (Second False) @ [Second False]) demo_ctrl)) \<noteq>
     dog_pin (ctrl_run ([Feed LORA_RECV_DOG, Feed LORA_SEND_DOG, Feed DATA_PROC_DOG, Feed UDP_CLINT_DOG, Confirm] @
       replicate 59 (Second False) @ [Second False]) demo_ctrl) \<and>
   dog_pin (callback_timer_sysctrl (ctrl_run ([Feed LORA_RECV_DOG, Feed LORA_SEND_DOG, Feed DATA_PROC_DOG, Feed UDP_CLINT_DOG] @
       replicate 59 (Second False) @ [Second False]) demo_ctrl)) =
     dog_pin (ctrl_run ([Feed LORA_RECV_DOG, Feed LORA_SEND_DOG, Feed DATA_PROC_DOG, Feed UDP_CLINT_DOG] @
       replicate 59 (Second False) @ [Second False]) demo_ctrl)"
proof -
  have d: "timer_sys_ctrl demo_ctrl" "timer_cnt demo_ctrl mod 60 = 0" "thread_soft_dogs demo_ctrl = replicate 4 0"
    by (simp_all add: demo_ctrl_def app_st.defs ft_st.defs ctrl_st.defs)
  have l: "net_state demo_ctrl = LINK_ERROR" "network_no_pack_time demo_ctrl = 0" "net_reset_cnt demo_ctrl = 0"
    by (simp_all add: demo_ctrl_def app_st.defs ft_st.defs ctrl_st.defs)
  let ?f = "[Feed LORA_RECV_DOG, Feed LORA_SEND_DOG, Feed DATA_PROC_DOG, Feed UDP_CLINT_DOG]"
  let ?a = "(?f @ [Confirm]) @ replicate 59 (Second False)" and ?b = "?f @ replicate 59 (Second False)"
  have n: "seconds ?a = 59" "seconds ?b = 59" "Reboot \<notin> set ?a"
    "False \<notin> set (restarts (?a @ [Second False]) False 0 0)" "False \<in> set (restarts (?b @ [Second False]) False 0 0)"
    by code_simp+
  have c: "count_list ?a (Feed d) mod 256 \<noteq> 0" for d by (cases d; hypsubst; code_simp)
  show ?thesis
    using watchdog_supervision [OF d n(1) refl, of False] watchdog_supervision [OF d n(2) refl, of False] n c
    unfolding l by (simp only: append_assoc) simp
qed

end
