(* ===== verification/Net_Params.thy ===== *)
theory Net_Params
  imports App_Base
begin

text \<open>
  The parameters the management software sets and reads over TCP, the first half of
  \<open>user_thread/thread_network/thread_tcp_server.c\<close>: device number and MAC address, date, addresses in dotted
  notation, network, radio and time-out parameters. Addresses are kept in network byte order, as in the code: the first
  number of the dotted notation is the least significant byte.

  A command is a pointer into the command buffer, a map from offsets to bytes. The results of the network interface
  (\<open>is_dhcp_enable\<close>, \<open>get_ip_addr\<close>, \<open>get_netmask\<close>, \<open>get_gw_addr\<close>) are fields of the
  state. Where the code copies more than its 16-byte arrays hold, or scans an array without terminator, the result is
  a fault.
\<close>

section \<open>State\<close>

datatype tcp_fault = Bad_Pointer | Buffer_Overrun

record tcp_st = app_st +
  is_dhcp_enable :: bool
  if_ip :: u32
  if_netmask :: u32
  if_gw :: u32
  stack_device :: device_params_t
  cmd_buf :: "byte list"
  cmd_buf_len :: nat
  pack_len :: nat
  new_pack :: bool
  behind_tcp_buf :: mem

definition then_r :: "'e + 'a \<Rightarrow> ('a \<Rightarrow> 'e + 'b) \<Rightarrow> 'e + 'b" where
  "then_r x f = (case x of Inl e \<Rightarrow> Inl e | Inr a \<Rightarrow> f a)"

lemma then_r_simps [simp]: "then_r (Inl e) f = Inl e" "then_r (Inr a) f = f a"
  by (simp_all add: then_r_def)

lemma then_r_Inr: "then_r x f = Inr b \<longleftrightarrow> (\<exists>a. x = Inr a \<and> f a = Inr b)"
  by (cases x) auto

section \<open>Device number, MAC address and clock\<close>

definition set_device_id_and_mac :: "fmc_erase \<Rightarrow> fmc_program \<Rightarrow> u32 \<Rightarrow> mem \<Rightarrow> 'a tcp_st_scheme \<Rightarrow> byte \<times> 'a tcp_st_scheme" where
  "set_device_id_and_mac erase prog i mac s =
     (if i div 1000 mod 1000 \<noteq> 448 then (0, s)
      else if mac 0 \<noteq> 0x00 \<or> mac 1 \<noteq> 0x1e \<or> mac 2 \<noteq> 0x38 then (0, s)
      else let d = (stack_device s)\<lparr>dev_id := i, eth_mac := mread mac 0 6\<rparr>;
               (s', r) = save_device_params erase prog (half_words (params_bytes d)) s
           in (if r = RT_EOK then 1 else 0, s'))"

definition set_datetime :: "mem \<Rightarrow> 'a sys_st_scheme \<Rightarrow> byte \<times> 'a sys_st_scheme" where
  "set_datetime data s =
     (let t = (stack_rtc s)\<lparr>year := word16 (data 0) (data 1), month := data 2, day := data 3, hour := data 4,
            minute := data 5, second := data 6\<rparr>
      in case pcf8563_set_datetime t s of (s', _, r) \<Rightarrow> (if r = RT_EOK then 1 else 0, s'))"

definition get_datetime :: "byte list \<Rightarrow> 'a sys_st_scheme \<Rightarrow> byte list" where
  "get_datetime old s =
     (case pcf8563_get_datetime (stack_rtc s) s of (t, r) \<Rightarrow>
        if r \<noteq> RT_EOK then old
        else be16 (year t) @ [month t, day t, hour t, minute t, second t])"

section \<open>Dotted notation\<close>

definition copy16 :: "mem \<Rightarrow> nat \<Rightarrow> byte \<Rightarrow> tcp_fault + byte list" where
  "copy16 data off n = (if n > 16 then Inl Buffer_Overrun else Inr (mread data off (unat n) @ replicate (16 - unat n) 0))"

definition ip_str_to_digit :: "byte list \<Rightarrow> tcp_fault + u32 option" where
  "ip_str_to_digit ip_str =
     (if 0 \<notin> set ip_str then Inl Buffer_Overrun
      else Inr (case sscanf [ScanD, ScanLit (CHR ''.''), ScanD, ScanLit (CHR ''.''), ScanD, ScanLit (CHR ''.''), ScanD] (c_string ip_str) of
        [a, b, c, d] \<Rightarrow>
          if \<not> (0 \<le> a \<and> a \<le> 255 \<and> 0 \<le> b \<and> b \<le> 255 \<and> 0 \<le> c \<and> c \<le> 255 \<and> 0 \<le> d \<and> d \<le> 255) then None
          else Some (push_bit 24 (of_int d) OR push_bit 16 (of_int c) OR push_bit 8 (of_int b) OR of_int a)
      | _ \<Rightarrow> None))"

definition ntohl :: "u32 \<Rightarrow> u32" where
  "ntohl v = rd_be32 (le32 v) 0"

definition netmask_str_to_digit :: "byte list \<Rightarrow> tcp_fault + u32 option" where
  "netmask_str_to_digit netmask_str =
     then_r (ip_str_to_digit netmask_str) (\<lambda>r. case r of
       None \<Rightarrow> Inr None
     | Some v \<Rightarrow> (let tmp_value = ntohl v in Inr (if (tmp_value - 1) OR tmp_value = 0xffffffff then Some v else None)))"

definition ip_digit_to_str :: "u32 \<Rightarrow> byte list" where
  "ip_digit_to_str v =
     (let ip = (\<lambda>i. drop_bit (8 * i) v AND 0xff)
      in bytes_of (rt_sprintf ''%d.%d.%d.%d'' [ArgInt (ip 0), ArgInt (ip 1), ArgInt (ip 2), ArgInt (ip 3)]))"

section \<open>Network parameters\<close>

abbreviation (input) REMOTE_UDP_SERVER_PORT :: u32 where "REMOTE_UDP_SERVER_PORT \<equiv> 5210"

definition upd_net :: "(net_cfg_t \<Rightarrow> net_cfg_t) \<Rightarrow> 'a cfg_st_scheme \<Rightarrow> 'a cfg_st_scheme" where
  "upd_net f s = s\<lparr>g_wnc_config_bak := (g_wnc_config_bak s)\<lparr>net_config := f (net_config (g_wnc_config_bak s))\<rparr>\<rparr>"

definition set_remote_server_ip :: "mem \<Rightarrow> u16 \<Rightarrow> 'a cfg_st_scheme \<Rightarrow> tcp_fault + byte \<times> 'a cfg_st_scheme" where
  "set_remote_server_ip data data_len s =
     (if word32 (data 0) (data 1) (data 2) (data 3) \<noteq> REMOTE_UDP_SERVER_PORT then Inr (0, s)
      else let n1 = data 4; o2 = 5 + unat n1; n2 = data o2
           in then_r (copy16 data 5 n1) (\<lambda>pc.
              then_r (copy16 data (o2 + 1) n2) (\<lambda>hvcs.
              if unat data_len \<noteq> unat n1 + unat n2 + 6 then Inr (0, s)
              else then_r (ip_str_to_digit pc) (\<lambda>r1. case r1 of None \<Rightarrow> Inr (0, s) | Some tmp_pc_ip \<Rightarrow>
                   then_r (ip_str_to_digit hvcs) (\<lambda>r2. case r2 of None \<Rightarrow> Inr (0, s) | Some tmp_hvcs_ip \<Rightarrow>
                   Inr (1, fst (set_wnc_config (upd_net (\<lambda>n. n\<lparr>pc_ip := tmp_pc_ip, hvcs_ip := tmp_hvcs_ip\<rparr>) s))))))))"

definition set_device_net_params :: "mem \<Rightarrow> u16 \<Rightarrow> 'a cfg_st_scheme \<Rightarrow> tcp_fault + byte \<times> 'a cfg_st_scheme" where
  "set_device_net_params data data_len s =
     (if data 1 = 0 then Inr (1, fst (set_wnc_config (upd_net (\<lambda>n. n\<lparr>net_mode := DHCP_MODE\<rparr>) s)))
      else let n1 = data 2; o2 = 3 + unat n1; n2 = data o2; o3 = o2 + 1 + unat n2; n3 = data o3
           in then_r (copy16 data 3 n1) (\<lambda>ip_str.
              then_r (copy16 data (o2 + 1) n2) (\<lambda>netmask_str.
              then_r (copy16 data (o3 + 1) n3) (\<lambda>gateway_str.
              if unat data_len \<noteq> unat n1 + unat n2 + unat n3 + 5 then Inr (0, s)
              else then_r (ip_str_to_digit ip_str) (\<lambda>r1. case r1 of None \<Rightarrow> Inr (0, s) | Some tmp_ip \<Rightarrow>
                   then_r (ip_str_to_digit gateway_str) (\<lambda>r2. case r2 of None \<Rightarrow> Inr (0, s) | Some tmp_gateway \<Rightarrow>
                   then_r (netmask_str_to_digit netmask_str) (\<lambda>r3. case r3 of None \<Rightarrow> Inr (0, s) | Some tmp_netmask \<Rightarrow>
                   Inr (1, fst (set_wnc_config (upd_net (\<lambda>n. n\<lparr>net_mode := DEDICATED_MODE, ip := tmp_ip,
                     gateway := tmp_gateway, netmask := tmp_netmask\<rparr>) s))))))))))"

text \<open>A length byte and the text.\<close>

definition counted_text :: "u32 \<Rightarrow> byte list" where
  "counted_text v = of_nat (length (ip_digit_to_str v)) # ip_digit_to_str v"

definition get_device_net_params :: "'a tcp_st_scheme \<Rightarrow> byte list" where
  "get_device_net_params s =
     (if is_dhcp_enable s then 0 else 1) # counted_text (if_ip s) @ counted_text (if_netmask s) @ counted_text (if_gw s)"

text \<open>Ten bytes from the start of a string literal; behind a shorter one lies unknown memory.\<close>

definition ten_bytes :: "string \<Rightarrow> 'a sys_st_scheme \<Rightarrow> byte list" where
  "ten_bytes v s = take 10 (bytes_of v @ 0 # map (stack_mem s) [0..<9])"

text \<open>The two bytes behind each server address keep what the buffer \<open>old\<close> held.\<close>

definition get_dev_all_info :: "mem \<Rightarrow> 'a tcp_st_scheme \<Rightarrow> byte list" where
  "get_dev_all_info old s =
     (let c = g_wnc_config s;
          a = get_device_net_params s @ be32 (get_file_sn s) @ [0, 0, 0] @ be32 (rf_freq (lora_config c)) @
              [rf_power (lora_config c)] @ ten_bytes (software_version s) s @ le32 (pc_ip (net_config c));
          n = length a
      in a @ [old n, old (n + 1)] @ le32 (hvcs_ip (net_config c)) @ [old (n + 6), old (n + 7)])"

section \<open>Radio parameters and time-out\<close>

definition upd_lora :: "(lora_cfg_t \<Rightarrow> lora_cfg_t) \<Rightarrow> 'a cfg_st_scheme \<Rightarrow> 'a cfg_st_scheme" where
  "upd_lora f s = s\<lparr>g_wnc_config_bak := (g_wnc_config_bak s)\<lparr>lora_config := f (lora_config (g_wnc_config_bak s))\<rparr>\<rparr>"

definition set_lora_params :: "mem \<Rightarrow> u16 \<Rightarrow> 'a cfg_st_scheme \<Rightarrow> byte \<times> 'a cfg_st_scheme" where
  "set_lora_params data data_len s =
     (let tmp_freq = word32 (data 1) (data 2) (data 3) (data 4); tmp_power = data 5
      in if data_len \<noteq> 6 then (0, s)
         else if tmp_freq < 470300000 \<or> tmp_freq > 489300000 then (0, s)
         else if tmp_power < 5 \<or> tmp_power > 17 then (0, s)
         else (1, fst (set_wnc_config (upd_lora (\<lambda>l. l\<lparr>rf_freq := tmp_freq, rf_power := tmp_power\<rparr>) s))))"

definition get_lora_params :: "'a cfg_st_scheme \<Rightarrow> byte list" where
  "get_lora_params s = be32 (rf_freq (lora_config (g_wnc_config s))) @ [rf_power (lora_config (g_wnc_config s))]"

definition set_offline_timeout :: "mem \<Rightarrow> u16 \<Rightarrow> 'a cfg_st_scheme \<Rightarrow> byte \<times> 'a cfg_st_scheme" where
  "set_offline_timeout data data_len s =
     (let tmp_time = word16 (data 1) (data 2)
      in if data_len \<noteq> 3 then (0, s)
         else if tmp_time > 245 then (0, s)
         else (1, fst (set_wnc_config (upd_lora (\<lambda>l. l\<lparr>time_offline := tmp_time\<rparr>) s))))"

definition get_offline_timeout :: "'a cfg_st_scheme \<Rightarrow> byte list" where
  "get_offline_timeout s = be16 (time_offline (lora_config (g_wnc_config s)))"
section \<open>Dotted notation is lossless\<close>

definition dotted :: "u32 \<Rightarrow> string" where
  "dotted v = decimal (unat v mod 256) @ ''.'' @ decimal (unat v div 256 mod 256) @ ''.'' @
     decimal (unat v div 65536 mod 256) @ ''.'' @ decimal (unat v div 16777216 mod 256)"

lemma unat_low_byte: "unat (drop_bit n (v :: u32) AND 0xff) = unat v div 2 ^ n mod 256"
proof -
  have "drop_bit n v AND 0xff = take_bit 8 (drop_bit n v)" by (simp add: take_bit_eq_mask mask_eq_decr_exp)
  then have "unat (drop_bit n v AND 0xff) = take_bit 8 (drop_bit n (unat v))"
    by (simp add: unsigned_take_bit_eq unsigned_drop_bit_eq take_bit_nat_eq_self unsigned_less [where 'a = nat, of v, simplified] del: drop_bit_eq_div)
  then show ?thesis by (simp add: take_bit_eq_mod drop_bit_eq_div del: unsigned_drop_bit_eq)
qed

lemma sint_low_byte: "sint (drop_bit n (v :: u32) AND 0xff) = int (unat v div 2 ^ n mod 256)"
  using sint_small [of "drop_bit n v AND 0xff"] by (simp add: unat_low_byte less_le_trans [OF mod_less_divisor])

lemma decimal_byte_length: "length (decimal (n mod 256)) \<le> 3"
  by (rule length_decimal) (simp_all add: less_le_trans [OF mod_less_divisor])

lemma dotted_length: "length (dotted v) \<le> 15"
  using decimal_byte_length [of "unat v"] decimal_byte_length [of "unat v div 256"]
    decimal_byte_length [of "unat v div 65536"] decimal_byte_length [of "unat v div 16777216"] by (simp add: dotted_def)

lemma ip_digit_to_str_dotted: "ip_digit_to_str v = bytes_of (dotted v)"
proof -
  have d: "signed_decimal (sint (drop_bit n v AND 0xff)) = decimal (unat v div 2 ^ n mod 256)" for n
    by (simp add: sint_low_byte signed_decimal_def)
  have "vsn (2 ^ 32 - 1) ''%d.%d.%d.%d'' (map (\<lambda>i. ArgInt (drop_bit (8 * i) v AND 0xff)) [0, 1, 2, 3]) [] = dotted v"
    by (simp add: d [of 0, simplified] d [of 8] d [of 16] d [of 24] dotted_def del: drop_bit_eq_div)
  then show ?thesis
    using rt_sprintf_vsn [of "''%d.%d.%d.%d''" "map (\<lambda>i. ArgInt (drop_bit (8 * i) v AND 0xff)) [0, 1, 2, 3]"] dotted_length [of v]
    by (simp add: ip_digit_to_str_def)
qed
definition text16 :: "u32 \<Rightarrow> byte list" where
  "text16 v = ip_digit_to_str v @ replicate (16 - length (ip_digit_to_str v)) 0"

lemma of_char_nonzero: "is_digit c \<or> c = CHR ''.'' \<Longrightarrow> (of_char c :: byte) \<noteq> 0"
proof -
  assume "is_digit c \<or> c = CHR ''.''"
  then have "(of_char c :: nat) \<noteq> 0" by (auto simp: is_digit_def)
  moreover have "unat (of_char c :: byte) = of_char c" by simp
  ultimately show ?thesis by (metis unat_0)
qed

lemma dotted_nonzero: "0 \<notin> set (bytes_of (dotted v))"
proof -
  have d: "is_digit c" if "c \<in> set (decimal n)" for c n using that decimal_digits [of n] by (simp add: list_all_iff)
  have "is_digit c \<or> c = CHR ''.''" if "c \<in> set (dotted v)" for c using that d unfolding dotted_def by auto
  then show ?thesis unfolding bytes_of_def set_map using of_char_nonzero by (metis imageE)
qed

lemma c_string_text16: "c_string (text16 v) = dotted v" and zero_text16: "0 \<in> set (text16 v)"
proof -
  have l: "length (bytes_of (dotted v)) < 16" using dotted_length [of v] by simp
  have t: "takeWhile (\<lambda>b. b \<noteq> 0) (xs @ replicate n 0) = xs" if "0 \<notin> set xs" for xs :: "byte list" and n
    using that by (simp add: takeWhile_append takeWhile_eq_Nil_iff hd_replicate)
  show "c_string (text16 v) = dotted v"
    unfolding c_string_def text16_def ip_digit_to_str_dotted by (simp add: t [OF dotted_nonzero])
  show "0 \<in> set (text16 v)" using l unfolding text16_def ip_digit_to_str_dotted by (auto simp: set_replicate_conv_if)
qed

lemma sscanf_dotted:
  "sscanf [ScanD, ScanLit (CHR ''.''), ScanD, ScanLit (CHR ''.''), ScanD, ScanLit (CHR ''.''), ScanD] (dotted v) =
    [int (unat v mod 256), int (unat v div 256 mod 256), int (unat v div 65536 mod 256), int (unat v div 16777216 mod 256)]"
proof -
  have s: "scan_d (decimal n @ r) = Some (int n, r)" if "r = [] \<or> \<not> is_digit (hd r)" for n r
    using scan_signed_decimal [OF that, of "int n"] by (simp add: signed_decimal_def)
  have e: "scan_d (decimal n) = Some (int n, [])" for n using s [of "[]" n] by simp
  show ?thesis by (simp add: dotted_def s e is_digit_def)
qed

lemma bytes_compose:
  "push_bit 24 (of_nat (unat v div 16777216 mod 256)) OR push_bit 16 (of_nat (unat v div 65536 mod 256)) OR
   push_bit 8 (of_nat (unat v div 256 mod 256)) OR of_nat (unat v mod 256) = (v :: u32)"
proof -
  have b: "(of_nat (unat v div 2 ^ n mod 256) :: u32) = ucast (ucast (drop_bit n v) :: byte)" for n
  proof -
    have "(ucast (ucast (drop_bit n v) :: byte) :: u32) = take_bit 8 (drop_bit n v)" 
      by (rule bit_word_eqI) (auto simp: bit_ucast_iff bit_take_bit_iff dest: bit_imp_le_length)
    also have "\<dots> = drop_bit n v AND 0xff" by (simp add: take_bit_eq_mask mask_eq_decr_exp)
    also have "\<dots> = of_nat (unat v div 2 ^ n mod 256)" by (metis unat_low_byte of_nat_unat ucast_id)
    finally show ?thesis by simp
  qed
  show ?thesis
    using word32_split [of v] b [of 0] b [of 8] b [of 16] b [of 24] by (simp add: word32_def)
qed

lemma ip_text_roundtrip: "ip_str_to_digit (text16 v) = Inr (Some v)"
proof -
  have le: "int (n mod 256) \<le> 255" for n :: nat using mod_less_divisor [of 256 n] by linarith
  have b: "push_bit 24 (word_of_int (int (unat v div 16777216 mod 256))) OR push_bit 16 (word_of_int (int (unat v div 65536 mod 256))) OR
     push_bit 8 (word_of_int (int (unat v div 256 mod 256))) OR word_of_int (int (unat v mod 256)) = v"
    using bytes_compose [of v] by (simp only: of_int_of_nat_eq)
  show ?thesis unfolding ip_str_to_digit_def c_string_text16 sscanf_dotted list.case b using le by (simp add: zero_text16)
qed
section \<open>Netmasks\<close>

lemma and_successor_nat: "(n :: nat) AND (n + 1) = 0 \<Longrightarrow> \<exists>k. n = mask k"
proof (induction n rule: less_induct)
  case (less n)
  show ?case
  proof (cases "even n")
    case True
    then obtain m where m: "n = 2 * m" by (elim evenE)
    have "n AND (n + 1) = n" unfolding m and_nat_rec [of "2 * m"] by simp
    then show ?thesis using less.prems by (intro exI [of _ 0]) simp
  next
    case False
    then obtain m where m: "n = 2 * m + 1" by (elim oddE)
    have "n AND (n + 1) = 2 * (m AND (m + 1))" unfolding m and_nat_rec [of "2 * m + 1"] by simp
    then have "m AND (m + 1) = 0" using less.prems by simp
    then obtain k where "m = mask k" using less.IH [of m] m by auto
    moreover have "(0 :: nat) < 2 ^ k" by simp
    ultimately have "n = mask (Suc k)" unfolding m mask_eq_exp_minus_1 power_Suc by linarith
    then show ?thesis ..
  qed
qed


lemma minus_one_word: "(0xffffffff :: u32) = - 1"
  by (simp add: word_uint_eq_iff unsigned_minus_1_eq_mask mask_eq_exp_minus_1)

lemma netmask_bits: "((t :: u32) - 1) OR t = 0xffffffff \<longleftrightarrow> (\<exists>k \<le> 32. t = NOT (mask k))"
proof -
  let ?u = "NOT t"
  have t: "t = NOT ?u" "t - 1 = NOT (?u + 1)" by (simp_all add: not_eq_complement)
  have "(t - 1) OR t = 0xffffffff \<longleftrightarrow> NOT ((?u + 1) AND ?u) = NOT 0"
    unfolding minus_one_word using t by simp
  then have eq: "(t - 1) OR t = 0xffffffff \<longleftrightarrow> ?u AND (?u + 1) = 0" by (simp only: bit.compl_eq_compl_iff and.commute)
  have m: "?u AND (?u + 1) = 0 \<longleftrightarrow> (\<exists>k \<le> 32. ?u = mask k)"
  proof
    assume z: "?u AND (?u + 1) = 0"
    show "\<exists>k \<le> 32. ?u = mask k"
    proof (cases "?u + 1 = 0")
      case True
      then have "?u = - 1" by (simp add: eq_neg_iff_add_eq_0)
      then show ?thesis by (intro exI [of _ 32]) (simp add: mask_eq_exp_minus_1)
    next
      case False
      then have "unat ?u AND (unat ?u + 1) = unat (?u AND (?u + 1))" using unatSuc [of ?u] by (simp add: unsigned_and_eq add.commute)
      then obtain k where k: "unat ?u = mask k" using and_successor_nat [of "unat ?u"] z by auto
      have "k \<le> 32"
      proof (rule ccontr)
        assume "\<not> k \<le> 32"
        then have "(2 :: nat) ^ 33 \<le> 2 ^ k" by (intro power_increasing) auto
        then show False using k unsigned_less [of ?u, where 'a = nat] by (simp add: mask_eq_exp_minus_1)
      qed
      moreover have "?u = mask k" using arg_cong [OF k, of "of_nat :: nat \<Rightarrow> u32"] by (simp add: of_nat_mask_eq)
      ultimately show ?thesis by blast
    qed
  next
    assume "\<exists>k \<le> 32. ?u = mask k"
    then obtain k where "?u = mask k" by blast
    moreover have "(mask k :: u32) + 1 = 2 ^ k" by (simp add: mask_eq_exp_minus_1)
    moreover have "(mask k :: u32) AND 2 ^ k = 0" by (rule bit_word_eqI) (auto simp: bit_and_iff bit_mask_iff bit_exp_iff)
    ultimately show "?u AND (?u + 1) = 0" by simp
  qed
  show ?thesis unfolding eq m by (metis bit.double_compl)
qed


lemma netmask_text:
  "netmask_str_to_digit (text16 v) = Inr (if \<exists>k \<le> 32. ntohl v = NOT (mask k) then Some v else None)"
  by (simp add: netmask_str_to_digit_def ip_text_roundtrip netmask_bits Let_def)

section \<open>Setting the network parameters\<close>

definition buffer :: "byte list \<Rightarrow> mem \<Rightarrow> mem" where
  "buffer bs junk i = (if i < length bs then bs ! i else junk i)"

lemma mread_buffer: "off + n \<le> length bs \<Longrightarrow> mread (buffer bs junk) off n = take n (drop off bs)"
  by (rule nth_equalityI) (auto simp: mread_def buffer_def)

lemma counted_text_props: "counted_text v = of_nat (length (ip_digit_to_str v)) # ip_digit_to_str v"
  "unat (of_nat (length (ip_digit_to_str v)) :: byte) = length (ip_digit_to_str v)"
  "length (ip_digit_to_str v) \<le> 15"
proof -
  show "length (ip_digit_to_str v) \<le> 15" using dotted_length [of v] by (simp add: ip_digit_to_str_dotted)
  then show "unat (of_nat (length (ip_digit_to_str v)) :: byte) = length (ip_digit_to_str v)" by (simp add: unat_of_nat)
qed (simp add: counted_text_def)

lemma copy16_text:
  assumes "bs = pre @ ip_digit_to_str v @ post" and "off = length pre"
  shows "copy16 (buffer bs junk) off (of_nat (length (ip_digit_to_str v))) = Inr (text16 v)"
proof -
  have "mread (buffer bs junk) off (length (ip_digit_to_str v)) = ip_digit_to_str v"
    using assms by (subst mread_buffer) simp_all
  moreover have "\<not> (of_nat (length (ip_digit_to_str v)) :: byte) > 16"
    using counted_text_props(2,3) [of v] by (simp add: word_less_nat_alt)
  ultimately show ?thesis using counted_text_props(2) [of v] by (simp add: copy16_def text16_def)
qed

definition net_params_cmd :: "u32 \<Rightarrow> u32 \<Rightarrow> u32 \<Rightarrow> byte list" where
  "net_params_cmd a m g = [1, 1] @ counted_text a @ counted_text m @ counted_text g"

lemma set_net_params_run:
  assumes "\<exists>k \<le> 32. ntohl m = NOT (mask k)"
  shows "set_device_net_params (buffer (net_params_cmd a m g) junk) (of_nat (length (net_params_cmd a m g))) s =
    Inr (1, fst (set_wnc_config (upd_net (\<lambda>n. n\<lparr>net_mode := DEDICATED_MODE, ip := a, gateway := g, netmask := m\<rparr>) s)))"
proof -
  let ?t = ip_digit_to_str and ?l = "\<lambda>v. length (ip_digit_to_str v)" and ?b = "net_params_cmd a m g"
  let ?d = "buffer ?b junk"
  have b: "?b = [1, 1, of_nat (?l a)] @ ?t a @ of_nat (?l m) # ?t m @ of_nat (?l g) # ?t g"
    by (simp add: net_params_cmd_def counted_text_def)
  have d: "?d 1 = 1" "?d 2 = of_nat (?l a)" "?d (3 + ?l a) = of_nat (?l m)" "?d (4 + ?l a + ?l m) = of_nat (?l g)"
    unfolding buffer_def b by (simp_all add: nth_append nth_Cons' numeral_eq_Suc)
  have c: "copy16 ?d 3 (of_nat (?l a)) = Inr (text16 a)" "copy16 ?d (4 + ?l a) (of_nat (?l m)) = Inr (text16 m)"
    "copy16 ?d (5 + ?l a + ?l m) (of_nat (?l g)) = Inr (text16 g)"
    by (rule copy16_text [of _ "[1, 1, of_nat (?l a)]" a], simp_all add: b,
        rule copy16_text [of _ "[1, 1, of_nat (?l a)] @ ?t a @ [of_nat (?l m)]"], simp_all,
        rule copy16_text [of _ "[1, 1, of_nat (?l a)] @ ?t a @ of_nat (?l m) # ?t m @ [of_nat (?l g)]" _ "[]"], simp_all)
  have n: "unat (of_nat (length ?b) :: u16) = ?l a + ?l m + ?l g + 5"
  proof -
    have "length ?b = ?l a + ?l m + ?l g + 5" by (simp add: b)
    moreover from this have "length ?b < 2 ^ 16"
      using counted_text_props(3) [of a] counted_text_props(3) [of m] counted_text_props(3) [of g] by simp
    ultimately show ?thesis by (simp only: unat_of_nat) simp
  qed
  show ?thesis
    unfolding set_device_net_params_def Let_def d counted_text_props(2)
    using d c n assms by (simp add: ip_text_roundtrip netmask_text counted_text_props(2) add.commute add.left_commute)
qed


definition factory :: "wnc_cfg_t \<Rightarrow> wnc_cfg_t" where
  "factory c = c\<lparr>version := CONFIG_VERSION, net_config := default_net,
     lora_config := (lora_config c)\<lparr>rf_freq := DEF_RF_FREQ, rf_power := 17, time_offline := 35\<rparr>\<rparr>"

lemma restart_after_set:
  assumes "flash t = flash (fst (set_wnc_config s))"
  shows "g_wnc_config (get_wnc_config t) = (if check_wnc_config (g_wnc_config_bak s) = 0 then g_wnc_config_bak s else factory (g_wnc_config_bak s))"
proof -
  have l: "load_cfg WNC_CONFIG_ADDR t = g_wnc_config_bak s" "load_cfg WNC_CONFIG_BAK_ADDR (t\<lparr>g_wnc_config := c\<rparr>) = g_wnc_config_bak s" for c
    using load_both [of s] load_cfg_cong [OF assms] load_cfg_cong [of "t\<lparr>g_wnc_config := c\<rparr>" "fst (set_wnc_config s)"] assms by simp_all
  show ?thesis
    using check_cases [of "g_wnc_config_bak s"] l [simplified]
    by (auto simp: get_wnc_config_def Let_def init_wnc_config_def g_user_init factory_def)
qed



end
