(* ===== verification/Tcp_Command.thy ===== *)
theory Tcp_Command
  imports Data_Process Net_Params
begin

text \<open>
  The commands of the management software, \<open>analyze_command\<close> of
  \<open>user_thread/thread_network/thread_tcp_server.c\<close>. A command is in the static buffer \<open>cmd_buf\<close>: a header of
  twelve bytes (command, device number, device type, packet number, payload length, big-endian), the payload and a check
  byte. Every answer is made in the same buffer and sent from it. A command with a wrong check byte is answered
  through a header pointer that was never set: the result is the fault \<open>Bad_Pointer\<close>. No result (\<open>None\<close>)
  means that the upload loop does not end.
\<close>

section \<open>The buffer\<close>

abbreviation (input) MAX_TCP_DATA_LENGTH :: nat where "MAX_TCP_DATA_LENGTH \<equiv> 1024"
abbreviation (input) HEADER_LEN :: nat where "HEADER_LEN \<equiv> 12"

definition put :: "nat \<Rightarrow> byte list \<Rightarrow> byte list \<Rightarrow> byte list" where
  "put off xs b = take off b @ xs @ drop (off + length xs) b"

definition payload :: "byte list \<Rightarrow> mem" where
  "payload b i = b ! (HEADER_LEN + i)"

definition hdr_cmd :: "byte list \<Rightarrow> byte" where
  "hdr_cmd b = b ! 0"

definition hdr_id :: "byte list \<Rightarrow> u32" where
  "hdr_id b = rd_be32 b 1"

definition hdr_pack_sn :: "byte list \<Rightarrow> byte" where
  "hdr_pack_sn b = b ! 9"

definition hdr_data_len :: "byte list \<Rightarrow> u16" where
  "hdr_data_len b = rd_be16 b 10"

section \<open>Answers\<close>

text \<open>The check byte behind \<open>n - 1\<close> bytes, and the sending of \<open>n\<close> bytes.\<close>

definition send_checked :: "int \<Rightarrow> nat \<Rightarrow> 'a tcp_st_scheme \<Rightarrow> 'a tcp_st_scheme" where
  "send_checked fd n s =
     (let b = (cmd_buf s)[n - 1 := xor_verify (take (n - 1) (cmd_buf s))]
      in s\<lparr>cmd_buf := b, tcp_out := tcp_out s @ [(fd, take n b)]\<rparr>)"

text \<open>The payload length is entered into the header first.\<close>

definition send_pack :: "int \<Rightarrow> nat \<Rightarrow> 'a tcp_st_scheme \<Rightarrow> 'a tcp_st_scheme" where
  "send_pack fd data_len s =
     send_checked fd (HEADER_LEN + data_len + 1) (s\<lparr>cmd_buf := put 10 (be16 (of_nat data_len)) (cmd_buf s)\<rparr>)"

definition reply :: "int \<Rightarrow> byte list \<Rightarrow> 'a tcp_st_scheme \<Rightarrow> 'a tcp_st_scheme" where
  "reply fd bs s = send_pack fd (length bs) (s\<lparr>cmd_buf := put HEADER_LEN bs (cmd_buf s)\<rparr>)"

text \<open>The result in the first byte of the payload, the length as it was.\<close>

definition reply_same_len :: "int \<Rightarrow> nat \<Rightarrow> byte \<Rightarrow> 'a tcp_st_scheme \<Rightarrow> 'a tcp_st_scheme" where
  "reply_same_len fd len r s = send_checked fd len (s\<lparr>cmd_buf := (cmd_buf s)[HEADER_LEN := r]\<rparr>)"

definition tcp_bad_cmd :: "int \<Rightarrow> 'a tcp_st_scheme \<Rightarrow> 'a tcp_st_scheme" where
  "tcp_bad_cmd fd s =
     reply fd [] (s\<lparr>cmd_buf := put 9 [1] (put 5 (bytes_of ''LN'') (put 1 (be32 (dev_id (wnc_device s))) (cmd_buf s)))\<rparr>)"

section \<open>Files\<close>

partial_function (option) upload_loop :: "int \<Rightarrow> 'a tcp_st_scheme \<Rightarrow> 'a tcp_st_scheme option" where
  "upload_loop fd s =
     (let (ret, bs, s1) = upload_file (hdr_pack_sn (cmd_buf s)) (payload (cmd_buf s)) 1011 s;
          s2 = s1\<lparr>cmd_buf := put HEADER_LEN bs (cmd_buf s1)\<rparr>
      in if ret > 0
         then let s3 = send_pack fd (nat ret) s2
              in upload_loop fd (s3\<lparr>cmd_buf := (cmd_buf s3)[9 := cmd_buf s3 ! 9 + 1]\<rparr>)
         else let s3 = file_operate_reset s2 in Some (if ret = - 1 then reply fd [0] s3 else s3))"

definition configure_files_opt :: "int \<Rightarrow> 'a tcp_st_scheme \<Rightarrow> 'a tcp_st_scheme option" where
  "configure_files_opt fd s =
     (let b = cmd_buf s
      in if hdr_pack_sn b = 1 \<and> payload b 0 = 0 then upload_loop fd s
         else case download_file (hdr_pack_sn b) (payload b) (hdr_data_len b) s of (ret, s1) \<Rightarrow>
                Some (if ret = DOWNLOAD_DOWNLOADING then s1
                      else reply fd [of_nat ret] (s1\<lparr>cmd_buf := put 9 [1] (cmd_buf s1)\<rparr>)))"

section \<open>Messages to other threads\<close>

definition send_led :: "stu_led_msg \<Rightarrow> 'a app_st_scheme \<Rightarrow> 'a app_st_scheme" where
  "send_led m s = s\<lparr>mq_led := mq_put m (mq_led s)\<rparr>"

text \<open>The message is cleared, the socket and the payload are copied into its 256 bytes.\<close>

definition forward :: "(int \<Rightarrow> byte list \<Rightarrow> stu_lora_msg) \<Rightarrow> int \<Rightarrow> 'a tcp_st_scheme \<Rightarrow> tcp_fault + 'a tcp_st_scheme" where
  "forward msg fd s =
     (let n = unat (hdr_data_len (cmd_buf s))
      in if n > 252 then Inl Buffer_Overrun
         else Inr (send_data_proc (msg fd (mread (payload (cmd_buf s)) 0 n @ replicate (252 - n) 0)) s))"

section \<open>Commands\<close>

abbreviation (input) CMD_SET_DEV_ID_AND_MAC :: byte where "CMD_SET_DEV_ID_AND_MAC \<equiv> 1"
abbreviation (input) CMD_ERASE_DEV_ID_AND_MAC :: byte where "CMD_ERASE_DEV_ID_AND_MAC \<equiv> 2"
abbreviation (input) CMD_SOFT_REBOOT :: byte where "CMD_SOFT_REBOOT \<equiv> 3"
abbreviation (input) CMD_ADJUST_MACHINE_CLOCK :: byte where "CMD_ADJUST_MACHINE_CLOCK \<equiv> 6"
abbreviation (input) CMD_READ_MACHINE_CLOCK :: byte where "CMD_READ_MACHINE_CLOCK \<equiv> 7"
abbreviation (input) CMD_SET_SERVER_IP :: byte where "CMD_SET_SERVER_IP \<equiv> 9"
abbreviation (input) CMD_CONFIGURE_FILES_OPT :: byte where "CMD_CONFIGURE_FILES_OPT \<equiv> 15"
abbreviation (input) CMD_NET_PARAMS_OPT :: byte where "CMD_NET_PARAMS_OPT \<equiv> 23"
abbreviation (input) CMD_GET_DEVICE_ALL_INFOS :: byte where "CMD_GET_DEVICE_ALL_INFOS \<equiv> 24"
abbreviation (input) CMD_GET_SLOT_INFOS :: byte where "CMD_GET_SLOT_INFOS \<equiv> 31"
abbreviation (input) CMD_LOCAL_LORA_PARAMS_OPT :: byte where "CMD_LOCAL_LORA_PARAMS_OPT \<equiv> 38"
abbreviation (input) CMD_SENSOR_OFFLINE_TIMEOUT :: byte where "CMD_SENSOR_OFFLINE_TIMEOUT \<equiv> 39"
abbreviation (input) CMD_LORA_SEND_TEST :: byte where "CMD_LORA_SEND_TEST \<equiv> 240"
abbreviation (input) CMD_USER_INIT :: byte where "CMD_USER_INIT \<equiv> 241"
abbreviation (input) CMD_LORA_RECV_TEST :: byte where "CMD_LORA_RECV_TEST \<equiv> 245"
abbreviation (input) CMD_LORA_CONFIG_NODE_BY_RANGE :: byte where "CMD_LORA_CONFIG_NODE_BY_RANGE \<equiv> 246"
abbreviation (input) CMD_LORA_INIT_NODE :: byte where "CMD_LORA_INIT_NODE \<equiv> 247"
abbreviation (input) CMD_LORA_CONFIG_NODE_BY_ID :: byte where "CMD_LORA_CONFIG_NODE_BY_ID \<equiv> 248"

text \<open>The commands without loop; the value is a fault or the state.\<close>

definition simple_command :: "fmc_erase \<Rightarrow> fmc_program \<Rightarrow> int \<Rightarrow> nat \<Rightarrow> 'a tcp_st_scheme \<Rightarrow> tcp_fault + 'a tcp_st_scheme" where
  "simple_command erase prog fd len s =
     (let b = cmd_buf s; cmd = hdr_cmd b; p = payload b; data_len = hdr_data_len b
      in if cmd = CMD_SET_DEV_ID_AND_MAC
         then (case set_device_id_and_mac erase prog (hdr_id b) p s of (r, s1) \<Rightarrow> Inr (reply fd [r] s1))
         else if cmd = CMD_ERASE_DEV_ID_AND_MAC
         then (case init_device_param erase prog s of (s1, r) \<Rightarrow> Inr (reply fd [if r = RT_EOK then 1 else 0] s1))
         else if cmd = CMD_SOFT_REBOOT then Inr (reply fd [1] (send_sys_ctrl MSG_SYS_USER_REBOOT s))
         else if cmd = CMD_ADJUST_MACHINE_CLOCK
         then (case set_datetime p s of (r, s1) \<Rightarrow> Inr (reply_same_len fd len r s1))
         else if cmd = CMD_READ_MACHINE_CLOCK then Inr (reply fd (get_datetime (replicate 7 0) s) s)
         else if cmd = CMD_SET_SERVER_IP
         then then_r (set_remote_server_ip p data_len s) (\<lambda>(r, s1). Inr (reply_same_len fd len r s1))
         else if cmd = CMD_NET_PARAMS_OPT
         then if p 0 = 1
              then then_r (set_device_net_params p data_len s) (\<lambda>(r, s1). Inr (reply_same_len fd len r s1))
              else Inr (reply fd (1 # get_device_net_params s) s)
         else if cmd = CMD_GET_DEVICE_ALL_INFOS then Inr (reply fd (get_dev_all_info p s) s)
         else if cmd = CMD_GET_SLOT_INFOS
         then (case get_self_detector_info s of (n, bs) \<Rightarrow>
                 Inr (send_pack fd (unat n) (s\<lparr>cmd_buf := put HEADER_LEN bs b\<rparr>)))
         else if cmd = CMD_LORA_SEND_TEST then Inr (reply fd [1] (send_led MSG_LED_TEST (send_lora MSG_LORA_SEND_TEST s)))
         else if cmd = CMD_LORA_RECV_TEST then Inr (send_led MSG_LED_TEST (send_data_proc (MSG_LORA_RECV_TEST fd) s))
         else if cmd = CMD_USER_INIT then Inr (reply fd [1] (user_init s))
         else if cmd = CMD_LOCAL_LORA_PARAMS_OPT
         then if p 0 = 1
              then (case set_lora_params p data_len s of (r, s1) \<Rightarrow> Inr (reply_same_len fd len r s1))
              else Inr (reply fd (get_lora_params s) s)
         else if cmd = CMD_SENSOR_OFFLINE_TIMEOUT
         then if p 0 = 1
              then (case set_offline_timeout p data_len s of (r, s1) \<Rightarrow> Inr (reply fd [r] s1))
              else Inr (reply fd (get_offline_timeout s) s)
         else if cmd = CMD_LORA_CONFIG_NODE_BY_RANGE then forward MSG_LORA_CONFIG_NODE_BY_RANGE fd s
         else if cmd = CMD_LORA_INIT_NODE then forward MSG_LORA_INIT_NODE fd s
         else if cmd = CMD_LORA_CONFIG_NODE_BY_ID then forward MSG_LORA_CONFIG_NODE_BY_ID fd s
         else Inr (tcp_bad_cmd fd s))"

definition analyze_command :: "fmc_erase \<Rightarrow> fmc_program \<Rightarrow> int \<Rightarrow> nat \<Rightarrow> 'a tcp_st_scheme \<Rightarrow> (tcp_fault + 'a tcp_st_scheme) option" where
  "analyze_command erase prog fd len s =
     (let b = cmd_buf s
      in if xor_verify (take (len - 1) b) \<noteq> b ! (len - 1) then Some (Inl Bad_Pointer)
         else if hdr_id b \<noteq> dev_id (wnc_device s) \<and> hdr_id b \<noteq> 0 \<and> hdr_cmd b \<noteq> CMD_SET_DEV_ID_AND_MAC
         then Some (Inr (tcp_bad_cmd fd s))
         else if hdr_cmd b = CMD_CONFIGURE_FILES_OPT then map_option Inr (configure_files_opt fd s)
         else Some (simple_command erase prog fd len s))"
section \<open>What the files, the clock and the configuration leave alone\<close>

text \<open>The operations of the lower components do not touch the queues, the sockets and the command buffer, which are
  in the extension of their state.\<close>

named_theorems more_simps \<open>operations that keep the extension of the state\<close>

lemma same_more:
  assumes "ft_st.more s' = ft_st.more s"
  shows "tcp_out s' = tcp_out s" "cmd_buf s' = cmd_buf s"
  using assms by (cases s; cases s'; simp)+

lemma more_flash [more_simps]:
  "ft_st.more (ext_write a bs s) = ft_st.more s" "ft_st.more (ext_sct_erase a s) = ft_st.more s"
  "ft_st.more (ext_blk_erase a s) = ft_st.more s" "ft_st.more (rewrite_sector a bs s) = ft_st.more s"
  by (simp_all add: ext_write_def ext_sct_erase_def ext_blk_erase_def rewrite_sector_def)

lemma more_erase_blocks [more_simps]: "ft_st.more (erase_blocks base n s) = ft_st.more s"
proof -
  have "ft_st.more (fold (\<lambda>i. ext_blk_erase ((base + i * 16) * FLASH_BYTES_PER_SECTOR)) js s) = ft_st.more s" for js
    by (induction js arbitrary: s) (simp_all add: more_simps)
  then show ?thesis by (simp add: erase_blocks_def)
qed

lemma more_add_log [more_simps]: "ft_st.more (add_log d s) = ft_st.more s"
  by (subst add_log_only) simp

lemma more_init_parking_lists [more_simps]: "ft_st.more (init_parking_lists s) = ft_st.more s"
  by (subst init_parking_lists_only) simp

lemma log_read_only: "snd (log_read n type s) = s\<lparr>log_infos := log_infos (snd (log_read n type s))\<rparr>"
proof (induction n type s rule: log_read.induct)
  case (1 n type s)
  show ?case
  proof (cases "n = 0 \<or> available (log_infos (upd_info type enter_sector s) type) = 0")
    case True
    then show ?thesis by (subst (1 2) log_read.simps) (auto simp: upd_info_def Let_def)
  next
    case False
    then show ?thesis
      using 1 by (subst (1 2) log_read.simps) (auto simp: Let_def case_prod_unfold upd_info_def split: if_splits)
  qed
qed

lemma more_logs [more_simps]:
  "ft_st.more (snd (log_read n type s)) = ft_st.more s" "ft_st.more (prepare_read type s) = ft_st.more s"
  by (subst log_read_only, simp) (simp add: prepare_read_def Let_def upd_info_def split: prod.split)

lemma more_read_file [more_simps]: "ft_st.more (snd (read_file n s)) = ft_st.more s"
  by (simp add: read_file_def Let_def read_system_log_def read_work_state_log_def more_simps)

lemma more_process [more_simps]: "ft_st.more (snd (process_download_type name n s)) = ft_st.more s"
  by (simp add: process_download_type_def Let_def start_file_def more_simps split: list.split)

lemma more_finish [more_simps]: "ft_st.more (finish_download_option s) = ft_st.more s"
  by (simp add: finish_download_option_def Let_def more_simps)

lemma more_store_packet [more_simps]: "ft_st.more (snd (store_packet data off n s)) = ft_st.more s"
  by (simp add: store_packet_def Let_def file_operate_reset_def more_simps)

lemma more_download_file [more_simps]: "ft_st.more (snd (download_file k data n s)) = ft_st.more s"
proof -
  have p: "process_download_type name m t = (r, t') \<Longrightarrow> ft_st.more t' = ft_st.more t" for name m r and t t' :: "'a ft_st_scheme"
    using more_process [of name m t] by simp
  show ?thesis by (simp add: download_file_def Let_def more_simps p split: prod.split bool.split)
qed

lemma more_upload_file [more_simps]: "ft_st.more (snd (snd (upload_file k data n s))) = ft_st.more s"
proof -
  have d: "ft_st.more (snd (snd (upload_data l j t))) = ft_st.more t" for l j and t :: "'a ft_st_scheme"
    by (simp add: upload_data_def Let_def case_prod_unfold more_simps)
  have u: "upload_source ty t = Some (m, nm, t') \<Longrightarrow> ft_st.more t' = ft_st.more t" for ty m nm and t t' :: "'a ft_st_scheme"
    by (auto simp: upload_source_def Let_def prepare_read_system_log_def prepare_read_work_state_log_def more_simps split: if_splits)
  show ?thesis by (auto simp: upload_file_def Let_def case_prod_unfold d u split: option.split)
qed


lemma more_params [more_simps]:
  "ft_st.more (fst (save_device_params er pr w s)) = ft_st.more s" "ft_st.more (fst (init_device_param er pr s)) = ft_st.more s"
  "ft_st.more (fst (set_wnc_config s)) = ft_st.more s" "ft_st.more (user_init s) = ft_st.more s"
  "ft_st.more (upd_net f s) = ft_st.more s" "ft_st.more (upd_lora g s) = ft_st.more s"
  "ft_st.more (snd (set_datetime d s)) = ft_st.more s"
  by (simp_all add: save_device_params_def init_device_param_def set_wnc_config_stores user_init_def store_cfg_def Let_def
      case_prod_unfold upd_net_def upd_lora_def set_datetime_def pcf8563_set_datetime_def more_simps)

lemma more_set [more_simps]:
  "ft_st.more (snd (set_lora_params d n s)) = ft_st.more s" "ft_st.more (snd (set_offline_timeout d n s)) = ft_st.more s"
  "set_remote_server_ip d n s = Inr x \<Longrightarrow> ft_st.more (snd x) = ft_st.more s"
  "set_device_net_params d n s = Inr x \<Longrightarrow> ft_st.more (snd x) = ft_st.more s"
  by (auto simp: set_lora_params_def set_offline_timeout_def set_remote_server_ip_def set_device_net_params_def Let_def
      then_r_Inr more_simps split: if_splits option.splits)

lemma more_set_device_id [more_simps]: "ft_st.more (snd (set_device_id_and_mac er pr i m s)) = ft_st.more s"
  by (simp add: set_device_id_and_mac_def Let_def case_prod_unfold more_simps)
section \<open>The size of an uploaded packet\<close>

lemma length_log_read: "length (fst (log_read n type s)) \<le> n"
proof (induction n type s rule: log_read.induct)
  case (1 n type s)
  show ?case
  proof (cases "n = 0 \<or> available (log_infos (upd_info type enter_sector s) type) = 0")
    case True
    then show ?thesis by (subst log_read.simps) (auto simp: Let_def)
  next
    case False
    define s1 where "s1 = upd_info type enter_sector s"
    define p where "p = log_infos s1 type"
    define k where "k = (if n < available p then n else available p)"
    define s2 where "s2 = upd_info type (\<lambda>p. p\<lparr>read_offset := read_offset p + k\<rparr>) s1"
    have "length (fst (log_read (n - k) type s2)) \<le> n - k"
      by (rule 1 [OF _ s1_def p_def refl _ k_def refl s2_def]) (use False in \<open>auto simp: p_def s1_def\<close>)
    moreover have "fst (log_read n type s) = ext_read (base_addr p + read_offset p) k s1 @ fst (log_read (n - k) type s2)"
      using False unfolding s2_def k_def p_def s1_def by (subst log_read.simps) (simp add: Let_def case_prod_unfold)
    moreover have "k \<le> n" by (simp add: k_def)
    ultimately show ?thesis by (simp add: ext_read_def)
  qed
qed

lemma rt_strlen_le: "rt_strlen bs \<le> length bs"
  by (induction bs) auto

lemma length_read_file: "length (fst (read_file n s)) \<le> n"
  by (simp add: read_file_def Let_def read_system_log_def read_work_state_log_def ext_read_def length_log_read)

lemma upload_data_size:
  assumes "upload_data len free s = (len', bs, s')" and "unat len + unat free < 2 ^ 15"
  shows "unat len' = unat len + length bs" "length bs \<le> unat free" 
proof -
  have "length bs \<le> unat free \<and> len' = len + of_nat (length bs)"
  proof (cases "remain (file_operate_state s) > 0")
    case True
    let ?w = "if ucast free > remain (file_operate_state s) then unat (remain (file_operate_state s)) else unat free"
    have "bs = fst (read_file ?w s)" "len' = len + of_nat (length bs)"
      using assms(1) True by (auto simp: upload_data_def Let_def case_prod_unfold)
    moreover have "?w \<le> unat free" by (auto simp: word_less_nat_alt)
    ultimately show ?thesis using length_read_file [of ?w s] by (metis order_trans)
  next
    case False
    then show ?thesis using assms(1) by (auto simp: upload_data_def Let_def)
  qed
  moreover from this have "unat len + length bs < 2 ^ 16" using assms(2) by simp
  ultimately show "unat len' = unat len + length bs" "length bs \<le> unat free"
    by (auto simp: unat_word_ariths unat_of_nat)
qed

lemma sint16_small: "unat (w :: u16) < 2 ^ 15 \<Longrightarrow> sint w = int (unat w)"
proof -
  assume "unat w < 2 ^ 15"
  then have "uint w < 2 ^ 15" unfolding unat_eq_nat_uint by (subst (asm) nat_less_iff) simp_all
  moreover have "- (2 ^ 15) \<le> uint w" by (rule order_trans [of _ 0]) simp_all
  ultimately have "signed_take_bit 15 (uint w) = uint w" by (intro signed_take_bit_int_eq_self) simp_all
  then show ?thesis unfolding sint_uint by (simp add: unsigned_of_nat)
qed

lemma upload_file_size:
  assumes "upload_file k d 1011 s = (ret, bs, s')"
  shows "ret = - 1 \<and> bs = [] \<or> ret = int (length bs) \<and> length bs \<le> 1011"
proof (cases "k = 1")
  case False
  then obtain len' where u: "upload_data 0 1011 s = (len', bs, s')" "ret = sint len'"
    using assms by (cases "upload_data 0 1011 s") (auto simp: upload_file_def)
  then show ?thesis using upload_data_size [OF u(1)] by (simp add: sint16_small)
next
  case True
  define s1 where "s1 = upd_op (\<lambda>p. p\<lparr>op_state := FILE_OPT_STATE_UPLOAD, file_type := get_file_type (mread d 2 24)\<rparr>) s"
  show ?thesis
  proof (cases "get_file_type (mread d 2 24) = MAX_FILE_TYPE_NUM \<or> upload_source (get_file_type (mread d 2 24)) s1 = None")
    case True
    then show ?thesis using assms \<open>k = 1\<close> by (auto simp: upload_file_def Let_def s1_def split: if_splits)
  next
    case False
    then obtain n nm s2 where src: "upload_source (get_file_type (mread d 2 24)) s1 = Some (n, nm, s2)" by auto
    define nl where "nl = (of_nat (rt_strlen nm) :: byte)"
    define s3 where "s3 = upd_op (\<lambda>p. p\<lparr>remain := n\<rparr>) s2"
    obtain len' ds where u: "upload_data (ucast nl + 6) (1011 - (ucast nl + 6)) s3 = (len', ds, s')" "ret = sint len'"
        "bs = [0, nl] @ take (unat nl) nm @ be32 n @ ds"
      using assms True False src
      by (cases "upload_data (ucast nl + 6) (1011 - (ucast nl + 6)) s3") (auto simp: upload_file_def Let_def s1_def [symmetric] nl_def s3_def)
    have nl: "unat nl < 256" using unsigned_less [of nl, where 'a = nat] by simp
    have l: "unat (ucast nl + 6 :: u16) = unat nl + 6" "unat (1011 - (ucast nl + 6) :: u16) = 1005 - unat nl"
    proof -
      have u: "unat (ucast nl :: u16) = unat nl" using nl by (simp add: unsigned_ucast_eq take_bit_nat_eq_self)
      then show a: "unat (ucast nl + 6 :: u16) = unat nl + 6" using nl by (simp add: unat_word_ariths)
      show "unat (1011 - (ucast nl + 6) :: u16) = 1005 - unat nl"
        using nl a by (subst unat_sub) (simp_all add: word_le_nat_alt)
    qed
    have "unat nl \<le> length nm"
    proof -
      have "unat nl \<le> rt_strlen nm" by (simp add: nl_def unat_of_nat)
      also have "\<dots> \<le> length nm" by (rule rt_strlen_le)
      finally show ?thesis .
    qed
    then have "length bs = unat len'" "length ds \<le> 1005 - unat nl"
      using upload_data_size [OF u(1)] l nl u(3) by simp_all
    moreover from this have "unat len' \<le> 1011" using upload_data_size(1) [OF u(1)] l nl by simp
    ultimately show ?thesis using u(2) by (simp add: sint16_small)
  qed
qed
section \<open>Every answer is a packet\<close>

definition packet_ok :: "byte list \<Rightarrow> bool" where
  "packet_ok r \<longleftrightarrow> 13 \<le> length r \<and> length r = 13 + unat (hdr_data_len r) \<and> last r = xor_verify (butlast r)"

text \<open>The buffer has its size and holds the command \<open>c\<close>.\<close>

definition buf_ok :: "byte \<Rightarrow> 'a tcp_st_scheme \<Rightarrow> bool" where
  "buf_ok c s \<longleftrightarrow> length (cmd_buf s) = MAX_TCP_DATA_LENGTH \<and> hdr_cmd (cmd_buf s) = c"

definition answers :: "int \<Rightarrow> byte \<Rightarrow> nat \<Rightarrow> 'a tcp_st_scheme \<Rightarrow> 'a tcp_st_scheme \<Rightarrow> bool" where
  "answers fd c k s s' \<longleftrightarrow> buf_ok c s' \<and>
     (\<exists>rs. length rs = k \<and> tcp_out s' = tcp_out s @ map (Pair fd) rs \<and> (\<forall>r \<in> set rs. packet_ok r \<and> hdr_cmd r = c))"

lemma answersI:
  "buf_ok c s' \<Longrightarrow> tcp_out s' = tcp_out s @ map (Pair fd) rs \<Longrightarrow> (\<And>r. r \<in> set rs \<Longrightarrow> packet_ok r \<and> hdr_cmd r = c) \<Longrightarrow> answers fd c (length rs) s s'"
  unfolding answers_def by blast

lemma answers_none: "buf_ok c s' \<Longrightarrow> tcp_out s' = tcp_out s \<Longrightarrow> answers fd c 0 s s'"
  using answersI [where rs = "[]"] by simp

lemma answers_trans:
  assumes "answers fd c j s t" and "answers fd c k t u"
  shows "answers fd c (j + k) s u"
proof -
  obtain rs rs' where r: "tcp_out t = tcp_out s @ map (Pair fd) rs" "tcp_out u = tcp_out t @ map (Pair fd) rs'"
    "\<forall>r \<in> set rs \<union> set rs'. packet_ok r \<and> hdr_cmd r = c" "length rs = j" "length rs' = k"
    using assms unfolding answers_def by blast
  have "answers fd c (length (rs @ rs')) s u" using assms(2) r by (intro answersI) (auto simp: answers_def)
  then show ?thesis using r(4,5) by simp
qed

lemma put_props:
  assumes "off + length xs \<le> length b"
  shows "length (put off xs b) = length b" "i < off \<Longrightarrow> put off xs b ! i = b ! i"
    "i < length xs \<Longrightarrow> put off xs b ! (off + i) = xs ! i"
    "off + length xs \<le> i \<Longrightarrow> i < length b \<Longrightarrow> put off xs b ! i = b ! i"
  using assms by (auto simp: put_def nth_append)

lemma hdr_of_take: "12 \<le> n \<Longrightarrow> n \<le> length b \<Longrightarrow> hdr_data_len (take n b @ r) = hdr_data_len b \<and> hdr_cmd (take n b @ r) = hdr_cmd b"
  by (simp add: hdr_data_len_def hdr_cmd_def rd_be16_def nth_append)

lemma answers_checked:
  assumes "buf_ok c s" and "n = 13 + unat (hdr_data_len (cmd_buf s))" and "n \<le> MAX_TCP_DATA_LENGTH"
  shows "answers fd c 1 s (send_checked fd n s)"
proof -
  let ?b = "cmd_buf s"
  let ?r = "take (n - 1) ?b @ [xor_verify (take (n - 1) ?b)]"
  have l: "length ?b = MAX_TCP_DATA_LENGTH" using assms(1) by (simp add: buf_ok_def)
  have t: "take n (?b[n - 1 := x]) = take (n - 1) ?b @ [x]" for x
    using l assms(2,3) by (simp add: take_update_swap take_Suc_conv_app_nth list_eq_iff_nth_eq nth_list_update nth_append)
  have "answers fd c (length [?r]) s (send_checked fd n s)"
  proof (rule answersI)
  show "tcp_out (send_checked fd n s) = tcp_out s @ map (Pair fd) [?r]" by (simp add: send_checked_def Let_def t del: One_nat_def)
  show "buf_ok c (send_checked fd n s)" using assms by (simp add: buf_ok_def send_checked_def Let_def hdr_cmd_def)
  fix r assume "r \<in> set [?r]"
  then show "packet_ok r \<and> hdr_cmd r = c"
    using assms l hdr_of_take [of "n - 1" ?b] by (simp add: packet_ok_def buf_ok_def)
  qed
  then show ?thesis by simp
qed

lemma answers_same_out: "answers fd c k s t \<Longrightarrow> tcp_out s = tcp_out s' \<Longrightarrow> answers fd c k s' t"
  by (simp add: answers_def)

lemma answers_send_pack:
  assumes "buf_ok c s" and "n \<le> 1011"
  shows "answers fd c 1 s (send_pack fd n s)"
proof -
  let ?b = "put 10 (be16 (of_nat n)) (cmd_buf s)" let ?s = "s\<lparr>cmd_buf := ?b\<rparr>"
  have l: "length (cmd_buf s) = MAX_TCP_DATA_LENGTH" using assms(1) by (simp add: buf_ok_def)
  have "?b = take 10 (cmd_buf s) @ be16 (of_nat n) @ drop 12 (cmd_buf s)" by (simp add: put_def)
  then have "hdr_data_len ?b = of_nat n" using l by (simp add: hdr_data_len_def rd_be16_skip rd_orders)
  then have "unat (hdr_data_len ?b) = n" using assms(2) by (simp add: unat_of_nat)
  moreover have "buf_ok c ?s" using assms(1) l by (simp add: buf_ok_def hdr_cmd_def put_props)
  ultimately have "answers fd c 1 ?s (send_checked fd (HEADER_LEN + n + 1) ?s)" using assms(2) by (intro answers_checked) simp_all
  then show ?thesis unfolding send_pack_def by (rule answers_same_out) simp
qed

lemma answers_reply:
  assumes "buf_ok c s" and "length bs \<le> 1011"
  shows "answers fd c 1 s (reply fd bs s)"
proof -
  let ?s = "s\<lparr>cmd_buf := put HEADER_LEN bs (cmd_buf s)\<rparr>"
  have "buf_ok c ?s" using assms by (simp add: buf_ok_def hdr_cmd_def put_props)
  from answers_send_pack [OF this assms(2)] show ?thesis unfolding reply_def by (rule answers_same_out) simp
qed

lemma answers_same_len:
  assumes "buf_ok c s" and "len = 13 + unat (hdr_data_len (cmd_buf s))" and "len \<le> MAX_TCP_DATA_LENGTH"
  shows "answers fd c 1 s (reply_same_len fd len r s)"
proof -
  let ?s = "s\<lparr>cmd_buf := (cmd_buf s)[HEADER_LEN := r]\<rparr>"
  have "buf_ok c ?s" "hdr_data_len (cmd_buf ?s) = hdr_data_len (cmd_buf s)"
    using assms(1) by (simp_all add: buf_ok_def hdr_cmd_def hdr_data_len_def rd_be16_def)
  with assms have "answers fd c 1 ?s (send_checked fd len ?s)" by (intro answers_checked) simp_all
  then show ?thesis unfolding reply_same_len_def by (rule answers_same_out) simp
qed
definition keep :: "'a tcp_st_scheme \<Rightarrow> 'a tcp_st_scheme \<Rightarrow> bool" where
  "keep t s \<longleftrightarrow> tcp_out t = tcp_out s \<and> cmd_buf t = cmd_buf s"

lemma keep_more: "ft_st.more t = ft_st.more s \<Longrightarrow> keep t s"
  using same_more [of t s] by (simp add: keep_def)

lemma keep_refl [simp]: "keep s s"
  by (simp add: keep_def)

lemma keep_send [simp]:
  "keep (send_lora m t) s = keep t s" "keep (send_data_proc m t) s = keep t s" "keep (send_sys_ctrl m' t) s = keep t s"
  "keep (send_led l t) s = keep t s"
  by (simp_all add: keep_def send_lora_def send_data_proc_def send_sys_ctrl_def send_led_def)

lemma buf_ok_keep: "keep t s \<Longrightarrow> buf_ok c s \<Longrightarrow> buf_ok c t"
  by (simp add: buf_ok_def keep_def)

lemma answers_keep: "keep t s \<Longrightarrow> answers fd c k t u \<Longrightarrow> answers fd c k s u"
  by (simp add: answers_def keep_def)

lemma length_counted_text: "length (counted_text v) \<le> 16"
  using counted_text_props(3) [of v] by (simp add: counted_text_def)

lemma lengths:
  "length (get_datetime (replicate 7 0) s) = 7" "length (get_device_net_params t) \<le> 49" "length (get_dev_all_info old t) \<le> 100"
  "length (get_lora_params u) = 5" "length (get_offline_timeout u) = 2"
proof -
  show n: "length (get_device_net_params t) \<le> 49"
    using length_counted_text [of "if_ip t"] length_counted_text [of "if_netmask t"] length_counted_text [of "if_gw t"]
    by (simp add: get_device_net_params_def)
  then show "length (get_dev_all_info old t) \<le> 100" by (simp add: get_dev_all_info_def Let_def ten_bytes_def)
qed (simp_all add: get_datetime_def case_prod_unfold get_lora_params_def get_offline_timeout_def)

lemma slot_info_size:
  assumes "d_num (g_detector_info_list s) \<le> MAX_DETECTOR_PER_WNC"
  shows "unat (fst (get_self_detector_info s)) = 10 * d_num (g_detector_info_list s) + 1"
    "length (snd (get_self_detector_info s)) = 10 * d_num (g_detector_info_list s) + 1"
proof -
  have "length (detector_entry d) = 10" for d by (simp add: detector_entry_def)
  then show "length (snd (get_self_detector_info s)) = 10 * d_num (g_detector_info_list s) + 1"
    by (simp add: get_self_detector_info_def Let_def length_concat comp_def sum_list_triv)
  show "unat (fst (get_self_detector_info s)) = 10 * d_num (g_detector_info_list s) + 1"
    using assms by (simp add: get_self_detector_info_def Let_def unat_of_nat unat_word_ariths)
qed

lemma tcp_bad_cmd_answers:
  assumes "buf_ok c s"
  shows "answers fd c 1 s (tcp_bad_cmd fd s)"
proof -
  let ?s = "s\<lparr>cmd_buf := put 9 [1] (put 5 (bytes_of ''LN'') (put 1 (be32 (dev_id (wnc_device s))) (cmd_buf s)))\<rparr>"
  have "buf_ok c ?s" using assms by (simp add: buf_ok_def hdr_cmd_def put_props)
  from answers_reply [OF this, of "[]" fd] show ?thesis unfolding tcp_bad_cmd_def by (rule answers_same_out) simp_all
qed

lemma reply_after: "keep t s \<Longrightarrow> buf_ok c s \<Longrightarrow> length bs \<le> 1011 \<Longrightarrow> answers fd c 1 s (reply fd bs t)"
  by (rule answers_keep [OF _ answers_reply [OF buf_ok_keep]])

lemma same_len_after:
  assumes "keep t s" and "buf_ok c s" and "len = 13 + unat (hdr_data_len (cmd_buf s))" and "len \<le> MAX_TCP_DATA_LENGTH"
  shows "answers fd c 1 s (reply_same_len fd len r t)"
  by (rule answers_keep [OF assms(1) answers_same_len [OF buf_ok_keep [OF assms(1,2)]]]) (use assms in \<open>simp_all add: keep_def\<close>)

lemma keep_answers: "keep t s \<Longrightarrow> buf_ok c s \<Longrightarrow> answers fd c 0 s t"
  by (rule answers_none [OF buf_ok_keep]) (simp_all add: keep_def)

lemma forward_answers: "forward m fd s = Inr s' \<Longrightarrow> buf_ok c s \<Longrightarrow> answers fd c 0 s s'"
  by (auto simp: forward_def Let_def intro!: keep_answers split: if_splits)

lemma simple_command_answers:
  fixes s :: "'a tcp_st_scheme"
  assumes run: "simple_command er pr fd len s = Inr s'" and b: "buf_ok (hdr_cmd (cmd_buf s)) s" and len: "len = 13 + unat (hdr_data_len (cmd_buf s))" "len \<le> MAX_TCP_DATA_LENGTH"
    and d: "d_num (g_detector_info_list s) \<le> MAX_DETECTOR_PER_WNC"
  shows "answers fd (hdr_cmd (cmd_buf s)) (if hdr_cmd (cmd_buf s) \<in> {CMD_LORA_RECV_TEST, CMD_LORA_CONFIG_NODE_BY_RANGE,
    CMD_LORA_INIT_NODE, CMD_LORA_CONFIG_NODE_BY_ID} then 0 else 1) s s'"
proof -
  define c where "c = hdr_cmd (cmd_buf s)"
  note b = b [folded c_def]
  let ?n = "fst (get_self_detector_info s)" and ?bs = "snd (get_self_detector_info s)"
  have slot: "answers fd c 1 s (send_pack fd (unat ?n) (s\<lparr>cmd_buf := put HEADER_LEN ?bs (cmd_buf s)\<rparr>))" if b: "buf_ok c s" for c
  proof -
    have n: "unat ?n \<le> 1011" "length ?bs \<le> 1011" using slot_info_size [OF d] d by simp_all
    then have "buf_ok c (s\<lparr>cmd_buf := put HEADER_LEN ?bs (cmd_buf s)\<rparr>)" using b by (simp add: buf_ok_def hdr_cmd_def put_props)
    from answers_send_pack [OF this n(1)] show ?thesis by (rule answers_same_out) simp
  qed
  have recv: "answers fd c 0 s (send_led MSG_LED_TEST (send_data_proc (MSG_LORA_RECV_TEST fd) s))" if "buf_ok c s" for c
    by (rule keep_answers [OF _ that]) simp
  show ?thesis
    using run b unfolding simple_command_def Let_def c_def [symmetric]
    by (auto simp: then_r_Inr case_prod_unfold keep_more more_simps lengths le_trans [OF lengths(2)] le_trans [OF lengths(3)]
        intro!: reply_after same_len_after [OF _ _ len] slot recv tcp_bad_cmd_answers
        dest: forward_answers more_set(3,4) simp del: One_nat_def split: if_splits)
qed
lemma upload_step:
  assumes "upload_file (hdr_pack_sn (cmd_buf s)) (payload (cmd_buf s)) 1011 s = (ret, bs, s1)" and "buf_ok c s"
  defines "s2 \<equiv> s1\<lparr>cmd_buf := put HEADER_LEN bs (cmd_buf s1)\<rparr>"
  shows "buf_ok c s2" "tcp_out s2 = tcp_out s" "0 < ret \<Longrightarrow> answers fd c 1 s (send_pack fd (nat ret) s2)"
proof -
  have k: "keep s1 s" using more_upload_file [of _ _ _ s] assms(1) by (metis keep_more snd_conv)
  have sz: "length bs \<le> 1011" "nat ret \<le> 1011" using upload_file_size [OF assms(1)] by auto
  show b: "buf_ok c s2" using buf_ok_keep [OF k assms(2)] sz(1) by (simp add: s2_def buf_ok_def hdr_cmd_def put_props)
  show o: "tcp_out s2 = tcp_out s" using k by (simp add: s2_def keep_def)
  show "answers fd c 1 s (send_pack fd (nat ret) s2)" using answers_same_out [OF answers_send_pack [OF b sz(2)] o] .
qed

lemma upload_loop_answers:
  assumes "upload_loop fd s = Some s'"
  shows "\<forall>c. buf_ok c s \<longrightarrow> (\<exists>k. answers fd c k s s')"
proof (rule upload_loop.raw_induct [where P = "\<lambda>fd s s'. \<forall>c. buf_ok c s \<longrightarrow> (\<exists>k. answers fd c k s s')", OF _ assms], intro allI impI, goal_cases)
  case (1 loop fd s s' c)
  obtain ret bs s1 where u: "upload_file (hdr_pack_sn (cmd_buf s)) (payload (cmd_buf s)) 1011 s = (ret, bs, s1)"
    by (cases "upload_file (hdr_pack_sn (cmd_buf s)) (payload (cmd_buf s)) 1011 s")
  define s2 where "s2 = s1\<lparr>cmd_buf := put HEADER_LEN bs (cmd_buf s1)\<rparr>"
  note st = upload_step [OF u 1(3), folded s2_def]
  show ?case
  proof (cases "0 < ret")
    case True
    let ?t = "send_pack fd (nat ret) s2" let ?n = "?t\<lparr>cmd_buf := (cmd_buf ?t)[9 := cmd_buf ?t ! 9 + 1]\<rparr>"
    have a: "answers fd c 1 s ?t" by (rule st(3) [OF True])
    then have "buf_ok c ?n" by (simp add: answers_def buf_ok_def hdr_cmd_def)
    moreover have "loop fd ?n = Some s'" using 1(2) True u by (simp add: Let_def s2_def)
    ultimately obtain k where "answers fd c k ?n s'" using 1(1) by blast
    then have "answers fd c k ?t s'" by (rule answers_same_out) simp
    then show ?thesis using answers_trans [OF a] by blast
  next
    case False
    let ?r = "file_operate_reset s2"
    have k: "keep ?r s2" by (simp add: keep_def file_operate_reset_def)
    have "s' = (if ret = - 1 then reply fd [0] ?r else ?r)" using 1(2) False u by (auto simp: Let_def s2_def)
    then have "answers fd c (if ret = - 1 then 1 else 0) s2 s'" using reply_after [OF k st(1)] keep_answers [OF k st(1)] by simp
    then show ?thesis using answers_same_out [OF _ st(2)] by blast
  qed
qed

lemma download_answers:
  assumes "\<not> (hdr_pack_sn (cmd_buf s) = 1 \<and> payload (cmd_buf s) 0 = 0)" and "buf_ok c s"
  shows "\<exists>s' k. configure_files_opt fd s = Some s' \<and> k \<le> 1 \<and> answers fd c k s s'"
proof -
  obtain ret s1 where d: "download_file (hdr_pack_sn (cmd_buf s)) (payload (cmd_buf s)) (hdr_data_len (cmd_buf s)) s = (ret, s1)"
    by (cases "download_file (hdr_pack_sn (cmd_buf s)) (payload (cmd_buf s)) (hdr_data_len (cmd_buf s)) s")
  have k: "keep s1 s" using more_download_file [of _ _ _ s] d by (metis keep_more snd_conv)
  let ?t = "s1\<lparr>cmd_buf := put 9 [1] (cmd_buf s1)\<rparr>"
  have "buf_ok c ?t" using buf_ok_keep [OF k assms(2)] by (simp add: buf_ok_def hdr_cmd_def put_props)
  then have "answers fd c 1 ?t (reply fd [of_nat ret] ?t)" by (rule answers_reply) simp
  then have "answers fd c 1 s (reply fd [of_nat ret] ?t)" by (rule answers_same_out) (use k in \<open>simp add: keep_def\<close>)
  moreover have "answers fd c 0 s s1" by (rule keep_answers [OF k assms(2)])
  ultimately show ?thesis using assms(1) d by (cases "ret = DOWNLOAD_DOWNLOADING") (force simp: configure_files_opt_def)+
qed

lemma configure_files_answers:
  assumes "configure_files_opt fd s = Some s'" and "buf_ok c s"
  shows "\<exists>k. answers fd c k s s'"
proof (cases "hdr_pack_sn (cmd_buf s) = 1 \<and> payload (cmd_buf s) 0 = 0")
  case True
  then show ?thesis using upload_loop_answers [of fd s s'] assms by (simp add: configure_files_opt_def Let_def)
next
  case False
  from download_answers [OF this assms(2), of fd] show ?thesis using assms(1) by auto
qed

text \<open>The fixed buffers a command needs are long enough: 252 bytes for a forwarded payload, 16 bytes with the
  terminator for every address text.\<close>

definition command_fits :: "byte list \<Rightarrow> bool" where
  "command_fits b \<longleftrightarrow>
     (let c = hdr_cmd b; p = payload b; o2 = 3 + unat (p 2); o3 = o2 + 1 + unat (p o2)
      in (c \<in> {CMD_LORA_CONFIG_NODE_BY_RANGE, CMD_LORA_INIT_NODE, CMD_LORA_CONFIG_NODE_BY_ID} \<longrightarrow> hdr_data_len b \<le> 252) \<and>
         (c = CMD_SET_SERVER_IP \<longrightarrow> p 4 \<le> 15 \<and> p (5 + unat (p 4)) \<le> 15) \<and>
         (c = CMD_NET_PARAMS_OPT \<longrightarrow> p 0 = 1 \<longrightarrow> p 1 \<noteq> 0 \<longrightarrow> p 2 \<le> 15 \<and> p o2 \<le> 15 \<and> p o3 \<le> 15))"

lemma copy16_fits:
  assumes "n \<le> 15"
  obtains x where "copy16 d off n = Inr x" "0 \<in> set x"
proof -
  have "unat n \<le> 15" "\<not> n > 16" using assms unfolding word_le_nat_alt word_less_nat_alt by simp_all
  moreover from this have "0 \<in> set (replicate (16 - unat n) (0 :: byte))" by simp
  ultimately show ?thesis by (intro that) (auto simp: copy16_def)
qed

lemma texts_read:
  "0 \<in> set x \<Longrightarrow> \<exists>r. ip_str_to_digit x = Inr r" "0 \<in> set x \<Longrightarrow> \<exists>r. netmask_str_to_digit x = Inr r"
  by (simp_all add: netmask_str_to_digit_def ip_str_to_digit_def Let_def split: option.split)

lemma set_ip_total:
  assumes "d 4 \<le> 15" and "d (5 + unat (d 4)) \<le> 15"
  shows "\<exists>r. set_remote_server_ip d n s = Inr r"
proof -
  obtain x where x: "copy16 d 5 (d 4) = Inr x" "0 \<in> set x" by (rule copy16_fits [OF assms(1)])
  obtain y where y: "copy16 d (5 + unat (d 4) + 1) (d (5 + unat (d 4))) = Inr y" "0 \<in> set y" by (rule copy16_fits [OF assms(2)])
  show ?thesis
    using x(1) y(1) texts_read(1) [OF x(2)] texts_read(1) [OF y(2)]
    by (auto simp: set_remote_server_ip_def Let_def split: option.split)
qed

lemma set_net_total:
  assumes "d 1 \<noteq> 0 \<Longrightarrow> d 2 \<le> 15 \<and> d (3 + unat (d 2)) \<le> 15 \<and> d (3 + unat (d 2) + 1 + unat (d (3 + unat (d 2)))) \<le> 15"
  shows "\<exists>r. set_device_net_params d n s = Inr r"
proof (cases "d 1 = 0")
  case True
  then show ?thesis by (simp add: set_device_net_params_def)
next
  case False
  let ?o2 = "3 + unat (d 2)" let ?o3 = "?o2 + 1 + unat (d ?o2)"
  note f = assms [OF False]
  obtain x where x: "copy16 d 3 (d 2) = Inr x" "0 \<in> set x" by (rule copy16_fits [OF f [THEN conjunct1]])
  obtain y where y: "copy16 d (?o2 + 1) (d ?o2) = Inr y" "0 \<in> set y" by (rule copy16_fits [OF f [THEN conjunct2, THEN conjunct1]])
  obtain z where z: "copy16 d (?o3 + 1) (d ?o3) = Inr z" "0 \<in> set z" by (rule copy16_fits [OF f [THEN conjunct2, THEN conjunct2]])
  show ?thesis
    using texts_read(1) [OF x(2)] texts_read(2) [OF y(2)] texts_read(1) [OF z(2)]
    by (simp only: set_device_net_params_def Let_def False if_False x(1) y(1) z(1) then_r_simps) (auto split: option.split)
qed

lemma simple_command_total:
  assumes "command_fits (cmd_buf s)"
  shows "\<exists>s'. simple_command er pr fd len s = Inr s'"
proof -
  let ?b = "cmd_buf s" let ?p = "payload ?b" and ?c = "hdr_cmd ?b"
  let ?n = "hdr_data_len ?b"
  have ip: "\<exists>r. set_remote_server_ip ?p ?n s = Inr r" if "?c = CMD_SET_SERVER_IP"
    by (rule set_ip_total) (use assms that in \<open>auto simp: command_fits_def Let_def\<close>)
  have net: "\<exists>r. set_device_net_params ?p ?n s = Inr r" if "?c = CMD_NET_PARAMS_OPT" "?p 0 = 1"
    by (rule set_net_total) (use assms that in \<open>simp add: command_fits_def Let_def add.assoc\<close>)
  have fwd: "\<exists>s'. forward m fd s = Inr s'" if "?c \<in> {CMD_LORA_CONFIG_NODE_BY_RANGE, CMD_LORA_INIT_NODE, CMD_LORA_CONFIG_NODE_BY_ID}" for m
  proof -
    have "hdr_data_len ?b \<le> 252" using assms that by (auto simp: command_fits_def Let_def)
    then have "\<not> 252 < unat (hdr_data_len ?b)" unfolding word_le_nat_alt by simp
    then show ?thesis by (simp add: forward_def Let_def)
  qed
  show ?thesis
  proof (cases "?c \<in> {CMD_LORA_CONFIG_NODE_BY_RANGE, CMD_LORA_INIT_NODE, CMD_LORA_CONFIG_NODE_BY_ID, CMD_SET_SERVER_IP, CMD_NET_PARAMS_OPT}")
    case True
    then show ?thesis using ip net fwd by (auto simp: simple_command_def Let_def case_prod_unfold)
  next
    case False
    then show ?thesis by (simp add: simple_command_def Let_def case_prod_unfold)
  qed
qed

text \<open>C13: every answer is a correct packet. Take a complete packet in the command buffer whose check byte is correct, whose
  length is the one its header states, and whose payload respects the fixed buffers (\<open>command_fits\<close>: at most 252
  bytes to forward, address texts of at most 15 characters); the detector list is within its bounds. Unless it asks for an
  upload, the command is carried out to the end, and everything the server sends in reply is a packet of the protocol with
  the command's number: its length is the one its header states, and its last byte is the exclusive or of the others. A command
  for another device gets one answer, one that is forwarded to the data process thread none, a packet of a file at most one,
  every other command exactly one. If an upload ends, all it has sent are packets of that kind, too.\<close>

theorem command_answers:
  fixes s :: "'a tcp_st_scheme"
  assumes "xor_verify (take (len - 1) (cmd_buf s)) = cmd_buf s ! (len - 1)" and "length (cmd_buf s) = MAX_TCP_DATA_LENGTH"
    and "len = 13 + unat (hdr_data_len (cmd_buf s))" and "len \<le> MAX_TCP_DATA_LENGTH" and "command_fits (cmd_buf s)"
    and "d_num (g_detector_info_list s) \<le> MAX_DETECTOR_PER_WNC"
  defines "c \<equiv> hdr_cmd (cmd_buf s)"
  defines "foreign \<equiv> hdr_id (cmd_buf s) \<noteq> dev_id (wnc_device s) \<and> hdr_id (cmd_buf s) \<noteq> 0 \<and> c \<noteq> CMD_SET_DEV_ID_AND_MAC"
  defines "upload \<equiv> \<not> foreign \<and> c = CMD_CONFIGURE_FILES_OPT \<and> hdr_pack_sn (cmd_buf s) = 1 \<and> payload (cmd_buf s) 0 = 0"
  shows "(\<not> upload \<longrightarrow> (\<exists>s' rs. analyze_command er pr fd len s = Some (Inr s') \<and> tcp_out s' = tcp_out s @ map (Pair fd) rs \<and>
       (\<forall>r \<in> set rs. packet_ok r \<and> hdr_cmd r = c) \<and>
       (if foreign then length rs = 1 else if c = CMD_CONFIGURE_FILES_OPT then length rs \<le> 1
        else if c \<in> {CMD_LORA_RECV_TEST, CMD_LORA_CONFIG_NODE_BY_RANGE, CMD_LORA_INIT_NODE, CMD_LORA_CONFIG_NODE_BY_ID}
        then rs = [] else length rs = 1))) \<and>
    (upload \<longrightarrow> (case analyze_command er pr fd len s of None \<Rightarrow> True | Some (Inl f) \<Rightarrow> False
       | Some (Inr s') \<Rightarrow> \<exists>rs. tcp_out s' = tcp_out s @ map (Pair fd) rs \<and> (\<forall>r \<in> set rs. packet_ok r \<and> hdr_cmd r = c)))"
proof -
  have b: "buf_ok c s" using assms(2) by (simp add: buf_ok_def c_def)
  have run: "analyze_command er pr fd len s = (if foreign then Some (Inr (tcp_bad_cmd fd s))
      else if c = CMD_CONFIGURE_FILES_OPT then map_option Inr (configure_files_opt fd s) else Some (simple_command er pr fd len s))"
    using assms(1) by (simp add: analyze_command_def Let_def foreign_def c_def)
  have ans: "answers fd c k s s' \<longleftrightarrow> buf_ok c s' \<and>
     (\<exists>rs. length rs = k \<and> tcp_out s' = tcp_out s @ map (Pair fd) rs \<and> (\<forall>r \<in> set rs. packet_ok r \<and> hdr_cmd r = c))" for k s'
    by (simp add: answers_def)
  have plain: "\<exists>s' k. analyze_command er pr fd len s = Some (Inr s') \<and> answers fd c k s s' \<and>
      (if foreign then k = 1 else if c = CMD_CONFIGURE_FILES_OPT then k \<le> 1
       else if c \<in> {CMD_LORA_RECV_TEST, CMD_LORA_CONFIG_NODE_BY_RANGE, CMD_LORA_INIT_NODE, CMD_LORA_CONFIG_NODE_BY_ID}
       then k = 0 else k = 1)" if "\<not> upload"
  proof -
    consider "foreign" | "\<not> foreign" "c = CMD_CONFIGURE_FILES_OPT" | "\<not> foreign" "c \<noteq> CMD_CONFIGURE_FILES_OPT" by blast
    then show ?thesis
    proof cases
      case 1
      then show ?thesis using tcp_bad_cmd_answers [OF b, of fd] run by (intro exI conjI) auto
    next
      case 2
      then have "\<not> (hdr_pack_sn (cmd_buf s) = 1 \<and> payload (cmd_buf s) 0 = 0)" using that by (auto simp: upload_def)
      from download_answers [OF this b, of fd] show ?thesis using 2 run by auto
    next
      case 3
      obtain s' where s': "simple_command er pr fd len s = Inr s'" using simple_command_total [OF assms(5)] by blast
      from simple_command_answers [OF s' b [unfolded c_def] assms(3,4,6), folded c_def] show ?thesis
        using 3 run s' by (intro exI conjI) (simp, assumption, simp)
    qed
  qed
  have up: "case analyze_command er pr fd len s of None \<Rightarrow> True | Some (Inl f) \<Rightarrow> False
      | Some (Inr s') \<Rightarrow> \<exists>k. answers fd c k s s'" if "upload"
    using that configure_files_answers [OF _ b, of fd] run by (auto simp: upload_def split: option.split)
  show ?thesis
  proof (intro conjI impI, goal_cases)
    case 1
    obtain s' k where k: "analyze_command er pr fd len s = Some (Inr s')" "answers fd c k s s'"
      "if foreign then k = 1 else if c = CMD_CONFIGURE_FILES_OPT then k \<le> 1
       else if c \<in> {CMD_LORA_RECV_TEST, CMD_LORA_CONFIG_NODE_BY_RANGE, CMD_LORA_INIT_NODE, CMD_LORA_CONFIG_NODE_BY_ID}
       then k = 0 else k = 1" using plain [OF 1] by blast
    obtain rs where "length rs = k" "tcp_out s' = tcp_out s @ map (Pair fd) rs" "\<forall>r \<in> set rs. packet_ok r \<and> hdr_cmd r = c"
      using k(2) unfolding ans by blast
    then show ?case using k(1,3) unfolding length_0_conv [symmetric] by (intro exI [of _ s'] exI [of _ rs] conjI) auto
  next
    case 2
    show ?case using up [OF 2] unfolding ans by (cases "analyze_command er pr fd len s") (auto split: sum.splits)
  qed
qed

definition demo_tcp :: "byte list \<Rightarrow> tcp_st" where
  "demo_tcp pkt = app_st.extend demo_app (tcp_st.fields False 0x0a00a8c0 0x00ffffff 0x0100a8c0
     \<lparr>id_str = replicate 10 0, eth_mac = replicate 6 0, reserved = 0, dev_id = 0\<rparr>
     (pkt @ replicate (1024 - length pkt) 0) (length pkt) (length pkt) False (\<lambda>_. 0))"

lemma demo_tcp_fields [simp]:
  "cmd_buf (demo_tcp pkt) = pkt @ replicate (1024 - length pkt) 0" "tcp_out (demo_tcp pkt) = tcp_out demo_app"
  "g_detector_info_list (demo_tcp pkt) = g_detector_info_list demo_app"
  by (simp_all add: demo_tcp_def app_st.defs tcp_st.defs)

theorem command_answers_witness:
  "\<exists>s' r. analyze_command (\<lambda>a m. (m, True)) (\<lambda>a w m. (m, True)) 7 13 (demo_tcp [3, 0, 0, 0, 0, 0x4c, 0x4e, 0, 0, 1, 0, 0, 0]) = Some (Inr s') \<and>
     tcp_out s' = tcp_out demo_app @ [(7, r)] \<and> packet_ok r \<and> hdr_cmd r = 3"
proof -
  let ?p = "[3, 0, 0, 0, 0, 0x4c, 0x4e, 0, 0, 1, 0, 0, 0] :: byte list"
  let ?s = "demo_tcp ?p"
  have h: "hdr_cmd (cmd_buf ?s) = 3" "hdr_id (cmd_buf ?s) = 0" "hdr_data_len (cmd_buf ?s) = 0"
    by (simp_all add: hdr_cmd_def hdr_id_def hdr_data_len_def rd_be32_def rd_be16_def word32_def word16_def)
  have x: "xor_verify (take (13 - 1) (cmd_buf ?s)) = cmd_buf ?s ! (13 - 1)" by (simp add: xor_verify_def)
  have d: "d_num (g_detector_info_list ?s) \<le> MAX_DETECTOR_PER_WNC" by (simp add: demo_detectors_def)
  have l: "length (cmd_buf ?s) = MAX_TCP_DATA_LENGTH" "13 = 13 + unat (hdr_data_len (cmd_buf ?s))" "13 \<le> MAX_TCP_DATA_LENGTH"
    "command_fits (cmd_buf ?s)" using h by (simp_all add: command_fits_def Let_def)
  have t: "tcp_out ?s = tcp_out demo_app" by (rule demo_tcp_fields(2))
  show ?thesis
    using command_answers [OF x l d, of "\<lambda>a m. (m, True)" "\<lambda>a w m. (m, True)" 7] unfolding h t
    by (auto simp: length_Suc_conv simp del: demo_tcp_fields)
qed

end
