(* ===== verification/File_Upload.thy ===== *)
theory File_Upload
  imports Tcp_Command
begin

text \<open>
  The upload of a stored list file: the loop of \<open>analyze_command\<close> over \<open>upload_file\<close>. The packets it sends are
  read off the socket output and put together again, which is what the management software does.
\<close>

definition pkt_payload :: "byte list \<Rightarrow> byte list" where
  "pkt_payload r = take (length r - 13) (drop 12 r)"

section \<open>One packet\<close>

lemma take_put: "off \<le> length b \<Longrightarrow> take (length xs) (drop off (put off xs b)) = xs"
  by (simp add: put_def)

lemma send_pack_sends:
  assumes "length (cmd_buf s) = MAX_TCP_DATA_LENGTH" and "n \<le> 1011"
  shows "\<exists>r. tcp_out (send_pack fd n s) = tcp_out s @ [(fd, r)] \<and> pkt_payload r = take n (drop 12 (cmd_buf s)) \<and>
    hdr_pack_sn r = hdr_pack_sn (cmd_buf s) \<and> length (cmd_buf (send_pack fd n s)) = MAX_TCP_DATA_LENGTH \<and>
    hdr_pack_sn (cmd_buf (send_pack fd n s)) = hdr_pack_sn (cmd_buf s)"
proof -
  let ?b = "put 10 (be16 (of_nat n)) (cmd_buf s)"
  let ?c = "?b[12 + n := xor_verify (take (12 + n) ?b)]"
  have b: "length ?b = 1024" "?b ! 9 = cmd_buf s ! 9" using assms(1) by (simp_all add: put_props)
  have d: "drop 12 ?b = drop 12 (cmd_buf s)" using assms(1) by (simp add: put_def)
  have "pkt_payload (take (13 + n) ?c) = take n (drop 12 ?c)"
    using b(1) assms(2) by (simp add: pkt_payload_def min_def drop_take)
  also have "\<dots> = take n (drop 12 (cmd_buf s))" by (simp add: drop_update_swap d take_update_cancel)
  finally have "pkt_payload (take (13 + n) ?c) = take n (drop 12 (cmd_buf s))" .
  moreover have "hdr_pack_sn (take (13 + n) ?c) = hdr_pack_sn (cmd_buf s)" "hdr_pack_sn ?c = hdr_pack_sn (cmd_buf s)"
    using b by (simp_all add: hdr_pack_sn_def)
  moreover have "tcp_out (send_pack fd n s) = tcp_out s @ [(fd, take (13 + n) ?c)]" "cmd_buf (send_pack fd n s) = ?c"
    by (simp_all add: send_pack_def send_checked_def Let_def)
  ultimately show ?thesis using b(1) by simp
qed

lemma send_pack_same:
  "flash (send_pack fd n s) = flash s" "file_operate_state (send_pack fd n s) = file_operate_state s"
  by (simp_all add: send_pack_def send_checked_def Let_def)

section \<open>The rest of a file\<close>

definition list_file :: "nat \<Rightarrow> bool" where
  "list_file t \<longleftrightarrow> t \<in> {REGION_CONFIG_FILE, LIGHT_CONNECT_FILE, LIGHT_PARKING_FILE, SENSOR_LIST_FILE}"

text \<open>An upload under way: \<open>r\<close> bytes from address \<open>a\<close> on are left.\<close>

definition uploading :: "nat \<Rightarrow> nat \<Rightarrow> 'a ft_st_scheme \<Rightarrow> bool" where
  "uploading a r s \<longleftrightarrow> list_file (file_type (file_operate_state s)) \<and> remain (file_operate_state s) = of_nat r \<and>
     flash_addr (file_operate_state s) = of_nat a \<and> a + r < 2 ^ 32"

lemma upload_data_list:
  assumes "uploading a r s" and "unat len + unat free < 2 ^ 15"
  defines "w \<equiv> min (unat free) r"
  shows "\<exists>s'. upload_data len free s = (len + of_nat w, ext_read a w s, s') \<and> uploading (a + w) (r - w) s' \<and> flash s' = flash s"
proof -
  let ?p = "file_operate_state s"
  have r: "unat (of_nat r :: u32) = r" "unat (of_nat a :: u32) = a" using assms(1) by (simp_all add: uploading_def unat_of_nat)
  have f: "unat (ucast free :: u32) = unat free" using unsigned_less [of free, where 'a = nat]
    by (simp add: unsigned_ucast_eq take_bit_nat_eq_self)
  show ?thesis
  proof (cases "r = 0")
    case True
    then show ?thesis using assms(1) by (simp add: upload_data_def uploading_def w_def ext_read_def)
  next
    case False
    have p: "remain ?p > 0" using False r assms(1) by (simp add: uploading_def word_less_nat_alt)
    have w: "(if ucast free > remain ?p then unat (remain ?p) else unat free) = w"
      using assms(1) r f by (auto simp: uploading_def w_def word_less_nat_alt)
    have rf: "read_file w s = (ext_read a w s, s)" using assms(1) r by (simp add: read_file_def uploading_def list_file_def Let_def)
    let ?s' = "upd_op (\<lambda>p. p\<lparr>remain := remain p - of_nat w, flash_addr := flash_addr p + of_nat w\<rparr>) s"
    have "upload_data len free s = (len + of_nat w, ext_read a w s, ?s')"
      using p unfolding upload_data_def Let_def w by (simp add: rf ext_read_def)
    moreover have "uploading (a + w) (r - w) ?s'" using assms(1) by (simp add: uploading_def w_def of_nat_diff)
    ultimately show ?thesis by auto
  qed
qed


lemma ext_read_split: "w \<le> r \<Longrightarrow> ext_read a w s @ ext_read (a + w) (r - w) s = ext_read a r s"
  using mread_append [of "flash s" a w "r - w"] by (simp add: ext_read_def)

lemma ext_read_flash: "flash s' = flash s \<Longrightarrow> ext_read a n s' = ext_read a n s" for s :: "'a flash_st_scheme" and s' :: "'a flash_st_scheme"
  by (simp add: ext_read_def)

text \<open>One turn of the loop that has something to send.\<close>

lemma upload_turn:
  fixes s :: "'a tcp_st_scheme"
  assumes "upload_file (hdr_pack_sn (cmd_buf s)) (payload (cmd_buf s)) 1011 s = (int (length bs), bs, s1)"
    and "length (cmd_buf s) = MAX_TCP_DATA_LENGTH" and "0 < length bs" and "length bs \<le> 1011"
  obtains q n where "upload_loop fd s = upload_loop fd n" and "tcp_out n = tcp_out s @ [(fd, q)]" and "pkt_payload q = bs"
    and "hdr_pack_sn q = hdr_pack_sn (cmd_buf s)" and "hdr_pack_sn (cmd_buf n) = hdr_pack_sn (cmd_buf s) + 1"
    and "length (cmd_buf n) = MAX_TCP_DATA_LENGTH" and "flash n = flash s1" and "\<And>a r. uploading a r n = uploading a r s1"
proof -
  define s2 where "s2 = s1\<lparr>cmd_buf := put HEADER_LEN bs (cmd_buf s1)\<rparr>"
  define t where "t = send_pack fd (length bs) s2"
  define n where "n = t\<lparr>cmd_buf := (cmd_buf t)[9 := cmd_buf t ! 9 + 1]\<rparr>"
  have kp: "keep s1 s" using more_upload_file [of "hdr_pack_sn (cmd_buf s)" "payload (cmd_buf s)" 1011 s] assms(1) keep_more by fastforce
  have b2: "length (cmd_buf s2) = MAX_TCP_DATA_LENGTH" "hdr_pack_sn (cmd_buf s2) = hdr_pack_sn (cmd_buf s)"
    "take (length bs) (drop 12 (cmd_buf s2)) = bs" "tcp_out s2 = tcp_out s"
    using kp assms(2,4) take_put [of 12 "cmd_buf s1" bs] by (simp_all add: s2_def keep_def put_props hdr_pack_sn_def)
  obtain q where q: "tcp_out t = tcp_out s @ [(fd, q)]" "pkt_payload q = bs" "hdr_pack_sn q = hdr_pack_sn (cmd_buf s)"
    "length (cmd_buf t) = MAX_TCP_DATA_LENGTH" "hdr_pack_sn (cmd_buf t) = hdr_pack_sn (cmd_buf s)"
    using send_pack_sends [OF b2(1) assms(4), of fd] b2 unfolding t_def by auto
  show ?thesis
  proof (rule that [of n q])
    show "upload_loop fd s = upload_loop fd n"
      using assms(3) by (subst upload_loop.simps) (simp add: assms(1) Let_def s2_def t_def n_def)
    show "tcp_out n = tcp_out s @ [(fd, q)]" using q(1) by (simp add: n_def)
    show "hdr_pack_sn (cmd_buf n) = hdr_pack_sn (cmd_buf s) + 1" "length (cmd_buf n) = MAX_TCP_DATA_LENGTH"
      using q(4,5) by (simp_all add: n_def hdr_pack_sn_def)
    show "flash n = flash s1" "uploading a r n = uploading a r s1" for a r
      using send_pack_same [of fd "length bs" s2] by (simp_all add: n_def t_def s2_def uploading_def)
  qed (fact q)+
qed

lemma pack_numbers:
  assumes "hdr_pack_sn q = k" and "\<forall>i < length rs. hdr_pack_sn (rs ! i) = k + 1 + of_nat i"
  shows "\<forall>i < length (q # rs). hdr_pack_sn ((q # rs) ! i) = k + of_nat i"
  using assms by (auto simp: nth_Cons less_Suc_eq_0_disj add.assoc split: nat.split)

lemma packets_left: "r \<noteq> 0 \<Longrightarrow> (r - min 1011 r + 1010) div 1011 + 1 = (r + 1010) div 1011" for r :: nat
  by (cases "r < 1011") (simp_all add: div_if [of "r + 1010"] le_div_geq [of 1011 "r + 1010"] min_def)

lemma upload_rest:
  fixes s :: "'a tcp_st_scheme"
  assumes "uploading a r s" and "length (cmd_buf s) = MAX_TCP_DATA_LENGTH" and "2 \<le> unat (hdr_pack_sn (cmd_buf s))"
    and "unat (hdr_pack_sn (cmd_buf s)) + (r + 1010) div 1011 \<le> 255"
  shows "\<exists>s' rs. upload_loop fd s = Some s' \<and> tcp_out s' = tcp_out s @ map (Pair fd) rs \<and> concat (map pkt_payload rs) = ext_read a r s \<and>
    (\<forall>i < length rs. hdr_pack_sn (rs ! i) = hdr_pack_sn (cmd_buf s) + of_nat i) \<and> flash s' = flash s"
  using assms
proof (induction r arbitrary: a s rule: less_induct)
  case (less r a s)
  let ?b = "cmd_buf s" and ?w = "min 1011 r"
  let ?k = "hdr_pack_sn ?b"
  have k1: "?k \<noteq> 1" using less.prems(3) by auto
  obtain s1 where d: "upload_data 0 1011 s = (of_nat ?w, ext_read a ?w s, s1)" "uploading (a + ?w) (r - ?w) s1" "flash s1 = flash s"
    using upload_data_list [OF less.prems(1), of 0 1011] by auto
  have lw: "length (ext_read a ?w s) = ?w" by (simp add: ext_read_def)
  have u: "upload_file ?k (payload ?b) 1011 s = (int (length (ext_read a ?w s)), ext_read a ?w s, s1)"
    using k1 d(1) sint16_small [of "of_nat ?w"] by (simp add: lw upload_file_def unat_of_nat)
  show ?case
  proof (cases "r = 0")
    case True
    let ?t = "file_operate_reset (s1\<lparr>cmd_buf := put HEADER_LEN (ext_read a ?w s) (cmd_buf s1)\<rparr>)"
    have "keep s1 s" using more_upload_file [of ?k "payload ?b" 1011 s] u keep_more by fastforce
    then have "tcp_out ?t = tcp_out s" "flash ?t = flash s" using d(3) by (simp_all add: file_operate_reset_def keep_def)
    moreover have "upload_loop fd s = Some ?t" using True lw by (subst upload_loop.simps) (simp add: u Let_def)
    ultimately show ?thesis using True by (intro exI [of _ ?t] exI [of _ "[]"]) (simp add: ext_read_def)
  next
    case False
    then have "0 < length (ext_read a ?w s)" "length (ext_read a ?w s) \<le> 1011" by (simp_all add: lw)
    then obtain q n where n: "upload_loop fd s = upload_loop fd n" "tcp_out n = tcp_out s @ [(fd, q)]" "pkt_payload q = ext_read a ?w s"
      "hdr_pack_sn q = ?k" "hdr_pack_sn (cmd_buf n) = ?k + 1" "length (cmd_buf n) = MAX_TCP_DATA_LENGTH" "flash n = flash s1"
      "uploading (a + ?w) (r - ?w) n"
      using upload_turn [OF u less.prems(2), of fd] d(2) by metis
    have un: "unat (?k + 1) = unat ?k + 1"
      using less.prems(4) packets_left [OF False] by (simp add: unat_word_ariths)
    have "unat (hdr_pack_sn (cmd_buf n)) + (r - ?w + 1010) div 1011 \<le> 255"
      using less.prems(4) packets_left [OF False] un n(5) by simp
    with less.IH [of "r - ?w" "a + ?w" n] obtain s' rs where i: "upload_loop fd n = Some s'" "tcp_out s' = tcp_out n @ map (Pair fd) rs"
      "concat (map pkt_payload rs) = ext_read (a + ?w) (r - ?w) n" "\<forall>i < length rs. hdr_pack_sn (rs ! i) = ?k + 1 + of_nat i" "flash s' = flash n"
      using False n(5,6,8) un less.prems(3) by auto
    have f: "flash n = flash s" using n(7) d(3) by simp
    have "concat (map pkt_payload (q # rs)) = ext_read a r s"
      using n(3) i(3) ext_read_flash [OF f] ext_read_split [of ?w r a s] by simp
    moreover note pack_numbers [OF n(4) i(4)]
    ultimately show ?thesis using i n(1,2) f by (intro exI [of _ s'] exI [of _ "q # rs"]) simp
  qed
qed

section \<open>The first packet\<close>

definition announcement :: "single_file_info_t \<Rightarrow> byte list" where
  "announcement f = [0, of_nat (rt_strlen (f_name f))] @ take (rt_strlen (f_name f)) (f_name f) @ be32 (f_size f)"

lemma upload_first:
  fixes s :: "'a tcp_st_scheme"
  assumes t_def: "t = get_file_type (mread data 2 24)" and f_def: "f = config_file_info t (g_file_info_list s)"
    and l_def: "l = rt_strlen (f_name f)" and a_def: "a = config_base_sct t * FLASH_BYTES_PER_SECTOR"
    and w_def: "w = min (1005 - l) (unat (f_size f))"
    and "list_file t" and "f_sn f \<noteq> 0xffffffff" and "unat (f_size f) \<le> MAX_CONFIG_FILE_SIZE" and "l < 256"
  shows "\<exists>s'. upload_file 1 data 1011 s = (int (length (announcement f @ ext_read a w s)), announcement f @ ext_read a w s, s') \<and>
    uploading (a + w) (unat (f_size f) - w) s' \<and> flash s' = flash s"
proof -
  let ?len = "of_nat l + 6 :: u16"
  have tne: "t \<noteq> MAX_FILE_TYPE_NUM" using assms(6) by (auto simp: list_file_def)
  define s2 where "s2 = upd_op (\<lambda>p. p\<lparr>op_state := FILE_OPT_STATE_UPLOAD, file_type := t, flash_addr := of_nat a, remain := f_size f\<rparr>) s"
  have up: "uploading a (unat (f_size f)) s2" using assms(6,8) by (simp add: uploading_def s2_def a_def config_base_sct_def)
  have l8: "unat (of_nat l :: byte) = l" using assms(9) by (simp add: unat_of_nat)
  have uc: "(ucast (of_nat l :: byte) :: u16) = of_nat l" by (rule word_unat_eq_iff [THEN iffD2]) (use assms(9) l8 in \<open>simp add: unsigned_ucast_eq take_bit_nat_eq_self unat_of_nat\<close>)
  have ul: "unat ?len = l + 6" using assms(9) by (simp add: unat_word_ariths unat_of_nat)
  have uf: "unat (1011 - ?len) = 1005 - l" using ul assms(9) by (subst unat_sub) (simp_all add: word_le_nat_alt)
  obtain s4 where d4: "upload_data ?len (1011 - ?len) s2 = (?len + of_nat w, ext_read a w s2, s4)"
      "uploading (a + w) (unat (f_size f) - w) s4" "flash s4 = flash s2"
    using upload_data_list [OF up, of ?len "1011 - ?len"] ul uf assms(9) unfolding w_def by auto
  have hl: "length (announcement f @ ext_read a w s) = l + 6 + w"
    using rt_strlen_le [of "f_name f"] by (simp add: l_def announcement_def ext_read_def)
  have "unat (?len + of_nat w) = l + 6 + w" using ul assms(9) by (simp add: unat_word_ariths unat_of_nat w_def)
  then have sw: "sint (?len + of_nat w) = int (l + 6 + w)"
    using sint16_small [of "?len + of_nat w"] assms(9) by (simp add: w_def)
  have "upload_source t (upd_op (\<lambda>p. p\<lparr>op_state := FILE_OPT_STATE_UPLOAD, file_type := t\<rparr>) s) =
     Some (f_size f, f_name f, upd_op (\<lambda>p. p\<lparr>op_state := FILE_OPT_STATE_UPLOAD, file_type := t, flash_addr := of_nat a\<rparr>) s)"
    using assms(6,7) by (simp add: upload_source_def list_file_def Let_def f_def a_def)
  then have "upload_file 1 data 1011 s = (int (l + 6 + w), announcement f @ ext_read a w s, s4)"
    using tne d4(1) sw
    by (simp add: upload_file_def t_def [symmetric] Let_def l_def [symmetric] uc l8 announcement_def s2_def ext_read_def)
  then show ?thesis using d4(2,3) unfolding hl by (simp add: s2_def)
qed

text \<open>C14: the upload of a list file. A request for a list file that the directory knows, with a name shorter than 256
  characters and a size the download accepts, is answered by packets numbered from 1 on whose payloads, put together, are
  the announcement (a zero byte, the length of the name, the name, the size) followed by exactly the stored bytes of the
  file; the loop ends, nothing else is sent, and the flash is left as it was.\<close>

theorem upload_sends_file:
  fixes s :: "'a tcp_st_scheme"
  assumes t_def: "t = get_file_type (mread (payload (cmd_buf s)) 2 24)" and f_def: "f = config_file_info t (g_file_info_list s)"
    and l_def: "l = rt_strlen (f_name f)"
    and "length (cmd_buf s) = MAX_TCP_DATA_LENGTH" and "hdr_pack_sn (cmd_buf s) = 1" and "payload (cmd_buf s) 0 = 0"
    and "list_file t" and "f_sn f \<noteq> 0xffffffff" and "unat (f_size f) \<le> MAX_CONFIG_FILE_SIZE" and "l < 256"
  shows "\<exists>s' rs. configure_files_opt fd s = Some s' \<and> tcp_out s' = tcp_out s @ map (Pair fd) rs \<and>
    concat (map pkt_payload rs) = [0, of_nat l] @ take l (f_name f) @ be32 (f_size f) @
      ext_read (config_base_sct t * FLASH_BYTES_PER_SECTOR) (unat (f_size f)) s \<and>
    (\<forall>i < length rs. hdr_pack_sn (rs ! i) = of_nat (i + 1)) \<and> flash s' = flash s"
proof -
  let ?a = "config_base_sct t * FLASH_BYTES_PER_SECTOR" and ?n = "unat (f_size f)" and ?w = "min (1005 - l) (unat (f_size f))"
  let ?bs = "announcement f @ ext_read ?a ?w s"
  have one: "hdr_pack_sn (cmd_buf s) = 1" by (fact assms(5))
  obtain s1 where u: "upload_file (hdr_pack_sn (cmd_buf s)) (payload (cmd_buf s)) 1011 s = (int (length ?bs), ?bs, s1)"
    and s1: "uploading (?a + ?w) (?n - ?w) s1" "flash s1 = flash s"
    using upload_first [OF t_def f_def l_def refl refl assms(7-10)] unfolding one by blast
  have b: "0 < length ?bs" "length ?bs \<le> 1011"
    using rt_strlen_le [of "f_name f"] assms(10) by (auto simp: announcement_def ext_read_def l_def)
  obtain q n where n: "upload_loop fd s = upload_loop fd n" "tcp_out n = tcp_out s @ [(fd, q)]" "pkt_payload q = ?bs"
      "hdr_pack_sn q = 1" "hdr_pack_sn (cmd_buf n) = 2" "length (cmd_buf n) = MAX_TCP_DATA_LENGTH" "flash n = flash s"
      "uploading (?a + ?w) (?n - ?w) n"
    by (rule upload_turn [OF u assms(4) b, of fd]) (simp add: one s1)
  have "(?n - ?w + 1010) div 1011 \<le> (65536 + 1010) div 1011" using assms(9) by (intro div_le_mono) auto
  then have "unat (hdr_pack_sn (cmd_buf n)) + (?n - ?w + 1010) div 1011 \<le> 255" using n(5) by simp
  with upload_rest [OF n(8,6), of fd] obtain s' rs where i: "upload_loop fd n = Some s'" "tcp_out s' = tcp_out n @ map (Pair fd) rs"
    "concat (map pkt_payload rs) = ext_read (?a + ?w) (?n - ?w) n" "\<forall>i < length rs. hdr_pack_sn (rs ! i) = 1 + 1 + of_nat i" "flash s' = flash n"
    using n(5) by auto
  have "configure_files_opt fd s = Some s'"
    unfolding configure_files_opt_def Let_def using assms(5,6) i(1) n(1) by simp
  moreover have "concat (map pkt_payload (q # rs)) = announcement f @ ext_read ?a ?n s"
    using n(3) i(3) ext_read_flash [OF n(7)] ext_read_split [of ?w ?n ?a s] by simp
  moreover note pack_numbers [OF n(4) i(4)]
  ultimately show ?thesis
    using i n(2,7) by (intro exI [of _ s'] exI [of _ "q # rs"]) (simp add: announcement_def l_def)
qed
definition demo_request :: "byte list" where
  "demo_request = [15, 0, 0, 0, 0, 0x4c, 0x4e, 0, 0, 1, 0, 12, 0, 10] @ bytes_of ''LN_sensor_'' @ [0]"

lemma demo_request_type: "get_file_type (mread (payload (cmd_buf (demo_tcp demo_request))) 2 24) = SENSOR_LIST_FILE"
proof -
  have "mread (payload (cmd_buf (demo_tcp demo_request))) 2 24 = bytes_of ''LN_sensor_'' @ replicate 14 0"
    by (rule nth_equalityI) (auto simp: mread_nth payload_def demo_request_def bytes_of_def nth_append nth_Cons' numeral_eq_Suc)
  moreover have "get_file_type (bytes_of ''LN_sensor_'' @ replicate 14 0) = SENSOR_LIST_FILE" by code_simp
  ultimately show ?thesis by simp
qed

theorem upload_sends_file_witness:
  "\<exists>s' rs. configure_files_opt 7 (demo_tcp demo_request) = Some s' \<and> tcp_out s' = tcp_out demo_app @ map (Pair 7) rs \<and> rs \<noteq> []"
proof -
  let ?s = "demo_tcp demo_request" let ?f = "demo_info [(9, 448)]"
  have g: "g_file_info_list ?s = demo_dir"
    by (simp add: demo_tcp_def app_st.defs tcp_st.defs demo_app_def ft_st.defs demo_ft_fields [simplified ws_st.defs ft_st.defs])
  have f: "?f = config_file_info SENSOR_LIST_FILE (g_file_info_list ?s)" by (simp add: g config_file_info_def demo_dir_def)
  have l: "rt_strlen (f_name ?f) < 256" "unat (f_size ?f) \<le> MAX_CONFIG_FILE_SIZE" "f_sn ?f \<noteq> 0xffffffff"
    using length_pair_line [of "(9, 448)"] rt_strlen.simps(2) [of 0 "replicate 255 0"]
    by (simp_all add: demo_info_def unat_of_nat replicate_Suc [symmetric] del: replicate_Suc rt_strlen.simps)
  have "length (cmd_buf ?s) = MAX_TCP_DATA_LENGTH" "hdr_pack_sn (cmd_buf ?s) = 1" "payload (cmd_buf ?s) 0 = 0"
    by (simp_all add: demo_request_def hdr_pack_sn_def payload_def)
  from upload_sends_file [OF demo_request_type [symmetric] f refl this _ l(3,2,1), of 7] show ?thesis by (fastforce simp: list_file_def)
qed

end
