(* ===== verification/Tcp_Framing.thy ===== *)
theory Tcp_Framing
  imports Tcp_Command
begin

text \<open>
  The byte stream of the management software, \<open>handle_recv_pack\<close> and \<open>thread_tcp_server\<close> of
  \<open>user_thread/thread_network/thread_tcp_server.c\<close>: what a \<open>recv\<close> call delivers is cut into packets, which go to
  \<open>analyze_command\<close>; the thread serves a bounded list of connections. The position inside a packet is in static
  variables that all connections share.

  The receive buffer is cleared before each \<open>recv\<close>; a header that is looked for near the end of what arrived is read
  from the cleared bytes, or from the memory behind the buffer (\<open>behind_tcp_buf\<close>).
\<close>

section \<open>Cutting the stream into packets\<close>

definition tcp_buf :: "byte list \<Rightarrow> 'a tcp_st_scheme \<Rightarrow> mem" where
  "tcp_buf bs s i = (if i < length bs then bs ! i else if i < MAX_TCP_DATA_LENGTH then 0 else behind_tcp_buf s i)"

text \<open>The packet at offset \<open>off\<close> starts with the device type and states its length.\<close>

definition header_at :: "mem \<Rightarrow> nat \<Rightarrow> bool" where
  "header_at data off \<longleftrightarrow> rt_strncmp (mread data (off + 5) 4) (bytes_of ''LN'') (rt_strlen (bytes_of ''LN'')) = 0"

definition stated_len :: "mem \<Rightarrow> nat \<Rightarrow> nat" where
  "stated_len data off = HEADER_LEN + unat (word16 (data (off + 10)) (data (off + 11))) + 1"

definition start_packet :: "mem \<Rightarrow> nat \<Rightarrow> 'a tcp_st_scheme \<Rightarrow> 'a tcp_st_scheme" where
  "start_packet data off s = s\<lparr>new_pack := False, pack_len := stated_len data off, cmd_buf_len := 0,
     cmd_buf := replicate MAX_TCP_DATA_LENGTH 0\<rparr>"

definition copy_bytes :: "mem \<Rightarrow> nat \<Rightarrow> nat \<Rightarrow> 'a tcp_st_scheme \<Rightarrow> 'a tcp_st_scheme" where
  "copy_bytes data off n s = s\<lparr>cmd_buf := put (cmd_buf_len s) (mread data off n) (cmd_buf s), cmd_buf_len := cmd_buf_len s + n\<rparr>"

text \<open>The loop of \<open>handle_recv_pack\<close>, with the command handler as an argument. Both differences are of unsigned
  numbers; they are never negative, because at most \<open>pack_len\<close> and 1024 bytes are in the buffer.\<close>

partial_function (option) recv_loop :: "(nat \<Rightarrow> 'a tcp_st_scheme \<Rightarrow> (tcp_fault + 'a tcp_st_scheme) option) \<Rightarrow> mem \<Rightarrow> nat \<Rightarrow> nat \<Rightarrow>
    'a tcp_st_scheme \<Rightarrow> (tcp_fault + 'a tcp_st_scheme) option" where
  "recv_loop h data off len s =
     (if len = 0 then Some (Inr s)
      else if new_pack s \<and> \<not> header_at data off then recv_loop h data (off + 1) (len - 1) s
      else let s1 = (if new_pack s then start_packet data off s else s);
               copy_len = min (min (MAX_TCP_DATA_LENGTH - cmd_buf_len s1) len) (pack_len s1 - cmd_buf_len s1);
               s2 = copy_bytes data off copy_len s1
           in if cmd_buf_len s2 = pack_len s2
              then Option.bind (h (pack_len s2) s2) (\<lambda>r. case r of
                     Inl e \<Rightarrow> Some (Inl e)
                   | Inr s3 \<Rightarrow> recv_loop h data (off + copy_len) (len - copy_len) (s3\<lparr>new_pack := True\<rparr>))
              else recv_loop h data (off + copy_len) (len - copy_len) s2)"

definition handle_recv_pack :: "fmc_erase \<Rightarrow> fmc_program \<Rightarrow> int \<Rightarrow> byte list \<Rightarrow> 'a tcp_st_scheme \<Rightarrow> (tcp_fault + 'a tcp_st_scheme) option" where
  "handle_recv_pack erase prog fd bs s = recv_loop (analyze_command erase prog fd) (tcp_buf bs s) 0 (length bs) s"

section \<open>The connections\<close>

text \<open>One round of the thread after \<open>select\<close>: the bytes each ready connection delivers (none: it is closed), and what
  \<open>accept\<close> and the keep-alive options give when the listening socket is ready.\<close>

record round =
  ready :: "int \<Rightarrow> bool"
  received :: "int \<Rightarrow> byte list"
  accepted :: "(int \<times> bool) option"

record server_st = tcp_st +
  client_fd :: "int list"
  closed :: "int list"

fun serve_clients :: "fmc_erase \<Rightarrow> fmc_program \<Rightarrow> round \<Rightarrow> int list \<Rightarrow> 'a server_st_scheme \<Rightarrow>
    (tcp_fault + int list \<times> 'a server_st_scheme) option" where
  "serve_clients erase prog rd [] s = Some (Inr ([], s))"
| "serve_clients erase prog rd (fd # fds) s =
     (let next = (\<lambda>fd' s'. Option.bind (serve_clients erase prog rd fds s') (\<lambda>r. case r of
            Inl e \<Rightarrow> Some (Inl e) | Inr (fds', s'') \<Rightarrow> Some (Inr (fd' # fds', s''))))
      in if \<not> ready rd fd then next fd s
         else if received rd fd = [] then next 0 (s\<lparr>closed := closed s @ [fd]\<rparr>)
         else Option.bind (handle_recv_pack erase prog fd (received rd fd) s) (\<lambda>r. case r of
                Inl e \<Rightarrow> Some (Inl e) | Inr s' \<Rightarrow> next fd s'))"

definition accept_client :: "nat \<Rightarrow> round \<Rightarrow> 'a server_st_scheme \<Rightarrow> 'a server_st_scheme" where
  "accept_client max_connect rd s =
     (case accepted rd of
        None \<Rightarrow> s
      | Some (new_fd, keepalive_ok) \<Rightarrow>
          if new_fd < 0 then s
          else if \<not> keepalive_ok then s
          else if length (client_fd s) < max_connect then s\<lparr>client_fd := client_fd s @ [new_fd]\<rparr>
          else s\<lparr>tcp_out := tcp_out s @ [(new_fd, bytes_of '' bye'')], closed := closed s @ [new_fd]\<rparr>)"

definition tcp_round :: "fmc_erase \<Rightarrow> fmc_program \<Rightarrow> nat \<Rightarrow> round \<Rightarrow> 'a server_st_scheme \<Rightarrow> (tcp_fault + 'a server_st_scheme) option" where
  "tcp_round erase prog max_connect rd s =
     Option.bind (serve_clients erase prog rd (client_fd s) s) (\<lambda>r. case r of
       Inl e \<Rightarrow> Some (Inl e)
     | Inr (fds, s1) \<Rightarrow> Some (Inr (accept_client max_connect rd (s1\<lparr>client_fd := filter (\<lambda>fd. fd \<noteq> 0) fds\<rparr>))))"
section \<open>Streams of packets\<close>

text \<open>The reference: the packets of the stream go to the handler one after the other, each in a cleared buffer.\<close>

definition frame :: "byte list \<Rightarrow> bool" where
  "frame p \<longleftrightarrow> length p = 13 + unat (hdr_data_len p) \<and> length p \<le> MAX_TCP_DATA_LENGTH \<and> p ! 5 = 0x4c \<and> p ! 6 = 0x4e"

definition loaded :: "byte list \<Rightarrow> 'a tcp_st_scheme \<Rightarrow> 'a tcp_st_scheme" where
  "loaded p s = s\<lparr>new_pack := False, pack_len := length p, cmd_buf_len := length p,
     cmd_buf := p @ replicate (MAX_TCP_DATA_LENGTH - length p) 0\<rparr>"

fun deliver :: "(nat \<Rightarrow> 'a tcp_st_scheme \<Rightarrow> (tcp_fault + 'a tcp_st_scheme) option) \<Rightarrow> byte list list \<Rightarrow> 'a tcp_st_scheme \<Rightarrow>
    (tcp_fault + 'a tcp_st_scheme) option" where
  "deliver h [] s = Some (Inr s)"
| "deliver h (p # ps) s = Option.bind (h (length p) (loaded p s)) (\<lambda>r. case r of
     Inl e \<Rightarrow> Some (Inl e) | Inr s1 \<Rightarrow> deliver h ps (s1\<lparr>new_pack := True\<rparr>))"

text \<open>What arrives: the results of the \<open>recv\<close> calls, in order.\<close>

fun recv_all :: "fmc_erase \<Rightarrow> fmc_program \<Rightarrow> int \<Rightarrow> byte list list \<Rightarrow> 'a tcp_st_scheme \<Rightarrow> (tcp_fault + 'a tcp_st_scheme) option" where
  "recv_all erase prog fd [] s = Some (Inr s)"
| "recv_all erase prog fd (c # cs) s = Option.bind (handle_recv_pack erase prog fd c s) (\<lambda>r. case r of
     Inl e \<Rightarrow> Some (Inl e) | Inr s1 \<Rightarrow> recv_all erase prog fd cs s1)"

text \<open>No boundary between two \<open>recv\<close> results lies inside the header of a packet; positions are counted from the end
  of the stream.\<close>

definition headers_whole :: "byte list list \<Rightarrow> byte list list \<Rightarrow> bool" where
  "headers_whole ps cs \<longleftrightarrow> (\<forall>i < length ps. \<forall>j \<le> length cs.
     length (concat (drop i ps)) \<le> length (concat (drop j cs)) \<or>
     length (concat (drop j cs)) + HEADER_LEN \<le> length (concat (drop i ps)))"

lemma headers_whole_tl: "headers_whole ps (c # cs) \<Longrightarrow> headers_whole ps cs" "headers_whole (p # ps) cs \<Longrightarrow> headers_whole ps cs"
  unfolding headers_whole_def by (metis Suc_le_mono drop_Suc_Cons length_Cons) (metis Suc_mono drop_Suc_Cons length_Cons)

lemma rt_strncmp_two: "a \<noteq> 0 \<Longrightarrow> b \<noteq> 0 \<Longrightarrow> rt_strncmp (x # y # cs) (a # b # ct) (Suc (Suc 0)) = 0 \<longleftrightarrow> x = a \<and> y = b"
  using signed_eq_0_iff [of "x - a", where 'a = int] signed_eq_0_iff [of "y - b", where 'a = int] by (auto simp: Let_def)

lemma header_at_LN: "header_at data off \<longleftrightarrow> data (off + 5) = 0x4c \<and> data (off + 6) = 0x4e"
proof -
  have b: "bytes_of ''LN'' = [0x4c, 0x4e]" by (simp add: bytes_of_def)
  have l: "rt_strlen [0x4c, 0x4e] = Suc (Suc 0)" by simp
  have "mread data (off + 5) 4 = [data (off + 5), data (off + 6), data (off + 7), data (off + 8)]"
    by (simp add: mread_def upt_rec add.commute)
  then show ?thesis unfolding header_at_def b l using rt_strncmp_two [of "0x4c" "0x4e"] by simp
qed

text \<open>The first \<open>k\<close> bytes of the packet \<open>p\<close> are in the buffer.\<close>

definition pending :: "byte list \<Rightarrow> nat \<Rightarrow> 'a tcp_st_scheme \<Rightarrow> bool" where
  "pending p k s \<longleftrightarrow> \<not> new_pack s \<and> pack_len s = length p \<and> cmd_buf_len s = k \<and> k < length p \<and>
     cmd_buf s = take k p @ replicate (MAX_TCP_DATA_LENGTH - k) 0"

lemma copy_pending:
  assumes "pending p k s" and "length p \<le> MAX_TCP_DATA_LENGTH" and "mread data off n = take n (drop k p)" and "k + n \<le> length p"
  shows "copy_bytes data off n s = s\<lparr>cmd_buf := take (k + n) p @ replicate (MAX_TCP_DATA_LENGTH - (k + n)) 0, cmd_buf_len := k + n\<rparr>"
  using assms by (simp add: copy_bytes_def pending_def put_def take_add)

lemma recv_pending:
  fixes s :: "'a tcp_st_scheme"
  assumes "pending p k s" and "length p \<le> MAX_TCP_DATA_LENGTH" and "0 < len"
    and "mread data off n = take n (drop k p)" and "n = min len (length p - k)"
  shows "recv_loop h data off len s =
    (if k + n = length p
     then Option.bind (h (length p) (loaded p s)) (\<lambda>r. case r of
            Inl e \<Rightarrow> Some (Inl e) | Inr s3 \<Rightarrow> recv_loop h data (off + n) (len - n) (s3\<lparr>new_pack := True\<rparr>))
     else recv_loop h data (off + n) (len - n) (copy_bytes data off n s))"
proof -
  have kn: "k + n \<le> length p" using assms(1,5) by (auto simp: pending_def)
  note c = copy_pending [OF assms(1,2,4) kn]
  have m: "min (min (MAX_TCP_DATA_LENGTH - cmd_buf_len s) len) (pack_len s - cmd_buf_len s) = n"
    using assms(1,2,5) by (auto simp: pending_def)
  have l: "k + n = length p \<Longrightarrow> copy_bytes data off n s = loaded p s"
    unfolding c loaded_def using assms(1) by (simp add: pending_def)
  have f: "cmd_buf_len (copy_bytes data off n s) = k + n" "pack_len (copy_bytes data off n s) = length p" "\<not> new_pack s"
    using assms(1) by (simp_all add: copy_bytes_def pending_def)
  have len: "len \<noteq> 0" using assms(3) by simp
  show ?thesis
  proof (cases "k + n = length p")
    case True
    then show ?thesis
      unfolding recv_loop.simps [of h data off len s] Let_def using len f(3) l [OF True]
      by (simp only: m if_False if_True simp_thms f) (simp add: loaded_def)
  next
    case False
    then show ?thesis
      unfolding recv_loop.simps [of h data off len s] Let_def using len f(3) by (simp only: m if_False simp_thms f)
  qed
qed


lemma recv_start:
  assumes "new_pack s" and "header_at data off" and "0 < len"
  shows "recv_loop h data off len s = recv_loop h data off len (start_packet data off s)"
proof -
  have "new_pack (start_packet data off s) = False" by (simp add: start_packet_def)
  then show ?thesis
    unfolding recv_loop.simps [of h data off len s] recv_loop.simps [of h data off len "start_packet data off s"]
    using assms by (simp only: if_False if_True simp_thms neq0_conv [symmetric])
qed

lemma start_pending: "stated_len data off = length p \<Longrightarrow> 0 < length p \<Longrightarrow> pending p 0 (start_packet data off s)"
  by (simp add: pending_def start_packet_def)

lemma deliver_cong: "loaded p s = loaded p s' \<Longrightarrow> deliver h (p # ps) s = deliver h (p # ps) s'"
  by simp

text \<open>Where the state and the rest of the stream stand.\<close>

definition inside :: "byte list list \<Rightarrow> byte list \<Rightarrow> 'a tcp_st_scheme \<Rightarrow> bool" where
  "inside ps rest s \<longleftrightarrow> new_pack s \<and> rest = concat ps \<or>
     (\<exists>p ps' k. ps = p # ps' \<and> pending p k s \<and> rest = drop k p @ concat ps')"

text \<open>At the start of a packet its header is recognised.\<close>

lemma header_recognised:
  assumes "new_pack s" and "inside ps (drop off c @ concat cs) s" and "list_all frame ps" and "headers_whole ps cs" and "off < length c"
    and data: "\<forall>i < length c. data i = c ! i"
  obtains p ps' where "ps = p # ps'" and "drop off c @ concat cs = concat ps" and "header_at data off"
    and "pending p 0 (start_packet data off s)"
proof -
  define len where "len = length c - off"
  have st: "drop off c @ concat cs = concat ps" using assms(1,2) by (auto simp: inside_def pending_def)
  then obtain p ps' where ps: "ps = p # ps'" using assms(5) by (cases ps) auto
  have p: "length p = 13 + unat (hdr_data_len p)" "p ! 5 = 0x4c" "p ! 6 = 0x4e" using assms(3) ps by (auto simp: frame_def)
  have "length (concat ps) = len + length (concat cs)" using arg_cong [OF st, of length] by (simp add: len_def)
  moreover have "length (concat ps) \<le> length (concat cs) \<or> length (concat cs) + HEADER_LEN \<le> length (concat ps)"
    using assms(4) ps unfolding headers_whole_def by (metis drop0 le0 length_greater_0_conv list.distinct(1))
  ultimately have l12: "12 \<le> len" using assms(5) by (simp add: len_def) linarith
  have dc: "data (off + i) = p ! i" if "i < 12" for i
  proof -
    have "(drop off c @ concat cs) ! i = (p @ concat ps') ! i" using st ps by simp
    then have "p ! i = c ! (off + i)" using that l12 p(1) by (simp add: nth_append len_def)
    then show ?thesis using data that l12 by (simp add: len_def)
  qed
  have h: "header_at data off" using dc [of 5] dc [of 6] p by (simp add: header_at_LN)
  have sl: "stated_len data off = length p" using dc [of 10] dc [of 11] p(1) by (simp add: stated_len_def hdr_data_len_def rd_be16_def)
  have "pending p 0 (start_packet data off s)" by (rule start_pending [OF sl]) (simp add: p(1))
  then show ?thesis by (rule that [OF ps st h])
qed

text \<open>Inside a packet the next bytes of the chunk are its next bytes.\<close>

lemma next_piece:
  assumes "pending p k s" and st: "drop off c @ r = drop k p @ r'" and "off < length c"
    and data: "\<forall>i < length c. data i = c ! i" and n_def: "n = min (length c - off) (length p - k)"
  shows "0 < n" "n \<le> length c - off" "k + n \<le> length p" "mread data off n = take n (drop k p)"
    "drop (off + n) c @ r = drop (k + n) p @ r'"
proof -
  show n: "0 < n" "n \<le> length c - off" "k + n \<le> length p" using assms(1,3) by (auto simp: n_def pending_def)
  have "take n (drop off c @ r) = take n (drop k p @ r')" "drop n (drop off c @ r) = drop n (drop k p @ r')" using st by simp_all
  then have tk: "take n (drop off c) = take n (drop k p)" and dr: "drop (off + n) c @ r = drop (k + n) p @ r'"
    using n by (simp_all add: add.commute)
  have "mread data off n = take n (drop off c)" using n(2) data by (intro nth_equalityI) (auto simp: mread_nth)
  then show "mread data off n = take n (drop k p)" using tk by simp
  show "drop (off + n) c @ r = drop (k + n) p @ r'" by (rule dr)
qed

lemma bind_results:
  "Option.bind (Option.bind x (\<lambda>r. case r of Inl e \<Rightarrow> Some (Inl e) | Inr t \<Rightarrow> f t)) (case_sum (\<lambda>e. Some (Inl e)) cont) =
   Option.bind x (\<lambda>r. case r of Inl e \<Rightarrow> Some (Inl e) | Inr t \<Rightarrow> Option.bind (f t) (case_sum (\<lambda>e. Some (Inl e)) cont))"
  by (cases x) (auto split: sum.split)

lemma one_chunk:
  fixes s :: "'a tcp_st_scheme"
  assumes "inside ps (drop off c @ concat cs) s" and "list_all frame ps" and "headers_whole ps cs" and "off \<le> length c"
    and "\<And>i. i < length c \<Longrightarrow> data i = c ! i"
    and next_chunk: "\<And>ps s'. inside ps (concat cs) s' \<Longrightarrow> list_all frame ps \<Longrightarrow> headers_whole ps cs \<Longrightarrow> cont s' = deliver h ps s'"
  shows "Option.bind (recv_loop h data off (length c - off) s) (case_sum (\<lambda>e. Some (Inl e)) cont) = deliver h ps s"
  using assms(1-4)
proof (induction "2 * (length c - off) + (if new_pack s then 1 else 0)" arbitrary: ps s off rule: less_induct)
  case less
  have data: "\<forall>i < length c. data i = c ! i" using assms(5) by blast
  consider "off = length c" | "off < length c" "new_pack s" | "off < length c" "\<not> new_pack s" using less.prems(4) by fastforce
  then show ?case
  proof cases
    case 1
    then show ?thesis using next_chunk [of ps s] less.prems by (subst recv_loop.simps) simp
  next
    case 2
    let ?t = "start_packet data off s"
    obtain p ps' where ps: "ps = p # ps'" and st: "drop off c @ concat cs = concat ps" and h: "header_at data off" and pe: "pending p 0 ?t"
      by (rule header_recognised [OF 2(2) less.prems(1-3) 2(1) data])
    have "inside ps (drop off c @ concat cs) ?t" using pe st ps by (auto simp: inside_def)
    moreover have "\<not> new_pack ?t" by (simp add: start_packet_def)
    ultimately have "Option.bind (recv_loop h data off (length c - off) ?t) (case_sum (\<lambda>e. Some (Inl e)) cont) = deliver h ps ?t"
      using less.hyps [of off ?t ps] less.prems(2-4) 2(2) by simp
    moreover have "deliver h ps ?t = deliver h ps s" unfolding ps by (rule deliver_cong) (simp add: loaded_def start_packet_def)
    ultimately show ?thesis using recv_start [OF 2(2) h, of "length c - off"] 2(1) by simp
  next
    case 3
    then obtain p ps' k where ps: "ps = p # ps'" and pe: "pending p k s" and st: "drop off c @ concat cs = drop k p @ concat ps'"
      using less.prems(1) by (auto simp: inside_def)
    have fp: "length p \<le> MAX_TCP_DATA_LENGTH" "list_all frame ps'" using less.prems(2) ps by (auto simp: frame_def)
    define n where "n = min (length c - off) (length p - k)"
    note n = next_piece [OF pe st 3(1) data n_def]
    have len: "0 < length c - off" using 3(1) by simp
    note step = recv_pending [OF pe fp(1) len n(4) n_def, where h = h]
    have down: "2 * (length c - (off + n)) + 1 < 2 * (length c - off)" using n(1,2) by simp
    show ?thesis
    proof (cases "k + n = length p")
      case True
      have "headers_whole ps' cs" using headers_whole_tl(2) less.prems(3) ps by blast
      then have rest: "Option.bind (recv_loop h data (off + n) (length c - off - n) (t\<lparr>new_pack := True\<rparr>)) (case_sum (\<lambda>e. Some (Inl e)) cont) =
          deliver h ps' (t\<lparr>new_pack := True\<rparr>)" for t
        using less.hyps [of "off + n" "t\<lparr>new_pack := True\<rparr>" ps'] fp(2) n(2,5) True down by (simp add: inside_def)
      show ?thesis unfolding ps deliver.simps step if_P [OF True] bind_results rest ..
    next
      case False
      let ?t = "copy_bytes data off n s"
      have t: "?t = s\<lparr>cmd_buf := take (k + n) p @ replicate (MAX_TCP_DATA_LENGTH - (k + n)) 0, cmd_buf_len := k + n\<rparr>"
        by (rule copy_pending [OF pe fp(1) n(4,3)])
      have "pending p (k + n) ?t" using pe False n(3) by (simp add: t pending_def)
      then have "inside ps (drop (off + n) c @ concat cs) ?t" using n(5) ps by (auto simp: inside_def)
      moreover have "\<not> new_pack ?t" using 3(2) by (simp add: copy_bytes_def)
      ultimately have "Option.bind (recv_loop h data (off + n) (length c - off - n) ?t) (case_sum (\<lambda>e. Some (Inl e)) cont) = deliver h ps ?t"
        using less.hyps [of "off + n" ?t ps] less.prems(2,3) n(2) 3(2) down by simp
      moreover have "deliver h ps ?t = deliver h ps s" unfolding ps by (rule deliver_cong) (simp add: loaded_def t)
      ultimately show ?thesis unfolding step if_not_P [OF False] by simp
    qed
  qed
qed

lemma no_bytes_left:
  assumes "inside ps [] s" and "list_all frame ps"
  shows "ps = []"
proof -
  have "new_pack s" "concat ps = []" using assms(1) by (auto simp: inside_def pending_def)
  then show ?thesis using assms(2) by (cases ps) (auto simp: frame_def)
qed

lemma recv_all_deliver:
  "inside ps (concat cs) s \<Longrightarrow> list_all frame ps \<Longrightarrow> headers_whole ps cs \<Longrightarrow> recv_all er pr fd cs s = deliver (analyze_command er pr fd) ps s"
  for s :: "'a tcp_st_scheme"
proof (induction cs arbitrary: ps s)
  case Nil
  then show ?case using no_bytes_left [of ps s] by simp
next
  case (Cons c cs)
  have hw: "headers_whole ps cs" using headers_whole_tl(1) Cons.prems(3) by blast
  have d: "tcp_buf c s i = c ! i" if "i < length c" for i using that by (simp add: tcp_buf_def)
  have i: "inside ps (drop 0 c @ concat cs) s" using Cons.prems(1) by simp
  have "Option.bind (recv_loop (analyze_command er pr fd) (tcp_buf c s) 0 (length c - 0) s) (case_sum (\<lambda>e. Some (Inl e)) (recv_all er pr fd cs)) =
      deliver (analyze_command er pr fd) ps s"
  proof (rule one_chunk [where cs = cs and c = c, OF i Cons.prems(2) hw le0])
    show "recv_all er pr fd cs s' = deliver (analyze_command er pr fd) ps' s'"
      if "inside ps' (concat cs) s'" "list_all frame ps'" "headers_whole ps' cs" for ps' and s' :: "'a tcp_st_scheme"
      by (rule Cons.IH [OF that])
  qed (rule d)
  then show ?case by (simp only: recv_all.simps handle_recv_pack_def diff_zero)
qed

text \<open>C5: the packets of the stream are found. However the stream of correct packets is cut into \<open>recv\<close> results, as long
  as no cut falls inside the twelve bytes of a header, the command handler is called for exactly these packets, in order, each
  alone in a cleared buffer; a fault or an endless upload in one of them ends the sequence just there.\<close>

theorem stream_is_delivered:
  assumes "new_pack s" and "list_all frame ps" and "concat cs = concat ps" and "headers_whole ps cs"
  shows "recv_all er pr fd cs s = deliver (analyze_command er pr fd) ps s"
  using recv_all_deliver [of ps cs s] assms by (simp add: inside_def)

section \<open>A header cut in two\<close>

lemma recv_nothing:
  "new_pack s \<Longrightarrow> (\<And>i. off \<le> i \<Longrightarrow> i < off + len \<Longrightarrow> \<not> header_at data i) \<Longrightarrow> recv_loop h data off len s = Some (Inr s)"
proof (induction len arbitrary: off)
  case 0
  then show ?case by (subst recv_loop.simps) simp
next
  case (Suc len)
  then show ?case by (subst recv_loop.simps) simp
qed

text \<open>C39: a packet that is cut before the end of the device type is lost. While the server waits for a new packet, let a
  packet of 12 to 1018 bytes, in which the letters of the device type stand at offset 5 and nowhere else, arrive in two
  \<open>recv\<close> results of which the first has one to six bytes. Then both parts are skipped: the state does not change and the
  computer gets no answer at all. (Behind the seventh byte the header is recognised.)\<close>

theorem split_header_lost:
  assumes "new_pack s" and "0 < k" and "k \<le> 6" and "12 \<le> length p" and "length p \<le> 1018"
    and "\<And>i. i + 1 < length p \<Longrightarrow> p ! i = 0x4c \<Longrightarrow> p ! (i + 1) = 0x4e \<Longrightarrow> i = 5"
  shows "recv_all er pr fd [take k p, drop k p] s = Some (Inr s)"
proof -
  have 1: "handle_recv_pack er pr fd (take k p) s = Some (Inr s)"
    unfolding handle_recv_pack_def
    by (rule recv_nothing [OF assms(1)]) (use assms(2-5) in \<open>simp add: header_at_LN tcp_buf_def\<close>)
  have 2: "handle_recv_pack er pr fd (drop k p) s = Some (Inr s)"
    unfolding handle_recv_pack_def
  proof (rule recv_nothing [OF assms(1)])
    fix i assume i: "0 \<le> i" "i < 0 + length (drop k p)"
    show "\<not> header_at (tcp_buf (drop k p) s) i"
    proof
      assume "header_at (tcp_buf (drop k p) s) i"
      then have h: "tcp_buf (drop k p) s (i + 5) = 0x4c" "tcp_buf (drop k p) s (i + 6) = 0x4e" by (simp_all add: header_at_LN)
      have "i + 6 < length (drop k p)"
        using h(2) i assms(2,5) by (rule_tac ccontr) (auto simp: tcp_buf_def split: if_splits)
      moreover from this have "k + (i + 5) + 1 < length p" by simp
      ultimately show False using h assms(2) assms(6) [of "k + (i + 5)"] by (simp add: tcp_buf_def ac_simps)
    qed
  qed
  show ?thesis using 1 2 by simp
qed

section \<open>A packet that is too long\<close>

lemma recv_full:
  assumes "recv_loop h data off len s = Some r"
  shows "\<not> (0 < len \<and> \<not> new_pack s \<and> cmd_buf_len s = MAX_TCP_DATA_LENGTH \<and> MAX_TCP_DATA_LENGTH < pack_len s)"
proof (rule recv_loop.raw_induct [where P = "\<lambda>h data off len s r. \<not> (0 < len \<and> \<not> new_pack s \<and> cmd_buf_len s = MAX_TCP_DATA_LENGTH \<and>
    MAX_TCP_DATA_LENGTH < pack_len s)", OF _ assms], rule notI, goal_cases)
  case (1 loop h data off len s r)
  have "loop h data (off + 0) (len - 0) (copy_bytes data off 0 s) = Some r"
    using 1(2,3) by (simp add: Let_def copy_bytes_def split: if_splits)
  from 1(1) [OF this] 1(3) show False by (simp add: copy_bytes_def)
qed

text \<open>C40: a packet that states a payload of more than 1011 bytes stops the server. Its first 1024 bytes, in one \<open>recv\<close>
  result, fill the command buffer, and with the next byte that arrives the loop copies nothing any more and never ends.\<close>

theorem oversized_packet_hangs:
  assumes "new_pack s" and "length c = MAX_TCP_DATA_LENGTH" and "c ! 5 = 0x4c" and "c ! 6 = 0x4e" and "1011 < unat (hdr_data_len c)" and "c' \<noteq> []"
  shows "recv_all er pr fd [c, c'] s = None"
proof -
  let ?d = "tcp_buf c s"
  define s1 where "s1 = copy_bytes ?d 0 MAX_TCP_DATA_LENGTH (start_packet ?d 0 s)"
  have h: "header_at ?d 0" using assms(2-4) by (simp add: header_at_LN tcp_buf_def)
  have p: "stated_len ?d 0 = 13 + unat (hdr_data_len c)" using assms(2) by (simp add: stated_len_def tcp_buf_def hdr_data_len_def rd_be16_def)
  have f: "\<not> new_pack s1" "cmd_buf_len s1 = MAX_TCP_DATA_LENGTH" "pack_len s1 = 13 + unat (hdr_data_len c)"
    by (simp_all add: s1_def copy_bytes_def start_packet_def p)
  have z: "recv_loop h' ?d n 0 s1 = Some (Inr s1)" for h' n by (subst recv_loop.simps) simp
  have m: "min (min (1024 - cmd_buf_len (start_packet ?d 0 s)) 1024) (pack_len (start_packet ?d 0 s) - cmd_buf_len (start_packet ?d 0 s)) = 1024"
    using assms(5) p by (simp add: start_packet_def)
  have "handle_recv_pack er pr fd c s = Some (Inr s1)"
    unfolding handle_recv_pack_def assms(2) recv_loop.simps [of _ ?d 0 MAX_TCP_DATA_LENGTH s] Let_def
    using assms(1,5) h f z by (simp add: m [simplified] s1_def [symmetric, simplified])
  moreover have "handle_recv_pack er pr fd c' s1 = None"
    using recv_full [of "analyze_command er pr fd" "tcp_buf c' s1" 0 "length c'" s1] f assms(5,6)
    by (cases "handle_recv_pack er pr fd c' s1") (auto simp: handle_recv_pack_def)
  ultimately show ?thesis by simp
qed


section \<open>Connections\<close>

lemma bind_Inr: "Option.bind x (case_sum (\<lambda>e. Some (Inl e)) f) = Some (Inr b) \<longleftrightarrow> (\<exists>a. x = Some (Inr a) \<and> f a = Some (Inr b))"
  by (cases x) (auto split: sum.split)

lemma serve_clients_list:
  "serve_clients er pr rd fds s = Some (Inr (fds', s')) \<Longrightarrow>
     fds' = map (\<lambda>fd. if ready rd fd \<and> received rd fd = [] then 0 else fd) fds"
proof (induction fds arbitrary: s fds' s')
  case (Cons fd fds)
  show ?case
    using Cons.prems
    by (auto simp: Let_def bind_Inr split: if_splits prod.splits dest!: Cons.IH)
qed simp

text \<open>The connections. A round that ends keeps, in order, exactly the connections that were not found closed, and adds
  a new one at the end if it was accepted and there is room; there are never more than the configured number.\<close>

theorem tcp_round_clients:
  assumes "tcp_round er pr max_connect rd s = Some (Inr s')" and "length (client_fd s) \<le> max_connect"
  defines "kept \<equiv> filter (\<lambda>fd. fd \<noteq> 0 \<and> \<not> (ready rd fd \<and> received rd fd = [])) (client_fd s)"
  shows "client_fd s' = kept @ (case accepted rd of Some (fd, True) \<Rightarrow> if 0 \<le> fd \<and> length kept < max_connect then [fd] else [] | _ \<Rightarrow> []) \<and>
    length (client_fd s') \<le> max_connect"
proof -
  obtain fds s1 where r: "serve_clients er pr rd (client_fd s) s = Some (Inr (fds, s1))"
    "s' = accept_client max_connect rd (s1\<lparr>client_fd := filter (\<lambda>fd. fd \<noteq> 0) fds\<rparr>)"
    using assms(1) by (auto simp: tcp_round_def bind_Inr)
  have k: "filter (\<lambda>fd. fd \<noteq> 0) fds = kept"
  proof -
    have "filter (\<lambda>fd. fd \<noteq> 0) (map (\<lambda>fd. if ready rd fd \<and> received rd fd = [] then 0 else fd) xs) =
        filter (\<lambda>fd. fd \<noteq> 0 \<and> \<not> (ready rd fd \<and> received rd fd = [])) xs" for xs by (induction xs) auto
    then show ?thesis unfolding kept_def serve_clients_list [OF r(1)] .
  qed
  have l: "length kept \<le> max_connect" using assms(2) length_filter_le order_trans unfolding kept_def by blast
  show ?thesis using l unfolding r(2) k by (auto simp: accept_client_def split: option.split bool.split)
qed


section \<open>Witnesses\<close>

definition reboot_pkt :: "byte list" where
  "reboot_pkt = [3, 0, 0, 0, 0, 0x4c, 0x4e, 0, 0, 1, 0, 0, 0]"

lemma frame_reboot: "frame reboot_pkt"
  by (simp add: frame_def reboot_pkt_def hdr_data_len_def rd_be16_def word16_def)

definition idle_tcp :: tcp_st where
  "idle_tcp = (demo_tcp [])\<lparr>new_pack := True\<rparr>"

text \<open>Two packets in three pieces, the second packet cut behind its header.\<close>

theorem stream_is_delivered_witness:
  "recv_all (\<lambda>a m. (m, True)) (\<lambda>a w m. (m, True)) 7 [take 12 reboot_pkt, drop 12 reboot_pkt @ take 12 reboot_pkt, drop 12 reboot_pkt] idle_tcp =
   deliver (analyze_command (\<lambda>a m. (m, True)) (\<lambda>a w m. (m, True)) 7) [reboot_pkt, reboot_pkt] idle_tcp"
proof -
  let ?cs = "[take 12 reboot_pkt, drop 12 reboot_pkt @ take 12 reboot_pkt, drop 12 reboot_pkt]"
  have all: "(\<forall>i < Suc n. P i) \<longleftrightarrow> P n \<and> (\<forall>i < n. P i)" "(\<forall>i \<le> Suc n. Q i) \<longleftrightarrow> Q (Suc n) \<and> (\<forall>i \<le> n. Q i)" for n P Q
    by (auto simp: less_Suc_eq le_Suc_eq)
  have "length reboot_pkt = 13" by (simp add: reboot_pkt_def)
  then have "headers_whole [reboot_pkt, reboot_pkt] ?cs" by (simp add: headers_whole_def all)
  moreover have "concat ?cs = concat [reboot_pkt, reboot_pkt]" by simp
  ultimately show ?thesis using stream_is_delivered [of idle_tcp "[reboot_pkt, reboot_pkt]" ?cs] frame_reboot by (simp add: idle_tcp_def)
qed

theorem split_header_lost_witness:
  "recv_all (\<lambda>a m. (m, True)) (\<lambda>a w m. (m, True)) 7 [take 4 reboot_pkt, drop 4 reboot_pkt] idle_tcp = Some (Inr idle_tcp)"
proof -
  have u: "i = 5" if "i + 1 < length reboot_pkt" "reboot_pkt ! i = 0x4c" "reboot_pkt ! (i + 1) = 0x4e" for i
  proof -
    have "\<forall>i < 12. reboot_pkt ! i = 0x4c \<longrightarrow> i = 5" unfolding reboot_pkt_def by code_simp
    then show ?thesis using that by (simp add: reboot_pkt_def)
  qed
  show ?thesis
    using split_header_lost [of idle_tcp 4 reboot_pkt "\<lambda>a m. (m, True)" "\<lambda>a w m. (m, True)" 7, OF _ _ _ _ _ u] by (simp add: idle_tcp_def reboot_pkt_def)
qed

theorem oversized_packet_hangs_witness:
  "recv_all (\<lambda>a m. (m, True)) (\<lambda>a w m. (m, True)) 7
     [[15, 0, 0, 0, 0, 0x4c, 0x4e, 0, 0, 1, 0x10, 0] @ replicate 1012 0, [0]] idle_tcp = None"
proof -
  let ?c = "[15, 0, 0, 0, 0, 0x4c, 0x4e, 0, 0, 1, 0x10, 0] @ replicate 1012 (0 :: byte)"
  have "unat (hdr_data_len ?c) = 4096" by (simp add: hdr_data_len_def rd_be16_def word16_def)
  then show ?thesis using oversized_packet_hangs [of idle_tcp ?c "[0]"] by (simp add: idle_tcp_def)
qed

definition demo_server :: server_st where
  "demo_server = tcp_st.extend idle_tcp (server_st.fields [4, 5] [])"

theorem tcp_round_clients_witness:
  "\<exists>s'. tcp_round (\<lambda>a m. (m, True)) (\<lambda>a w m. (m, True)) 2 \<lparr>ready = (\<lambda>fd. fd = 4), received = (\<lambda>_. []), accepted = Some (6, True)\<rparr> demo_server = Some (Inr s') \<and>
     client_fd s' = [5, 6]"
proof -
  let ?rd = "\<lparr>ready = (\<lambda>fd. fd = 4), received = (\<lambda>_. []), accepted = Some (6, True)\<rparr> :: round"
  have c: "client_fd demo_server = [4, 5]" by (simp add: demo_server_def tcp_st.defs server_st.defs)
  obtain s' where r: "tcp_round (\<lambda>a m. (m, True)) (\<lambda>a w m. (m, True)) 2 ?rd demo_server = Some (Inr s')"
    by (simp add: tcp_round_def c Let_def)
  show ?thesis using tcp_round_clients [OF r] r c by simp
qed

end
