(* ===== verification/Udp_Report.thy ===== *)
theory Udp_Report
  imports Lora_Radio Net_Params
begin

text \<open>
  The report the concentrator broadcasts every ten seconds and the confirmation it waits for,
  \<open>user_thread/thread_network/thread_udp.c\<close>. \<open>fill_udp_buffer\<close> composes the report in a buffer
  that \<open>thread_udp_client\<close> has cleared: 80 bytes about the device, ten bytes for every node reported and a check
  byte. The model gives the bytes in the order in which the code moves its pointer; where the pointer skips bytes
  they are the zeros of the cleared buffer. \<open>udp_out\<close> is the sequence of \<open>sendto\<close> calls, with the address.
\<close>

section \<open>State\<close>

record udp_st = radio_st +
  send_all :: bool
  udp_out :: "(u32 \<times> byte list) list"

abbreviation (input) MAX_NODE_NUM_IN_UDP :: byte where "MAX_NODE_NUM_IN_UDP \<equiv> 80"
abbreviation (input) REMOTE_UDP_BROADCAST_ADDR :: u32 where "REMOTE_UDP_BROADCAST_ADDR \<equiv> 0xffffffff"

definition callback_timer_udp :: "'a udp_st_scheme \<Rightarrow> 'a udp_st_scheme" where
  "callback_timer_udp s = s\<lparr>send_all := True\<rparr>"

section \<open>The report\<close>

text \<open>The fourth byte copied from the literal \<open>LN\<close> lies behind it, and behind the digits of the device number the
  ten bytes copied from \<open>tmp_str\<close> were never written.\<close>

definition device_part :: "'a udp_st_scheme \<Rightarrow> byte list" where
  "device_part s =
     be32 (dev_id (wnc_device s)) @
     bytes_of ''LN'' @ [0, stack_mem s 0] @
     ten_bytes (rt_sprintf ''%d'' [ArgInt (dev_id (wnc_device s))]) s @ replicate 10 0 @
     eth_mac (wnc_device s) @
     ten_bytes (software_version s) s @
     ten_bytes (hardware_version s) s @
     get_datetime (replicate 7 0) s @
     le32 (pc_ip (net_config (g_wnc_config s))) @ [0, 0] @
     le32 (hvcs_ip (net_config (g_wnc_config s))) @ [0, 0] @
     be32 (get_file_sn s) @
     [0]"

text \<open>The ten bytes of a node.\<close>

definition detector_bytes :: "single_detector_info \<Rightarrow> byte list" where
  "detector_bytes d = [NODE_DEVICE_TYPE_DETECTOR] @ be32 (d_id d) @ [d_state d, d_rssi d, d_snr d, d_current_dr d, d_battery d]"

definition light_bytes :: "single_light_info \<Rightarrow> byte list" where
  "light_bytes l = [NODE_DEVICE_TYPE_LIGHT] @ be32 (l_id l) @
     [if l_state l = NODE_STATE_OFFLINE then NODE_STATE_OFFLINE else l_current_color l, l_rssi l, l_current_color l, 0, 0]"

definition new_node_bytes :: "single_new_node \<Rightarrow> byte list" where
  "new_node_bytes n = [n_device_type n] @ be32 (n_id n) @ [NODE_STATE_NEW_DEVICE, ucast (n_rssi n), 0, 0, 0]"

text \<open>What one turn of each of the three loops writes, if it writes, and the state behind it.\<close>

definition detector_turn :: "nat \<Rightarrow> 'a udp_st_scheme \<Rightarrow> (byte list \<times> 'a udp_st_scheme) option" where
  "detector_turn i s =
     (let d = det s i
      in if send_all s \<or> d_is_park_state_changed d \<noteq> 0
         then Some (detector_bytes d, upd_det i (\<lambda>d. d\<lparr>d_is_park_state_changed := 0\<rparr>) s)
         else None)"

definition light_turn :: "nat \<Rightarrow> 'a udp_st_scheme \<Rightarrow> (byte list \<times> 'a udp_st_scheme) option" where
  "light_turn i s = Some (light_bytes (light s i), s)"

definition new_node_turn :: "nat \<Rightarrow> 'a udp_st_scheme \<Rightarrow> (byte list \<times> 'a udp_st_scheme) option" where
  "new_node_turn i s =
     (let n = n_node (g_new_node_list s) ! i
      in if n_time_left n \<noteq> 0
         then Some (new_node_bytes n,
                    s\<lparr>g_new_node_list := (g_new_node_list s)\<lparr>n_node := (n_node (g_new_node_list s))[i := n\<lparr>n_time_left := n_time_left n - 1\<rparr>]\<rparr>\<rparr>)
         else None)"

text \<open>A loop over the indices, left when the count has reached the limit.\<close>

fun node_loop :: "(nat \<Rightarrow> 'a udp_st_scheme \<Rightarrow> (byte list \<times> 'a udp_st_scheme) option) \<Rightarrow> nat list
    \<Rightarrow> byte \<times> byte list \<times> 'a udp_st_scheme \<Rightarrow> byte \<times> byte list \<times> 'a udp_st_scheme" where
  "node_loop turn [] (lora_node_num, buf, s) = (lora_node_num, buf, s)"
| "node_loop turn (i # is) (lora_node_num, buf, s) =
     (if lora_node_num \<ge> MAX_NODE_NUM_IN_UDP then (lora_node_num, buf, s)
      else case turn i s of
             None \<Rightarrow> node_loop turn is (lora_node_num, buf, s)
           | Some (bs, s') \<Rightarrow> node_loop turn is (lora_node_num + 1, buf @ bs, s'))"

definition fill_udp_buffer :: "'a udp_st_scheme \<Rightarrow> byte list \<times> 'a udp_st_scheme" where
  "fill_udp_buffer s =
     (let r1 = node_loop detector_turn [0..<d_num (g_detector_info_list s)] (0, [], s);
          r2 = node_loop light_turn [0..<l_num (g_light_info_list s)] r1;
          (lora_node_num, nodes, s3) = node_loop new_node_turn [0..<n_num (g_new_node_list s)] r2;
          buf = device_part s @ [lora_node_num, 10] @ nodes
      in (buf @ [xor_verify buf], s3\<lparr>send_all := False\<rparr>))"

section \<open>The threads\<close>

definition sendto :: "u32 \<Rightarrow> byte list \<Rightarrow> 'a udp_st_scheme \<Rightarrow> 'a udp_st_scheme" where
  "sendto addr bs s = s\<lparr>udp_out := udp_out s @ [(addr, bs)]\<rparr>"

text \<open>One turn of the client's loop.\<close>

definition thread_udp_client :: "'a udp_st_scheme \<Rightarrow> 'a udp_st_scheme" where
  "thread_udp_client s =
     (case fill_udp_buffer s of (send_buf, s0) \<Rightarrow>
        let s1 = sendto REMOTE_UDP_BROADCAST_ADDR send_buf s0;
            pc = pc_ip (net_config (g_wnc_config s1));
            s2 = (if pc \<noteq> 0 then sendto pc send_buf s1 else s1);
            hvcs = hvcs_ip (net_config (g_wnc_config s2));
            s3 = (if hvcs \<noteq> 0 then sendto hvcs send_buf s2 else s2)
        in threads_feed_dog UDP_CLINT_DOG s3)"

text \<open>One turn of the server's loop, with the datagram received.\<close>

definition thread_udp_server :: "byte list \<Rightarrow> 'a app_st_scheme \<Rightarrow> 'a app_st_scheme" where
  "thread_udp_server datagram s =
     (let recv_buf = take 256 (datagram @ replicate 256 0)
      in if rt_memcmp (take 4 (drop 4 recv_buf)) (bytes_of ''PCNC'') 4 = 0 then send_sys_ctrl MSG_SYS_UDP_CONFIRM s else s)"

section \<open>What the loops collect\<close>

definition collected :: "(nat \<Rightarrow> 'a udp_st_scheme \<Rightarrow> (byte list \<times> 'a udp_st_scheme) option) \<Rightarrow> nat list \<Rightarrow> 'a udp_st_scheme \<Rightarrow> byte list list" where
  "collected turn js s = List.map_filter (\<lambda>i. map_option fst (turn i s)) js"

definition passed :: "(nat \<Rightarrow> 'a udp_st_scheme \<Rightarrow> (byte list \<times> 'a udp_st_scheme) option) \<Rightarrow> nat list \<Rightarrow> 'a udp_st_scheme \<Rightarrow> 'a udp_st_scheme" where
  "passed turn js s = fold (\<lambda>i t. case turn i t of None \<Rightarrow> t | Some (_, t') \<Rightarrow> t') js s"

text \<open>A turn at one index changes nothing that the turn at another one writes.\<close>

definition independent :: "(nat \<Rightarrow> 'a udp_st_scheme \<Rightarrow> (byte list \<times> 'a udp_st_scheme) option) \<Rightarrow> bool" where
  "independent turn \<longleftrightarrow> (\<forall>i j s bs t. turn i s = Some (bs, t) \<longrightarrow> i \<noteq> j \<longrightarrow> map_option fst (turn j t) = map_option fst (turn j s))"

lemma independent_turns: "independent detector_turn" "independent light_turn" "independent new_node_turn"
  by (auto simp: independent_def detector_turn_def light_turn_def new_node_turn_def upd_det_def Let_def split: if_splits)

lemma collected_cong: "(\<And>j. j \<in> set js \<Longrightarrow> map_option fst (turn j t) = map_option fst (turn j s)) \<Longrightarrow> collected turn js t = collected turn js s"
  by (induction js) (simp_all add: collected_def split: option.split)

lemma node_loop_collects:
  assumes "independent turn" and "distinct js" and "k \<le> 80"
  shows "\<exists>t. node_loop turn js (of_nat k, buf, s) =
    (of_nat (min 80 (k + length (collected turn js s))), buf @ concat (take (80 - k) (collected turn js s)), t)"
  using assms(2,3)
proof (induction js arbitrary: k buf s)
  case Nil
  then show ?case by (simp add: collected_def)
next
  case (Cons i js)
  have full: "(80 :: byte) \<le> of_nat k \<longleftrightarrow> k = 80"
    using Cons.prems(2) by (simp add: word_le_nat_alt unsigned_of_nat take_bit_nat_eq_self) 
  show ?case
  proof (cases "k = 80")
    case True
    then show ?thesis by simp
  next
    case False
    show ?thesis
    proof (cases "turn i s")
      case None
      then have "collected turn (i # js) s = collected turn js s" by (simp add: collected_def)
      then show ?thesis using None False full Cons.IH [of k buf s] Cons.prems by simp
    next
      case (Some r)
      obtain bs t where r: "r = (bs, t)" by (cases r)
      have "map_option fst (turn j t) = map_option fst (turn j s)" if "j \<in> set js" for j
        using assms(1) Some that Cons.prems(1) unfolding independent_def r by (metis distinct.simps(2))
      then have "collected turn js t = collected turn js s" by (rule collected_cong)
      then have c: "collected turn (i # js) s = bs # collected turn js t"
        using Some r by (simp add: collected_def)
      have "80 - k = Suc (80 - Suc k)" using False Cons.prems(2) by simp
      then show ?thesis using Some r False full Cons.prems Cons.IH [of "Suc k" "buf @ bs" t]
        by (simp add: c ac_simps)
    qed
  qed
qed

lemma node_loop_passes:
  assumes "k + length js \<le> 80"
  shows "snd (snd (node_loop turn js (of_nat k, buf, s))) = passed turn js s"
  using assms
proof (induction js arbitrary: k buf s)
  case Nil
  then show ?case by (simp add: passed_def)
next
  case (Cons i js)
  have n: "\<not> (80 :: byte) \<le> of_nat k"
    using Cons.prems by (simp add: word_le_nat_alt unsigned_of_nat take_bit_nat_eq_self)
  show ?case
    using n Cons.IH [of k buf s] Cons.IH [of "Suc k"] Cons.prems
    by (simp add: passed_def ac_simps split: option.split)
qed

section \<open>The nodes of a report\<close>

definition changed_detectors :: "'a udp_st_scheme \<Rightarrow> single_detector_info list" where
  "changed_detectors s = filter (\<lambda>d. send_all s \<or> d_is_park_state_changed d \<noteq> 0)
     (take (d_num (g_detector_info_list s)) (detector_info (g_detector_info_list s)))"

definition waiting_nodes :: "'a udp_st_scheme \<Rightarrow> single_new_node list" where
  "waiting_nodes s = filter (\<lambda>n. n_time_left n \<noteq> 0) (take (n_num (g_new_node_list s)) (n_node (g_new_node_list s)))"

definition reported :: "'a udp_st_scheme \<Rightarrow> byte list list" where
  "reported s = take 80 (map detector_bytes (changed_detectors s) @
     map light_bytes (take (l_num (g_light_info_list s)) (light_info (g_light_info_list s))) @
     map new_node_bytes (waiting_nodes s))"

lemma collected_nth:
  assumes "\<And>i. i < m \<Longrightarrow> map_option fst (turn i s) = (if P (xs ! i) then Some (f (xs ! i)) else None)" and "m \<le> length xs"
  shows "collected turn [0..<m] s = map f (filter P (take m xs))"
  using assms
proof (induction m)
  case 0
  then show ?case by (simp add: collected_def)
next
  case (Suc m)
  have a: "collected turn (js @ ks) s = collected turn js s @ collected turn ks s" for js ks
    by (simp add: collected_def List.map_filter_def)
  have "collected turn [m] s = (if P (xs ! m) then [f (xs ! m)] else [])"
    using Suc.prems(1) [of m] by (simp add: collected_def split: option.splits if_splits)
  then show ?case using Suc by (simp add: a take_Suc_conv_app_nth)
qed

lemma collected_detectors:
  "detectors_wf (g_detector_info_list s) \<Longrightarrow>
   collected detector_turn [0..<d_num (g_detector_info_list s)] s = map detector_bytes (changed_detectors s)"
  unfolding changed_detectors_def by (rule collected_nth) (simp_all add: detector_turn_def detectors_wf_def Let_def)

lemma collected_lights:
  "lights_wf (g_light_info_list s) \<Longrightarrow>
   collected light_turn [0..<l_num (g_light_info_list s)] s =
     map light_bytes (take (l_num (g_light_info_list s)) (light_info (g_light_info_list s)))"
  using collected_nth [of "l_num (g_light_info_list s)" light_turn s "\<lambda>_. True" "light_info (g_light_info_list s)" light_bytes]
  by (simp add: light_turn_def lights_wf_def)

lemma collected_new_nodes:
  "new_nodes_wf (g_new_node_list s) \<Longrightarrow>
   collected new_node_turn [0..<n_num (g_new_node_list s)] s = map new_node_bytes (waiting_nodes s)"
  unfolding waiting_nodes_def by (rule collected_nth) (simp_all add: new_node_turn_def new_nodes_wf_def Let_def)

section \<open>What the loops change\<close>

definition clear_flag :: "single_detector_info \<Rightarrow> single_detector_info" where
  "clear_flag d = d\<lparr>d_is_park_state_changed := 0\<rparr>"

lemma detector_turn_state: "(case detector_turn i s of None \<Rightarrow> s | Some (_, t) \<Rightarrow> t) = upd_det i clear_flag s"
proof (cases "send_all s \<or> d_is_park_state_changed (det s i) \<noteq> 0")
  case True
  then show ?thesis by (simp add: detector_turn_def clear_flag_def [abs_def] Let_def)
next
  case False
  then have "clear_flag (det s i) = det s i" by (simp add: clear_flag_def)
  then show ?thesis using False by (simp add: detector_turn_def upd_det_def Let_def)
qed

lemma passed_detectors:
  assumes "m \<le> length (detector_info (g_detector_info_list s))"
  shows "passed detector_turn [0..<m] s = s\<lparr>g_detector_info_list := (g_detector_info_list s)
    \<lparr>detector_info := map clear_flag (take m (detector_info (g_detector_info_list s))) @
       drop m (detector_info (g_detector_info_list s))\<rparr>\<rparr>"
  using assms
proof (induction m)
  case 0
  then show ?case by (simp add: passed_def)
next
  case (Suc m)
  let ?xs = "detector_info (g_detector_info_list s)" and ?t = "passed detector_turn [0..<m] s"
  have m: "m < length ?xs" using Suc.prems by simp
  have "passed detector_turn [0..<Suc m] s = (case detector_turn m ?t of None \<Rightarrow> ?t | Some (_, t') \<Rightarrow> t')"
    unfolding passed_def by simp
  also have "\<dots> = upd_det m clear_flag ?t" by (rule detector_turn_state)
  finally show ?case using Suc.IH m
    by (simp add: upd_det_def nth_append list_update_append take_Suc_conv_app_nth Cons_nth_drop_Suc [symmetric])
qed

lemma light_loop_state: "snd (snd (node_loop light_turn js x)) = snd (snd x)"
proof (induction js arbitrary: x)
  case Nil
  then show ?case by (cases x) simp
next
  case (Cons i js)
  then show ?case by (cases x) (simp add: light_turn_def)
qed

lemma new_node_loop_state:
  "snd (snd (node_loop new_node_turn js (n, buf, s))) =
    s\<lparr>g_new_node_list := g_new_node_list (snd (snd (node_loop new_node_turn js (n, buf, s))))\<rparr>"
proof (induction js arbitrary: n buf s)
  case Nil
  then show ?case by simp
next
  case (Cons i js)
  show ?case
  proof (cases "n \<ge> 80 \<or> new_node_turn i s = None")
    case True
    then consider "node_loop new_node_turn (i # js) (n, buf, s) = (n, buf, s)"
      | "node_loop new_node_turn (i # js) (n, buf, s) = node_loop new_node_turn js (n, buf, s)" by (cases "n \<ge> 80") simp_all
    then show ?thesis
    proof cases
      case 1
      show ?thesis unfolding 1 by simp
    next
      case 2
      show ?thesis unfolding 2 by (rule Cons.IH)
    qed
  next
    case False
    then obtain bs t where t: "new_node_turn i s = Some (bs, t)" by auto
    then obtain l where "t = s\<lparr>g_new_node_list := l\<rparr>" unfolding new_node_turn_def Let_def by (auto split: if_splits)
    then have o: "t\<lparr>g_new_node_list := k\<rparr> = s\<lparr>g_new_node_list := k\<rparr>" for k by simp
    have "node_loop new_node_turn (i # js) (n, buf, s) = node_loop new_node_turn js (n + 1, buf @ bs, t)" using False t by simp
    then show ?thesis using Cons.IH [of "n + 1" "buf @ bs" t] unfolding o by (rule ssubst)
  qed
qed

text \<open>The list of new nodes keeps its nodes; only the times they are announced change.\<close>

definition same_nodes :: "new_node_list \<Rightarrow> new_node_list \<Rightarrow> bool" where
  "same_nodes l k \<longleftrightarrow> n_num l = n_num k \<and> map n_id (n_node l) = map n_id (n_node k)"

lemma new_node_loop_same:
  "same_nodes (g_new_node_list (snd (snd (node_loop new_node_turn js (n, buf, s))))) (g_new_node_list s)"
proof (induction js arbitrary: n buf s)
  case (Cons i js)
  have "map n_id (xs[i := (xs ! i)\<lparr>n_time_left := v\<rparr>]) = map n_id xs" for xs v
    by (simp add: map_update) (metis list_update_id map_update)
  then have "same_nodes (g_new_node_list t) (g_new_node_list s)" if "new_node_turn i s = Some (bs, t)" for bs t
    using that by (auto simp: new_node_turn_def same_nodes_def Let_def split: if_splits)
  then show ?case using Cons.IH [of n buf s] Cons.IH [of "n + 1"]
    by (auto simp: same_nodes_def split: option.split)
qed (simp add: same_nodes_def)

section \<open>The report as a whole\<close>

lemma device_part_length: "length (eth_mac (wnc_device s)) = 6 \<Longrightarrow> length (device_part s) = 78"
proof -
  have "length (ten_bytes v s) = 10" for v by (simp add: ten_bytes_def)
  moreover have "length (get_datetime (replicate 7 0) s) = 7" by (simp add: get_datetime_def split: prod.split)
  ultimately show "length (eth_mac (wnc_device s)) = 6 \<Longrightarrow> length (device_part s) = 78" by (simp add: device_part_def)
qed

lemma xor_verify_checked: "xor_verify (bs @ [xor_verify bs]) = 0"
  by (simp add: xor_verify_def)

lemma ten_bytes_each: "bs \<in> set (reported s) \<Longrightarrow> length bs = 10"
  by (auto simp: reported_def detector_bytes_def light_bytes_def new_node_bytes_def dest!: in_set_takeD)

lemma length_concat_reported: "length (concat (reported s)) = 10 * length (reported s)"
proof -
  have "length (concat xs) = 10 * length xs" if "\<And>bs. bs \<in> set xs \<Longrightarrow> length bs = 10" for xs :: "byte list list"
    using that by (induction xs) simp_all
  then show ?thesis using ten_bytes_each [of _ s] by blast
qed

lemma changed_length: "detectors_wf (g_detector_info_list s) \<Longrightarrow> length (changed_detectors s) \<le> 60"
  unfolding changed_detectors_def detectors_wf_def by (rule order_trans [OF length_filter_le]) simp

lemma take_three:
  assumes "length xs \<le> n"
  shows "take n (xs @ ys @ zs) = xs @ take (n - length xs) ys @ take (n - min n (length xs + length ys)) zs"
proof -
  have "n - min n (length xs + length ys) = n - length xs - length ys" by simp
  then show ?thesis using assms by (simp only: take_append take_all)
qed

lemma length_take_three: "min n (min n (length xs + length ys) + length zs) = length (take n (xs @ ys @ zs))"
  unfolding length_take length_append by (auto simp: min_def)

definition cleared :: "'a udp_st_scheme \<Rightarrow> detector_info_list" where
  "cleared s = (g_detector_info_list s)\<lparr>detector_info :=
     map clear_flag (take (d_num (g_detector_info_list s)) (detector_info (g_detector_info_list s))) @
     drop (d_num (g_detector_info_list s)) (detector_info (g_detector_info_list s))\<rparr>"

lemma fill_udp_buffer_result:
  assumes wf: "lists_wf s"
  shows "\<exists>l. same_nodes l (g_new_node_list s) \<and> fill_udp_buffer s =
    (let buf = device_part s @ [of_nat (length (reported s)), 10] @ concat (reported s)
     in (buf @ [xor_verify buf], s\<lparr>g_detector_info_list := cleared s, g_new_node_list := l, send_all := False\<rparr>))"
proof -
  let ?D = "map detector_bytes (changed_detectors s)"
    and ?L = "map light_bytes (take (l_num (g_light_info_list s)) (light_info (g_light_info_list s)))"
    and ?N = "map new_node_bytes (waiting_nodes s)"
  let ?d = "[0..<d_num (g_detector_info_list s)]" and ?l = "[0..<l_num (g_light_info_list s)]" and ?n = "[0..<n_num (g_new_node_list s)]"
  define s1 where "s1 = s\<lparr>g_detector_info_list := cleared s\<rparr>"
  have d: "detectors_wf (g_detector_info_list s)" and l: "lights_wf (g_light_info_list s)" and n: "new_nodes_wf (g_new_node_list s)"
    using wf by (simp_all add: lists_wf_def)
  have s1: "snd (snd (node_loop detector_turn ?d (0, [], s))) = s1"
    using node_loop_passes [of 0 ?d detector_turn "[]" s] passed_detectors [of "d_num (g_detector_info_list s)" s] d
    by (simp add: s1_def cleared_def detectors_wf_def)
  obtain t where "node_loop detector_turn ?d (of_nat 0, [], s) =
      (of_nat (min 80 (0 + length ?D)), [] @ concat (take (80 - 0) ?D), t)"
    using node_loop_collects [OF independent_turns(1), of ?d 0 "[]" s] collected_detectors [OF d] by fastforce
  then have r1: "node_loop detector_turn ?d (0, [], s) = (of_nat (length ?D), concat ?D, s1)"
    using s1 changed_length [OF d] by simp
  have lc: "collected light_turn ?l s1 = ?L" using collected_lights [of s1] l by (simp add: s1_def)
  obtain t where "node_loop light_turn ?l (of_nat (length ?D), concat ?D, s1) =
      (of_nat (min 80 (length ?D + length ?L)), concat ?D @ concat (take (80 - length ?D) ?L), t)"
    using node_loop_collects [OF independent_turns(2), of ?l "length ?D" "concat ?D" s1] lc changed_length [OF d] by fastforce
  then have r2: "node_loop light_turn ?l (of_nat (length ?D), concat ?D, s1) =
      (of_nat (min 80 (length ?D + length ?L)), concat ?D @ concat (take (80 - length ?D) ?L), s1)"
    using light_loop_state [of ?l "(of_nat (length ?D), concat ?D, s1)"] by simp
  have nc: "collected new_node_turn ?n s1 = ?N" using collected_new_nodes [of s1] n by (simp add: s1_def waiting_nodes_def)
  let ?k = "min 80 (length ?D + length ?L)" and ?b = "concat ?D @ concat (take (80 - length ?D) ?L)"
  obtain t where r3: "node_loop new_node_turn ?n (of_nat ?k, ?b, s1) =
      (of_nat (min 80 (?k + length ?N)), ?b @ concat (take (80 - ?k) ?N), t)"
    using node_loop_collects [OF independent_turns(3), of ?n ?k ?b s1] nc by fastforce
  have t: "t = s1\<lparr>g_new_node_list := g_new_node_list t\<rparr>"
    using new_node_loop_state [of ?n "of_nat ?k" ?b s1] unfolding r3 snd_conv .
  have c: "reported s = ?D @ take (80 - length ?D) ?L @ take (80 - ?k) ?N"
    unfolding reported_def using changed_length [OF d] by (intro take_three) simp
  have m: "min 80 (?k + length ?N) = length (reported s)" unfolding reported_def by (rule length_take_three)
  have "fill_udp_buffer s = (let buf = device_part s @ [of_nat (length (reported s)), 10] @ concat (reported s)
      in (buf @ [xor_verify buf], t\<lparr>send_all := False\<rparr>))"
    unfolding fill_udp_buffer_def Let_def r1 r2 r3 prod.case m unfolding c by simp
  moreover have "same_nodes (g_new_node_list t) (g_new_node_list s)"
    using new_node_loop_same [of ?n "of_nat ?k" ?b s1] unfolding r3 snd_conv by (simp add: s1_def)
  ultimately show ?thesis using t unfolding s1_def Let_def by (intro exI [of _ "g_new_node_list t"]) simp
qed

text \<open>One turn of the client, with its datagram.\<close>

lemma udp_client_turn:
  assumes "lists_wf s" and "length (eth_mac (wnc_device s)) = 6" and "length (thread_soft_dogs s) = 4"
  obtains buf l where "same_nodes l (g_new_node_list s)" and "udp_out (thread_udp_client s) = udp_out s @ map (\<lambda>addr. (addr, buf))
      (0xffffffff # filter (\<lambda>a. a \<noteq> 0) [pc_ip (net_config (g_wnc_config s)), hvcs_ip (net_config (g_wnc_config s))])"
    and "length buf = 81 + 10 * length (reported s)" and "xor_verify buf = 0" and "take 78 buf = device_part s"
    and "buf ! 78 = of_nat (length (reported s))" and "buf ! 79 = 10" and "butlast (drop 80 buf) = concat (reported s)"
    and "thread_udp_client s = s\<lparr>g_detector_info_list := cleared s, g_new_node_list := l, send_all := False,
      udp_out := udp_out (thread_udp_client s), thread_soft_dogs := (thread_soft_dogs s)[3 := thread_soft_dogs s ! 3 + 1]\<rparr>"
proof -
  obtain buf l where k: "same_nodes l (g_new_node_list s)"
    and r: "fill_udp_buffer s = (buf, s\<lparr>g_detector_info_list := cleared s, g_new_node_list := l, send_all := False\<rparr>)"
    and b: "buf = (device_part s @ [of_nat (length (reported s)), 10] @ concat (reported s)) @
      [xor_verify (device_part s @ [of_nat (length (reported s)), 10] @ concat (reported s))]"
    using fill_udp_buffer_result [OF assms(1)] unfolding Let_def by blast
  have d: "length (device_part s) = 78" using device_part_length assms(2) by blast
  let ?out = "udp_out s @ map (\<lambda>addr. (addr, buf))
      (0xffffffff # filter (\<lambda>a. a \<noteq> 0) [pc_ip (net_config (g_wnc_config s)), hvcs_ip (net_config (g_wnc_config s))])"
  have e: "thread_udp_client s = s\<lparr>g_detector_info_list := cleared s, g_new_node_list := l, send_all := False,
      udp_out := ?out, thread_soft_dogs := (thread_soft_dogs s)[3 := thread_soft_dogs s ! 3 + 1]\<rparr>"
    by (simp add: thread_udp_client_def r sendto_def threads_feed_dog_def)
  then have o: "udp_out (thread_udp_client s) = ?out" by simp
  show ?thesis
  proof (rule that [of l buf])
    show "length buf = 81 + 10 * length (reported s)" unfolding b by (simp add: d length_concat_reported)
    show "xor_verify buf = 0" unfolding b by (rule xor_verify_checked)
    show "take 78 buf = device_part s" "buf ! 78 = of_nat (length (reported s))" "buf ! 79 = 10"
      "butlast (drop 80 buf) = concat (reported s)"
      unfolding b by (simp_all add: d nth_append butlast_append)
    show "thread_udp_client s = s\<lparr>g_detector_info_list := cleared s, g_new_node_list := l, send_all := False,
        udp_out := udp_out (thread_udp_client s), thread_soft_dogs := (thread_soft_dogs s)[3 := thread_soft_dogs s ! 3 + 1]\<rparr>"
      unfolding o by (rule e)
  qed (rule k, rule o)
qed

lemma reported_count: "length (reported s) \<le> 80"
  by (simp add: reported_def)

lemma changed_reported:
  "detectors_wf (g_detector_info_list s) \<Longrightarrow>
   take (length (changed_detectors s)) (reported s) = map detector_bytes (changed_detectors s)"
  using changed_length [of s] by (simp add: reported_def min_def)

text \<open>C15: the report. One turn of the UDP client broadcasts one datagram, and sends it to the two servers whose address
  is set. It has at most 881 of the 1024 bytes of the send buffer: 78 bytes about the device, the number of nodes
  reported and the length of an entry, ten bytes for every node, and a check byte that makes the exclusive or of the
  datagram 0. The nodes are the first 80 of: the detectors whose parking state has changed since they were reported
  (every fifteen minutes all), all lights, the new nodes that are still announced. All changed detectors are always among
  them, their marks are removed and nothing else of the detectors changes; the watchdog counter of the thread is
  advanced.\<close>

theorem udp_report:
  assumes "lists_wf s" and "length (eth_mac (wnc_device s)) = 6" and "length (thread_soft_dogs s) = 4"
    and "s' = thread_udp_client s" and "c = net_config (g_wnc_config s)"
  shows "(\<exists>buf. udp_out s' = udp_out s @ map (\<lambda>addr. (addr, buf)) (0xffffffff # filter (\<lambda>a. a \<noteq> 0) [pc_ip c, hvcs_ip c]) \<and>
      length buf = 81 + 10 * length (reported s) \<and> length buf \<le> 881 \<and> xor_verify buf = 0 \<and>
      take 78 buf = device_part s \<and> buf ! 78 = of_nat (length (reported s)) \<and> buf ! 79 = 10 \<and>
      butlast (drop 80 buf) = concat (reported s)) \<and>
    take (length (changed_detectors s)) (reported s) = map detector_bytes (changed_detectors s) \<and>
    g_detector_info_list s' = cleared s \<and> \<not> send_all s' \<and> thread_soft_dogs s' ! 3 = thread_soft_dogs s ! 3 + 1"
proof -
  obtain buf l where "same_nodes l (g_new_node_list s)" and b: "udp_out s' = udp_out s @ map (\<lambda>addr. (addr, buf))
        (0xffffffff # filter (\<lambda>a. a \<noteq> 0) [pc_ip c, hvcs_ip c])"
      "length buf = 81 + 10 * length (reported s)" "xor_verify buf = 0" "take 78 buf = device_part s"
      "buf ! 78 = of_nat (length (reported s))" "buf ! 79 = 10" "butlast (drop 80 buf) = concat (reported s)"
    and s': "s' = s\<lparr>g_detector_info_list := cleared s, g_new_node_list := l, send_all := False, udp_out := udp_out s',
      thread_soft_dogs := (thread_soft_dogs s)[3 := thread_soft_dogs s ! 3 + 1]\<rparr>"
    by (rule udp_client_turn [OF assms(1-3), folded assms(4) assms(5)])
  have "g_detector_info_list s' = cleared s" "\<not> send_all s'" "thread_soft_dogs s' ! 3 = thread_soft_dogs s ! 3 + 1"
    by (subst s', simp add: assms(3))+
  moreover have "length buf \<le> 881" using b(2) reported_count [of s] by simp
  moreover have "take (length (changed_detectors s)) (reported s) = map detector_bytes (changed_detectors s)"
    using assms(1) by (simp add: lists_wf_def changed_reported)
  ultimately show ?thesis using b by blast
qed

definition demo_udp :: udp_st where
  "demo_udp = radio_st.extend (app_st.extend demo_app (radio_st.fields False 0 [])) (udp_st.fields True [])"

lemma demo_mac: "length (eth_mac (wnc_device demo_app)) = 6"
  by (simp add: demo_app_def demo_ft_def demo_ws_def demo_file_def demo_cfg_def demo_emb_def sys_st.defs emb_st.defs
      cfg_st.defs db_st.defs file_st.defs ws_st.defs ft_st.defs app_st.defs default_params_def)

theorem udp_report_witness:
  "\<not> send_all (thread_udp_client demo_udp) \<and> length (changed_detectors demo_udp) = 2 \<and>
   (\<exists>buf. (0xffffffff, buf) \<in> set (udp_out (thread_udp_client demo_udp)) \<and> length buf \<le> 881)"
proof -
  have f: "g_detector_info_list demo_udp = g_detector_info_list demo_app" "send_all demo_udp" "udp_out demo_udp = []"
    by (simp_all add: demo_udp_def app_st.defs radio_st.defs udp_st.defs)
  have h: "lists_wf demo_udp" "length (eth_mac (wnc_device demo_udp)) = 6" "length (thread_soft_dogs demo_udp) = 4"
    using demo_app_wf
    by (simp_all add: demo_udp_def app_st.defs radio_st.defs udp_st.defs lists_wf_def app_wf_def new_nodes_ok_def demo_mac)
  have "length (changed_detectors demo_udp) = 2" by (simp add: changed_detectors_def f demo_detectors_def)
  then show ?thesis
    using udp_report [OF h refl refl] unfolding f(3) by fastforce
qed

end
