(* ===== verification/Wnc_Threads.thy ===== *)
theory Wnc_Threads
  imports Udp_Report
begin

text \<open>
  The application threads together. The threads share the node lists and talk through queues; every turn of a thread's
  loop, every timer callback and every message the TCP server puts into a queue is one step of the relation
  \<open>wnc_step\<close>, in any order. What a step does is the model of the thread's turn; the environment chooses the packets
  the radio delivers, the datagrams and the status codes of the radio.
\<close>

section \<open>Steps\<close>

inductive wnc_step :: "udp_st \<Rightarrow> udp_st \<Rightarrow> bool" where
  receive: "(\<forall>p \<in> set pkts. length (rx_payload p) = 256) \<Longrightarrow> wnc_step s (thread_lora_recv (Inr pkts) s)"
| receive_error: "wnc_step s (thread_lora_recv (Inl ()) s)"
| process: "mq_data_proc s = m # q \<Longrightarrow> thread_data_process m (s\<lparr>mq_data_proc := q\<rparr>) = Some s' \<Longrightarrow> wnc_step s s'"
| transmit: "mq_lora_send s = m # q \<Longrightarrow> thread_lora_send st m (s\<lparr>mq_lora_send := q\<rparr>) = Some s' \<Longrightarrow> wnc_step s s'"
| report: "wnc_step s (thread_udp_client s)"
| confirm: "wnc_step s (thread_udp_server datagram s)"
| timer_report: "wnc_step s (callback_timer_udp s)"
| timer_light: "wnc_step s (callback_timer_analyze_light s)"
| timer_connect: "wnc_step s (callback_timer_dev_connect s)"
| command: "\<forall>p. m \<noteq> MSG_LORA_RECV_DATA p \<Longrightarrow> wnc_step s (send_data_proc m s)"
| test: "m \<in> {MSG_LORA_SEND_TEST, MSG_LORA_SEND_FEED_DOG} \<Longrightarrow> wnc_step s (send_lora m s)"

section \<open>What the data process thread leaves alone\<close>

definition kept :: "'a app_st_scheme \<Rightarrow> device_params_t \<times> stu_lora_msg list \<times> stu_sysctrl_msg list \<times> nat \<times> 'a" where
  "kept s = (wnc_device s, mq_data_proc s, mq_sys_ctrl s, length (thread_soft_dogs s), app_st.more s)"

named_theorems kept_simps \<open>operations that leave the device, the other queues and the other threads alone\<close>

lemma kept_log [kept_simps]: "kept (log_fmt n fmt args s) = kept s"
  by (subst log_fmt_only) (simp add: kept_def)

lemma kept_basic [kept_simps]:
  "kept (upd_det i f s) = kept s" "kept (upd_light i g s) = kept s" "kept (send_lora m s) = kept s"
  "kept (set_led st r c s) = kept s" "kept (fst (work_state_log_add_event e s)) = kept s"
  "kept (lora_send_tcp_data fd cmd data sn' s) = kept s" "kept (next_pack s) = kept s" "kept (mode_start fd s) = kept s"
  "kept (threads_feed_dog d s) = kept s" "kept (s\<lparr>working_mode := w\<rparr>) = kept s" "kept (s\<lparr>light_index := k\<rparr>) = kept s"
  "kept (s\<lparr>g_config_node_list := cl\<rparr>) = kept s" "kept (s\<lparr>g_new_node_list := nl\<rparr>) = kept s" "kept (calc_empty s) = kept s"
  by (simp_all add: kept_def app_defs calc_empty_def)

lemma kept_fold: "(\<And>x s. kept (f x s) = kept s) \<Longrightarrow> kept (fold f xs s) = kept s"
  by (induction xs arbitrary: s) simp_all

lemma kept_packets [kept_simps]:
  "kept (snd (adr_control rx i s)) = kept s" "kept (refresh_detector_info n i s) = kept s"
  "kept (light_heart_beat rx i s) = kept s" "kept (insert_new_device dev ty s) = kept s"
  "kept (node_online i s) = kept s" "kept (node_enter_cfg i s) = kept s"
  by (simp_all add: kept_simps adr_control_def refresh_detector_info_def light_heart_beat_def refresh_light_info_def
      insert_new_device_def node_online_def node_enter_cfg_def Let_def split: option.split)

lemma kept_heart_beat [kept_simps]: "kept (detector_heart_beat rx i s) = kept s"
  using kept_packets(1) [of rx i s] by (cases "adr_control rx i s") (simp add: detector_heart_beat_def kept_simps Let_def)

lemma kept_config [kept_simps]:
  "kept (config_heart_beat rx mode s) = kept s" "kept (config_set_freq rx s) = kept s" "kept (config_done fd cmd dev k s) = kept s"
  by (simp_all add: config_heart_beat_def config_set_freq_def config_done_def kept_simps Let_def)

lemma kept_config_node [kept_simps]: "kept (config_lora_node fd rx mode s) = kept s"
proof -
  have c: "kept (snd (config_node fd rx mode k x)) = kept (snd x)" for k and x :: "u32 \<times> 'a app_st_scheme"
    by (cases x) (simp add: config_node_def kept_simps Let_def)
  have "kept (snd (fold (config_node fd rx mode) ks x)) = kept (snd x)" for ks and x :: "u32 \<times> 'a app_st_scheme"
    by (induction ks arbitrary: x) (simp_all add: c)
  then show ?thesis by (simp add: config_lora_node_def)
qed

lemma kept_analyze [kept_simps]: "kept (analyze_lora_pkt rx s) = kept s"
proof -
  have "kept (snd (analyze_special_mode rx s)) = kept s"
    by (simp add: analyze_special_mode_def kept_simps split: work_mode.split)
  moreover have "kept (dispatch_pkt rx t) = kept t" for t :: "'a app_st_scheme"
    by (simp add: dispatch_pkt_def kept_simps Let_def kept_fold split: option.split)
  ultimately show ?thesis by (cases "analyze_special_mode rx s") (simp add: analyze_lora_pkt_def)
qed

lemma kept_light_loop:
  assumes "light_loop i b s = Some s'"
  shows "kept s' = kept s"
proof (rule light_loop.raw_induct [where P = "\<lambda>i b s s'. kept s' = kept s", OF _ assms], goal_cases)
  case (1 loop i b s s')
  have c: "kept (set_correct i s) = kept s" for i and s :: "'a app_st_scheme" by (simp add: set_correct_def kept_simps)
  have l: "kept (control_light i s) = kept s" for i and s :: "'a app_st_scheme" by (simp add: control_light_def kept_simps Let_def)
  show ?case
    using 1(1) [of _ False _ s'] 1(2) by (auto simp: Let_def c l kept_simps split: if_splits)
qed

lemma kept_check [kept_simps]: "kept (check_lora_node_connect s) = kept s"
proof -
  have "kept (check_detector i t) = kept t" "kept (check_light i t) = kept t" for i and t :: "'a app_st_scheme"
    by (simp_all add: check_detector_def check_light_def kept_simps Let_def)
  then show ?thesis by (simp add: check_lora_node_connect_def Let_def kept_fold)
qed

lemma kept_modes [kept_simps]:
  "kept (perpare_config_node_by_range fd data s) = kept s" "kept (perpare_config_node_by_id fd data s) = kept s"
  "kept (perpair_init_node fd data s) = kept s"
  by (simp_all add: perpare_config_node_by_range_def perpare_config_node_by_id_def perpair_init_node_def mode_enter_def
      mode_reply_def kept_simps Let_def del: range_loop.simps)

lemma kept_process: "thread_data_process m s = Some s' \<Longrightarrow> kept s' = kept s"
proof (cases m)
  case MSG_ANALIZE_LIGHT_STATE
  then show "thread_data_process m s = Some s' \<Longrightarrow> kept s' = kept s"
    using kept_light_loop [of _ _ "calc_empty s" s'] by (auto simp: analyse_light_state_def kept_simps Let_def)
qed (auto simp: kept_simps)

section \<open>The invariant of the threads\<close>

text \<open>The transmission test sends a packet of zeros; every other packet given to the radio carries its checksum.\<close>

definition radio_packet_ok :: "lgw_pkt_tx_s \<Rightarrow> bool" where
  "radio_packet_ok p \<longleftrightarrow> tx_size p = 12 \<and> length (tx_payload p) = 256 \<and>
     (crc_ok (tx_payload p) \<or> tx_payload p = replicate 256 0 \<and> tx_freq_hz p = 471100000)"

definition datagram_ok :: "byte list \<Rightarrow> bool" where
  "datagram_ok b \<longleftrightarrow> length b = 81 + 10 * unat (b ! 78) \<and> b ! 78 \<le> 80 \<and> xor_verify b = 0"

definition wnc_ok :: "udp_st \<Rightarrow> bool" where
  "wnc_ok s \<longleftrightarrow> app_wf s \<and> length (eth_mac (wnc_device s)) = 6 \<and> length (thread_soft_dogs s) = 4 \<and>
     length (mq_data_proc s) \<le> RT_MQ_NUM \<and> list_all rx_msg_ok (mq_data_proc s) \<and> length (mq_sys_ctrl s) \<le> RT_MQ_NUM \<and>
     list_all radio_packet_ok (radio_out s) \<and> list_all (datagram_ok \<circ> snd) (udp_out s)"

lemma app_wf_lists: "app_wf s \<Longrightarrow> lists_wf s"
  by (simp add: app_wf_def lists_wf_def new_nodes_ok_def)

lemma ok_send_data_proc:
  assumes "wnc_ok s" and "rx_msg_ok m"
  shows "wnc_ok (send_data_proc m s)"
proof -
  have "app_wf (send_data_proc m s)" using assms(1) by (simp add: wnc_ok_def app_wf_def send_data_proc_def)
  then show ?thesis using assms by (auto simp: wnc_ok_def send_data_proc_def mq_put_def)
qed

lemma ok_feed: "wnc_ok (threads_feed_dog d s) = wnc_ok s"
proof -
  have "app_wf (threads_feed_dog d s) = app_wf s" by simp
  then show ?thesis unfolding wnc_ok_def by (simp add: threads_feed_dog_def del: wf_feed)
qed

lemma ok_receive:
  assumes "wnc_ok s" and "\<forall>p \<in> set pkts. length (rx_payload p) = 256"
  shows "wnc_ok (fold handle_rx pkts s)"
  using assms
proof (induction pkts arbitrary: s)
  case (Cons p pkts)
  have "wnc_ok (handle_rx p s)" using Cons.prems by (auto simp: handle_rx_def intro!: ok_send_data_proc recv_pkt_ok)
  then show ?case using Cons by simp
qed simp

lemma ok_process:
  assumes "wnc_ok s" and "mq_data_proc s = m # q" and "thread_data_process m (s\<lparr>mq_data_proc := q\<rparr>) = Some s'"
  shows "wnc_ok s'"
proof -
  have w: "app_wf (s\<lparr>mq_data_proc := q\<rparr>)" "rx_msg_ok m" using assms(1,2) by (simp_all add: wnc_ok_def app_wf_def)
  have "app_wf s'" by (rule wf_thread_data_process [OF w assms(3)])
  moreover have "kept s' = kept (s\<lparr>mq_data_proc := q\<rparr>)" by (rule kept_process [OF assms(3)])
  moreover have "radio_out s' = radio_out s" "udp_out s' = udp_out s"
    using calculation(2) by (cases s; cases s'; simp add: kept_def)+
  ultimately show ?thesis using assms(1,2) by (simp add: wnc_ok_def kept_def)
qed

lemma ok_data_pkt: "pkt_ok p \<Longrightarrow> crc_ok (p_payload p) \<Longrightarrow> radio_packet_ok (data_pkt p s)"
  by (simp add: radio_packet_ok_def data_pkt_def tx_setup_def pkt_ok_def crc_ok_def Let_def nth_append)

lemma ok_transmit:
  assumes "wnc_ok s" and "mq_lora_send s = m # q" and "thread_lora_send st m (s\<lparr>mq_lora_send := q\<rparr>) = Some s'"
  shows "wnc_ok s'"
proof -
  let ?s = "s\<lparr>mq_lora_send := q\<rparr>"
  have w: "wnc_ok ?s" "tx_msg_ok m" using assms(1,2) by (simp_all add: wnc_ok_def app_wf_def)
  have r: "wnc_ok (to_radio p t)" if "wnc_ok t" "radio_packet_ok p" for p and t :: udp_st
    using that by (simp add: wnc_ok_def app_wf_def to_radio_def)
  have x: "wnc_ok (t\<lparr>in_test := b, reg_tx_mode := k\<rparr>) = wnc_ok t" for b k and t :: udp_st
    by (simp add: wnc_ok_def app_wf_def)
  have z: "radio_packet_ok (tx_setup 471100000 4 12 (replicate 256 0) t)" for t :: udp_st
    by (simp add: radio_packet_ok_def tx_setup_def)
  show ?thesis
  proof (cases m)
    case (MSG_LORA_SEND_DATA p)
    then have "s' = to_radio (data_pkt p ?s) ?s" using assms(3) by (auto split: option.splits)
    then show ?thesis using w MSG_LORA_SEND_DATA by (auto intro!: r ok_data_pkt)
  next
    case MSG_LORA_SEND_TEST
    then show ?thesis using assms(3) w by (auto simp: Let_def x lora_send_test_def intro!: r z split: if_splits)
  qed (use assms(3) w in \<open>auto simp: ok_feed\<close>)
qed

lemma cleared_wf:
  assumes "detectors_wf (g_detector_info_list s)" and "list_all detector_ok (detector_info (g_detector_info_list s))"
  shows "detectors_wf (cleared s)" "list_all detector_ok (detector_info (cleared s))"
proof -
  have "detector_ok (clear_flag d) = detector_ok d" for d by (simp add: detector_ok_def clear_flag_def)
  then show "list_all detector_ok (detector_info (cleared s))"
    using assms(2) by (auto simp: cleared_def list_all_iff dest: in_set_takeD in_set_dropD)
  show "detectors_wf (cleared s)" using assms(1) by (simp add: detectors_wf_def cleared_def)
qed

lemma same_nodes_ok: "same_nodes l k \<Longrightarrow> new_nodes_ok k \<Longrightarrow> new_nodes_ok l"
proof -
  assume a: "same_nodes l k" "new_nodes_ok k"
  then have "length (n_node l) = length (n_node k)" unfolding same_nodes_def by (metis length_map)
  moreover have "map n_id (take m (n_node l)) = map n_id (take m (n_node k))" for m
    using a(1) by (simp add: same_nodes_def take_map [symmetric])
  ultimately show "new_nodes_ok l" using a by (simp add: same_nodes_def new_nodes_ok_def new_nodes_wf_def)
qed

lemma ok_report:
  assumes "wnc_ok s"
  shows "wnc_ok (thread_udp_client s)"
proof -
  let ?s = "thread_udp_client s"
  have wf: "app_wf s" "lists_wf s" "length (eth_mac (wnc_device s)) = 6" "length (thread_soft_dogs s) = 4"
    using assms by (simp_all add: wnc_ok_def app_wf_lists)
  obtain buf l as' where l: "same_nodes l (g_new_node_list s)" and o: "udp_out ?s = udp_out s @ map (\<lambda>addr. (addr, buf)) as'"
    and b: "length buf = 81 + 10 * length (reported s)" "xor_verify buf = 0" "buf ! 78 = of_nat (length (reported s))"
    and e: "?s = s\<lparr>g_detector_info_list := cleared s, g_new_node_list := l, send_all := False,
      udp_out := udp_out ?s, thread_soft_dogs := (thread_soft_dogs s)[3 := thread_soft_dogs s ! 3 + 1]\<rparr>"
    by (rule udp_client_turn [OF wf(2-4)])
  have d: "datagram_ok buf"
    using b reported_count [of s] by (simp add: datagram_ok_def word_le_nat_alt unsigned_of_nat take_bit_nat_eq_self)
  have "app_wf (s\<lparr>g_detector_info_list := cleared s, g_new_node_list := l, send_all := False,
      udp_out := u, thread_soft_dogs := v\<rparr>)" for u v
    using wf(1) cleared_wf [of s] same_nodes_ok [OF l] by (simp add: app_wf_def)
  then have "app_wf ?s" using e by metis
  moreover have "list_all (datagram_ok \<circ> snd) (udp_out ?s)" using assms d unfolding o by (auto simp: wnc_ok_def list_all_iff)
  moreover have "wnc_device ?s = wnc_device s" "length (thread_soft_dogs ?s) = 4" "mq_data_proc ?s = mq_data_proc s"
    "mq_sys_ctrl ?s = mq_sys_ctrl s" "radio_out ?s = radio_out s"
    using wf(4) by (subst e, simp)+
  ultimately show ?thesis using assms by (simp add: wnc_ok_def)
qed

lemma ok_step: "wnc_step s s' \<Longrightarrow> wnc_ok s \<Longrightarrow> wnc_ok s'"
proof (induction rule: wnc_step.induct)
  case (command m s)
  then show ?case by (cases m) (auto intro!: ok_send_data_proc)
next
  case (test m s)
  then have "app_wf (send_lora m s)" by (auto simp: wnc_ok_def intro!: wf_send_lora)
  then show ?case using test by (simp add: wnc_ok_def send_lora_def)
next
  case (confirm s datagram)
  have "app_wf (send_sys_ctrl x s)" for x using confirm by (simp add: wnc_ok_def app_wf_def send_sys_ctrl_def)
  then show ?case using confirm by (simp add: thread_udp_server_def Let_def wnc_ok_def send_sys_ctrl_def mq_put_def)
next
  case (timer_report s)
  then show ?case by (simp add: callback_timer_udp_def wnc_ok_def app_wf_def)
qed (auto simp: thread_lora_recv_def Let_def ok_feed callback_timer_analyze_light_def callback_timer_dev_connect_def
    intro: ok_process ok_transmit ok_report intro!: ok_receive ok_send_data_proc)

lemma reachable_ok: "wnc_step\<^sup>*\<^sup>* s s' \<Longrightarrow> wnc_ok s \<Longrightarrow> wnc_ok s'"
  by (induction rule: rtranclp_induct) (auto intro: ok_step)

lemma demo_udp_ok: "wnc_ok demo_udp"
  using demo_app_wf by (simp add: wnc_ok_def demo_udp_def app_st.defs radio_st.defs udp_st.defs app_wf_def demo_mac)

text \<open>The threads together. In every interleaving of the receiving thread, the data process thread, the sending thread,
  the UDP threads, the timers and the commands of the TCP server, from a state whose lists are inside their arrays and
  whose queues and outputs are in order: the lists, the ring buffers and the queues stay inside their arrays and no
  node is recorded twice as new; every packet given to the radio has twelve bytes and carries the checksum the nodes
  expect, the zero packets of the transmission test excepted; and every datagram that is broadcast has the length its
  node count states, at most 881 bytes, and a correct check byte.\<close>

theorem threads_invariant:
  assumes "wnc_step\<^sup>*\<^sup>* s s'" and "wnc_ok s"
  shows "wnc_ok s'"
  using assms by (rule reachable_ok)

theorem threads_invariant_witness:
  "\<exists>s'. wnc_step\<^sup>*\<^sup>* demo_udp s' \<and> udp_out s' \<noteq> [] \<and> wnc_ok s'"
proof -
  have f: "lists_wf demo_udp" "length (eth_mac (wnc_device demo_udp)) = 6" "length (thread_soft_dogs demo_udp) = 4"
    using demo_udp_ok by (simp_all add: wnc_ok_def app_wf_lists)
  let ?s = "thread_udp_client demo_udp"
  have r: "wnc_step\<^sup>*\<^sup>* demo_udp ?s" by (intro r_into_rtranclp wnc_step.report)
  obtain buf as' where "udp_out ?s = udp_out demo_udp @ map (\<lambda>addr. (addr, buf)) (0xffffffff # as')"
    by (rule udp_client_turn [OF f])
  then show ?thesis using threads_invariant [OF r demo_udp_ok] r by (intro exI [of _ ?s]) simp
qed

section \<open>From the radio to the servers\<close>

text \<open>What a heartbeat leaves in the entry of its detector.\<close>

definition refreshed :: "rt_lora_pkt \<Rightarrow> single_detector_info \<Rightarrow> single_detector_info \<Rightarrow> bool" where
  "refreshed rx d d' \<longleftrightarrow> d_id d' = d_id d \<and> d_state d' = d_state (heart_beat_info rx) \<and> d_rssi d' = p_payload rx ! 7 \<and>
     d_snr d' = d_snr (heart_beat_info rx) \<and> d_current_dr d' = p_datarate rx \<and> d_battery d' = p_payload rx ! 6 \<and>
     (d_state d \<noteq> d_state d' \<longrightarrow> d_is_park_state_changed d' \<noteq> 0)"

lemma refreshed_counted:
  assumes "d_id d1 = d_id d" and "d_state d1 = d_state d" and "d_current_dr d1 = p_datarate rx"
  shows "refreshed rx d (set_rest (heart_beat_info rx) (set_state (heart_beat_info rx) ((count_packet c d1)\<lparr>d_recv_num := v\<rparr>)))"
proof -
  have c: "d_id (count_packet c d1) = d_id d1" "d_state (count_packet c d1) = d_state d1"
    "d_current_dr (count_packet c d1) = d_current_dr d1"
    by (simp_all add: count_packet_def Let_def split: option.split)
  have h: "d_battery (heart_beat_info rx) = p_payload rx ! 6" "d_rssi (heart_beat_info rx) = p_payload rx ! 7"
    by (simp_all add: heart_beat_info_def Let_def)
  show ?thesis using assms by (simp add: refreshed_def set_rest_def set_state_def c h Let_def)
qed

lemma refresh_fields:
  fixes s :: "'a app_st_scheme"
  shows "i < length (detector_info (g_detector_info_list s)) \<Longrightarrow> det (refresh_detector_info n i s) i =
      set_rest n (set_state n ((count_packet (d_cnt n) (det s i))\<lparr>d_recv_num := d_recv_num (count_packet (d_cnt n) (det s i)) + 1\<rparr>))"
    and "d_num (g_detector_info_list (refresh_detector_info n i s)) = d_num (g_detector_info_list s)"
    and "mq_lora_send (refresh_detector_info n i s) = mq_lora_send s"
  unfolding refresh_detector_info_def Let_def by (simp_all add: upd_det_def app_simps)

lemma heart_beat_refreshes:
  assumes "i < length (detector_info (g_detector_info_list s))"
  shows "refreshed rx (det s i) (det (detector_heart_beat rx i s) i)"
    and "d_num (g_detector_info_list (detector_heart_beat rx i s)) = d_num (g_detector_info_list s)"
    and "mq_lora_send (detector_heart_beat rx i s) = mq_put (MSG_LORA_SEND_DATA (rx\<lparr>p_payload := put_crc ((p_payload rx)
      [5 := fst (adr_control rx i s)]), p_freq_hz := get_tx_freq s\<rparr>)) (mq_lora_send s)"
proof -
  define d1 where "d1 = (ring_put rx (det s i))\<lparr>d_c_avg_rssi := of_int (avg_rssi_of (min MAX_AVG_NUM (unat (d_recv_num (det s i) + 1))) (ring_put rx (det s i))),
    d_c_avg_snr := avg_snr_of (min MAX_AVG_NUM (unat (d_recv_num (det s i) + 1))) (ring_put rx (det s i))\<rparr>"
  have d1: "d_id d1 = d_id (det s i)" "d_state d1 = d_state (det s i)" "d_current_dr d1 = p_datarate rx"
    by (simp_all add: d1_def ring_put_def Let_def)
  obtain a where a: "adr_control rx i s = (a, upd_det i (\<lambda>_. d1) s)" by (simp add: adr_control_def d1_def Let_def)
  define d2 where "d2 = (if d_is_in_config d1 = 1 then d1\<lparr>d_is_in_config := 0\<rparr> else d1)"
  have d2: "d_id d2 = d_id (det s i)" "d_state d2 = d_state (det s i)" "d_current_dr d2 = p_datarate rx"
    by (simp_all add: d2_def d1)
  have e: "\<exists>v. det (detector_heart_beat rx i s) i =
      set_rest (heart_beat_info rx) (set_state (heart_beat_info rx) ((count_packet (d_cnt (heart_beat_info rx)) d2)\<lparr>d_recv_num := v\<rparr>))"
    using assms unfolding detector_heart_beat_def a Let_def prod.case
    by (simp add: refresh_fields app_simps upd_det_def send_lora_def d2_def) blast
  show "refreshed rx (det s i) (det (detector_heart_beat rx i s) i)" using e refreshed_counted [OF d2] by metis
  show "d_num (g_detector_info_list (detector_heart_beat rx i s)) = d_num (g_detector_info_list s)"
    unfolding detector_heart_beat_def a Let_def prod.case
    by (simp add: refresh_fields app_simps upd_det_def send_lora_def)
  show "mq_lora_send (detector_heart_beat rx i s) = mq_put (MSG_LORA_SEND_DATA (rx\<lparr>p_payload := put_crc ((p_payload rx)
      [5 := fst (adr_control rx i s)]), p_freq_hz := get_tx_freq s\<rparr>)) (mq_lora_send s)"
    unfolding detector_heart_beat_def a Let_def prod.case
    by (simp add: refresh_fields app_simps upd_det_def send_lora_def get_tx_freq_def)
qed

lemma take_drop_concat:
  assumes "\<And>x. x \<in> set xs \<Longrightarrow> length x = n" and "j < length xs"
  shows "take n (drop (n * j) (concat xs @ ys)) = xs ! j"
  using assms
proof (induction xs arbitrary: j)
  case (Cons x xs)
  then show ?case by (cases j) simp_all
qed simp

lemma reported_in_datagram:
  assumes "length buf = 81 + 10 * length (reported s)" and "butlast (drop 80 buf) = concat (reported s)" and "e \<in> set (reported s)"
  shows "\<exists>j < length (reported s). take 10 (drop (80 + 10 * j) buf) = e"
proof -
  obtain j where j: "j < length (reported s)" "reported s ! j = e" using assms(3) by (auto simp: in_set_conv_nth)
  have "drop 80 buf \<noteq> []" using assms(1) by simp
  then have "drop 80 buf = concat (reported s) @ [last (drop 80 buf)]" using assms(2) by (metis append_butlast_last_id)
  then have "take 10 (drop (10 * j) (drop 80 buf)) = e"
    using take_drop_concat [of "reported s" 10 j "[last (drop 80 buf)]"] ten_bytes_each j by auto
  then show ?thesis using j(1) by (intro exI [of _ j]) (simp add: add.commute)
qed

lemma recv_pkt_fields:
  assumes "rx_size p = 12" and "length (rx_payload p) = 256"
  shows "i < 12 \<Longrightarrow> p_payload (recv_pkt p) ! i = rx_payload p ! i" and "crc_ok (p_payload (recv_pkt p)) = crc_ok (rx_payload p)"
    and "pkt_id (recv_pkt p) = rd_be32 (rx_payload p) 0" and "p_datarate (recv_pkt p) = lora_get_datarate (ucast (rx_datarate p))"
proof -
  have n: "p_payload (recv_pkt p) ! i = rx_payload p ! i" if "i < 12" for i
    using that assms by (simp add: recv_pkt_def Let_def nth_append)
  then show "i < 12 \<Longrightarrow> p_payload (recv_pkt p) ! i = rx_payload p ! i" .
  have "take 10 (p_payload (recv_pkt p)) = take 10 (rx_payload p)" using assms by (simp add: recv_pkt_def Let_def min_def)
  then show "crc_ok (p_payload (recv_pkt p)) = crc_ok (rx_payload p)" by (simp add: crc_ok_def n)
  show "pkt_id (recv_pkt p) = rd_be32 (rx_payload p) 0" by (simp add: pkt_id_def rd_be32_def n)
qed (simp add: recv_pkt_def Let_def)

text \<open>A heartbeat in normal operation is handled by \<open>detector_heart_beat\<close>.\<close>

lemma process_heart_beat:
  assumes "m_mode (working_mode s) = MODE_NORMAL" and "crc_ok (p_payload rx)" and "p_payload rx ! 4 = 0xFE"
    and "find_detector (pkt_id rx) s = Some k"
  shows "thread_data_process (MSG_LORA_RECV_DATA rx) s = Some (detector_heart_beat rx k s)"
  using assms by (simp add: analyze_lora_pkt_def analyze_special_mode_def dispatch_pkt_def Let_def)

lemma find_detector_Some:
  "find_detector i s = Some k \<Longrightarrow> k < d_num (g_detector_info_list s) \<and> d_id (det s k) = i"
  by (auto simp: find_detector_def find_Some_iff)

text \<open>A marked detector is in the next datagram.\<close>

lemma changed_in_datagram:
  assumes "wnc_ok s" and "k < d_num (g_detector_info_list s)" and "d_is_park_state_changed (det s k) \<noteq> 0"
  shows "\<exists>buf j. (0xffffffff, buf) \<in> set (udp_out (thread_udp_client s)) \<and> j < unat (buf ! 78) \<and>
    take 10 (drop (80 + 10 * j) buf) = detector_bytes (det s k)"
proof -
  have wf: "detectors_wf (g_detector_info_list s)" using assms(1) by (simp add: wnc_ok_def app_wf_def)
  have "det s k \<in> set (take (d_num (g_detector_info_list s)) (detector_info (g_detector_info_list s)))"
    using assms(2) wf by (simp add: in_set_conv_nth detectors_wf_def) (metis nth_take)
  then have "det s k \<in> set (changed_detectors s)" using assms(3) by (simp add: changed_detectors_def)
  then have e: "detector_bytes (det s k) \<in> set (reported s)"
    using changed_reported [OF wf] by (metis image_eqI in_set_takeD set_map)
  have lw: "lists_wf s" "length (eth_mac (wnc_device s)) = 6" "length (thread_soft_dogs s) = 4"
    using assms(1) by (simp_all add: wnc_ok_def app_wf_lists)
  obtain buf as' where o: "udp_out (thread_udp_client s) = udp_out s @ map (\<lambda>addr. (addr, buf)) (0xffffffff # as')"
    and b: "length buf = 81 + 10 * length (reported s)" "butlast (drop 80 buf) = concat (reported s)"
      "buf ! 78 = of_nat (length (reported s))"
    by (rule udp_client_turn [OF lw])
  obtain j where j: "j < length (reported s)" "take 10 (drop (80 + 10 * j) buf) = detector_bytes (det s k)"
    using reported_in_datagram [OF b(1,2) e] by blast
  have "unat (buf ! 78) = length (reported s)"
    using b(3) reported_count [of s] by (simp add: unsigned_of_nat take_bit_nat_eq_self)
  then show ?thesis using o j by (intro exI [of _ buf] exI [of _ j]) simp
qed

text \<open>The receiving thread alone, with one packet and an empty queue.\<close>

lemma receive_turn:
  assumes "wnc_ok s" and "mq_data_proc s = []" and "rx_status p = 0x10" and "rx_size p = 12" and "length (rx_payload p) = 256"
    and "s1 = thread_lora_recv (Inr [p]) s"
  shows "wnc_ok s1" and "mq_data_proc s1 = [MSG_LORA_RECV_DATA (recv_pkt p)]" and "working_mode s1 = working_mode s"
    and "g_detector_info_list s1 = g_detector_info_list s" and "mq_lora_send s1 = mq_lora_send s" and "base_freq s1 = base_freq s"
proof -
  have s1: "s1 = send_data_proc (MSG_LORA_RECV_DATA (recv_pkt p)) (threads_feed_dog LORA_RECV_DOG s)"
    using assms(3,4,6) by (simp add: thread_lora_recv_def handle_rx_def Let_def)
  show "wnc_ok s1" unfolding s1 by (intro ok_send_data_proc) (simp_all add: ok_feed assms(1) recv_pkt_ok assms(4,5))
  show "mq_data_proc s1 = [MSG_LORA_RECV_DATA (recv_pkt p)]" "working_mode s1 = working_mode s"
    "g_detector_info_list s1 = g_detector_info_list s" "mq_lora_send s1 = mq_lora_send s" "base_freq s1 = base_freq s"
    using assms(2) by (simp_all add: s1 send_data_proc_def threads_feed_dog_def mq_put_def)
qed

text \<open>C2: from the radio to the servers. When the radio delivers the heartbeat of a known detector whose parking state has
  changed, the receiving thread hands it to the data process thread; this thread queues an answer for the node, on the
  transmission frequency, and the next datagram that is broadcast contains the node: its number, the new state, the signal
  strength, signal-to-noise ratio and battery value the heartbeat reported, and the data rate it came with.\<close>

theorem state_change_is_reported:
  assumes "wnc_ok s" and "mq_data_proc s = []" and "m_mode (working_mode s) = MODE_NORMAL"
    and "rx_status p = 0x10" and "rx_size p = 12" and "length (rx_payload p) = 256"
    and "crc_ok (rx_payload p)" and "rx_payload p ! 4 = 0xFE"
    and "find_detector (rd_be32 (rx_payload p) 0) s = Some k"
    and "d_state (det s k) \<noteq> drop_bit 7 (rx_payload p ! 5) AND 1"
    and "s1 = thread_lora_recv (Inr [p]) s"
  shows "\<exists>m s2 tx buf j. mq_data_proc s1 = [m] \<and> thread_data_process m (s1\<lparr>mq_data_proc := []\<rparr>) = Some s2 \<and>
     mq_lora_send s2 = mq_put (MSG_LORA_SEND_DATA tx) (mq_lora_send s) \<and>
     take 5 (p_payload tx) = take 5 (rx_payload p) \<and> crc_ok (p_payload tx) \<and> p_freq_hz tx = get_tx_freq s \<and>
     (0xffffffff, buf) \<in> set (udp_out (thread_udp_client s2)) \<and> j < unat (buf ! 78) \<and>
     take 10 (drop (80 + 10 * j) buf) = [0] @ be32 (rd_be32 (rx_payload p) 0) @
       [drop_bit 7 (rx_payload p ! 5) AND 1, rx_payload p ! 7, (rx_payload p ! 9 AND 0x3f) - 20,
        lora_get_datarate (ucast (rx_datarate p)), rx_payload p ! 6]"
proof -
  let ?rx = "recv_pkt p"
  define t where "t = s1\<lparr>mq_data_proc := []\<rparr>"
  define s2 where "s2 = detector_heart_beat ?rx k t"
  define tx where "tx = ?rx\<lparr>p_payload := put_crc ((p_payload ?rx)[5 := fst (adr_control ?rx k t)]), p_freq_hz := get_tx_freq t\<rparr>"
  note rx = recv_pkt_fields [OF assms(5,6)] and s1 = receive_turn [OF assms(1,2,4-6,11)]
  have t: "g_detector_info_list t = g_detector_info_list s" "working_mode t = working_mode s" "mq_lora_send t = mq_lora_send s"
    "base_freq t = base_freq s"
    by (simp_all add: t_def s1)
  have k: "k < d_num (g_detector_info_list s)" "d_id (det s k) = rd_be32 (rx_payload p) 0"
    using find_detector_Some [OF assms(9)] by simp_all
  then have kl: "k < length (detector_info (g_detector_info_list t))" using assms(1) by (simp add: t wnc_ok_def app_wf_def detectors_wf_def)
  have "find_detector (pkt_id ?rx) t = Some k" using assms(9) by (simp add: rx find_detector_def t)
  then have pr: "thread_data_process (MSG_LORA_RECV_DATA ?rx) (s1\<lparr>mq_data_proc := []\<rparr>) = Some s2"
    unfolding s2_def t_def [symmetric] using assms(3,7,8) by (intro process_heart_beat) (simp_all add: rx t)
  have ok: "wnc_ok s2" by (rule ok_process [OF s1(1,2) pr])
  have r: "refreshed ?rx (det s k) (det s2 k)" "d_num (g_detector_info_list s2) = d_num (g_detector_info_list s)"
    and q: "mq_lora_send s2 = mq_put (MSG_LORA_SEND_DATA tx) (mq_lora_send s)"
    using heart_beat_refreshes [OF kl, of ?rx] by (simp_all add: s2_def t tx_def)
  have h: "d_state (heart_beat_info ?rx) = drop_bit 7 (rx_payload p ! 5) AND 1"
    "d_snr (heart_beat_info ?rx) = (rx_payload p ! 9 AND 0x3f) - 20"
    by (simp_all add: heart_beat_info_def Let_def rx)
  then have "d_is_park_state_changed (det s2 k) \<noteq> 0" using r(1) assms(10) by (simp add: refreshed_def)
  then obtain buf j where b: "(0xffffffff, buf) \<in> set (udp_out (thread_udp_client s2))" "j < unat (buf ! 78)"
      "take 10 (drop (80 + 10 * j) buf) = detector_bytes (det s2 k)"
    using changed_in_datagram [OF ok, of k] k(1) r(2) by auto
  have "length (p_payload ?rx) = 32" using recv_pkt_ok [OF assms(5,6)] by (simp add: pkt_ok_def)
  then have "crc_ok (p_payload tx)" by (simp add: tx_def)
  moreover have "take 5 (p_payload tx) = take 5 (rx_payload p)" "p_freq_hz tx = get_tx_freq s"
    using assms(5,6) by (simp_all add: tx_def put_crc_def Let_def get_tx_freq_def t) (simp add: recv_pkt_def Let_def min_def)
  moreover have "detector_bytes (det s2 k) = [0] @ be32 (rd_be32 (rx_payload p) 0) @
       [drop_bit 7 (rx_payload p ! 5) AND 1, rx_payload p ! 7, (rx_payload p ! 9 AND 0x3f) - 20,
        lora_get_datarate (ucast (rx_datarate p)), rx_payload p ! 6]"
    using r(1) k(2) by (simp add: refreshed_def detector_bytes_def h rx)
  ultimately show ?thesis using s1(2) pr q b
    by (intro exI [of _ "MSG_LORA_RECV_DATA ?rx"] exI [of _ s2] exI [of _ tx] exI [of _ buf] exI [of _ j]) simp
qed

definition demo_rx :: lgw_pkt_rx_s where
  "demo_rx = \<lparr>rx_freq_hz = 470500000, rx_status = 0x10, rx_datarate = 4, rx_rssi = -80, rx_snr = 8, rx_size = 12,
     rx_payload = p_payload (demo_pkt [0, 0, 0, 9, 0xFE, 0x80, 150, 0, 1, 20]) @ replicate 224 0\<rparr>"

theorem state_change_is_reported_witness:
  "\<exists>m s2 buf j. mq_data_proc (thread_lora_recv (Inr [demo_rx]) demo_udp) = [m] \<and>
     thread_data_process m ((thread_lora_recv (Inr [demo_rx]) demo_udp)\<lparr>mq_data_proc := []\<rparr>) = Some s2 \<and>
     (0xffffffff, buf) \<in> set (udp_out (thread_udp_client s2)) \<and> j < unat (buf ! 78) \<and>
     take 10 (drop (80 + 10 * j) buf) = [0, 0, 0, 0, 9, 1, 0, 0, 8, 150]"
proof -
  have d: "g_detector_info_list demo_udp = demo_detectors" "m_mode (working_mode demo_udp) = MODE_NORMAL" "mq_data_proc demo_udp = []"
    by (simp_all add: demo_udp_def app_st.defs radio_st.defs udp_st.defs)
  have l: "length (p_payload (demo_pkt [0, 0, 0, 9, 0xFE, 0x80, 150, 0, 1, 20])) = 32"
    using demo_pkt_ok(1) [of "[0, 0, 0, 9, 0xFE, 0x80, 150, 0, 1, 20]"] by (simp add: pkt_ok_def)
  have n: "rx_payload demo_rx ! i = [0, 0, 0, 9, 0xFE, 0x80, 150, 0, 1, 20] ! i" if "i < 10" for i
  proof -
    have "take 10 (rx_payload demo_rx) = [0, 0, 0, 9, 0xFE, 0x80, 150, 0, 1, 20]" by (simp add: demo_rx_def demo_pkt_def put_crc_def Let_def)
    then show ?thesis using nth_take [OF that, of "rx_payload demo_rx"] by simp
  qed
  have c: "crc_ok (rx_payload demo_rx)"
    using demo_pkt_ok(2) [of "[0, 0, 0, 9, 0xFE, 0x80, 150, 0, 1, 20]"] l by (simp add: demo_rx_def crc_ok_def nth_append)
  have r: "rx_status demo_rx = 0x10" "rx_size demo_rx = 12" "rx_datarate demo_rx = 4" "length (rx_payload demo_rx) = 256"
    using l by (simp_all add: demo_rx_def)
  have i: "rd_be32 (rx_payload demo_rx) 0 = 9" by (simp add: rd_be32_def n word32_def)
  have f: "find_detector 9 demo_udp = Some 0" by (simp add: find_detector_def d demo_detectors_def upt_rec)
  have s: "d_state (det demo_udp 0) = 0" by (simp add: d demo_detectors_def zero_detector_def)
  show ?thesis
    using state_change_is_reported [OF demo_udp_ok d(3,2), of demo_rx 0, OF _ _ _ c _ _ _ refl]
    by (simp add: n i f s r lora_get_datarate_def be32_def) blast
qed

end
