(* ===== verification/Wnc_System.thy ===== *)
theory Wnc_System
  imports Wnc_Threads Tcp_Framing Sys_Ctrl Led_Thread
begin

text \<open>
  All application threads over one shared state. The global variables of the application (\<open>app_st\<close>: flash
  memories, configuration, lists, queues) are shared; the static and local variables of the TCP server, the system control
  thread, the radio and UDP threads and the LED thread are kept apart. A step of \<open>sys_step\<close> is one turn of a thread's
  loop, a timer callback or the LED interrupt; a turn is atomic, as it is under the mutexes of the lists and the priorities
  of the threads only in part. A turn that does not end (the light control of \<open>analyse_light_state_hangs\<close>, an oversized
  packet, an endless upload) or that uses an unset pointer or overruns a buffer has no successor.
\<close>

section \<open>The state\<close>

record wnc_sys =
  shared :: app_st
  radio_part :: "unit udp_st_ext radio_st_ext"
  tcp_part :: "unit server_st_ext tcp_st_ext"
  ctrl_part :: "unit ctrl_st_ext"
  leds :: led_st

definition radio_view :: "wnc_sys \<Rightarrow> udp_st" where
  "radio_view S = app_st.extend (shared S) (radio_part S)"

definition tcp_view :: "wnc_sys \<Rightarrow> server_st" where
  "tcp_view S = app_st.extend (shared S) (tcp_part S)"

definition ctrl_view :: "wnc_sys \<Rightarrow> ctrl_st" where
  "ctrl_view S = app_st.extend (shared S) (ctrl_part S)"

definition set_radio :: "udp_st \<Rightarrow> wnc_sys \<Rightarrow> wnc_sys" where
  "set_radio s S = S\<lparr>shared := app_st.truncate s, radio_part := app_st.more s\<rparr>"

definition set_tcp :: "server_st \<Rightarrow> wnc_sys \<Rightarrow> wnc_sys" where
  "set_tcp s S = S\<lparr>shared := app_st.truncate s, tcp_part := app_st.more s\<rparr>"

definition set_ctrl :: "ctrl_st \<Rightarrow> wnc_sys \<Rightarrow> wnc_sys" where
  "set_ctrl s S = S\<lparr>shared := app_st.truncate s, ctrl_part := app_st.more s\<rparr>"

section \<open>Steps\<close>

text \<open>The interrupt of the refresh timer.\<close>

definition led_interrupt :: "'a app_st_scheme \<Rightarrow> 'a app_st_scheme" where
  "led_interrupt s = s\<lparr>mq_led := mq_put MSG_LED_REFRESH (mq_led s)\<rparr>"

inductive sys_step :: "fmc_erase \<Rightarrow> fmc_program \<Rightarrow> nat \<Rightarrow> wnc_sys \<Rightarrow> wnc_sys \<Rightarrow> bool" for erase prog max_connect where
  radio: "wnc_step (radio_view S) s \<Longrightarrow> sys_step erase prog max_connect S (set_radio s S)"
| tcp: "tcp_round erase prog max_connect rd (tcp_view S) = Some (Inr s) \<Longrightarrow> sys_step erase prog max_connect S (set_tcp s S)"
| ctrl: "mq_sys_ctrl (shared S) = m # q \<Longrightarrow>
    sys_step erase prog max_connect S (set_ctrl (thread_system_control restart_ok m ((ctrl_view S)\<lparr>mq_sys_ctrl := q\<rparr>)) S)"
| ctrl_timer: "sys_step erase prog max_connect S (set_ctrl (callback_timer_sysctrl (ctrl_view S)) S)"
| led: "mq_led (shared S) = m # q \<Longrightarrow>
    sys_step erase prog max_connect S (S\<lparr>shared := (shared S)\<lparr>mq_led := q\<rparr>, leds := thread_led m (leds S)\<rparr>)"
| led_interrupt: "sys_step erase prog max_connect S (S\<lparr>shared := led_interrupt (shared S)\<rparr>)"
| led_timer: "sys_step erase prog max_connect S (S\<lparr>leds := callback_timer_led_test (leds S)\<rparr>)"

section \<open>The invariant of the shared state\<close>

text \<open>The lists and the device parameters, which are below the queues in the state.\<close>

definition nodes_ok :: "'a ft_st_scheme \<Rightarrow> bool" where
  "nodes_ok s \<longleftrightarrow> detectors_wf (g_detector_info_list s) \<and> list_all detector_ok (detector_info (g_detector_info_list s)) \<and>
     relations_wf (g_relation_list s) \<and> lights_wf (g_light_info_list s) \<and> new_nodes_ok (g_new_node_list s) \<and>
     config_nodes_wf (g_config_node_list s) \<and> length (eth_mac (wnc_device s)) = 6"

definition queues_ok :: "'a app_st_scheme \<Rightarrow> bool" where
  "queues_ok s \<longleftrightarrow> light_index s < MAX_LIGHT_PER_WNC \<and>
     length (mq_lora_send s) \<le> RT_MQ_NUM \<and> list_all tx_msg_ok (mq_lora_send s) \<and> length (mq_led s) \<le> RT_MQ_NUM \<and>
     length (lora_tcp_buf s) = 1024 \<and> length (p_payload (stack_pkt s)) = 32 \<and> length (thread_soft_dogs s) = 4 \<and>
     length (mq_data_proc s) \<le> RT_MQ_NUM \<and> list_all rx_msg_ok (mq_data_proc s) \<and> length (mq_sys_ctrl s) \<le> RT_MQ_NUM"

definition shared_ok :: "'a app_st_scheme \<Rightarrow> bool" where
  "shared_ok s \<longleftrightarrow> nodes_ok s \<and> queues_ok s"

lemma wnc_ok_shared:
  "wnc_ok s \<longleftrightarrow> shared_ok s \<and> list_all radio_packet_ok (radio_out s) \<and> list_all (datagram_ok \<circ> snd) (udp_out s)"
  by (auto simp: wnc_ok_def shared_ok_def nodes_ok_def queues_ok_def app_wf_def)

lemma shared_ok_view [simp]:
  "shared_ok (app_st.truncate s) = shared_ok s" "shared_ok (app_st.extend a v) = shared_ok a"
  by (cases s; simp add: shared_ok_def nodes_ok_def queues_ok_def app_st.defs)
    (cases a; simp add: shared_ok_def nodes_ok_def queues_ok_def app_st.defs)

lemma queues_ok_more: "ft_st.more t = ft_st.more s \<Longrightarrow> queues_ok t = queues_ok s"
  by (cases s; cases t) (simp add: queues_ok_def)

text \<open>An operation of the lower components keeps the queues; it remains to show that it keeps the lists.\<close>

lemma shared_ok_below: "shared_ok s \<Longrightarrow> ft_st.more t = ft_st.more s \<Longrightarrow> nodes_ok t \<Longrightarrow> shared_ok t"
  using queues_ok_more by (auto simp: shared_ok_def)

section \<open>The lists after loading\<close>

lemma sensor_line_ok:
  "list_all detector_ok (detector_info (fst (snd acc))) \<Longrightarrow>
   list_all detector_ok (detector_info (fst (snd (sensor_list_line self line acc))))"
proof (cases acc)
  case (fields r d cnt)
  assume "list_all detector_ok (detector_info (fst (snd acc)))"
  then have d: "list_all detector_ok (detector_info d)" by (simp add: fields)
  then have "detector_ok ((detector_info d ! cnt)\<lparr>d_id := i, d_state := v\<rparr>)" if "cnt < length (detector_info d)" for i v
    using that by (simp add: list_all_length detector_ok_def)
  then show ?thesis using d by (auto simp: fields sensor_list_line_def intro!: list_all_upd split: option.split)
qed

lemma loaded_detectors_ok: "list_all detector_ok (detector_info (g_detector_info_list (init_parking_lists s)))"
proof -
  have z: "list_all detector_ok (detector_info zero_detector_list)"
    by (simp add: zero_detector_list_def list_all_iff detector_ok_def zero_detector_def)
  have "list_all detector_ok (detector_info (g_detector_info_list (read_sensor_list_flie t)))" for t :: "'a file_st_scheme"
  proof (cases "file_absent (sensor_list (g_file_info_list t))")
    case False
    let ?r = "g_relation_list t\<lparr>detector_num := 0, relation := replicate MAX_DETECTOR_PER_WNC zero_relation\<rparr>"
    have "list_all detector_ok (detector_info (fst (snd (fold_while go (sensor_list_line self) ls (?r, zero_detector_list, 0)))))" for go self ls
      by (rule fold_while_invariant [where P = "\<lambda>acc. list_all detector_ok (detector_info (fst (snd acc)))"])
        (use z sensor_line_ok in auto)
    then show ?thesis using False by (simp add: read_sensor_list_flie_def Let_def read_lines_fold split: prod.split) (metis fst_conv snd_conv)
  qed (simp add: read_sensor_list_flie_def Let_def z)
  then show ?thesis by (simp add: init_parking_lists_def read_light_parking_flie_def Let_def)
qed

lemma nodes_ok_reload: "nodes_ok s \<Longrightarrow> nodes_ok (init_parking_lists s)"
proof -
  assume "nodes_ok s"
  moreover have "g_new_node_list (init_parking_lists s) = g_new_node_list s" "g_config_node_list (init_parking_lists s) = g_config_node_list s"
    "wnc_device (init_parking_lists s) = wnc_device s" by (subst init_parking_lists_only, simp)+
  ultimately show ?thesis using parking_lists_wf [of s] loaded_detectors_ok [of s] by (simp add: nodes_ok_def)
qed

section \<open>What the files and the configuration leave alone\<close>

definition nodes :: "'a ft_st_scheme \<Rightarrow> detector_info_list \<times> relation_list \<times> light_info_list \<times> new_node_list \<times>
    config_node_list \<times> device_params_t" where
  "nodes s = (g_detector_info_list s, g_relation_list s, g_light_info_list s, g_new_node_list s, g_config_node_list s, wnc_device s)"

named_theorems nodes_simps \<open>operations that keep the lists and the device parameters\<close>

lemma nodes_ok_same: "nodes t = nodes s \<Longrightarrow> nodes_ok t = nodes_ok s"
  by (simp add: nodes_def nodes_ok_def)

lemma nodes_flash [nodes_simps]:
  "nodes (ext_write a bs s) = nodes s" "nodes (ext_sct_erase a s) = nodes s"
  "nodes (ext_blk_erase a s) = nodes s" "nodes (rewrite_sector a bs s) = nodes s"
  "nodes (s\<lparr>file_operate_state := p\<rparr>) = nodes s" "nodes (s\<lparr>g_file_info_list := d\<rparr>) = nodes s"
  by (simp_all add: nodes_def ext_write_def ext_sct_erase_def ext_blk_erase_def rewrite_sector_def)

lemma nodes_erase_blocks [nodes_simps]: "nodes (erase_blocks base n s) = nodes s"
proof -
  have "nodes (fold (\<lambda>i. ext_blk_erase ((base + i * 16) * FLASH_BYTES_PER_SECTOR)) js s) = nodes s" for js
    by (induction js arbitrary: s) (simp_all add: nodes_simps)
  then show ?thesis by (simp add: erase_blocks_def)
qed

lemma nodes_add_log [nodes_simps]: "nodes (add_log d s) = nodes s"
  by (subst add_log_only) (simp add: nodes_def)

lemma nodes_logs [nodes_simps]:
  "nodes (snd (log_read n type s)) = nodes s" "nodes (prepare_read type s) = nodes s"
  by (subst log_read_only, simp add: nodes_def) (simp add: nodes_def prepare_read_def Let_def upd_info_def split: prod.split)

lemma nodes_read_file [nodes_simps]: "nodes (snd (read_file n s)) = nodes s"
  by (simp add: read_file_def Let_def read_system_log_def read_work_state_log_def nodes_simps)

lemma nodes_process [nodes_simps]: "nodes (snd (process_download_type name n s)) = nodes s"
  by (simp add: process_download_type_def Let_def start_file_def nodes_simps split: list.split)

lemma nodes_upload_file [nodes_simps]: "nodes (snd (snd (upload_file k data n s))) = nodes s"
proof -
  have d: "nodes (snd (snd (upload_data l j t))) = nodes t" for l j and t :: "'a ft_st_scheme"
    by (simp add: upload_data_def Let_def case_prod_unfold nodes_simps)
  have u: "upload_source ty t = Some (m, nm, t') \<Longrightarrow> nodes t' = nodes t" for ty m nm and t t' :: "'a ft_st_scheme"
    by (auto simp: upload_source_def Let_def prepare_read_system_log_def prepare_read_work_state_log_def nodes_simps split: if_splits)
  show ?thesis by (auto simp: upload_file_def Let_def case_prod_unfold d u nodes_simps split: option.split)
qed

lemma nodes_params [nodes_simps]:
  "nodes (fst (save_device_params er pr w s)) = nodes s" "nodes (fst (set_wnc_config s)) = nodes s" "nodes (user_init s) = nodes s"
  "nodes (upd_net f s) = nodes s" "nodes (upd_lora g s) = nodes s" "nodes (snd (set_datetime d s)) = nodes s"
  by (simp_all add: nodes_def save_device_params_def set_wnc_config_stores user_init_def store_cfg_def Let_def
      case_prod_unfold upd_net_def upd_lora_def set_datetime_def pcf8563_set_datetime_def rewrite_sector_def ext_write_def
      ext_sct_erase_def ext_blk_erase_def)

lemma nodes_set [nodes_simps]:
  "nodes (snd (set_lora_params d n s)) = nodes s" "nodes (snd (set_offline_timeout d n s)) = nodes s"
  "set_remote_server_ip d n s = Inr x \<Longrightarrow> nodes (snd x) = nodes s"
  "set_device_net_params d n s = Inr x \<Longrightarrow> nodes (snd x) = nodes s"
  by (auto simp: set_lora_params_def set_offline_timeout_def set_remote_server_ip_def set_device_net_params_def Let_def
      then_r_Inr nodes_simps split: if_splits option.splits)

lemma nodes_set_device_id [nodes_simps]: "nodes (snd (set_device_id_and_mac er pr i m s)) = nodes s"
  by (simp add: set_device_id_and_mac_def Let_def case_prod_unfold nodes_simps)

lemma nodes_ok_default: "nodes_ok s \<Longrightarrow> nodes_ok (fst (init_device_param er pr s))"
  by (simp add: init_device_param_def nodes_ok_same [OF nodes_params(1)]) (simp add: nodes_ok_def default_params_def)

lemma nodes_ok_download: "nodes_ok s \<Longrightarrow> nodes_ok (snd (download_file k data n s))"
proof -
  assume ok: "nodes_ok s"
  have f: "nodes_ok (finish_download_option t)" if "nodes_ok t" for t :: "'a ft_st_scheme"
  proof -
    have "nodes_ok u" if "nodes u = nodes t" for u :: "'a ft_st_scheme" using that \<open>nodes_ok t\<close> nodes_ok_same by blast
    then show ?thesis by (simp add: finish_download_option_def Let_def nodes_simps nodes_ok_reload)
  qed
  have st: "nodes_ok (snd (store_packet data off j t))" if "nodes_ok t" for off j and t :: "'a ft_st_scheme"
  proof -
    have "nodes_ok u" if "nodes u = nodes t" for u :: "'a ft_st_scheme" using that \<open>nodes_ok t\<close> nodes_ok_same by blast
    then have "nodes_ok (finish_download_option u)" "nodes_ok u" if "nodes u = nodes t" for u :: "'a ft_st_scheme" using that f by blast+
    then show ?thesis by (simp add: store_packet_def Let_def file_operate_reset_def nodes_simps nodes_ok_same [OF nodes_flash(5)])
  qed
  have p: "nodes_ok t'" if "process_download_type name m t = (r, t')" "nodes t = nodes s" for name m r and t t' :: "'a ft_st_scheme"
    using that nodes_process [of name m t] nodes_ok_same [of t' s] ok by simp
  have "nodes_ok u" if "nodes u = nodes s" for u :: "'a ft_st_scheme" using that ok nodes_ok_same by blast
  then show ?thesis
    using p by (simp add: download_file_def Let_def st nodes_simps split: prod.split bool.split)
qed

section \<open>The TCP server\<close>

text \<open>Operations on the sockets and the command buffer.\<close>

lemma shared_ok_out: "shared_ok (s\<lparr>tcp_out := x\<rparr>) = shared_ok s"
  by (simp add: shared_ok_def nodes_ok_def queues_ok_def)

lemma shared_ok_tcp [simp]:
  "shared_ok (s\<lparr>cmd_buf := b\<rparr>) = shared_ok s" "shared_ok (s\<lparr>new_pack := np\<rparr>) = shared_ok s"
  "shared_ok (send_checked fd n s) = shared_ok s" "shared_ok (send_pack fd n s) = shared_ok s"
  "shared_ok (reply fd bs s) = shared_ok s" "shared_ok (reply_same_len fd n r s) = shared_ok s" "shared_ok (tcp_bad_cmd fd s) = shared_ok s"
  "shared_ok (start_packet data off s) = shared_ok s" "shared_ok (copy_bytes data off n s) = shared_ok s"
  for s :: "'a tcp_st_scheme"
  by (simp_all add: shared_ok_def nodes_ok_def queues_ok_def send_checked_def send_pack_def reply_def reply_same_len_def
      tcp_bad_cmd_def start_packet_def copy_bytes_def Let_def)

lemma shared_ok_send [intro]:
  "shared_ok s \<Longrightarrow> rx_msg_ok m \<Longrightarrow> shared_ok (send_data_proc m s)" "shared_ok s \<Longrightarrow> tx_msg_ok m \<Longrightarrow> shared_ok (send_lora m s)"
  "shared_ok s \<Longrightarrow> shared_ok (send_sys_ctrl x s)" "shared_ok s \<Longrightarrow> shared_ok (send_led l s)"
  "shared_ok s \<Longrightarrow> shared_ok (led_interrupt s)" "shared_ok s \<Longrightarrow> shared_ok (set_led st r c s)"
  by (auto simp: shared_ok_def nodes_ok_def queues_ok_def send_data_proc_def send_lora_def send_sys_ctrl_def send_led_def
      led_interrupt_def set_led_def mq_put_def)

lemma shared_ok_keeps: "shared_ok s \<Longrightarrow> ft_st.more t = ft_st.more s \<Longrightarrow> nodes t = nodes s \<Longrightarrow> shared_ok t"
  using shared_ok_below nodes_ok_same by (auto simp: shared_ok_def)

lemma shared_ok_files:
  fixes s :: "'a tcp_st_scheme"
  assumes "shared_ok s"
  shows "shared_ok (snd (download_file k d n s))" "shared_ok (snd (snd (upload_file k d n s)))"
    "shared_ok (fst (init_device_param er pr s))" "shared_ok (snd (set_device_id_and_mac er pr i m s))"
    "shared_ok (snd (set_datetime d s))" "shared_ok (user_init s)" "shared_ok (snd (set_lora_params d n s))"
    "shared_ok (snd (set_offline_timeout d n s))" "set_remote_server_ip d n s = Inr x \<Longrightarrow> shared_ok (snd x)"
    "set_device_net_params d n s = Inr x \<Longrightarrow> shared_ok (snd x)"
proof -
  have n: "nodes_ok s" using assms by (simp add: shared_ok_def)
  show "shared_ok (snd (download_file k d n s))" by (rule shared_ok_below [OF assms more_download_file nodes_ok_download [OF n]])
  show "shared_ok (fst (init_device_param er pr s))" by (rule shared_ok_below [OF assms more_params(2) nodes_ok_default [OF n]])
qed (rule shared_ok_keeps [OF assms]; simp add: more_simps nodes_simps)+

lemma shared_ok_set:
  "set_remote_server_ip d n s = Inr (a, t) \<Longrightarrow> shared_ok s \<Longrightarrow> shared_ok t"
  "set_device_net_params d n s = Inr (a, t) \<Longrightarrow> shared_ok s \<Longrightarrow> shared_ok t" for s :: "'a tcp_st_scheme"
  using shared_ok_files(9,10) [of s d n "(a, t)"] by simp_all

lemma shared_ok_reset: "shared_ok (file_operate_reset s) = shared_ok s"
  by (simp add: shared_ok_def nodes_ok_def queues_ok_def file_operate_reset_def)

lemma shared_ok_upload:
  assumes "upload_loop fd s = Some s'"
  shows "shared_ok s \<longrightarrow> shared_ok s'"
proof (rule upload_loop.raw_induct [where P = "\<lambda>fd s s'. shared_ok s \<longrightarrow> shared_ok s'", OF _ assms], intro impI, goal_cases)
  case (1 loop fd s s')
  obtain ret bs s1 where u: "upload_file (hdr_pack_sn (cmd_buf s)) (payload (cmd_buf s)) 1011 s = (ret, bs, s1)"
    by (cases "upload_file (hdr_pack_sn (cmd_buf s)) (payload (cmd_buf s)) 1011 s")
  have "shared_ok s1" using shared_ok_files(2) [OF 1(3), of "hdr_pack_sn (cmd_buf s)" "payload (cmd_buf s)" 1011] u by simp
  then show ?case using 1(1) 1(2) u by (auto simp: Let_def shared_ok_reset split: if_splits)
qed

lemma shared_ok_configure: "configure_files_opt fd s = Some s' \<Longrightarrow> shared_ok s \<Longrightarrow> shared_ok s'"
  using shared_ok_upload [of fd s s']
    shared_ok_files(1) [of s "hdr_pack_sn (cmd_buf s)" "payload (cmd_buf s)" "hdr_data_len (cmd_buf s)"]
  by (auto simp: configure_files_opt_def Let_def split: if_splits prod.splits)

lemma shared_ok_forward: "forward c fd s = Inr s' \<Longrightarrow> (\<And>bs. rx_msg_ok (c fd bs)) \<Longrightarrow> shared_ok s \<Longrightarrow> shared_ok s'"
  by (auto simp: forward_def Let_def split: if_splits)

lemma shared_ok_simple: "simple_command er pr fd len s = Inr s' \<Longrightarrow> shared_ok s \<Longrightarrow> shared_ok s'"
  for s :: "'a tcp_st_scheme"
  unfolding simple_command_def Let_def case_prod_unfold
  by (auto simp: then_r_Inr shared_ok_files intro!: shared_ok_send dest: shared_ok_set elim!: shared_ok_forward split: if_splits)

lemma shared_ok_analyze: "analyze_command er pr fd len s = Some (Inr s') \<Longrightarrow> shared_ok s \<Longrightarrow> shared_ok s'"
  by (auto simp: analyze_command_def Let_def split: if_splits intro: shared_ok_configure shared_ok_simple)

lemma shared_ok_recv:
  fixes s :: "'a tcp_st_scheme"
  assumes "recv_loop h data off len s = Some r" and "\<And>n s s'. h n s = Some (Inr s') \<Longrightarrow> shared_ok s \<Longrightarrow> shared_ok s'"
    and "r = Inr s'" and "shared_ok s"
  shows "shared_ok s'"
proof -
  have "(\<forall>n s s'. h n s = Some (Inr s') \<longrightarrow> shared_ok s \<longrightarrow> shared_ok s') \<longrightarrow> shared_ok s \<longrightarrow> (\<forall>s'. r = Inr s' \<longrightarrow> shared_ok s')"
  proof (rule recv_loop.raw_induct [where P = "\<lambda>h data off len s r. (\<forall>n s s'. h n s = Some (Inr s') \<longrightarrow> shared_ok s \<longrightarrow> shared_ok s') \<longrightarrow>
      shared_ok s \<longrightarrow> (\<forall>s'. r = Inr s' \<longrightarrow> shared_ok s')", OF _ assms(1)], intro impI allI, goal_cases)
    case (1 loop h data off len s r s')
    define s1 where "s1 = (if new_pack s then start_packet data off s else s)"
    define n where "n = min (min (MAX_TCP_DATA_LENGTH - cmd_buf_len s1) len) (pack_len s1 - cmd_buf_len s1)"
    define s2 where "s2 = copy_bytes data off n s1"
    have ok: "shared_ok s2" using 1(4) by (simp add: s2_def s1_def)
    note step = 1(2) [unfolded Let_def, folded s1_def, folded n_def, folded s2_def]
    have go: "shared_ok s'" if "loop h data o' l' u = Some r" "shared_ok u" for o' l' u
      using 1(1) [OF that(1)] 1(3,5) that(2) by blast
    show ?case
    proof (cases "len = 0")
      case True
      then show ?thesis using step 1(4,5) by simp
    next
      case False
      show ?thesis
      proof (cases "new_pack s \<and> \<not> header_at data off")
        case True
        then have "loop h data (off + 1) (len - 1) s = Some r" using step False by simp
        from go [OF this 1(4)] show ?thesis .
      next
        case nh: False
        have e: "(if cmd_buf_len s2 = pack_len s2
            then Option.bind (h (pack_len s2) s2) (case_sum (\<lambda>e. Some (Inl e)) (\<lambda>s3. loop h data (off + n) (len - n) (s3\<lparr>new_pack := True\<rparr>)))
            else loop h data (off + n) (len - n) s2) = Some r"
          using step unfolding if_not_P [OF False] if_not_P [OF nh] .
        show ?thesis
        proof (cases "cmd_buf_len s2 = pack_len s2")
          case True
          obtain y where y: "h (pack_len s2) s2 = Some y" using e True by (cases "h (pack_len s2) s2") auto
          show ?thesis
          proof (cases y)
            case (Inr s3)
            have "shared_ok (s3\<lparr>new_pack := True\<rparr>)" using 1(3) y ok by (auto simp: Inr)
            moreover have "loop h data (off + n) (len - n) (s3\<lparr>new_pack := True\<rparr>) = Some r" using e True y by (simp add: Inr)
            ultimately show ?thesis using go by blast
          qed (use e True y 1(5) in auto)
        next
          case False
          then show ?thesis using e go ok by auto
        qed
      qed
    qed
  qed
  then show ?thesis using assms(2-4) by blast
qed

lemma shared_ok_handle: "handle_recv_pack er pr fd bs s = Some (Inr s') \<Longrightarrow> shared_ok s \<Longrightarrow> shared_ok s'"
  unfolding handle_recv_pack_def by (erule shared_ok_recv [OF _ _ refl]) (rule shared_ok_analyze)

lemma shared_ok_serve:
  "serve_clients er pr rd fds s = Some (Inr (fds', s')) \<Longrightarrow> shared_ok s \<Longrightarrow> shared_ok s'"
proof (induction fds arbitrary: s fds' s')
  case (Cons fd fds)
  have c: "shared_ok (s\<lparr>closed := x\<rparr>) = shared_ok s" for x by (simp add: shared_ok_def nodes_ok_def queues_ok_def)
  show ?case
    using Cons.prems
    by (auto simp: Let_def bind_Inr c split: if_splits prod.splits dest!: shared_ok_handle elim!: Cons.IH)
qed simp

lemma shared_ok_round: "tcp_round er pr max_connect rd s = Some (Inr s') \<Longrightarrow> shared_ok s \<Longrightarrow> shared_ok s'"
proof -
  assume a: "tcp_round er pr max_connect rd s = Some (Inr s')" "shared_ok s"
  obtain fds s1 where r: "serve_clients er pr rd (client_fd s) s = Some (Inr (fds, s1))"
    "s' = accept_client max_connect rd (s1\<lparr>client_fd := filter (\<lambda>fd. fd \<noteq> 0) fds\<rparr>)"
    using a(1) by (auto simp: tcp_round_def bind_Inr)
  have "shared_ok (s1\<lparr>client_fd := x\<rparr>)" for x
    using shared_ok_serve [OF r(1) a(2)] by (simp add: shared_ok_def nodes_ok_def queues_ok_def)
  then show ?thesis
    unfolding r(2) by (simp add: accept_client_def shared_ok_def nodes_ok_def queues_ok_def split: option.split)
qed

section \<open>The system control thread\<close>

lemma detector_ok_roll: "detector_ok (roll_detector d) = detector_ok d"
  by (simp add: detector_ok_def roll_detector_def)

definition dets_ok :: "detector_info_list \<Rightarrow> bool" where
  "dets_ok l \<longleftrightarrow> detectors_wf l \<and> list_all detector_ok (detector_info l)"

lemma shared_ok_dets: "shared_ok s \<Longrightarrow> dets_ok (g_detector_info_list s)"
  by (simp add: shared_ok_def nodes_ok_def dets_ok_def)

lemma shared_ok_report:
  fixes s :: "'a app_st_scheme"
  assumes "keeps s t" and "shared_ok s" and "dets_ok (g_detector_info_list t)"
  shows "shared_ok t"
proof -
  have "shared_ok (s\<lparr>flash := f, log_infos := l, g_detector_info_list := d, g_work_state := w\<rparr>)" if "dets_ok d" for f l d w
    using assms(2) that by (simp add: shared_ok_def nodes_ok_def queues_ok_def dets_ok_def)
  then show ?thesis using assms(1,3) unfolding keeps_def by metis
qed

lemma dets_ok_report:
  fixes s :: "'a ws_st_scheme"
  assumes "dets_ok (g_detector_info_list s)"
  shows "dets_ok (g_detector_info_list (fold report_detector js s))"
  using assms
proof (induction js arbitrary: s)
  case (Cons j js)
  let ?l = "g_detector_info_list s"
  have "g_detector_info_list (report_detector j s) = ?l\<lparr>detector_info := (detector_info ?l)[j := roll_detector (detector_info ?l ! j)]\<rparr>"
    using report_detector_state [of s j] by fastforce
  then have "dets_ok (g_detector_info_list (report_detector j s))"
    using Cons.prems list_all_upd [of detector_ok "detector_info ?l" j "roll_detector (detector_info ?l ! j)"]
    by (simp add: dets_ok_def detectors_wf_def detector_ok_roll list_all_length)
  then show ?case using Cons.IH by simp
qed simp

lemma dets_ok_period:
  fixes s :: "'a ws_st_scheme"
  assumes "dets_ok (g_detector_info_list s)"
  shows "dets_ok (g_detector_info_list (work_state_time_period s))"
proof -
  have p: "g_detector_info_list (ws_printf fmt args t) = g_detector_info_list t" "g_detector_info_list (ws_puts x t) = g_detector_info_list t"
    for fmt args x and t :: "'a ws_st_scheme"
    by (simp add: ws_printf_def split: prod.split, intro allI impI, subst log_write_only, simp)
      (simp add: ws_puts_def, subst log_write_only, simp)
  have f: "g_detector_info_list (fold (\<lambda>(fmt, args). ws_printf fmt args) xs t) = g_detector_info_list t" for xs and t :: "'a ws_st_scheme"
    by (induction xs arbitrary: t) (simp_all add: p case_prod_unfold)
  show ?thesis
    unfolding work_state_time_period_def Let_def using assms by (simp add: dets_ok_report p f)
qed

lemma shared_ok_log: "shared_ok s \<Longrightarrow> shared_ok (add_log d s)" for s :: "'a app_st_scheme"
  by (rule shared_ok_report [OF keeps_log]) (assumption, subst add_log_only, simp add: shared_ok_dets)

lemma shared_ok_period: "shared_ok s \<Longrightarrow> shared_ok (work_state_time_period s)" for s :: "'a app_st_scheme"
  by (rule shared_ok_report [OF keeps_period]) (simp_all add: shared_ok_dets dets_ok_period)

lemma shared_ok_ctrl [simp]:
  "shared_ok (s\<lparr>timer_cnt := k\<rparr>) = shared_ok s" "shared_ok (s\<lparr>network_no_pack_time := k\<rparr>) = shared_ok s"
  "shared_ok (s\<lparr>net_state := n\<rparr>) = shared_ok s" "shared_ok (s\<lparr>net_reset_cnt := k\<rparr>) = shared_ok s"
  "shared_ok (s\<lparr>timer_sys_ctrl := b\<rparr>) = shared_ok s" "shared_ok (s\<lparr>cnt_1_sec := b\<rparr>) = shared_ok s"
  "shared_ok (s\<lparr>dog_pin := b\<rparr>) = shared_ok s" for s :: "'a ctrl_st_scheme"
  by (simp_all add: shared_ok_def nodes_ok_def queues_ok_def)

lemma shared_ok_alive: "shared_ok s \<Longrightarrow> shared_ok (snd (check_threads_alive s))" for s :: "'a app_st_scheme"
proof -
  assume ok: "shared_ok s"
  have "shared_ok (snd x) \<Longrightarrow> shared_ok (snd (fold (\<lambda>i (ret, s). if thread_soft_dogs s ! i = 0
      then (RT_ERROR, log_fmt 256 ''thread %s is dead'' [ArgStr (thread_name i)] s) else (ret, s)) js x))" for js and x :: "int \<times> 'a app_st_scheme"
    by (induction js arbitrary: x) (auto simp: log_fmt_def shared_ok_log split: prod.splits)
  from this [of "(RT_EOK, s)" "[0..<4]"] ok
  have "shared_ok (snd (fold (\<lambda>i (ret, s). if thread_soft_dogs s ! i = 0
      then (RT_ERROR, log_fmt 256 ''thread %s is dead'' [ArgStr (thread_name i)] s) else (ret, s)) [0..<4] (RT_EOK, s)))" by simp
  then show ?thesis
    by (simp add: check_threads_alive_def Let_def case_prod_unfold shared_ok_def nodes_ok_def queues_ok_def)
qed

lemma shared_ok_second: "shared_ok s \<Longrightarrow> shared_ok (snd (one_second r s))" for s :: "'a ctrl_st_scheme"
proof -
  assume ok: "shared_ok s"
  have n: "shared_ok (snd (check_network r t))" if "shared_ok t" for t :: "'a ctrl_st_scheme"
    using that by (auto simp: check_network_def Let_def intro!: shared_ok_log shared_ok_send)
  have q: "shared_ok (request_feed_soft_dogs t)" if "shared_ok t" for t :: "'a ctrl_st_scheme"
    using that by (auto simp: request_feed_soft_dogs_def intro!: shared_ok_send)
  show ?thesis
    unfolding one_second_def Let_def case_prod_unfold using ok
    by (auto intro!: shared_ok_period shared_ok_alive q n)
qed

lemma shared_ok_control: "shared_ok s \<Longrightarrow> shared_ok (thread_system_control r m s)" for s :: "'a ctrl_st_scheme"
  using shared_ok_second [of s r]
  by (cases m) (auto simp: thread_system_control_def Let_def case_prod_unfold intro!: shared_ok_log)

lemma shared_ok_callback: "shared_ok s \<Longrightarrow> shared_ok (callback_timer_sysctrl s)" for s :: "'a ctrl_st_scheme"
  by (auto simp: callback_timer_sysctrl_def feed_dog_def Let_def)

section \<open>All threads\<close>

definition sys_ok :: "wnc_sys \<Rightarrow> bool" where
  "sys_ok S \<longleftrightarrow> wnc_ok (radio_view S) \<and> led_wf (leds S)"

lemma same_outputs: "app_st.more t = app_st.more s \<Longrightarrow> radio_out t = radio_out s \<and> udp_out t = udp_out s" for s t :: udp_st
  by (cases s; cases t) simp

text \<open>A step outside the radio and UDP threads keeps their outputs; it remains to show that the shared state is in order.\<close>

lemma sys_ok_shared:
  assumes "sys_ok S" and "shared_ok a" and "led_wf l"
  shows "sys_ok (S\<lparr>shared := a, tcp_part := v, ctrl_part := c, leds := l\<rparr>)"
proof -
  let ?T = "S\<lparr>shared := a, tcp_part := v, ctrl_part := c, leds := l\<rparr>"
  have "app_st.more (radio_view ?T) = app_st.more (radio_view S)" by (simp add: radio_view_def app_st.defs)
  from same_outputs [OF this] have "radio_out (radio_view ?T) = radio_out (radio_view S)" "udp_out (radio_view ?T) = udp_out (radio_view S)"
    by simp_all
  moreover have "shared_ok (radio_view ?T)" using assms(2) by (simp add: radio_view_def)
  ultimately show ?thesis using assms by (simp add: sys_ok_def wnc_ok_shared)
qed

lemma sys_ok_parts: "sys_ok S \<Longrightarrow> shared_ok (shared S)" "sys_ok S \<Longrightarrow> led_wf (leds S)"
  by (simp_all add: sys_ok_def wnc_ok_shared radio_view_def)

lemma sys_ok_step: "sys_step erase prog max_connect S S' \<Longrightarrow> sys_ok S \<Longrightarrow> sys_ok S'"
proof (induction rule: sys_step.induct)
  case (radio S s)
  have "app_st.extend (app_st.truncate s) (app_st.more s) = s" by (cases s) (simp add: app_st.defs)
  then show ?case using radio ok_step [OF radio.hyps] by (simp add: sys_ok_def set_radio_def radio_view_def)
next
  case (tcp rd S s)
  have "shared_ok (tcp_view S)" using sys_ok_parts(1) [OF tcp.prems] by (simp add: tcp_view_def)
  from shared_ok_round [OF tcp.hyps this] have "shared_ok (app_st.truncate s)" by simp
  from sys_ok_shared [OF tcp.prems this sys_ok_parts(2) [OF tcp.prems], where v = "app_st.more s" and c = "ctrl_part S"]
  show ?case by (simp add: set_tcp_def)
next
  case (ctrl S m q restart_ok)
  have "shared_ok ((ctrl_view S)\<lparr>mq_sys_ctrl := q\<rparr>)"
    using sys_ok_parts(1) [OF ctrl.prems] ctrl.hyps
    by (auto simp: ctrl_view_def shared_ok_def nodes_ok_def queues_ok_def app_st.defs)
  from shared_ok_control [OF this, of restart_ok m]
  have "shared_ok (app_st.truncate (thread_system_control restart_ok m ((ctrl_view S)\<lparr>mq_sys_ctrl := q\<rparr>)))" by simp
  from sys_ok_shared [OF ctrl.prems this sys_ok_parts(2) [OF ctrl.prems], where v = "tcp_part S" and
      c = "app_st.more (thread_system_control restart_ok m ((ctrl_view S)\<lparr>mq_sys_ctrl := q\<rparr>))"]
  show ?case by (simp add: set_ctrl_def)
next
  case (ctrl_timer S)
  have "shared_ok (ctrl_view S)" using sys_ok_parts(1) [OF ctrl_timer.prems] by (simp add: ctrl_view_def)
  from shared_ok_callback [OF this] have "shared_ok (app_st.truncate (callback_timer_sysctrl (ctrl_view S)))" by simp
  from sys_ok_shared [OF ctrl_timer.prems this sys_ok_parts(2) [OF ctrl_timer.prems], where v = "tcp_part S" and
      c = "app_st.more (callback_timer_sysctrl (ctrl_view S))"]
  show ?case by (simp add: set_ctrl_def)
next
  case (led S m q)
  have "shared_ok ((shared S)\<lparr>mq_led := q\<rparr>)"
    using sys_ok_parts(1) [OF led.prems] led.hyps by (auto simp: shared_ok_def nodes_ok_def queues_ok_def)
  from sys_ok_shared [OF led.prems this led_wf_steps(1) [OF sys_ok_parts(2) [OF led.prems], of m], where v = "tcp_part S" and c = "ctrl_part S"]
  show ?case by simp
next
  case (led_interrupt S)
  have "shared_ok (led_interrupt (shared S))" using sys_ok_parts(1) [OF led_interrupt.prems] by (rule shared_ok_send(5))
  from sys_ok_shared [OF led_interrupt.prems this sys_ok_parts(2) [OF led_interrupt.prems], where v = "tcp_part S" and c = "ctrl_part S"]
  show ?case by simp
next
  case (led_timer S)
  from sys_ok_shared [OF led_timer.prems sys_ok_parts(1) [OF led_timer.prems] led_wf_steps(2) [OF sys_ok_parts(2) [OF led_timer.prems]],
      where v = "tcp_part S" and c = "ctrl_part S"]
  show ?case by simp
qed

lemma sys_ok_reachable: "(sys_step erase prog max_connect)\<^sup>*\<^sup>* S S' \<Longrightarrow> sys_ok S \<Longrightarrow> sys_ok S'"
  by (induction rule: rtranclp_induct) (auto intro: sys_ok_step)

end
