(* ===== verification/Start_Up.thy ===== *)
theory Start_Up
  imports Wnc_System
begin

text \<open>
  The start of the device, \<open>applications/application.c\<close>: the parameters, the lists and the log files are read from
  the two flash memories, the start is logged, a new firmware is confirmed, the radio is configured, and the queues are
  created before the threads run. No result (\<open>None\<close>) means that the start does not end: it stops at an assertion, because the
  flash device or the bus of the clock is missing, or waits for the watchdog, because the radio does not start. The outcomes of \<open>rt_device_find\<close> and \<open>lgw_start\<close> are
  arguments, as are the functions of the flash controller; \<open>feed_dog\<close>, the registration of the Ethernet device and
  the creation of mutexes and threads have no effect on this state.
\<close>

section \<open>Operations\<close>

definition zero_new_list :: new_node_list where
  "zero_new_list = \<lparr>n_num = 0, n_node = replicate MAX_NODE_WHOLE_PARKING_LOT
     \<lparr>n_id = 0, n_device_type = 0, n_rssi = 0, n_snr = 0, n_time_left = 0\<rparr>\<rparr>"

text \<open>The first component is the global \<open>is_dhcp_enable\<close>.\<close>

definition user_params_init :: "fmc_erase \<Rightarrow> fmc_program \<Rightarrow> 'a ft_st_scheme \<Rightarrow> bool \<times> 'a ft_st_scheme" where
  "user_params_init erase prog s =
     (let s1 = get_device_params s;
          mac = eth_mac (wnc_device s1);
          s2 = (if mac ! 0 \<noteq> 0x00 \<or> mac ! 1 \<noteq> 0x1e \<or> mac ! 2 \<noteq> 0x38 then fst (init_device_param erase prog s1) else s1);
          s3 = get_wnc_config s2;
          s4 = init_parking_lists (file_operate_reset s3)
      in (net_mode (net_config (g_wnc_config s3)) = DHCP_MODE,
          s4\<lparr>g_new_node_list := zero_new_list, g_config_node_list := zero_config_list\<rparr>))"

definition thread_init :: "fmc_erase \<Rightarrow> fmc_program \<Rightarrow> bool \<Rightarrow> bool \<Rightarrow> int \<Rightarrow> 'a app_st_scheme \<Rightarrow> (bool \<times> lgw_call list \<times> 'a app_st_scheme) option" where
  "thread_init erase prog flash_found rtc_found lgw_start s =
     (if \<not> flash_found then None
      else case user_params_init erase prog s of (is_dhcp, s1) \<Rightarrow>
        (case pcf8563_init rtc_found s1 of
           None \<Rightarrow> None
         | Some (s2, _) \<Rightarrow>
             let s3 = add_log ''power on'' (logs_init s2);
                 s4 = upgrade_confirm (work_state_power_on s3)
             in case start_lora_module lgw_start s4 of (ret, calls, s5) \<Rightarrow>
                  if ret \<noteq> 0 then None
                  else Some (is_dhcp, calls, s5\<lparr>mq_sys_ctrl := [], mq_led := [], mq_lora_send := [], mq_data_proc := []\<rparr>)))"

text \<open>The variables of the threads at power on: the static variables are zero or have their initial values, nothing has been sent yet.\<close>

definition power_on :: "udp_st \<Rightarrow> udp_st" where
  "power_on s = s\<lparr>thread_soft_dogs := replicate 4 0, working_mode := \<lparr>m_fd = 0, m_pack_sn = 1, m_mode = MODE_NORMAL\<rparr>,
     lora_tcp_buf := replicate 1024 0, light_index := 0, tcp_out := [], in_test := False, reg_tx_mode := 0, radio_out := [],
     send_all := False, udp_out := []\<rparr>"

section \<open>What the start-up leaves alone\<close>

definition ram :: "'a ft_st_scheme \<Rightarrow> device_params_t \<times> wnc_cfg_t \<times> detector_info_list \<times> relation_list \<times> light_info_list \<times>
    new_node_list \<times> config_node_list \<times> 'a" where
  "ram s = (wnc_device s, g_wnc_config s, g_detector_info_list s, g_relation_list s, g_light_info_list s, g_new_node_list s,
     g_config_node_list s, ft_st.more s)"

lemma ram_flash: "ram (s\<lparr>flash := m, log_infos := i\<rparr>) = ram s" "ram (s\<lparr>flash := m\<rparr>) = ram s"
  by (simp_all add: ram_def)

lemma ram_log_write: "ram (log_write buf type s) = ram s"
  by (subst log_write_only) (rule ram_flash)

lemma ram_add_log: "ram (add_log d s) = ram s"
  by (subst add_log_only) (rule ram_flash)

lemma ram_logs_init: "ram (logs_init s) = ram s"
proof -
  have "ram (upd_info type f s) = ram s" for type f and s :: "'a ft_st_scheme" by (simp add: ram_def upd_info_def)
  then have "ram (perpare_write_info type s) = ram s" for type and s :: "'a ft_st_scheme"
    by (simp add: perpare_write_info_def Let_def split: prod.split)
  then show ?thesis by (simp add: logs_init_def) (simp add: ram_def)
qed

lemma ram_work_state: "ram (work_state_power_on s) = ram s"
proof -
  have "ram (fold (\<lambda>(fmt, args). ws_printf fmt args) xs t) = ram t" for xs and t :: "'a ft_st_scheme"
    by (induction xs arbitrary: t) (auto simp: ws_printf_def ram_log_write split: prod.split)
  then show ?thesis by (simp add: work_state_power_on_def Let_def) (simp add: ram_def)
qed

lemma ram_copy_loop: "ram (copy_loop rd wt n s) = ram s"
proof (induction rd wt n s rule: copy_loop.induct)
  case (1 rd wt n s)
  then show ?case by (subst copy_loop.simps) (simp add: ext_write_def ram_flash Let_def)
qed

lemma ram_upgrade: "ram (upgrade_confirm s) = ram s"
  by (simp add: upgrade_confirm_def Let_def ram_add_log rewrite_sector_only ram_flash erase_blocks_only ram_copy_loop)

section \<open>The parameters\<close>

lemma device_loaded:
  fixes s :: "'a ft_st_scheme"
  assumes "s2 = (let s1 = get_device_params s; mac = eth_mac (wnc_device s1)
    in if mac ! 0 \<noteq> 0x00 \<or> mac ! 1 \<noteq> 0x1e \<or> mac ! 2 \<noteq> 0x38 then fst (init_device_param erase prog s1) else s1)"
  shows "length (eth_mac (wnc_device s2)) = 6 \<and> take 3 (eth_mac (wnc_device s2)) = [0x00, 0x1e, 0x38] \<and> ft_st.more s2 = ft_st.more s"
proof -
  define s1 where "s1 = get_device_params s"
  have l: "length (eth_mac (wnc_device s1)) = 6" and m: "ft_st.more s1 = ft_st.more s"
    by (simp_all add: s1_def get_device_params_def params_of_def Let_def)
  have t: "take 3 xs = [xs ! 0, xs ! 1, xs ! 2]" if "length xs = 6" for xs :: "byte list"
    using that by (simp add: numeral_3_eq_3 numeral_2_eq_2 take_Suc_conv_app_nth)
  show ?thesis
  proof (cases "eth_mac (wnc_device s1) ! 0 \<noteq> 0x00 \<or> eth_mac (wnc_device s1) ! 1 \<noteq> 0x1e \<or> eth_mac (wnc_device s1) ! 2 \<noteq> 0x38")
    case True
    have "wnc_device (fst (init_device_param erase prog s1)) = default_params" "ft_st.more (fst (init_device_param erase prog s1)) = ft_st.more s1"
      by (simp_all add: init_device_param_def save_device_params_def Let_def split: prod.split)
    moreover have "s2 = fst (init_device_param erase prog s1)" using True unfolding assms s1_def [symmetric] Let_def by (rule if_P)
    ultimately show ?thesis using m by (simp add: default_params_def)
  next
    case False
    then have "s2 = s1" unfolding assms s1_def [symmetric] Let_def by (rule if_not_P)
    then show ?thesis using False l m t [OF l] by simp
  qed
qed

lemma config_loaded:
  fixes s :: "'a ft_st_scheme"
  shows "wnc_device (get_wnc_config s) = wnc_device s" "ft_st.more (get_wnc_config s) = ft_st.more s"
  by (simp_all add: get_wnc_config_def init_wnc_config_def user_init_def store_cfg_def rewrite_sector_def ext_write_def ext_sct_erase_def
      ext_blk_erase_def Let_def)

lemma user_params_loaded:
  fixes s :: "'a ft_st_scheme"
  assumes "user_params_init erase prog s = (dhcp, s')"
  shows "lists_wf s' \<and> list_all detector_ok (detector_info (g_detector_info_list s')) \<and> new_nodes_ok (g_new_node_list s') \<and>
    length (eth_mac (wnc_device s')) = 6 \<and> take 3 (eth_mac (wnc_device s')) = [0x00, 0x1e, 0x38] \<and>
    check_wnc_config (g_wnc_config s') = 0 \<and> dhcp = (net_mode (net_config (g_wnc_config s')) = DHCP_MODE) \<and> ft_st.more s' = ft_st.more s"
proof -
  define s2 where "s2 = (let s1 = get_device_params s; mac = eth_mac (wnc_device s1)
    in if mac ! 0 \<noteq> 0x00 \<or> mac ! 1 \<noteq> 0x1e \<or> mac ! 2 \<noteq> 0x38 then fst (init_device_param erase prog s1) else s1)"
  define s3 where "s3 = get_wnc_config s2"
  define s4 where "s4 = init_parking_lists (file_operate_reset s3)"
  have s': "s' = s4\<lparr>g_new_node_list := zero_new_list, g_config_node_list := zero_config_list\<rparr>"
    and d: "dhcp = (net_mode (net_config (g_wnc_config s3)) = DHCP_MODE)"
    using assms by (simp_all add: user_params_init_def Let_def s2_def s3_def s4_def)
  note dev = device_loaded [OF s2_def]
  have r: "wnc_device s4 = wnc_device s3" "g_wnc_config s4 = g_wnc_config s3" "ft_st.more s4 = ft_st.more s3"
    unfolding s4_def by (subst init_parking_lists_only, simp add: file_operate_reset_def)+
  have n: "new_nodes_ok zero_new_list" "new_nodes_wf zero_new_list" by (simp_all add: zero_new_list_def new_nodes_ok_def new_nodes_wf_def)
  have "detectors_wf (g_detector_info_list s4) \<and> relations_wf (g_relation_list s4) \<and> lights_wf (g_light_info_list s4)"
    unfolding s4_def by (rule parking_lists_wf)
  then have "lists_wf s'" using n(2) by (simp add: s' lists_wf_def)
  moreover have "list_all detector_ok (detector_info (g_detector_info_list s'))" using loaded_detectors_ok by (simp add: s' s4_def)
  ultimately show ?thesis using dev r n(1) d loaded_config_ok [of s2] config_loaded [of s2] by (simp add: s' s3_def)
qed

section \<open>The start as a whole\<close>

lemma thread_init_result:
  fixes s :: "'a app_st_scheme"
  assumes "thread_init erase prog flash_found rtc_found lgw_start s = Some (dhcp, calls, s')"
  shows "lists_wf s' \<and> list_all detector_ok (detector_info (g_detector_info_list s')) \<and> new_nodes_ok (g_new_node_list s') \<and>
    length (eth_mac (wnc_device s')) = 6 \<and> take 3 (eth_mac (wnc_device s')) = [0x00, 0x1e, 0x38] \<and>
    check_wnc_config (g_wnc_config s') = 0 \<and> dhcp = (net_mode (net_config (g_wnc_config s')) = DHCP_MODE) \<and>
    base_freq s' = rf_freq (lora_config (g_wnc_config s')) \<and>
    app_st.more s' = app_st.more s \<and> thread_soft_dogs s' = thread_soft_dogs s \<and> lora_tcp_buf s' = lora_tcp_buf s \<and>
    light_index s' = light_index s \<and> stack_pkt s' = stack_pkt s \<and>
    mq_sys_ctrl s' = [] \<and> mq_led s' = [] \<and> mq_lora_send s' = [] \<and> mq_data_proc s' = []"
proof -
  obtain d s1 where p: "user_params_init erase prog s = (d, s1)" by (cases "user_params_init erase prog s")
  define t where "t = upgrade_confirm (work_state_power_on (add_log ''power on'' (logs_init (s1\<lparr>dev_rtc := True\<rparr>))))"
  have ff: "flash_found" "rtc_found" using assms by (auto simp: thread_init_def p pcf8563_init_def split: if_splits)
  have e: "dhcp = d" "s' = t\<lparr>base_freq := rf_freq (lora_config (g_wnc_config t)), base_powr := rf_power (lora_config (g_wnc_config t)),
      mq_sys_ctrl := [], mq_led := [], mq_lora_send := [], mq_data_proc := []\<rparr>"
    using assms by (auto simp: thread_init_def p ff pcf8563_init_def start_lora_module_def parse_module_config_def Let_def
        t_def split: if_splits)
  have "ram (s1\<lparr>dev_rtc := True\<rparr>) = ram s1" by (simp add: ram_def)
  then have r: "ram t = ram s1" unfolding t_def by (simp only: ram_upgrade ram_work_state ram_add_log ram_logs_init)
  have "ft_st.more t = ft_st.more s" using r user_params_loaded [OF p] by (simp add: ram_def)
  then have "app_st.more t = app_st.more s" "thread_soft_dogs t = thread_soft_dogs s" "lora_tcp_buf t = lora_tcp_buf s"
      "light_index t = light_index s" "stack_pkt t = stack_pkt s"
    by (cases s; cases t; simp)+
  then show ?thesis using user_params_loaded [OF p] r e by (simp add: ram_def lists_wf_def)
qed

lemma thread_init_ends:
  assumes "flash_found" and "rtc_found" and "lgw_start = 0"
  shows "\<exists>dhcp calls s1. thread_init erase prog flash_found rtc_found lgw_start s = Some (dhcp, calls, s1)"
proof -
  have l: "\<exists>calls t'. start_lora_module lgw_start t = (0, calls, t')" for t :: "'a app_st_scheme"
    using assms(3) by (simp add: start_lora_module_def parse_module_config_def Let_def)
  obtain d s1 where p: "user_params_init erase prog s = (d, s1)" by (cases "user_params_init erase prog s")
  obtain calls t' where "start_lora_module lgw_start
      (upgrade_confirm (work_state_power_on (add_log ''power on'' (logs_init (s1\<lparr>dev_rtc := True\<rparr>))))) = (0, calls, t')"
    using l by blast
  then show ?thesis using assms(1,2) by (simp add: thread_init_def p pcf8563_init_def)
qed

text \<open>The system when the threads start: the shared state and the radio part are those the start left; the other
  threads have any values in their own variables.\<close>

definition started :: "udp_st \<Rightarrow> unit server_st_ext tcp_st_ext \<Rightarrow> unit ctrl_st_ext \<Rightarrow> led_st \<Rightarrow> wnc_sys" where
  "started s v c l = \<lparr>shared = app_st.truncate s, radio_part = app_st.more s, tcp_part = v, ctrl_part = c, leds = l\<rparr>"

text \<open>C1: from power on. When the flash device and the bus of the clock are found and the radio starts, the start ends, whatever
  the two flash memories contain (only the size of the packet buffer on the stack is assumed): the device then has a MAC
  address of the manufacturer, a configuration that passes its check, and the radio works on the frequency of that
  configuration. In every state that any sequence of complete turns of the radio, data process, UDP, TCP server, system
  control and LED threads, timer callbacks and LED interrupts then reaches, each turn being one step: the detector, light,
  relation, new node and configuration lists are within their arrays, no node is recorded twice as new, the ring buffers of
  the detectors and the LED rows are within their bounds, no queue holds more than ten messages, every packet in the sending
  queue and every one given to the radio has twelve bytes and a correct checksum (the zero packets of the
  transmission test excepted), and every datagram sent has the length its node count states and a correct check byte.
  A turn that hangs or faults has no successor.\<close>

theorem start_up_invariant:
  assumes "length (p_payload (stack_pkt s)) = 32" and "flash_found" and "rtc_found" and "lgw_start = 0" and "led_wf l"
  shows "\<exists>dhcp calls s1. thread_init erase prog flash_found rtc_found lgw_start (power_on s) = Some (dhcp, calls, s1) \<and>
    take 3 (eth_mac (wnc_device s1)) = [0x00, 0x1e, 0x38] \<and> check_wnc_config (g_wnc_config s1) = 0 \<and>
    dhcp = (net_mode (net_config (g_wnc_config s1)) = DHCP_MODE) \<and> base_freq s1 = rf_freq (lora_config (g_wnc_config s1)) \<and>
    (\<forall>S. (sys_step erase prog max_connect)\<^sup>*\<^sup>* (started s1 v c l) S \<longrightarrow> sys_ok S)"
proof -
  obtain dhcp calls s1 where i: "thread_init erase prog flash_found rtc_found lgw_start (power_on s) = Some (dhcp, calls, s1)"
    using thread_init_ends assms(2-4) by metis
  note r = thread_init_result [OF i]
  have "radio_out s1 = []" "udp_out s1 = []" "thread_soft_dogs s1 = replicate 4 0" "lora_tcp_buf s1 = replicate 1024 0"
    "light_index s1 = 0" "stack_pkt s1 = stack_pkt s"
    using r by (cases s; cases s1; simp add: power_on_def)+
  then have "wnc_ok s1" using r assms(1) by (simp add: wnc_ok_def app_wf_def lists_wf_def)
  moreover have "radio_view (started s1 v c l) = s1" by (cases s1) (simp add: radio_view_def started_def app_st.defs)
  ultimately have "sys_ok (started s1 v c l)" using assms(5) by (simp add: sys_ok_def started_def)
  then show ?thesis using i r sys_ok_reachable by (intro exI [of _ dhcp] exI [of _ calls] exI [of _ s1]) blast
qed

theorem start_up_invariant_witness:
  "\<exists>dhcp calls s1 S. thread_init ideal_erase ideal_prog True True 0 (power_on demo_udp) = Some (dhcp, calls, s1) \<and>
     (sys_step ideal_erase ideal_prog 2)\<^sup>*\<^sup>* (started s1 (app_st.more demo_server) (app_st.more demo_ctrl)
       (led_init \<lparr>dot_buf = replicate 8 0, led_row = 0, rows_on = [], columns_on = [], direction = False, line_num = 0,
         test_value = 0x80, test_mode = False, test_timer = False\<rparr>)) S \<and>
     mq_led (shared S) = [MSG_LED_REFRESH] \<and> sys_ok S"
proof -
  let ?l = "led_init \<lparr>dot_buf = replicate 8 0, led_row = 0, rows_on = [], columns_on = [], direction = False, line_num = 0,
    test_value = 0x80, test_mode = False, test_timer = False\<rparr>"
  let ?v = "app_st.more demo_server" and ?c = "app_st.more demo_ctrl"
  have "length (p_payload (stack_pkt demo_udp)) = 32" using demo_udp_ok by (simp add: wnc_ok_def app_wf_def)
  moreover have "led_wf ?l" by (simp add: led_wf_def led_init_def)
  ultimately obtain dhcp calls s1 where i: "thread_init ideal_erase ideal_prog True True 0 (power_on demo_udp) = Some (dhcp, calls, s1)"
    and ok: "\<And>S. (sys_step ideal_erase ideal_prog 2)\<^sup>*\<^sup>* (started s1 ?v ?c ?l) S \<Longrightarrow> sys_ok S"
    using start_up_invariant [of demo_udp True True 0 ?l ideal_erase ideal_prog 2 ?v ?c] by auto
  let ?S = "(started s1 ?v ?c ?l)\<lparr>shared := led_interrupt (shared (started s1 ?v ?c ?l))\<rparr>"
  have r: "(sys_step ideal_erase ideal_prog 2)\<^sup>*\<^sup>* (started s1 ?v ?c ?l) ?S" by (intro r_into_rtranclp sys_step.led_interrupt)
  have "mq_led s1 = []" using thread_init_result [OF i] by simp
  then have "mq_led (shared ?S) = [MSG_LED_REFRESH]" by (simp add: started_def led_interrupt_def mq_put_def app_st.defs)
  then show ?thesis using i r ok [OF r] by blast
qed

end
