(* ===== verification/Rt_List.thy ===== *)
theory Rt_List
  imports Main
begin

text \<open>
  The doubly linked lists of \<open>rt-thread/include/rtservice.h\<close>, on which the kernel keeps its timers,
  its ready threads and the threads waiting for an object. A list is a ring of nodes through a head;
  an unlinked node is a ring of its own (\<open>circular\<close>). The pointers of all nodes form one store, so that taking a
  node out of whichever list holds it, and inserting a node that is still linked, mean here what they
  mean in the code. \<open>reps\<close> says which sequence of nodes each head stands for.
\<close>

section \<open>The operations\<close>

record 'n links =
  list_next :: "'n \<Rightarrow> 'n"
  list_prev :: "'n \<Rightarrow> 'n"

definition set_next :: "'n \<Rightarrow> 'n \<Rightarrow> 'n links \<Rightarrow> 'n links" where
  "set_next a b h = h\<lparr>list_next := (list_next h)(a := b)\<rparr>"

definition set_prev :: "'n \<Rightarrow> 'n \<Rightarrow> 'n links \<Rightarrow> 'n links" where
  "set_prev a b h = h\<lparr>list_prev := (list_prev h)(a := b)\<rparr>"

definition rt_list_init :: "'n \<Rightarrow> 'n links \<Rightarrow> 'n links" where
  "rt_list_init l h = set_next l l (set_prev l l h)"

definition rt_list_insert_after :: "'n \<Rightarrow> 'n \<Rightarrow> 'n links \<Rightarrow> 'n links" where
  "rt_list_insert_after l n h =
     (let h1 = set_prev (list_next h l) n h;
          h2 = set_next n (list_next h1 l) h1;
          h3 = set_next l n h2
      in set_prev n l h3)"

definition rt_list_insert_before :: "'n \<Rightarrow> 'n \<Rightarrow> 'n links \<Rightarrow> 'n links" where
  "rt_list_insert_before l n h =
     (let h1 = set_next (list_prev h l) n h;
          h2 = set_prev n (list_prev h1 l) h1;
          h3 = set_prev l n h2
      in set_next n l h3)"

definition rt_list_remove :: "'n \<Rightarrow> 'n links \<Rightarrow> 'n links" where
  "rt_list_remove n h =
     (let h1 = set_prev (list_next h n) (list_prev h n) h;
          h2 = set_next (list_prev h1 n) (list_next h1 n) h1;
          h3 = set_prev n n h2
      in set_next n n h3)"

definition rt_list_isempty :: "'n \<Rightarrow> 'n links \<Rightarrow> bool" where
  "rt_list_isempty l h \<longleftrightarrow> list_next h l = l"

section \<open>Rings\<close>

text \<open>The nodes \<open>xs\<close> lie between \<open>a\<close> and \<open>b\<close>, linked in both directions.\<close>

fun path :: "'n links \<Rightarrow> 'n \<Rightarrow> 'n list \<Rightarrow> 'n \<Rightarrow> bool" where
  "path h a [] b \<longleftrightarrow> list_next h a = b \<and> list_prev h b = a"
| "path h a (x # xs) b \<longleftrightarrow> list_next h a = x \<and> list_prev h x = a \<and> path h x xs b"

definition circular :: "'n links \<Rightarrow> 'n \<Rightarrow> 'n list \<Rightarrow> bool" where
  "circular h l xs \<longleftrightarrow> distinct (l # xs) \<and> path h l xs l"

named_theorems link_simps \<open>reading the links after an operation\<close>

lemma links_simps [link_simps]:
  "list_next (set_next a b h) = (list_next h)(a := b)" "list_prev (set_next a b h) = list_prev h"
  "list_prev (set_prev a b h) = (list_prev h)(a := b)" "list_next (set_prev a b h) = list_next h"
  by (simp_all add: set_next_def set_prev_def)

lemma path_append: "path h a (xs @ y # ys) b \<longleftrightarrow> path h a xs y \<and> path h y ys b"
  by (induction xs arbitrary: a) auto

lemma path_cong:
  assumes "\<And>x. x \<in> insert a (set xs) \<Longrightarrow> list_next h' x = list_next h x"
    and "\<And>x. x \<in> insert b (set xs) \<Longrightarrow> list_prev h' x = list_prev h x"
  shows "path h' a xs b = path h a xs b"
  using assms by (induction xs arbitrary: a) auto

lemma circular_cong:
  assumes "\<And>x. x \<in> insert l (set xs) \<Longrightarrow> list_next h' x = list_next h x \<and> list_prev h' x = list_prev h x"
  shows "circular h' l xs = circular h l xs"
  using path_cong [of l xs h' h l] assms by (auto simp: circular_def)

text \<open>Every node of a ring points to nodes of the ring: what an operation on it can touch.\<close>

lemma path_closed:
  "path h a xs b \<Longrightarrow> x \<in> insert a (set xs) \<Longrightarrow> list_next h x \<in> insert b (set xs)"
  "path h a xs b \<Longrightarrow> x \<in> insert b (set xs) \<Longrightarrow> list_prev h x \<in> insert a (set xs)"
  by (induction xs arbitrary: a) auto

lemma circular_closed:
  assumes "circular h l xs" "x \<in> insert l (set xs)"
  shows "list_next h x \<in> insert l (set xs)" "list_prev h x \<in> insert l (set xs)"
  using assms path_closed [of h l xs l x] by (auto simp: circular_def)

lemma circular_Nil: "circular h l [] \<longleftrightarrow> list_next h l = l \<and> list_prev h l = l"
  by (simp add: circular_def)

lemma circular_next: "circular h l xs \<Longrightarrow> list_next h l = hd (xs @ [l])"
  by (cases xs) (auto simp: circular_def)

lemma circular_prev: "circular h l xs \<Longrightarrow> list_prev h l = last (l # xs)"
  by (cases xs rule: rev_cases) (auto simp: circular_def path_append)

text \<open>The successor of a node in the ring.\<close>

lemma circular_next_nth:
  assumes "circular h l (xs @ ys)"
  shows "list_next h (last (l # xs)) = hd (ys @ [l])"
proof (cases xs rule: rev_cases)
  case Nil
  then show ?thesis using assms circular_next by fastforce
next
  case (snoc zs z)
  with assms show ?thesis by (cases ys) (auto simp: circular_def path_append)
qed

lemma circular_prev_nth:
  assumes "circular h l (xs @ ys)"
  shows "list_prev h (hd (ys @ [l])) = last (l # xs)"
proof (cases ys)
  case Nil
  then show ?thesis using assms circular_prev [of h l xs] by simp
next
  case (Cons y zs)
  then show ?thesis using assms by (cases xs rule: rev_cases) (auto simp: circular_def path_append)
qed

lemma circular_insert_after:
  assumes "circular h l (xs @ ys)" "n \<notin> insert l (set (xs @ ys))"
  shows "circular (rt_list_insert_after (last (l # xs)) n h) l (xs @ n # ys)"
proof -
  define p where "p = last (l # xs)"
  define h' where "h' = rt_list_insert_after p n h"
  have p: "p \<in> insert l (set xs)" unfolding p_def by (metis last_in_set list.distinct(1) list.set(2))
  have d: "distinct (l # xs @ n # ys)" using assms by (auto simp: circular_def)
  then have pn: "p \<noteq> n" "p \<notin> set ys" using p by auto
  have nx: "list_next h' = (list_next h)(n := hd (ys @ [l]), p := n)"
    and pv: "list_prev h' = (list_prev h)(hd (ys @ [l]) := n, n := p)"
    using circular_next_nth [OF assms(1), folded p_def]
    by (simp_all add: h'_def rt_list_insert_after_def Let_def links_simps)
  have tail: "path h' p (n # ys) l" if "path h p ys l"
  proof (cases ys)
    case Nil
    then show ?thesis using pn d by (auto simp: nx pv)
  next
    case (Cons y zs)
    then have "path h' y zs l = path h y zs l" using d pn by (intro path_cong) (auto simp: nx pv)
    then show ?thesis using that Cons d pn by (auto simp: nx pv)
  qed
  have "circular h' l (xs @ n # ys)"
  proof (cases xs rule: rev_cases)
    case Nil
    then show ?thesis using assms(1) tail d by (auto simp: circular_def p_def)
  next
    case (snoc zs z)
    then have "path h l zs z" "path h p ys l" "p = z"
      using assms(1) by (auto simp: circular_def path_append p_def)
    moreover have "path h' l zs z = path h l zs z"
      using d snoc \<open>p = z\<close> by (intro path_cong) (auto simp: nx pv hd_append)
    ultimately show ?thesis using tail d snoc by (auto simp: circular_def path_append)
  qed
  then show ?thesis by (simp add: h'_def p_def)
qed

lemma insert_before_after:
  assumes "list_next h (list_prev h l) = l" "n \<noteq> list_prev h l" "n \<noteq> l"
  shows "rt_list_insert_before l n h = rt_list_insert_after (list_prev h l) n h"
  using assms by (auto simp: rt_list_insert_after_def rt_list_insert_before_def Let_def set_next_def
      set_prev_def fun_upd_twist)

lemma circular_insert_before:
  assumes "circular h l xs" "n \<notin> insert l (set xs)"
  shows "circular (rt_list_insert_before l n h) l (xs @ [n])"
    and "rt_list_insert_before l n h = rt_list_insert_after (last (l # xs)) n h"
proof -
  have p: "list_prev h l = last (l # xs)" using circular_prev [OF assms(1)] .
  have "list_next h (last (l # xs)) = l" using circular_next_nth [of h l xs "[]"] assms(1) by simp
  moreover have "n \<noteq> last (l # xs)" "n \<noteq> l" using assms(2) by (auto split: if_splits)
  ultimately show eq: "rt_list_insert_before l n h = rt_list_insert_after (last (l # xs)) n h"
    using insert_before_after [of h l n] by (simp add: p)
  show "circular (rt_list_insert_before l n h) l (xs @ [n])"
    unfolding eq using circular_insert_after [of h l xs "[]" n] assms by simp
qed

lemma circular_remove:
  assumes "circular h l (xs @ n # ys)"
  shows "circular (rt_list_remove n h) l (xs @ ys)" "circular (rt_list_remove n h) n []"
proof -
  let ?h = "rt_list_remove n h" and ?q = "hd (ys @ [l])"
  define p where "p = last (l # xs)"
  have p: "p \<in> insert l (set xs)" unfolding p_def by (metis last_in_set list.distinct(1) list.set(2))
  have d: "distinct (l # xs @ n # ys)" using assms by (auto simp: circular_def)
  then have nn: "p \<noteq> n" "?q \<noteq> n" "p \<notin> set ys" using p by (auto simp: hd_append)
  have next_n: "list_next h n = ?q" using circular_next_nth [of h l "xs @ [n]" ys] assms by simp
  have prev_n: "list_prev h n = p"
    using assms by (cases xs rule: rev_cases) (auto simp: circular_def path_append p_def)
  have nx: "list_next ?h = (list_next h)(p := ?q, n := n)"
    and pv: "list_prev ?h = (list_prev h)(?q := p, n := n)"
    using nn by (auto simp: rt_list_remove_def Let_def links_simps next_n prev_n)
  show "circular ?h n []" by (simp add: circular_Nil nx pv)
  have tail: "path ?h p ys l" if "path h n ys l"
  proof (cases ys)
    case Nil
    then show ?thesis using d nn by (auto simp: nx pv)
  next
    case (Cons y zs)
    then have "path ?h y zs l = path h y zs l" using d nn by (intro path_cong) (auto simp: nx pv)
    then show ?thesis using that Cons d nn by (auto simp: nx pv)
  qed
  show "circular ?h l (xs @ ys)"
  proof (cases xs rule: rev_cases)
    case Nil
    then show ?thesis using assms tail d by (auto simp: circular_def p_def)
  next
    case (snoc zs z)
    then have *: "path h l zs z" "path h n ys l" "p = z"
      using assms by (auto simp: circular_def path_append p_def)
    moreover have "path ?h l zs z = path h l zs z"
      using d snoc \<open>p = z\<close> by (intro path_cong) (auto simp: nx pv hd_append)
    ultimately have "path ?h l (zs @ z # ys) l" using tail by (simp add: path_append)
    then show ?thesis using d snoc by (auto simp: circular_def)
  qed
qed

lemma remove_unlinked: "circular h n [] \<Longrightarrow> rt_list_remove n h = h"
  by (simp add: circular_Nil rt_list_remove_def Let_def links_simps set_next_def set_prev_def fun_upd_idem)

section \<open>A store of lists\<close>

text \<open>
  The heads \<open>H\<close> stand for the sequences \<open>L\<close> of nodes out of \<open>N\<close>; no node is in two lists, and a node
  in none of them is unlinked.
\<close>

definition reps :: "'n set \<Rightarrow> 'n set \<Rightarrow> 'n links \<Rightarrow> ('n \<Rightarrow> 'n list) \<Rightarrow> bool" where
  "reps H N h L \<longleftrightarrow>
     H \<inter> N = {} \<and>
     (\<forall>l\<in>H. circular h l (L l) \<and> set (L l) \<subseteq> N) \<and>
     (\<forall>l\<in>H. \<forall>m\<in>H. l \<noteq> m \<longrightarrow> set (L l) \<inter> set (L m) = {}) \<and>
     (\<forall>n\<in>N. (\<forall>l\<in>H. n \<notin> set (L l)) \<longrightarrow> circular h n [])"

lemma repsD:
  assumes "reps H N h L" "l \<in> H"
  shows "circular h l (L l)" "set (L l) \<subseteq> N" "distinct (L l)" "l \<notin> N"
  using assms by (auto simp: reps_def circular_def)

lemma reps_one:
  assumes "reps H N h L" "l \<in> H" "m \<in> H" "x \<in> set (L l)"
  shows "x \<in> set (L m) \<Longrightarrow> l = m" "x \<notin> H" "x \<in> N"
  using assms unfolding reps_def by blast+

lemma reps_apart:
  assumes "reps H N h L" "l \<in> H" "m \<in> H" "m \<noteq> l"
  shows "insert m (set (L m)) \<inter> insert l (set (L l)) = {}"
  using assms(4) reps_one [OF assms(1-3)] reps_one [OF assms(1,3,2)] assms(2,3) by blast

lemma reps_unlinked:
  assumes "reps H N h L" "n \<in> N" "\<forall>l\<in>H. n \<notin> set (L l)"
  shows "circular h n []" "n \<notin> H"
  using assms by (auto simp: reps_def)

lemma repsI:
  assumes "H \<inter> N = {}" "\<And>l. l \<in> H \<Longrightarrow> circular h l (L l)" "\<And>l x. l \<in> H \<Longrightarrow> x \<in> set (L l) \<Longrightarrow> x \<in> N"
    and "\<And>l m x. l \<in> H \<Longrightarrow> m \<in> H \<Longrightarrow> x \<in> set (L l) \<Longrightarrow> x \<in> set (L m) \<Longrightarrow> l = m"
    and "\<And>n. n \<in> N \<Longrightarrow> \<forall>l\<in>H. n \<notin> set (L l) \<Longrightarrow> circular h n []"
  shows "reps H N h L"
  using assms by (fastforce simp: reps_def)

lemma reps_isempty: "reps H N h L \<Longrightarrow> l \<in> H \<Longrightarrow> rt_list_isempty l h \<longleftrightarrow> L l = []"
  using circular_next [of h l "L l"] by (cases "L l") (auto simp: reps_def rt_list_isempty_def circular_def)

lemma reps_next: "reps H N h L \<Longrightarrow> l \<in> H \<Longrightarrow> list_next h l = hd (L l @ [l])"
  using circular_next repsD(1) by fast

lemma reps_cong:
  assumes "reps H N h L" "\<And>l. l \<in> H \<Longrightarrow> L' l = L l"
  shows "reps H N h L'"
  using assms by (simp add: reps_def)

text \<open>An operation on one list touches only that list and the node it moves.\<close>

lemma links_frame:
  "x \<noteq> n \<Longrightarrow> x \<noteq> p \<Longrightarrow> x \<noteq> list_next h p \<Longrightarrow>
     list_next (rt_list_insert_after p n h) x = list_next h x \<and>
     list_prev (rt_list_insert_after p n h) x = list_prev h x"
  "x \<noteq> n \<Longrightarrow> x \<noteq> list_prev h n \<Longrightarrow> x \<noteq> list_next h n \<Longrightarrow>
     list_next (rt_list_remove n h) x = list_next h x \<and>
     list_prev (rt_list_remove n h) x = list_prev h x"
  by (auto simp: rt_list_insert_after_def rt_list_remove_def Let_def links_simps)

lemma reps_insert_after:
  assumes R: "reps H N h L" and l: "l \<in> H" "L l = xs @ ys"
    and n: "n \<in> N" "\<forall>m\<in>H. n \<notin> set (L m)"
  shows "reps H N (rt_list_insert_after (last (l # xs)) n h) (L(l := xs @ n # ys))"
proof -
  let ?p = "last (l # xs)"
  let ?h = "rt_list_insert_after ?p n h"
  have rl: "circular h l (xs @ ys)" using repsD(1) [OF R l(1)] l(2) by simp
  have p: "?p \<in> insert l (set (L l))" using last_in_set [of "l # xs"] l(2) by auto
  then have q: "list_next h ?p \<in> insert l (set (L l))" using circular_closed(1) [OF rl] l(2) by auto
  have frame: "circular ?h m zs = circular h m zs"
    if "insert m (set zs) \<inter> insert l (set (L l)) = {}" "n \<notin> insert m (set zs)" for m zs
    by (rule circular_cong, rule links_frame) (use that p q in blast)+
  have nH: "n \<notin> H" using reps_unlinked(2) [OF R n] .
  have one: "m = m'" if "m \<in> H" "m' \<in> H" "x \<in> set (L m)" "x \<in> set (L m')" for m m' x
    using reps_one(1) [OF R that(1,2,3)] that(4) by simp
  have rn: "circular ?h l (xs @ n # ys)"
    by (rule circular_insert_after [OF rl]) (use n l nH in auto)
  have upd: "x \<in> set ((L(l := xs @ n # ys)) k) \<longleftrightarrow> x \<in> set (L k) \<or> k = l \<and> x = n" for k x
    using l(2) by auto
  show ?thesis
  proof (rule repsI)
    show "H \<inter> N = {}" using R by (simp add: reps_def)
    show "circular ?h m ((L(l := xs @ n # ys)) m)" if "m \<in> H" for m
    proof (cases "m = l")
      case False
      moreover from that have "n \<notin> insert m (set (L m))" using n nH by auto
      ultimately show ?thesis
        using frame [OF reps_apart [OF R l(1) that False]] repsD(1) [OF R that] by simp
    qed (use rn in simp)
    show "x \<in> N" if "m \<in> H" "x \<in> set ((L(l := xs @ n # ys)) m)" for m x
      using that repsD(2) [OF R, of m] n(1) unfolding upd by blast
    show "m = m'" if "m \<in> H" "m' \<in> H" "x \<in> set ((L(l := xs @ n # ys)) m)"
      "x \<in> set ((L(l := xs @ n # ys)) m')" for m m' x
      using that one [of m m' x] n(2) unfolding upd by blast
    show "circular ?h m []" if "m \<in> N" "\<forall>k\<in>H. m \<notin> set ((L(l := xs @ n # ys)) k)" for m
    proof -
      have *: "m \<noteq> n" "\<forall>k\<in>H. m \<notin> set (L k)" using that(2) l(1) unfolding upd by metis+
      then have "circular ?h m [] = circular h m []"
        by (intro frame) (use reps_unlinked(2) [OF R that(1) *(2)] l(1) in auto)
      then show ?thesis using reps_unlinked(1) [OF R that(1) *(2)] by simp
    qed
  qed
qed

lemma reps_insert_before:
  assumes R: "reps H N h L" and l: "l \<in> H" and n: "n \<in> N" "\<forall>m\<in>H. n \<notin> set (L m)"
  shows "reps H N (rt_list_insert_before l n h) (L(l := L l @ [n]))"
proof -
  have "n \<notin> insert l (set (L l))" using R l n by (auto simp: reps_def)
  from circular_insert_before(2) [OF repsD(1) [OF R l] this]
  show ?thesis using reps_insert_after [OF R l _ n, of "L l" "[]"] by simp
qed

lemma reps_insert_before_at:
  assumes R: "reps H N h L" and l: "l \<in> H" "L l = xs @ ys" and n: "n \<in> N" "\<forall>m\<in>H. n \<notin> set (L m)"
  shows "reps H N (rt_list_insert_before (hd (ys @ [l])) n h) (L(l := xs @ n # ys))"
proof -
  let ?m = "hd (ys @ [l])"
  have r: "circular h l (xs @ ys)" using repsD(1) [OF R l(1)] l(2) by simp
  have p: "list_prev h ?m = last (l # xs)" "list_next h (last (l # xs)) = ?m"
    using circular_prev_nth [OF r] circular_next_nth [OF r] by blast+
  have "n \<notin> insert l (set (xs @ ys))" using reps_unlinked(2) [OF R n] n(2) l by fastforce
  moreover have "?m \<in> insert l (set (xs @ ys))" by (cases ys) auto
  moreover have "last (l # xs) \<in> insert l (set (xs @ ys))" using last_in_set [of "l # xs"] by auto
  ultimately have "n \<noteq> ?m" "n \<noteq> last (l # xs)" by metis+
  then have "rt_list_insert_before ?m n h = rt_list_insert_after (last (l # xs)) n h"
    using insert_before_after [of h ?m n] p by metis
  then show ?thesis using reps_insert_after [OF R l n] by metis
qed

text \<open>Removing a node takes it out of whichever list holds it, and leaves an unlinked node alone.\<close>

lemma reps_remove:
  assumes R: "reps H N h L" and n: "n \<in> N"
  shows "reps H N (rt_list_remove n h) (\<lambda>l. removeAll n (L l))"
proof (cases "\<exists>l\<in>H. n \<in> set (L l)")
  case False
  then have "rt_list_remove n h = h" using R n by (intro remove_unlinked) (auto simp: reps_def)
  then show ?thesis using False R reps_cong [OF R, of "\<lambda>l. removeAll n (L l)"] by simp
next
  case True
  then obtain l xs ys where l: "l \<in> H" and split: "L l = xs @ n # ys"
    by (meson split_list)
  let ?h = "rt_list_remove n h"
  have rl: "circular h l (xs @ n # ys)" using repsD(1) [OF R l] split by simp
  then have d: "n \<notin> set xs" "n \<notin> set ys" by (auto simp: circular_def)
  have pq: "list_prev h n \<in> insert l (set (L l))" "list_next h n \<in> insert l (set (L l))"
    using circular_closed [OF rl, of n] split by auto
  have frame: "circular ?h m zs = circular h m zs" if "insert m (set zs) \<inter> insert l (set (L l)) = {}" for m zs
    by (rule circular_cong, rule links_frame) (use that pq split in auto)
  have other: "n \<notin> set (L m)" if "m \<in> H" "m \<noteq> l" for m
    using that reps_one(1) [OF R l that(1), of n] split by auto
  show ?thesis
  proof (rule repsI)
    show "H \<inter> N = {}" using R by (simp add: reps_def)
    show "circular ?h m (removeAll n (L m))" if "m \<in> H" for m
    proof (cases "m = l")
      case True
      then show ?thesis using circular_remove(1) [OF rl] d split by simp
    next
      case False
      then show ?thesis
        using frame [OF reps_apart [OF R l that False]] other [OF that False] repsD(1) [OF R that] by simp
    qed
    show "x \<in> N" if "m \<in> H" "x \<in> set (removeAll n (L m))" for m x
      using that repsD(2) [OF R, of m] by auto
    show "m = m'" if "m \<in> H" "m' \<in> H" "x \<in> set (removeAll n (L m))" "x \<in> set (removeAll n (L m'))" for m m' x
      using reps_one(1) [OF R that(1,2), of x] that by simp
    show "circular ?h m []" if "m \<in> N" "\<forall>k\<in>H. m \<notin> set (removeAll n (L k))" for m
    proof (cases "m = n")
      case False
      then have *: "\<forall>k\<in>H. m \<notin> set (L k)" using that(2) by simp
      then have "circular ?h m [] = circular h m []"
        by (intro frame) (use reps_unlinked(2) [OF R that(1) *] l in auto)
      then show ?thesis using reps_unlinked(1) [OF R that(1) *] by simp
    qed (simp add: circular_remove(2) [OF rl])
  qed
qed

lemma circular_init:
  "circular (rt_list_init l h) l []"
  "l \<notin> insert m (set zs) \<Longrightarrow> circular (rt_list_init l h) m zs = circular h m zs"
  by (simp add: circular_Nil rt_list_init_def links_simps)
    (rule circular_cong, auto simp: rt_list_init_def links_simps)

lemma reps_init_head:
  assumes R: "reps H N h L" and l: "l \<notin> H" "l \<notin> N"
  shows "reps (insert l H) N (rt_list_init l h) (L(l := []))"
proof (rule repsI)
  show "insert l H \<inter> N = {}" using R l by (auto simp: reps_def)
  show "circular (rt_list_init l h) m ((L(l := [])) m)" if "m \<in> insert l H" for m
    using that circular_init(1) [of l h] circular_init(2) [of l m "L m" h] repsD [OF R, of m] l by (cases "m = l") auto
  show "x \<in> N" if "m \<in> insert l H" "x \<in> set ((L(l := [])) m)" for m x
    using that repsD(2) [OF R, of m] by (auto split: if_splits)
  show "m = m'" if "m \<in> insert l H" "m' \<in> insert l H" "x \<in> set ((L(l := [])) m)"
    "x \<in> set ((L(l := [])) m')" for m m' x
    using that reps_one(1) [OF R, of m m' x] by (auto split: if_splits)
  show "circular (rt_list_init l h) m []" if "m \<in> N" "\<forall>k\<in>insert l H. m \<notin> set ((L(l := [])) k)" for m
  proof -
    have *: "\<forall>k\<in>H. m \<notin> set (L k)" using that(2) l(1) by (auto split: if_splits)
    show ?thesis using circular_init(2) [of l m "[]" h] reps_unlinked [OF R that(1) *] that(1) l(2) by auto
  qed
qed

lemma reps_init_node:
  assumes R: "reps H N h L" and n: "n \<notin> H" "\<forall>l\<in>H. n \<notin> set (L l)"
  shows "reps H (insert n N) (rt_list_init n h) L"
proof (rule repsI)
  show "H \<inter> insert n N = {}" using R n by (auto simp: reps_def)
  show "circular (rt_list_init n h) m (L m)" if "m \<in> H" for m
    using that circular_init(2) [of n m "L m" h] repsD(1) [OF R that] n by auto
  show "x \<in> insert n N" if "m \<in> H" "x \<in> set (L m)" for m x
    using that repsD(2) [OF R, of m] by auto
  show "m = m'" if "m \<in> H" "m' \<in> H" "x \<in> set (L m)" "x \<in> set (L m')" for m m' x
    using reps_one(1) [OF R that(1,2,3)] that(4) by simp
  show "circular (rt_list_init n h) m []" if "m \<in> insert n N" "\<forall>l\<in>H. m \<notin> set (L l)" for m
    using that circular_init(1) [of n h] circular_init(2) [of n m "[]" h] reps_unlinked [OF R, of m] by (cases "m = n") auto
qed

text \<open>Walking along the links reads the sequence back.\<close>

fun links_walk :: "nat \<Rightarrow> 'n \<Rightarrow> 'n \<Rightarrow> 'n links \<Rightarrow> 'n list" where
  "links_walk 0 l p h = []"
| "links_walk (Suc k) l p h = (if list_next h p = l then [] else list_next h p # links_walk k l (list_next h p) h)"

lemma walk_path:
  "path h p xs l \<Longrightarrow> l \<notin> set xs \<Longrightarrow> length xs < k \<Longrightarrow> links_walk k l p h = xs"
proof (induction xs arbitrary: p k)
  case Nil
  then show ?case by (cases k) auto
next
  case (Cons x xs)
  then show ?case by (cases k) auto
qed

end
