(* ===== verification/Kernel_Timer.thy ===== *)
theory Kernel_Timer
  imports Prelude Rt_List "HOL-Library.Sublist" "HOL-Library.Monad_Syntax"
begin

text \<open>
  The timer service of the kernel: \<open>rt-thread/kernel/timer.c\<close> and the tick of \<open>clock.c\<close>. The running
  timers hang in one list, ordered by the tick at which they expire; ticks are 32-bit numbers that
  wrap around, and the code compares them by the sign of their difference. The specification keeps
  time as an unbounded number, and the list as a queue of timers with their expiry times. The timers
  are those of the application and the one built into each thread.

  The list has one row (\<open>RT_TIMER_SKIP_LIST_LEVEL\<close> is 1 in \<open>rtdef.h\<close>), and all timers of the program
  are hard timers. A failed \<open>RT_ASSERT\<close> does not return: the operation yields \<open>None\<close>, as does following
  a pointer to something that is not a timer.
\<close>

section \<open>Timers and their list\<close>

datatype timer_ref = Thread_timer nat | App_timer nat

text \<open>The list nodes of the kernel: the heads of its lists, and the nodes inside timers and threads.\<close>

datatype node =
  Timer_list | Row timer_ref | Priority_table nat | Tlist nat | Suspend_list nat | Defunct

record rt_timer =
  timer_flag :: byte
  timeout_tick :: u32
  timer_init_tick :: u32

record timer_sys =
  list_links :: "node links"
  timers :: "timer_ref \<Rightarrow> rt_timer"
  rt_tick :: u32

definition RT_TICK_MAX :: u32 where "RT_TICK_MAX = 0xffffffff"

definition RT_TIMER_FLAG_ACTIVATED :: byte where "RT_TIMER_FLAG_ACTIVATED = 0x1"
definition RT_TIMER_FLAG_PERIODIC :: byte where "RT_TIMER_FLAG_PERIODIC = 0x2"

definition is_activated :: "rt_timer \<Rightarrow> bool" where
  "is_activated t \<longleftrightarrow> timer_flag t AND RT_TIMER_FLAG_ACTIVATED \<noteq> 0"

definition is_periodic :: "rt_timer \<Rightarrow> bool" where
  "is_periodic t \<longleftrightarrow> timer_flag t AND RT_TIMER_FLAG_PERIODIC \<noteq> 0"

definition upd_timer :: "timer_ref \<Rightarrow> (rt_timer \<Rightarrow> rt_timer) \<Rightarrow> 'a timer_sys_scheme \<Rightarrow> 'a timer_sys_scheme" where
  "upd_timer t f s = s\<lparr>timers := (timers s)(t := f (timers s t))\<rparr>"

definition deactivate :: "rt_timer \<Rightarrow> rt_timer" where
  "deactivate t = t\<lparr>timer_flag := timer_flag t AND NOT RT_TIMER_FLAG_ACTIVATED\<rparr>"

definition activate :: "rt_timer \<Rightarrow> rt_timer" where
  "activate t = t\<lparr>timer_flag := timer_flag t OR RT_TIMER_FLAG_ACTIVATED\<rparr>"

section \<open>Operations\<close>

definition rt_timer_init :: "timer_ref \<Rightarrow> u32 \<Rightarrow> byte \<Rightarrow> 'a timer_sys_scheme \<Rightarrow> 'a timer_sys_scheme" where
  "rt_timer_init t time flag s =
     (let s1 = upd_timer t (\<lambda>_. \<lparr>timer_flag = flag AND NOT RT_TIMER_FLAG_ACTIVATED, timeout_tick = 0,
                 timer_init_tick = time\<rparr>) s
      in s1\<lparr>list_links := rt_list_init (Row t) (list_links s1)\<rparr>)"

definition rt_timer_remove :: "timer_ref \<Rightarrow> 'a timer_sys_scheme \<Rightarrow> 'a timer_sys_scheme" where
  "rt_timer_remove t s = s\<lparr>list_links := rt_list_remove (Row t) (list_links s)\<rparr>"

definition rt_timer_detach :: "timer_ref \<Rightarrow> 'a timer_sys_scheme \<Rightarrow> 'a timer_sys_scheme" where
  "rt_timer_detach t s = rt_timer_remove t s"

definition rt_timer_next_timeout_tick :: "'a timer_sys_scheme \<Rightarrow> u32 option" where
  "rt_timer_next_timeout_tick s =
     (if rt_list_isempty Timer_list (list_links s) then Some RT_TICK_MAX
      else case list_next (list_links s) Timer_list of
        Row t \<Rightarrow> Some (timeout_tick (timers s t))
      | _ \<Rightarrow> None)"

text \<open>The loop of \<open>rt_timer_start\<close> that looks for the entry to insert behind.\<close>

partial_function (option) timer_seek :: "node \<Rightarrow> u32 \<Rightarrow> 'a timer_sys_scheme \<Rightarrow> node option" where
  "timer_seek row_head tick s =
     (if row_head = list_prev (list_links s) Timer_list then Some row_head
      else case list_next (list_links s) row_head of
        Row t \<Rightarrow>
          (if timeout_tick (timers s t) - tick = 0 then timer_seek (Row t) tick s
           else if timeout_tick (timers s t) - tick < RT_TICK_MAX div 2 then Some row_head
           else timer_seek (Row t) tick s)
      | _ \<Rightarrow> None)"

definition rt_timer_start :: "timer_ref \<Rightarrow> 'a timer_sys_scheme \<Rightarrow> 'a timer_sys_scheme option" where
  "rt_timer_start t s =
     (let s1 = upd_timer t deactivate (rt_timer_remove t s)
      in if timer_init_tick (timers s1 t) \<ge> RT_TICK_MAX div 2 then None
         else
           let s2 = upd_timer t (\<lambda>x. x\<lparr>timeout_tick := rt_tick s1 + timer_init_tick x\<rparr>) s1
           in do {
             row_head \<leftarrow> timer_seek Timer_list (timeout_tick (timers s2 t)) s2;
             let s3 = s2\<lparr>list_links := rt_list_insert_after row_head (Row t) (list_links s2)\<rparr>;
             Some (upd_timer t activate s3)
           })"

definition rt_timer_stop :: "timer_ref \<Rightarrow> 'a timer_sys_scheme \<Rightarrow> int \<times> 'a timer_sys_scheme" where
  "rt_timer_stop t s =
     (if \<not> is_activated (timers s t) then (- RT_ERROR, s)
      else (RT_EOK, upd_timer t deactivate (rt_timer_remove t s)))"

datatype timer_ctrl = CTRL_SET_TIME u32 | CTRL_GET_TIME | CTRL_SET_ONESHOT | CTRL_SET_PERIODIC

text \<open>The value of \<open>RT_TIMER_CTRL_GET_TIME\<close> is handed out as the second component.\<close>

definition rt_timer_control ::
  "timer_ref \<Rightarrow> timer_ctrl \<Rightarrow> 'a timer_sys_scheme \<Rightarrow> int \<times> u32 option \<times> 'a timer_sys_scheme" where
  "rt_timer_control t cmd s = (case cmd of
     CTRL_GET_TIME \<Rightarrow> (RT_EOK, Some (timer_init_tick (timers s t)), s)
   | CTRL_SET_TIME time \<Rightarrow> (RT_EOK, None, upd_timer t (\<lambda>x. x\<lparr>timer_init_tick := time\<rparr>) s)
   | CTRL_SET_ONESHOT \<Rightarrow>
       (RT_EOK, None, upd_timer t (\<lambda>x. x\<lparr>timer_flag := timer_flag x AND NOT RT_TIMER_FLAG_PERIODIC\<rparr>) s)
   | CTRL_SET_PERIODIC \<Rightarrow>
       (RT_EOK, None, upd_timer t (\<lambda>x. x\<lparr>timer_flag := timer_flag x OR RT_TIMER_FLAG_PERIODIC\<rparr>) s))"

text \<open>
  \<open>rt_timer_check\<close>. \<open>call\<close> is the dispatch to the timeout function of a timer; the first component of
  the result is the sequence of the timers whose function was called.
\<close>

definition timer_expire :: "timer_ref \<Rightarrow> 'a timer_sys_scheme \<Rightarrow> 'a timer_sys_scheme option" where
  "timer_expire t s =
     (if is_periodic (timers s t) \<and> is_activated (timers s t)
      then rt_timer_start t (upd_timer t deactivate s)
      else Some (upd_timer t deactivate s))"

partial_function (option) timer_check_loop ::
  "(timer_ref \<Rightarrow> 'a timer_sys_scheme \<Rightarrow> 'a timer_sys_scheme option) \<Rightarrow> u32 \<Rightarrow> 'a timer_sys_scheme \<Rightarrow>
     (timer_ref list \<times> 'a timer_sys_scheme) option" where
  "timer_check_loop call current_tick s =
     (if rt_list_isempty Timer_list (list_links s) then Some ([], s)
      else case list_next (list_links s) Timer_list of
        Row t \<Rightarrow>
          (if current_tick - timeout_tick (timers s t) < RT_TICK_MAX div 2
           then do {
             s1 \<leftarrow> call t (rt_timer_remove t s);
             s2 \<leftarrow> timer_expire t s1;
             (fired, s3) \<leftarrow> timer_check_loop call (rt_tick s1) s2;
             Some (t # fired, s3)
           }
           else Some ([], s))
      | _ \<Rightarrow> None)"

definition rt_timer_check ::
  "(timer_ref \<Rightarrow> 'a timer_sys_scheme \<Rightarrow> 'a timer_sys_scheme option) \<Rightarrow> 'a timer_sys_scheme \<Rightarrow>
     (timer_ref list \<times> 'a timer_sys_scheme) option" where
  "rt_timer_check call s = timer_check_loop call (rt_tick s) s"

definition rt_system_timer_init :: "'a timer_sys_scheme \<Rightarrow> 'a timer_sys_scheme" where
  "rt_system_timer_init s = s\<lparr>list_links := rt_list_init Timer_list (list_links s)\<rparr>"

definition rt_tick_from_millisecond :: "u32 \<Rightarrow> u32 \<Rightarrow> u32" where
  "rt_tick_from_millisecond ticks_per_second ms = (ticks_per_second * ms + 999) div 1000"

section \<open>The queue of expiry times\<close>

text \<open>
  The specification: time \<open>T\<close> is a natural number, and the running timers form a queue \<open>q\<close> of timers
  with their expiry times, in order; a new entry goes behind those that expire no later.
\<close>

type_synonym timer_queue = "(timer_ref \<times> nat) list"

definition q_insert :: "timer_ref \<Rightarrow> nat \<Rightarrow> timer_queue \<Rightarrow> timer_queue" where
  "q_insert t e q = takeWhile (\<lambda>(_, f). f \<le> e) q @ (t, e) # dropWhile (\<lambda>(_, f). f \<le> e) q"

definition q_remove :: "timer_ref \<Rightarrow> timer_queue \<Rightarrow> timer_queue" where
  "q_remove t q = filter (\<lambda>(u, _). u \<noteq> t) q"

definition half_ticks :: nat where "half_ticks = 2147483647"

definition with_timers :: "(node \<Rightarrow> node list) \<Rightarrow> timer_queue \<Rightarrow> node \<Rightarrow> node list" where
  "with_timers L q = L(Timer_list := map Row (map fst q))"

text \<open>
  The 32-bit state represents the queue. The timers in \<open>F\<close> are in the hands of the code that is
  running: their flag may be set although they are not in the list. \<open>k\<close> is how many ticks an expired
  timer may be behind: none between ticks, one while the tick interrupt is at work.
\<close>

definition timer_rel :: "node set \<Rightarrow> node set \<Rightarrow> (node \<Rightarrow> node list) \<Rightarrow> timer_ref set \<Rightarrow> nat \<Rightarrow> nat \<Rightarrow>
    timer_queue \<Rightarrow> 'a timer_sys_scheme \<Rightarrow> bool" where
  "timer_rel H N L F k T q s \<longleftrightarrow>
     reps H N (list_links s) L \<and> Timer_list \<in> H \<and> range Row \<subseteq> N \<and>
     L Timer_list = map Row (map fst q) \<and> (\<forall>l\<in>H. l \<noteq> Timer_list \<longrightarrow> set (L l) \<inter> range Row = {}) \<and>
     rt_tick s = of_nat T \<and> sorted (map snd q) \<and>
     (\<forall>t e. (t, e) \<in> set q \<longrightarrow> timeout_tick (timers s t) = of_nat e \<and> T \<le> e + k \<and> e < T + half_ticks) \<and>
     (\<forall>u. u \<notin> F \<longrightarrow> (is_activated (timers s u) \<longleftrightarrow> u \<in> fst ` set q)) \<and> F \<inter> fst ` set q = {}"

section \<open>Flags, ticks and the queue\<close>

lemma flag_bits:
  "is_activated t \<longleftrightarrow> bit (timer_flag t) 0" "is_periodic t \<longleftrightarrow> bit (timer_flag t) 1"
  by (simp_all add: is_activated_def is_periodic_def RT_TIMER_FLAG_ACTIVATED_def
      RT_TIMER_FLAG_PERIODIC_def bit_iff_and_push_bit_not_eq_0)

lemma timer_flag_simps [simp]:
  "is_activated (activate t)" "\<not> is_activated (deactivate t)"
  "is_periodic (activate t) = is_periodic t" "is_periodic (deactivate t) = is_periodic t"
  "timeout_tick (activate t) = timeout_tick t" "timeout_tick (deactivate t) = timeout_tick t"
  "timer_init_tick (activate t) = timer_init_tick t" "timer_init_tick (deactivate t) = timer_init_tick t"
  "is_activated (t\<lparr>timeout_tick := x\<rparr>) = is_activated t" "is_periodic (t\<lparr>timeout_tick := x\<rparr>) = is_periodic t"
  "is_activated (t\<lparr>timer_init_tick := x\<rparr>) = is_activated t" "is_periodic (t\<lparr>timer_init_tick := x\<rparr>) = is_periodic t"
  by (simp_all add: flag_bits activate_def deactivate_def RT_TIMER_FLAG_ACTIVATED_def bit_or_iff
      bit_and_iff bit_not_iff)

lemma upd_timer_simps [simp]:
  "timers (upd_timer t f s) = (timers s)(t := f (timers s t))"
  "list_links (upd_timer t f s) = list_links s" "rt_tick (upd_timer t f s) = rt_tick s"
  "timers (rt_timer_remove t s) = timers s" "rt_tick (rt_timer_remove t s) = rt_tick s"
  "list_links (rt_timer_remove t s) = rt_list_remove (Row t) (list_links s)"
  by (simp_all add: upd_timer_def rt_timer_remove_def)

lemma half_unat: "unat (RT_TICK_MAX div 2) = half_ticks"
  by (simp add: RT_TICK_MAX_def half_ticks_def)

text \<open>Differences of wrapped ticks: the comparison the code makes is the comparison of the times.\<close>

lemma tick_diff_ge:
  assumes "e \<le> f" "f < e + 2 ^ 32"
  shows "unat ((of_nat f :: u32) - of_nat e) = f - e"
proof -
  obtain d where d: "f = e + d" using assms(1) le_Suc_ex by blast
  with assms(2) have "unat (of_nat d :: u32) = d" by (simp add: unat_of_nat)
  then show ?thesis by (simp add: d)
qed

lemma tick_diff_lt:
  assumes "f < e" "e \<le> f + half_ticks"
  shows "half_ticks < unat ((of_nat f :: u32) - of_nat e)" "(of_nat f :: u32) - of_nat e \<noteq> 0"
proof -
  define d where "d = 2 ^ 32 - (e - f)"
  have d: "half_ticks < d" "d < 2 ^ 32" using assms by (auto simp: d_def half_ticks_def)
  have "(of_nat f :: u32) = of_nat (f + 2 ^ 32)" by simp
  also have "f + 2 ^ 32 = e + d" using assms by (simp add: d_def half_ticks_def)
  finally have "(of_nat f :: u32) - of_nat e = of_nat d" by simp
  moreover have "unat (of_nat d :: u32) = d" using d by (simp add: unsigned_of_nat take_bit_nat_eq_self)
  ultimately have "unat ((of_nat f :: u32) - of_nat e) = d" by simp
  then show "half_ticks < unat ((of_nat f :: u32) - of_nat e)" "(of_nat f :: u32) - of_nat e \<noteq> 0"
    using d(1) by auto
qed

lemma tick_before:
  assumes "f < e + half_ticks" "e \<le> f + half_ticks"
  shows "((of_nat f :: u32) - of_nat e = 0 \<or> \<not> (of_nat f :: u32) - of_nat e < RT_TICK_MAX div 2) \<longleftrightarrow> f \<le> e"
proof (cases "f < e")
  case True
  then show ?thesis using tick_diff_lt [of f e] assms by (simp add: word_less_nat_alt half_unat)
next
  case False
  then have "unat ((of_nat f :: u32) - of_nat e) = f - e"
    using assms by (intro tick_diff_ge) (auto simp: half_ticks_def)
  then show ?thesis using assms False by (auto simp: word_less_nat_alt half_unat unat_eq_0 [symmetric] simp del: unat_eq_0)
qed

lemma tick_due:
  assumes "T \<le> e + 1" "e < T + half_ticks"
  shows "(of_nat T :: u32) - of_nat e < RT_TICK_MAX div 2 \<longleftrightarrow> e \<le> T"
proof (cases "T < e")
  case True
  then show ?thesis using tick_diff_lt(1) [of T e] assms by (simp add: word_less_nat_alt half_unat)
next
  case False
  then have "unat ((of_nat T :: u32) - of_nat e) = T - e" using assms by (intro tick_diff_ge) auto
  then show ?thesis using assms False by (simp add: word_less_nat_alt half_unat half_ticks_def)
qed

lemma set_q_insert [simp]: "set (q_insert t e q) = insert (t, e) (set q)"
proof -
  let ?P = "\<lambda>(_ :: timer_ref, f). f \<le> e"
  have "set q = set (takeWhile ?P q) \<union> set (dropWhile ?P q)"
    by (metis takeWhile_dropWhile_id set_append)
  then show ?thesis unfolding q_insert_def by simp
qed

lemma set_q_remove [simp]: "set (q_remove t q) = {(u, e) \<in> set q. u \<noteq> t}"
  by (auto simp: q_remove_def)

lemma sorted_q_remove: "sorted (map snd q) \<Longrightarrow> sorted (map snd (q_remove t q))"
  unfolding q_remove_def by (rule sorted_filter)

lemma sorted_insert_mid:
  fixes e :: nat
  assumes "sorted (xs @ ys)" "\<And>y. y \<in> set xs \<Longrightarrow> y \<le> e" "\<And>y. y \<in> set ys \<Longrightarrow> e \<le> y"
  shows "sorted (xs @ e # ys)"
  using assms by (simp add: sorted_append)

lemma sorted_q_insert:
  assumes "sorted (map snd q)"
  shows "sorted (map snd (q_insert t e q))"
proof -
  let ?P = "\<lambda>(_ :: timer_ref, f). f \<le> e"
  have le: "f \<le> e" if "(u, f) \<in> set (takeWhile ?P q)" for u f using set_takeWhileD [OF that] by simp
  have ge: "e < f" if m: "(u, f) \<in> set (dropWhile ?P q)" for u f
  proof -
    have "sorted (map snd (dropWhile ?P q))" using sorted_wrt_dropWhile assms by (simp add: sorted_map)
    then show ?thesis using m hd_dropWhile [of ?P q]
      by (cases "dropWhile ?P q") (auto simp: case_prod_beta)
  qed
  have *: "sorted (map snd (takeWhile ?P q) @ map snd (dropWhile ?P q))"
    using assms by (simp flip: map_append)
  have "y \<le> e" if "y \<in> set (map snd (takeWhile ?P q))" for y using that le by auto
  moreover have "e \<le> y" if "y \<in> set (map snd (dropWhile ?P q))" for y using that ge by fastforce
  ultimately have "sorted (map snd (takeWhile ?P q) @ e # map snd (dropWhile ?P q))"
    by (rule sorted_insert_mid [OF *])
  then show ?thesis by (simp add: q_insert_def)
qed

lemma map_fst_q_insert:
  "map fst (q_insert t e q) = map fst (takeWhile (\<lambda>(_, f). f \<le> e) q) @ t # map fst (dropWhile (\<lambda>(_, f). f \<le> e) q)"
  by (simp add: q_insert_def)

lemma map_fst_q_remove: "map fst (q_remove t q) = removeAll t (map fst q)"
  by (induction q) (auto simp: q_remove_def)

section \<open>What the operations do to the list\<close>

lemma timer_relD:
  assumes "timer_rel H N L F k T q s"
  shows "reps H N (list_links s) L" "Timer_list \<in> H" "Row t \<in> N" "L Timer_list = map Row (map fst q)"
    "rt_tick s = of_nat T" "sorted (map snd q)"
    "(t, e) \<in> set q \<Longrightarrow> timeout_tick (timers s t) = of_nat e" "(t, e) \<in> set q \<Longrightarrow> T \<le> e + k"
    "(t, e) \<in> set q \<Longrightarrow> e < T + half_ticks"
    "t \<notin> F \<Longrightarrow> is_activated (timers s t) \<longleftrightarrow> t \<in> fst ` set q"
    "l \<in> H \<Longrightarrow> l \<noteq> Timer_list \<Longrightarrow> Row t \<notin> set (L l)" "(t, e) \<in> set q \<Longrightarrow> t \<notin> F"
proof -
  note * = assms [unfolded timer_rel_def]
  show "reps H N (list_links s) L" "Timer_list \<in> H" "L Timer_list = map Row (map fst q)"
    "rt_tick s = of_nat T" "sorted (map snd q)" using * by simp_all
  have "range Row \<subseteq> N" "\<forall>l\<in>H. l \<noteq> Timer_list \<longrightarrow> set (L l) \<inter> range Row = {}" "F \<inter> fst ` set q = {}"
    using * by simp_all
  then show "Row t \<in> N" "l \<in> H \<Longrightarrow> l \<noteq> Timer_list \<Longrightarrow> Row t \<notin> set (L l)" "(t, e) \<in> set q \<Longrightarrow> t \<notin> F"
    by (blast, blast, force)
  show "(t, e) \<in> set q \<Longrightarrow> timeout_tick (timers s t) = of_nat e" "(t, e) \<in> set q \<Longrightarrow> T \<le> e + k"
    "(t, e) \<in> set q \<Longrightarrow> e < T + half_ticks" using * by simp_all
  show "t \<notin> F \<Longrightarrow> is_activated (timers s t) \<longleftrightarrow> t \<in> fst ` set q" using * by simp
qed

lemma timer_rel_distinct:
  assumes "timer_rel H N L F k T q s"
  shows "distinct (map fst q)"
proof -
  have "distinct (map Row (map fst q))"
    using repsD(3) [OF timer_relD(1,2) [OF assms]] timer_relD(4) [OF assms] by simp
  then show ?thesis by (simp only: distinct_map)
qed

lemma timer_rel_once:
  assumes "timer_rel H N L F k T q s" "(t, e) \<in> set q" "(t, f) \<in> set q"
  shows "e = f"
  using eq_key_imp_eq_value [OF timer_rel_distinct [OF assms(1)]] assms(2,3) by simp

text \<open>The loop that seeks the place stops behind the entries that expire no later.\<close>

lemma timer_seek_circular:
  fixes s :: "'a timer_sys_scheme"
  assumes "circular (list_links s) Timer_list (map Row (ts @ us))"
  shows "timer_seek (last (Timer_list # map Row ts)) tick s =
    Some (last (Timer_list # map Row (ts @ takeWhile (\<lambda>u. timeout_tick (timers s u) - tick = 0 \<or>
      \<not> timeout_tick (timers s u) - tick < RT_TICK_MAX div 2) us)))"
  using assms
proof (induction us arbitrary: ts)
  case Nil
  then show ?case using circular_prev [of "list_links s" Timer_list "map Row ts"]
    by (subst timer_seek.simps) simp
next
  case (Cons u us)
  let ?p = "last (Timer_list # map Row ts)"
  have next_p: "list_next (list_links s) ?p = Row u"
    using circular_next_nth [of "list_links s" Timer_list "map Row ts" "map Row (u # us)"] Cons.prems by simp
  have "list_prev (list_links s) Timer_list = last (map Row (u # us))"
    using circular_prev [OF Cons.prems] by simp
  moreover have "?p \<notin> set (map Row (u # us))"
    using Cons.prems last_in_set [of "Timer_list # map Row ts"] by (auto simp: circular_def split: if_splits)
  ultimately have more: "?p \<noteq> list_prev (list_links s) Timer_list"
    using last_in_set [of "map Row (u # us)"] by (metis list.distinct(1) list.simps(9))
  have step: "timer_seek (Row u) tick s =
      Some (last (Timer_list # map Row ((ts @ [u]) @ takeWhile (\<lambda>u. timeout_tick (timers s u) - tick = 0 \<or>
      \<not> timeout_tick (timers s u) - tick < RT_TICK_MAX div 2) us)))"
    using Cons.IH [of "ts @ [u]"] Cons.prems by simp
  show ?case
    by (subst timer_seek.simps) (use more next_p step in \<open>simp del: last.simps\<close>)
qed

lemma takeWhile_map_fst:
  "(\<And>t e. (t, e) \<in> set q \<Longrightarrow> P t \<longleftrightarrow> Q (t, e)) \<Longrightarrow>
    takeWhile P (map fst q) = map fst (takeWhile Q q) \<and> dropWhile P (map fst q) = map fst (dropWhile Q q)"
  by (induction q) fastforce+

lemma with_timers_simps [simp]:
  "with_timers L q Timer_list = map Row (map fst q)" "l \<noteq> Timer_list \<Longrightarrow> with_timers L q l = L l"
  "with_timers (with_timers L q) q' = with_timers L q'"
  by (simp_all add: with_timers_def)

lemma timer_rel_with: "timer_rel H N L F k T q s \<Longrightarrow> with_timers L q = L"
  by (simp add: with_timers_def timer_rel_def fun_upd_idem)

lemma timer_rel_links:
  assumes R: "timer_rel H N L F k T q s" and h: "reps H N (list_links s') (with_timers L q')"
    and q': "sorted (map snd q')" "F' \<inter> fst ` set q' = {}"
    and times: "\<And>u e. (u, e) \<in> set q' \<Longrightarrow> timeout_tick (timers s' u) = of_nat e \<and> T \<le> e + k \<and> e < T + half_ticks"
    and flags: "\<And>u. u \<notin> F' \<Longrightarrow> is_activated (timers s' u) \<longleftrightarrow> u \<in> fst ` set q'"
    and tick: "rt_tick s' = rt_tick s"
  shows "timer_rel H N (with_timers L q') F' k T q' s'"
  using R q' times flags h by (simp add: timer_rel_def tick del: map_map)

lemma timer_rel_reps_remove:
  assumes R: "timer_rel H N L F k T q s"
  shows "reps H N (rt_list_remove (Row t) (list_links s)) (with_timers L (q_remove t q))"
proof (rule reps_cong [OF reps_remove [OF timer_relD(1,3) [OF R]]])
  fix l
  assume "l \<in> H"
  show "with_timers L (q_remove t q) l = removeAll (Row t) (L l)"
  proof (cases "l = Timer_list")
    case True
    have "map Row (removeAll t ts) = removeAll (Row t) (map Row ts)" for ts by (induction ts) auto
    then show ?thesis using True timer_relD(4) [OF R] by (simp add: map_fst_q_remove del: map_map)
  next
    case False
    then show ?thesis using timer_relD(11) [OF R \<open>l \<in> H\<close> False] by simp
  qed
qed

lemma timer_rel_remove:
  assumes R: "timer_rel H N L F k T q s"
  shows "timer_rel H N (with_timers L (q_remove t q)) (insert t F) k T (q_remove t q) (rt_timer_remove t s)"
proof (rule timer_rel_links [OF R])
  show "reps H N (list_links (rt_timer_remove t s)) (with_timers L (q_remove t q))"
    using timer_rel_reps_remove [OF R] by simp
  show "sorted (map snd (q_remove t q))" using sorted_q_remove [OF timer_relD(6) [OF R]] .
  show "insert t F \<inter> fst ` set (q_remove t q) = {}" using timer_relD(12) [OF R] by auto
  show "is_activated (timers (rt_timer_remove t s) u) \<longleftrightarrow> u \<in> fst ` set (q_remove t q)" if "u \<notin> insert t F" for u
    using timer_relD(10) [OF R, of u] that by force
  show "timeout_tick (timers (rt_timer_remove t s) u) = of_nat e \<and> T \<le> e + k \<and> e < T + half_ticks"
    if "(u, e) \<in> set (q_remove t q)" for u e
    using timer_relD(7-9) [OF R, of u e] that by simp
qed simp

lemma timer_rel_deactivate:
  assumes R: "timer_rel H N L F k T q s" and t: "t \<notin> fst ` set q"
  shows "timer_rel H N L (F - {t}) k T q (upd_timer t deactivate s)"
proof -
  have "timer_rel H N (with_timers L q) (F - {t}) k T q (upd_timer t deactivate s)"
  proof (rule timer_rel_links [OF R])
    show "reps H N (list_links (upd_timer t deactivate s)) (with_timers L q)"
      using timer_relD(1) [OF R] timer_rel_with [OF R] by simp
    show "(F - {t}) \<inter> fst ` set q = {}" using timer_relD(12) [OF R] by force
    show "is_activated (timers (upd_timer t deactivate s) u) \<longleftrightarrow> u \<in> fst ` set q" if "u \<notin> F - {t}" for u
      using timer_relD(10) [OF R, of u] t that by auto
    show "timeout_tick (timers (upd_timer t deactivate s) u) = of_nat e \<and> T \<le> e + k \<and> e < T + half_ticks"
      if "(u, e) \<in> set q" for u e
      using timer_relD(7-9) [OF R that] by auto
  qed (use timer_relD(6) [OF R] in simp_all)
  then show ?thesis by (simp add: timer_rel_with [OF R])
qed

lemma timer_rel_stopped:
  assumes "timer_rel H N L F k T q s"
  shows "timer_rel H N (with_timers L (q_remove t q)) (F - {t}) k T (q_remove t q)
    (upd_timer t deactivate (rt_timer_remove t s))"
proof -
  have "t \<notin> fst ` set (q_remove t q)" by auto
  from timer_rel_deactivate [OF timer_rel_remove [OF assms, of t] this]
  show ?thesis by simp
qed

lemma q_remove_absent: "t \<notin> fst ` set q \<Longrightarrow> q_remove t q = q"
  by (force simp: q_remove_def filter_id_conv)

lemma timer_rel_mono: "timer_rel H N L F k T q s \<Longrightarrow> F \<subseteq> F' \<Longrightarrow> F' \<inter> fst ` set q = {} \<Longrightarrow> timer_rel H N L F' k T q s"
  by (auto simp: timer_rel_def)

text \<open>Stopping a timer: the status says whether it was running; afterwards it is not.\<close>

lemma timer_rel_stop:
  fixes s :: "'a timer_sys_scheme"
  assumes R: "timer_rel H N L F k T q s"
  shows "timer_rel H N (with_timers L (q_remove t q)) F k T (q_remove t q) (snd (rt_timer_stop t s))"
    and "t \<notin> F \<Longrightarrow> fst (rt_timer_stop t s) = (if t \<in> fst ` set q then RT_EOK else - RT_ERROR)"
proof -
  show "timer_rel H N (with_timers L (q_remove t q)) F k T (q_remove t q) (snd (rt_timer_stop t s))"
  proof (cases "is_activated (timers s t)")
    case True
    then show ?thesis
      using timer_rel_mono [OF timer_rel_stopped [OF R, of t], of F] timer_relD(12) [OF R]
      by (force simp: rt_timer_stop_def)
  next
    case False
    then have "t \<notin> fst ` set q" using timer_relD(10,12) [OF R] by force
    then have "q_remove t q = q" "with_timers L q = L"
      using q_remove_absent timer_rel_with [OF R] by auto
    then show ?thesis using R False by (simp add: rt_timer_stop_def)
  qed
  show "t \<notin> F \<Longrightarrow> fst (rt_timer_stop t s) = (if t \<in> fst ` set q then RT_EOK else - RT_ERROR)"
    using timer_relD(10) [OF R] by (simp add: rt_timer_stop_def)
qed

text \<open>Starting a timer enters it at its time, whatever its state was.\<close>

lemma timer_seek_rel:
  fixes s :: "'a timer_sys_scheme"
  assumes R: "timer_rel H N L F k T q s" and e: "T \<le> e" "e < T + half_ticks" "k \<le> 1"
    and t: "t \<notin> fst ` set q"
    and s': "list_links s' = list_links s" "\<And>u. u \<in> fst ` set q \<Longrightarrow> timeout_tick (timers s' u) = timeout_tick (timers s u)"
  obtains p where "timer_seek Timer_list (of_nat e) s' = Some p"
    "reps H N (rt_list_insert_after p (Row t) (list_links s')) (with_timers L (q_insert t e q))"
proof -
  let ?P = "\<lambda>u. timeout_tick (timers s' u) - of_nat e = 0 \<or>
    \<not> timeout_tick (timers s' u) - of_nat e < RT_TICK_MAX div 2"
  let ?Q = "\<lambda>(_ :: timer_ref, f). f \<le> e"
  let ?xs = "map Row (map fst (takeWhile ?Q q))" and ?ys = "map Row (map fst (dropWhile ?Q q))"
  have "?P u \<longleftrightarrow> ?Q (u, f)" if "(u, f) \<in> set q" for u f
  proof -
    have "timeout_tick (timers s' u) = of_nat f"
      using timer_relD(7) [OF R that] s'(2) [of u] that by force
    moreover have "f < e + half_ticks" "e \<le> f + half_ticks" using timer_relD(8,9) [OF R that] e by auto
    ultimately show ?thesis using tick_before [of f e] by simp
  qed
  then have split: "takeWhile ?P (map fst q) = map fst (takeWhile ?Q q)"
    using takeWhile_map_fst [of q ?P ?Q] by blast
  have "circular (list_links s') Timer_list (map Row ([] @ map fst q))"
    using repsD(1) [OF timer_relD(1,2) [OF R]] timer_relD(4) [OF R] by (simp add: s')
  from timer_seek_circular [OF this, of "of_nat e"]
  have "timer_seek Timer_list (of_nat e) s' = Some (last (Timer_list # ?xs))"
    unfolding append_Nil split by simp
  moreover have "L Timer_list = ?xs @ ?ys"
    using timer_relD(4) [OF R] takeWhile_dropWhile_id [of ?Q q] map_append by metis
  moreover have "\<forall>m\<in>H. Row t \<notin> set (L m)"
  proof
    fix m
    assume "m \<in> H"
    then show "Row t \<notin> set (L m)"
      using timer_relD(4) [OF R] timer_relD(11) [OF R \<open>m \<in> H\<close>, of t] t by (cases "m = Timer_list") auto
  qed
  moreover have "with_timers L (q_insert t e q) = L(Timer_list := ?xs @ Row t # ?ys)"
    by (simp add: with_timers_def map_fst_q_insert)
  ultimately show ?thesis
    using that reps_insert_after [OF timer_relD(1,2) [OF R] _ timer_relD(3) [OF R]] s'(1) by metis
qed

lemma timer_rel_start:
  fixes s :: "'a timer_sys_scheme"
  assumes R: "timer_rel H N L F k T q s" and k: "k \<le> 1"
    and init: "unat (timer_init_tick (timers s t)) < half_ticks"
  obtains s' where "rt_timer_start t s = Some s'"
    "let q' = q_insert t (T + unat (timer_init_tick (timers s t))) (q_remove t q)
     in timer_rel H N (with_timers L q') (F - {t}) k T q' s'"
    "timers s' = (timers s)(t := timers s' t)" "timer_init_tick (timers s' t) = timer_init_tick (timers s t)"
    "is_periodic (timers s' t) = is_periodic (timers s t)"
proof -
  let ?e = "T + unat (timer_init_tick (timers s t))" and ?q = "q_remove t q"
  define s1 where "s1 = upd_timer t deactivate (rt_timer_remove t s)"
  define s2 where "s2 = upd_timer t (\<lambda>x. x\<lparr>timeout_tick := rt_tick s1 + timer_init_tick x\<rparr>) s1"
  have R1: "timer_rel H N (with_timers L ?q) (F - {t}) k T ?q s1"
    using timer_rel_stopped [OF R, of t] by (simp add: s1_def)
  have w: "rt_tick s + timer_init_tick (timers s t) = of_nat ?e" using timer_relD(5) [OF R] by simp
  have "t \<notin> fst ` set ?q" by auto
  moreover from this have "timeout_tick (timers s2 u) = timeout_tick (timers s1 u)" if "u \<in> fst ` set ?q" for u
    using that by (cases "u = t") (simp_all add: s2_def)
  ultimately obtain p where p: "timer_seek Timer_list (of_nat ?e) s2 = Some p"
    "reps H N (rt_list_insert_after p (Row t) (list_links s2)) (with_timers (with_timers L ?q) (q_insert t ?e ?q))"
    using init k by (elim timer_seek_rel [OF R1, of ?e t s2, rotated -1]) (simp_all add: s2_def)
  define s' where "s' = upd_timer t activate (s2\<lparr>list_links := rt_list_insert_after p (Row t) (list_links s2)\<rparr>)"
  have "rt_timer_start t s = Some s'"
    using init p(1) w
    by (simp add: rt_timer_start_def Let_def s'_def word_le_nat_alt half_unat s2_def s1_def not_le)
  moreover have "timer_rel H N (with_timers (with_timers L ?q) (q_insert t ?e ?q)) (F - {t}) k T (q_insert t ?e ?q) s'"
  proof (rule timer_rel_links [OF R1])
    show "reps H N (list_links s') (with_timers (with_timers L ?q) (q_insert t ?e ?q))"
      using p(2) by (simp add: s'_def)
    show "sorted (map snd (q_insert t ?e ?q))" using sorted_q_insert timer_relD(6) [OF R1] by blast
    show "(F - {t}) \<inter> fst ` set (q_insert t ?e ?q) = {}" using timer_relD(12) [OF R1] by auto
    show "timeout_tick (timers s' u) = of_nat e \<and> T \<le> e + k \<and> e < T + half_ticks"
      if "(u, e) \<in> set (q_insert t ?e ?q)" for u e
      using timer_relD(7-9) [OF R1, of u e] that init w by (auto simp: s'_def s2_def s1_def)
    show "is_activated (timers s' u) \<longleftrightarrow> u \<in> fst ` set (q_insert t ?e ?q)" if "u \<notin> F - {t}" for u
      using timer_relD(10) [OF R1 that] by (auto simp: s'_def s2_def s1_def)
  qed (simp add: s'_def s2_def)
  moreover have "timers s' = (timers s)(t := timers s' t)"
    "timer_init_tick (timers s' t) = timer_init_tick (timers s t)"
    "is_periodic (timers s' t) = is_periodic (timers s t)"
    by (simp_all add: s'_def s2_def s1_def)
  ultimately show ?thesis using that by (simp add: Let_def)
qed

text \<open>A tick passes.\<close>

lemma timer_rel_tick:
  assumes R: "timer_rel H N L F 0 T q s"
  shows "timer_rel H N L F 1 (Suc T) q (s\<lparr>rt_tick := rt_tick s + 1\<rparr>)"
  using R by (fastforce simp: timer_rel_def)

lemma timer_start_others:
  "rt_timer_start t s = Some s' \<Longrightarrow> u \<noteq> t \<Longrightarrow> timers s' u = timers s u"
  "rt_timer_start t s = Some s' \<Longrightarrow> timer_init_tick (timers s' t) = timer_init_tick (timers s t) \<and>
     is_periodic (timers s' t) = is_periodic (timers s t)"
  by (auto simp: rt_timer_start_def Let_def split: if_splits Option.bind_splits)

section \<open>The check of the timers at a tick\<close>

definition q_due :: "nat \<Rightarrow> timer_queue \<Rightarrow> timer_queue" where
  "q_due T q = filter (\<lambda>(_, e). e \<le> T) q"

definition q_expire :: "nat \<Rightarrow> timer_ref \<Rightarrow> 'a timer_sys_scheme \<Rightarrow> timer_queue \<Rightarrow> timer_queue" where
  "q_expire T t s q =
     (if is_periodic (timers s t) \<and> is_activated (timers s t)
      then q_insert t (T + unat (timer_init_tick (timers s t))) q else q)"

text \<open>
  What a check promises. The timers whose function was called were due, in the order of the queue;
  a timer that the functions do not stop is called if it is due and stays if it is not; a periodic
  timer that was called is back in the queue one period later; nothing is left that is due.
\<close>

definition check_spec :: "(timer_ref \<Rightarrow> bool) \<Rightarrow> nat \<Rightarrow> (timer_ref \<Rightarrow> rt_timer) \<Rightarrow> timer_queue \<Rightarrow>
    timer_ref list \<Rightarrow> timer_queue \<Rightarrow> bool" where
  "check_spec may_stop T tm q fired q' \<longleftrightarrow>
     subseq fired (map fst (q_due T q)) \<and> q_due T q' = [] \<and>
     (\<forall>u e. (u, e) \<in> set q' \<longrightarrow> (u, e) \<in> set q \<or>
        u \<in> set fired \<and> is_periodic (tm u) \<and> e = T + unat (timer_init_tick (tm u))) \<and>
     (\<forall>u e. (u, e) \<in> set q \<longrightarrow> \<not> may_stop u \<longrightarrow> (if e \<le> T then u \<in> set fired else (u, e) \<in> set q')) \<and>
     (\<forall>u. u \<in> set fired \<longrightarrow> \<not> may_stop u \<longrightarrow> is_periodic (tm u) \<longrightarrow>
        (u, T + unat (timer_init_tick (tm u))) \<in> set q')"

lemma check_specD:
  assumes C: "check_spec may_stop T tm q fired q'"
  shows "(u, e) \<in> set q' \<Longrightarrow> T < e"
    "(u, e) \<in> set q' \<Longrightarrow> (u, e) \<in> set q \<or> u \<in> set fired \<and> is_periodic (tm u) \<and> e = T + unat (timer_init_tick (tm u))"
    "(u, e) \<in> set q \<Longrightarrow> \<not> may_stop u \<Longrightarrow> e \<le> T \<Longrightarrow> u \<in> set fired"
    "(u, e) \<in> set q \<Longrightarrow> \<not> may_stop u \<Longrightarrow> T < e \<Longrightarrow> (u, e) \<in> set q'"
    "u \<in> set fired \<Longrightarrow> \<exists>e\<le>T. (u, e) \<in> set q"
    "u \<in> set fired \<Longrightarrow> \<not> may_stop u \<Longrightarrow> is_periodic (tm u) \<Longrightarrow> (u, T + unat (timer_init_tick (tm u))) \<in> set q'"
proof -
  have "q_due T q' = []" using C by (simp add: check_spec_def)
  then show "(u, e) \<in> set q' \<Longrightarrow> T < e" by (auto simp: q_due_def filter_empty_conv)
  show "(u, e) \<in> set q' \<Longrightarrow> (u, e) \<in> set q \<or> u \<in> set fired \<and> is_periodic (tm u) \<and> e = T + unat (timer_init_tick (tm u))"
    using C unfolding check_spec_def by blast
  have "(u, e) \<in> set q \<longrightarrow> \<not> may_stop u \<longrightarrow> (if e \<le> T then u \<in> set fired else (u, e) \<in> set q')"
    using C unfolding check_spec_def by blast
  then show "(u, e) \<in> set q \<Longrightarrow> \<not> may_stop u \<Longrightarrow> e \<le> T \<Longrightarrow> u \<in> set fired"
    "(u, e) \<in> set q \<Longrightarrow> \<not> may_stop u \<Longrightarrow> T < e \<Longrightarrow> (u, e) \<in> set q'" by (simp_all split: if_splits)
  have sub: "subseq fired (map fst (q_due T q))" using C unfolding check_spec_def by blast
  show "\<exists>e\<le>T. (u, e) \<in> set q" if "u \<in> set fired"
  proof (rule list_emb_set [OF sub that])
    fix y
    assume "y \<in> set (map fst (q_due T q))" "u = y"
    then show ?thesis by (auto simp: q_due_def)
  qed
  show "u \<in> set fired \<Longrightarrow> \<not> may_stop u \<Longrightarrow> is_periodic (tm u) \<Longrightarrow> (u, T + unat (timer_init_tick (tm u))) \<in> set q'"
    using C unfolding check_spec_def by blast
qed

lemma q_due_insert: "T < e \<Longrightarrow> q_due T (q_insert t e q) = q_due T q"
  using filter_append [of "\<lambda>(_, e). e \<le> T" "takeWhile (\<lambda>(_, f). f \<le> e) q" "dropWhile (\<lambda>(_, f). f \<le> e) q"]
  by (simp add: q_due_def q_insert_def del: filter_append) simp

lemma q_due_filter: "q_due T (filter P q) = filter P (q_due T q)"
  by (simp add: q_due_def conj_commute)

lemma q_due_expire:
  "(is_periodic (timers s t) \<Longrightarrow> 0 < unat (timer_init_tick (timers s t))) \<Longrightarrow> q_due T (q_expire T t s q) = q_due T q"
  by (simp add: q_expire_def q_due_insert)

lemma set_q_expire: "set (q_expire T t s q) \<subseteq> insert (t, T + unat (timer_init_tick (timers s t))) (set q)"
  "set q \<subseteq> set (q_expire T t s q)"
  by (auto simp: q_expire_def)

lemma check_spec_none:
  assumes "q_due T q = []"
  shows "check_spec may_stop T tm q [] q"
  using assms by (auto simp: check_spec_def q_due_def filter_empty_conv)

lemma q_due_sorted:
  assumes "sorted (map snd ((t, e) # q))" "T < e"
  shows "q_due T ((t, e) # q) = []"
  using assms by (fastforce simp: q_due_def filter_empty_conv)

lemma check_spec_step:
  fixes s1 :: "'a timer_sys_scheme"
  assumes t: "e \<le> T" "t \<notin> fst ` set q"
    and P: "\<And>u f. \<not> may_stop u \<Longrightarrow> P (u, f)"
    and same: "\<And>u. timer_init_tick (timers s1 u) = timer_init_tick (tm u) \<and> is_periodic (timers s1 u) = is_periodic (tm u)"
      "\<And>u. timer_init_tick (tm' u) = timer_init_tick (tm u) \<and> is_periodic (tm' u) = is_periodic (tm u)"
    and act: "\<not> may_stop t \<Longrightarrow> is_activated (timers s1 t)"
    and init: "is_periodic (tm t) \<Longrightarrow> 0 < unat (timer_init_tick (tm t))"
    and rest: "check_spec may_stop T tm' (q_expire T t s1 (filter P q)) fired q'"
  shows "check_spec may_stop T tm ((t, e) # q) (t # fired) q'"
proof -
  let ?q = "q_expire T t s1 (filter P q)"
  note r = rest [unfolded check_spec_def]
  have due: "q_due T ?q = filter P (q_due T q)"
    using q_due_expire [of s1 t T "filter P q"] same(1) init by (simp add: q_due_filter)
  have sub: "subseq (map fst (filter P (q_due T q))) (map fst (q_due T q))"
    using subseq_map subseq_filter_left by blast
  have mem: "(u, f) \<in> set ?q \<Longrightarrow> (u, f) \<in> set q \<or>
      u = t \<and> is_periodic (tm t) \<and> f = T + unat (timer_init_tick (tm t))" for u f
    using same(1) by (auto simp: q_expire_def split: if_splits)
  have "subseq fired (map fst (q_due T q))"
    using subseq_order.trans [OF conjunct1 [OF r]] sub by (simp add: due)
  then have "subseq (t # fired) (map fst (q_due T ((t, e) # q)))" using t(1) by (simp add: q_due_def)
  moreover have "\<forall>u f. (u, f) \<in> set q' \<longrightarrow> (u, f) \<in> set ((t, e) # q) \<or>
      u \<in> set (t # fired) \<and> is_periodic (tm u) \<and> f = T + unat (timer_init_tick (tm u))"
    using r mem same(2) by fastforce
  moreover have "if f \<le> T then u \<in> set (t # fired) else (u, f) \<in> set q'"
    if m: "(u, f) \<in> set ((t, e) # q)" and u: "\<not> may_stop u" for u f
  proof (cases "u = t")
    case True
    then show ?thesis using m t by force
  next
    case False
    then have "(u, f) \<in> set ?q" using m P [OF u] set_q_expire(2) [of "filter P q" T t s1] by auto
    then show ?thesis using r u by fastforce
  qed
  moreover have "(u, T + unat (timer_init_tick (tm u))) \<in> set q'"
    if u: "u \<in> set (t # fired)" "\<not> may_stop u" "is_periodic (tm u)" for u
  proof (cases "u \<in> set fired")
    case True
    then show ?thesis using r u same(2) [of u] by fastforce
  next
    case False
    then have [simp]: "u = t" using u(1) by simp
    have "(t, T + unat (timer_init_tick (tm t))) \<in> set ?q"
      using act u same(1) [of t] by (simp add: q_expire_def)
    then show ?thesis using r u init by fastforce
  qed
  moreover have "q_due T q' = []" using r by blast
  ultimately show ?thesis unfolding check_spec_def by blast
qed

text \<open>
  What the check relies on: the timeout functions may stop other timers, those that \<open>may_stop\<close> names,
  and leave the rest of the timers alone; they keep the invariant of the system they are part of,
  which is \<open>I\<close> between calls, \<open>B t\<close> when the function of \<open>t\<close> is about to be called and \<open>A t\<close> when it
  has returned.
\<close>

locale timer_client =
  fixes H N :: "node set"
    and call :: "timer_ref \<Rightarrow> 'a timer_sys_scheme \<Rightarrow> 'a timer_sys_scheme option"
    and I :: "nat \<Rightarrow> timer_queue \<Rightarrow> 'a timer_sys_scheme \<Rightarrow> bool"
    and B A :: "timer_ref \<Rightarrow> nat \<Rightarrow> timer_queue \<Rightarrow> 'a timer_sys_scheme \<Rightarrow> bool"
    and may_stop :: "timer_ref \<Rightarrow> bool"
  assumes related: "I T q s \<Longrightarrow> \<exists>L D. timer_rel H N L D 1 T q s" "A t T q s \<Longrightarrow> \<exists>L D. timer_rel H N L (insert t D) 1 T q s"
    and periods: "I T q s \<or> A v T q s \<Longrightarrow> is_periodic (timers s t) \<Longrightarrow>
      0 < unat (timer_init_tick (timers s t)) \<and> unat (timer_init_tick (timers s t)) < half_ticks"
    and taken: "I T ((t, e) # q) s \<Longrightarrow> e \<le> T \<Longrightarrow> B t T q (rt_timer_remove t s)"
    and called: "B t T q s \<Longrightarrow> \<exists>s' P. call t s = Some s' \<and> A t T (filter P q) s' \<and>
      (\<forall>u e. \<not> may_stop u \<longrightarrow> P (u, e)) \<and>
      (\<forall>u. timer_init_tick (timers s' u) = timer_init_tick (timers s u) \<and>
           is_periodic (timers s' u) = is_periodic (timers s u)) \<and>
      (\<not> may_stop t \<longrightarrow> is_activated (timers s' t) = is_activated (timers s t))"
    and expired: "A t T q s \<Longrightarrow> timer_expire t s = Some s' \<Longrightarrow> I T (q_expire T t s q) s'"
begin

lemma expire_returns:
  assumes "A t T q s"
  obtains s' where "timer_expire t s = Some s'" "I T (q_expire T t s q) s'"
    "\<And>u. timer_init_tick (timers s' u) = timer_init_tick (timers s u) \<and> is_periodic (timers s' u) = is_periodic (timers s u)"
proof (cases "is_periodic (timers s t) \<and> is_activated (timers s t)")
  case True
  obtain L D where R: "timer_rel H N L (insert t D) 1 T q s" using related(2) [OF assms] by blast
  have "t \<notin> fst ` set q" using timer_relD(12) [OF R] by force
  note R1 = timer_rel_deactivate [OF R this]
  obtain s' where s': "rt_timer_start t (upd_timer t deactivate s) = Some s'"
    "timers s' = (timers (upd_timer t deactivate s))(t := timers s' t)"
    "timer_init_tick (timers s' t) = timer_init_tick (timers (upd_timer t deactivate s) t)"
    "is_periodic (timers s' t) = is_periodic (timers (upd_timer t deactivate s) t)"
    by (rule timer_rel_start [OF R1, of t]) (use periods [OF disjI2 [OF assms], of t] True in simp_all)
  have x: "timer_expire t s = Some s'" using s'(1) True by (simp add: timer_expire_def)
  show ?thesis
  proof (rule that [OF x expired [OF assms x]])
    show "timer_init_tick (timers s' u) = timer_init_tick (timers s u) \<and> is_periodic (timers s' u) = is_periodic (timers s u)" for u
      using s'(2-4) by (cases "u = t") (metis fun_upd_apply upd_timer_simps(1) timer_flag_simps(4,8))+
  qed
next
  case False
  then have x: "timer_expire t s = Some (upd_timer t deactivate s)" by (auto simp: timer_expire_def)
  show ?thesis by (rule that [OF x expired [OF assms x]]) simp
qed

lemma check_returns:
  assumes "I T q s"
  shows "\<exists>fired q' s'. timer_check_loop call (rt_tick s) s = Some (fired, s') \<and> I T q' s' \<and>
    check_spec may_stop T (timers s) q fired q' \<and>
    (\<forall>u. timer_init_tick (timers s' u) = timer_init_tick (timers s u) \<and> is_periodic (timers s' u) = is_periodic (timers s u))"
  using assms
proof (induction "length (q_due T q)" arbitrary: q s rule: less_induct)
  case less
  obtain L D where R: "timer_rel H N L D 1 T q s" using related(1) [OF less.prems] by blast
  show ?case
  proof (cases q)
    case Nil
    then have "timer_check_loop call (rt_tick s) s = Some ([], s)"
      using reps_isempty [OF timer_relD(1,2) [OF R]] timer_relD(4) [OF R]
      by (subst timer_check_loop.simps) simp
    then show ?thesis using less.prems Nil check_spec_none [of T q] by (auto simp: q_due_def)
  next
    case (Cons te q1)
    obtain t e where [simp]: "te = (t, e)" by fastforce
    have first: "\<not> rt_list_isempty Timer_list (list_links s)" "list_next (list_links s) Timer_list = Row t"
      using reps_isempty [OF timer_relD(1,2) [OF R]] reps_next [OF timer_relD(1,2) [OF R]]
        timer_relD(4) [OF R] Cons by simp_all
    have te: "(t, e) \<in> set q" using Cons by simp
    have due: "rt_tick s - timeout_tick (timers s t) < RT_TICK_MAX div 2 \<longleftrightarrow> e \<le> T"
      using tick_due [of T e] timer_relD(5) [OF R] timer_relD(7-9) [OF R te] by simp
    show ?thesis
    proof (cases "e \<le> T")
      case False
      then have "timer_check_loop call (rt_tick s) s = Some ([], s)"
        using first due by (subst timer_check_loop.simps) simp
      moreover have "q_due T q = []" using q_due_sorted timer_relD(6) [OF R] Cons False by simp
      ultimately show ?thesis using less.prems check_spec_none by blast
    next
      case True
      have t: "t \<notin> fst ` set q1" using timer_rel_distinct [OF R] Cons by simp
      have act: "is_activated (timers s t)" using timer_relD(10,12) [OF R] te by force
      have I1: "B t T q1 (rt_timer_remove t s)" using taken less.prems Cons True by simp
      obtain s1 P where s1: "call t (rt_timer_remove t s) = Some s1" "A t T (filter P q1) s1"
        "\<And>u e. \<not> may_stop u \<Longrightarrow> P (u, e)"
        "\<And>u. timer_init_tick (timers s1 u) = timer_init_tick (timers s u) \<and> is_periodic (timers s1 u) = is_periodic (timers s u)"
        "\<not> may_stop t \<Longrightarrow> is_activated (timers s1 t)"
        using called [OF I1] act by auto
      obtain s2 where s2: "timer_expire t s1 = Some s2" "I T (q_expire T t s1 (filter P q1)) s2"
        "\<And>u. timer_init_tick (timers s2 u) = timer_init_tick (timers s1 u) \<and> is_periodic (timers s2 u) = is_periodic (timers s1 u)"
        using expire_returns [OF s1(2)] by blast
      have init: "is_periodic (timers s t) \<Longrightarrow> 0 < unat (timer_init_tick (timers s t))"
        using periods less.prems by blast
      have "length (q_due T (q_expire T t s1 (filter P q1))) \<le> length (q_due T q1)"
        using q_due_expire [of s1 t T "filter P q1"] init s1(4) [of t] by (simp add: q_due_filter)
      moreover have "length (q_due T q) = Suc (length (q_due T q1))" using Cons True by (simp add: q_due_def)
      ultimately obtain fired q' s' where rec: "timer_check_loop call (rt_tick s2) s2 = Some (fired, s')" "I T q' s'"
        "check_spec may_stop T (timers s2) (q_expire T t s1 (filter P q1)) fired q'"
        "\<And>u. timer_init_tick (timers s' u) = timer_init_tick (timers s2 u) \<and> is_periodic (timers s' u) = is_periodic (timers s2 u)"
        using less.hyps [OF _ s2(2)] by auto
      have "rt_tick s1 = of_nat T" "rt_tick s2 = of_nat T"
        using related(2) [OF s1(2)] related(1) [OF s2(2)] timer_relD(5) by blast+
      then have "timer_check_loop call (rt_tick s) s = Some (t # fired, s')"
        using first due True s1(1) s2(1) rec(1) by (subst timer_check_loop.simps) simp
      moreover have "check_spec may_stop T (timers s) ((t, e) # q1) (t # fired) q'"
        by (rule check_spec_step [OF True t s1(3,4) _ s1(5) init rec(3)]) (use s1(4) s2(3) in simp_all)
      moreover have "timer_init_tick (timers s' u) = timer_init_tick (timers s u) \<and>
          is_periodic (timers s' u) = is_periodic (timers s u)" for u
        using rec(4) s1(4) s2(3) by simp
      ultimately show ?thesis using rec(2) Cons by auto
    qed
  qed
qed

end

end
