(* ===== verification/Find_First_Set.thy ===== *)
theory Find_First_Set
  imports Prelude
begin

text \<open>
  The search for the first set bit, \<open>__rt_ffs\<close> of \<open>rt-thread/kernel/kservice.c\<close>, with which the scheduler
  finds the highest occupied priority: a table for bytes, applied to the lowest byte that is not zero.
  \<open>rt_ffs_lowest\<close> shows that it is one more than the number of the lowest set bit.
\<close>

definition lowest_bit_bitmap :: "nat list" where
  "lowest_bit_bitmap =
     [0, 0, 1, 0, 2, 0, 1, 0, 3, 0, 1, 0, 2, 0, 1, 0,
      4, 0, 1, 0, 2, 0, 1, 0, 3, 0, 1, 0, 2, 0, 1, 0,
      5, 0, 1, 0, 2, 0, 1, 0, 3, 0, 1, 0, 2, 0, 1, 0,
      4, 0, 1, 0, 2, 0, 1, 0, 3, 0, 1, 0, 2, 0, 1, 0,
      6, 0, 1, 0, 2, 0, 1, 0, 3, 0, 1, 0, 2, 0, 1, 0,
      4, 0, 1, 0, 2, 0, 1, 0, 3, 0, 1, 0, 2, 0, 1, 0,
      5, 0, 1, 0, 2, 0, 1, 0, 3, 0, 1, 0, 2, 0, 1, 0,
      4, 0, 1, 0, 2, 0, 1, 0, 3, 0, 1, 0, 2, 0, 1, 0,
      7, 0, 1, 0, 2, 0, 1, 0, 3, 0, 1, 0, 2, 0, 1, 0,
      4, 0, 1, 0, 2, 0, 1, 0, 3, 0, 1, 0, 2, 0, 1, 0,
      5, 0, 1, 0, 2, 0, 1, 0, 3, 0, 1, 0, 2, 0, 1, 0,
      4, 0, 1, 0, 2, 0, 1, 0, 3, 0, 1, 0, 2, 0, 1, 0,
      6, 0, 1, 0, 2, 0, 1, 0, 3, 0, 1, 0, 2, 0, 1, 0,
      4, 0, 1, 0, 2, 0, 1, 0, 3, 0, 1, 0, 2, 0, 1, 0,
      5, 0, 1, 0, 2, 0, 1, 0, 3, 0, 1, 0, 2, 0, 1, 0,
      4, 0, 1, 0, 2, 0, 1, 0, 3, 0, 1, 0, 2, 0, 1, 0]"

definition rt_ffs :: "u32 \<Rightarrow> u32" where
  "rt_ffs value =
     (if value = 0 then 0
      else if value AND 0xff \<noteq> 0 then of_nat (lowest_bit_bitmap ! unat (value AND 0xff)) + 1
      else if value AND 0xff00 \<noteq> 0
        then of_nat (lowest_bit_bitmap ! unat (drop_bit 8 (value AND 0xff00))) + 9
      else if value AND 0xff0000 \<noteq> 0
        then of_nat (lowest_bit_bitmap ! unat (drop_bit 16 (value AND 0xff0000))) + 17
      else of_nat (lowest_bit_bitmap ! unat (drop_bit 24 (value AND 0xff000000))) + 25)"

definition is_lowest :: "int \<Rightarrow> nat \<Rightarrow> bool" where
  "is_lowest n k \<longleftrightarrow> n mod 2 ^ k = 0 \<and> n div 2 ^ k mod 2 = 1 \<and> k < 8"

fun all_lowest :: "int \<Rightarrow> nat list \<Rightarrow> bool" where
  "all_lowest n [] \<longleftrightarrow> True"
| "all_lowest n (k # ks) \<longleftrightarrow> is_lowest n k \<and> all_lowest (n + 1) ks"

lemma all_lowest_nth: "all_lowest n ks \<Longrightarrow> i < length ks \<Longrightarrow> is_lowest (n + int i) (ks ! i)"
proof (induction ks arbitrary: n i)
  case (Cons k ks)
  then show ?case by (cases i) (auto simp: algebra_simps dest: Cons.IH)
qed simp

lemma bitmap_table: "length lowest_bit_bitmap = 256" "all_lowest 1 (tl lowest_bit_bitmap)"
  by (simp add: lowest_bit_bitmap_def) code_simp

lemma bitmap_lowest:
  fixes w :: u32
  assumes "w \<noteq> 0" "unat w < 256"
  defines "k \<equiv> lowest_bit_bitmap ! unat w"
  shows "bit w k" "\<And>m. m < k \<Longrightarrow> \<not> bit w m" "k < 8"
proof -
  have "unat w \<noteq> 0" using assms(1) by (simp add: unat_eq_zero)
  then obtain i where i: "unat w = Suc i" using not0_implies_Suc by blast
  then have "is_lowest (1 + int i) (tl lowest_bit_bitmap ! i)"
    using all_lowest_nth bitmap_table assms(2) by simp
  then have "is_lowest (int (unat w)) k" using i assms(2) bitmap_table(1) by (simp add: k_def nth_tl)
  then have *: "int (unat w) mod 2 ^ k = 0" "int (unat w) div 2 ^ k mod 2 = 1" "k < 8"
    by (simp_all only: is_lowest_def)
  have "int (unat w mod 2 ^ k) = int 0" "int (unat w div 2 ^ k mod 2) = int 1"
    using *(1,2) by (simp_all only: zmod_int zdiv_int of_nat_power of_nat_numeral of_nat_0 of_nat_1)
  then have l: "unat w mod 2 ^ k = 0" "unat w div 2 ^ k mod 2 = 1" "k < 8"
    using *(3) by (simp_all only: of_nat_eq_iff)
  have b: "bit w n \<longleftrightarrow> odd (unat w div 2 ^ n)" for n
    using bit_iff_odd [of "unat w" n] by (simp add: bit_unsigned_iff)
  show "bit w k" "k < 8" using l by (auto simp: b odd_iff_mod_2_eq_one)
  show "\<not> bit w m" if "m < k" for m
  proof -
    obtain c where "unat w = 2 ^ k * c" using l(1) by (auto dest: mod_0_imp_dvd)
    moreover obtain j where "k = m + Suc j" using less_imp_Suc_add [OF \<open>m < k\<close>] by auto
    ultimately have "unat w = 2 ^ m * (2 ^ Suc j * c)" by (simp add: power_add mult.assoc)
    then have "unat w div 2 ^ m = 2 ^ Suc j * c" by simp
    then show ?thesis by (simp add: b)
  qed
qed

text \<open>The lowest bit set, counted from one.\<close>

definition byte_of :: "nat \<Rightarrow> u32 \<Rightarrow> u32" where
  "byte_of i w = drop_bit i (w AND push_bit i (mask 8))"

lemma bit_byte_of: "i \<le> 24 \<Longrightarrow> bit (byte_of i w) n \<longleftrightarrow> n < 8 \<and> bit w (i + n)"
  by (auto simp: byte_of_def bit_simps dest: bit_imp_le_length)

lemma byte_of_eq_0:
  "i \<le> 24 \<Longrightarrow> byte_of i w = 0 \<longleftrightarrow> (\<forall>n<8. \<not> bit w (i + n))"
  by (auto simp: bit_eq_iff bit_byte_of)

lemma masked_eq_0:
  assumes "i \<le> 24"
  shows "w AND push_bit i (mask 8) = 0 \<longleftrightarrow> byte_of i w = 0"
proof -
  have "w AND push_bit i (mask 8) = push_bit i (byte_of i w)"
    by (rule bit_word_eqI) (use assms in \<open>auto simp: bit_simps bit_byte_of\<close>)
  then show ?thesis by (metis byte_of_def drop_bit_of_0 push_bit_of_0)
qed

lemma ffs_byte:
  assumes i: "i \<le> 24" "byte_of i w \<noteq> 0" "\<And>m. m < i \<Longrightarrow> \<not> bit w m"
    and eq: "rt_ffs w = of_nat (lowest_bit_bitmap ! unat (byte_of i w)) + of_nat (Suc i)"
  shows "bit w (unat (rt_ffs w - 1)) \<and> (\<forall>m < unat (rt_ffs w - 1). \<not> bit w m)"
proof -
  let ?k = "lowest_bit_bitmap ! unat (byte_of i w)"
  have "byte_of i w = take_bit 8 (byte_of i w)"
    by (rule bit_word_eqI) (simp add: bit_take_bit_iff bit_byte_of [OF i(1)])
  then have "unat (byte_of i w) = take_bit 8 (unat (byte_of i w))" by (metis unsigned_take_bit_eq)
  then have "unat (byte_of i w) < 256" using take_bit_nat_less_exp [of 8 "unat (byte_of i w)"] by simp
  note k = bitmap_lowest [OF i(2) this]
  have "rt_ffs w - 1 = of_nat (?k + i)" using eq by simp
  moreover have "unat (of_nat (?k + i) :: u32) = ?k + i" using k(3) i(1) by (simp add: unat_of_nat del: of_nat_add)
  ultimately have u: "unat (rt_ffs w - 1) = ?k + i" by simp
  have "\<not> bit w m" if "m < ?k + i" for m
  proof (cases "m < i")
    case False
    then have "\<not> bit (byte_of i w) (m - i)" using k(2) [of "m - i"] that by simp
    then show ?thesis using False that k(3) by (simp add: bit_byte_of [OF i(1)])
  qed (rule i(3))
  moreover have "bit w (?k + i)" using k(1) by (simp add: bit_byte_of [OF i(1)] add.commute)
  ultimately show ?thesis by (simp add: u)
qed

lemma rt_ffs_lowest:
  assumes "w \<noteq> 0"
  shows "bit w (unat (rt_ffs w - 1))" "\<And>m. m < unat (rt_ffs w - 1) \<Longrightarrow> \<not> bit w m"
proof -
  have bytes: "w AND 0xff = byte_of 0 w" "drop_bit 8 w AND 0xff = byte_of 8 w"
    "drop_bit 16 w AND 0xff = byte_of 16 w" "drop_bit 24 w AND 0xff = byte_of 24 w"
    by (simp_all add: byte_of_def mask_eq_exp_minus_1)
  have zero: "w AND 0xff00 = 0 \<longleftrightarrow> byte_of 8 w = 0" "w AND 0xff0000 = 0 \<longleftrightarrow> byte_of 16 w = 0"
    "w AND 0xff000000 = 0 \<longleftrightarrow> byte_of 24 w = 0"
    using masked_eq_0 [of 8 w] masked_eq_0 [of 16 w] masked_eq_0 [of 24 w] by (simp_all add: mask_eq_exp_minus_1)
  have none: "\<not> bit w m" if "byte_of i w = 0" "i \<le> 24" "i \<le> m" "m < i + 8" for i m
    using that byte_of_eq_0 [of i w] by (metis le_add_diff_inverse less_diff_conv2 add.commute)
  have "bit w (unat (rt_ffs w - 1)) \<and> (\<forall>m < unat (rt_ffs w - 1). \<not> bit w m)"
  proof -
    consider "byte_of 0 w \<noteq> 0" | "byte_of 0 w = 0" "byte_of 8 w \<noteq> 0"
      | "byte_of 0 w = 0" "byte_of 8 w = 0" "byte_of 16 w \<noteq> 0"
      | "byte_of 0 w = 0" "byte_of 8 w = 0" "byte_of 16 w = 0" by blast
    then show ?thesis
    proof cases
      case 1
      then show ?thesis by (intro ffs_byte [of 0]) (simp_all add: rt_ffs_def bytes assms)
    next
      case 2
      then show ?thesis using none [of 0] none [of 8]
        by (intro ffs_byte [of 8]) (simp_all add: rt_ffs_def bytes zero assms)
    next
      case 3
      have "\<not> bit w m" if "m < 16" for m using none [of 0 m] none [of 8 m] 3 that by (cases "m < 8") auto
      then show ?thesis using 3
        by (intro ffs_byte [of 16]) (simp_all add: rt_ffs_def bytes zero assms)
    next
      case 4
      have low: "\<not> bit w m" if "m < 24" for m
        using none [of 0 m] none [of 8 m] none [of 16 m] 4 that by (cases "m < 8"; cases "m < 16") auto
      have "byte_of 24 w \<noteq> 0"
      proof
        assume "byte_of 24 w = 0"
        then have "\<not> bit w m" if "m < 32" for m using low [of m] none [of 24 m] that by (cases "m < 24") auto
        then have "w = 0" by (intro bit_word_eqI) simp
        then show False using assms by simp
      qed
      then show ?thesis using 4 low
        by (intro ffs_byte [of 24]) (simp_all add: rt_ffs_def bytes zero assms)
    qed
  qed
  then show "bit w (unat (rt_ffs w - 1))" "\<And>m. m < unat (rt_ffs w - 1) \<Longrightarrow> \<not> bit w m" by blast+
qed

end
