(* ===== verification/Scheduler.thy ===== *)
theory Scheduler
  imports Kernel_Timer Find_First_Set
begin

text \<open>
  The threads of the kernel and its scheduler: \<open>rt-thread/kernel/scheduler.c\<close>, \<open>thread.c\<close> and the tick
  interrupt of \<open>clock.c\<close>. Ready threads wait in one list per priority; a bitmap, of one level or of two
  depending on the number of priorities the kernel is configured for, tells which lists are occupied.
  The configured number \<open>RT_THREAD_PRIORITY_MAX\<close> is the argument \<open>pmax\<close>.

  An operation that ends in \<open>rt_schedule\<close> is modelled up to the switch; what a suspended thread does
  when it runs again is a definition of its own. \<open>None\<close> stands for a failed assertion, or for a
  scheduler that follows a list head that is not a thread.
\<close>

section \<open>Threads\<close>

datatype thread_stat = RT_THREAD_INIT | RT_THREAD_READY | RT_THREAD_SUSPEND | RT_THREAD_CLOSE

record rt_thread =
  thread_error :: int
  stat :: thread_stat
  current_priority :: byte
  init_priority :: byte
  number :: byte
  high_mask :: byte
  number_mask :: u32
  thread_init_tick :: u32
  remaining_tick :: u32
  system_object :: bool
  has_cleanup :: bool

record kernel = timer_sys +
  threads :: "nat \<Rightarrow> rt_thread"
  rt_current_thread :: "nat option"
  rt_current_priority :: byte
  ready_priority_group :: u32
  ready_table :: "nat \<Rightarrow> byte"
  scheduler_lock_nest :: "16 word"

definition upd_thread :: "nat \<Rightarrow> (rt_thread \<Rightarrow> rt_thread) \<Rightarrow> 'a kernel_scheme \<Rightarrow> 'a kernel_scheme" where
  "upd_thread t f s = s\<lparr>threads := (threads s)(t := f (threads s t))\<rparr>"

section \<open>The ready lists and their bitmap\<close>

definition rt_system_scheduler_init :: "nat \<Rightarrow> 'a kernel_scheme \<Rightarrow> 'a kernel_scheme" where
  "rt_system_scheduler_init pmax s =
     (let h = fold (\<lambda>offset. rt_list_init (Priority_table offset)) [0..<pmax] (list_links s)
      in s\<lparr>scheduler_lock_nest := 0, list_links := rt_list_init Defunct h,
           rt_current_priority := of_nat pmax - 1, rt_current_thread := None,
           ready_priority_group := 0,
           ready_table := (if pmax > 32 then (\<lambda>i. if i < 32 then 0 else ready_table s i) else ready_table s)\<rparr>)"

definition highest_ready_priority :: "nat \<Rightarrow> 'a kernel_scheme \<Rightarrow> u32" where
  "highest_ready_priority pmax s =
     (if pmax > 32
      then let num = rt_ffs (ready_priority_group s) - 1
           in push_bit 3 num + rt_ffs (ucast (ready_table s (unat num))) - 1
      else rt_ffs (ready_priority_group s) - 1)"

definition highest_ready_thread :: "nat \<Rightarrow> 'a kernel_scheme \<Rightarrow> nat option" where
  "highest_ready_thread pmax s =
     (case list_next (list_links s) (Priority_table (unat (highest_ready_priority pmax s))) of
        Tlist t \<Rightarrow> Some t
      | _ \<Rightarrow> None)"

definition rt_system_scheduler_start :: "nat \<Rightarrow> 'a kernel_scheme \<Rightarrow> 'a kernel_scheme option" where
  "rt_system_scheduler_start pmax s = do {
     to_thread \<leftarrow> highest_ready_thread pmax s;
     Some (s\<lparr>rt_current_thread := Some to_thread\<rparr>)
   }"

definition rt_schedule :: "nat \<Rightarrow> 'a kernel_scheme \<Rightarrow> 'a kernel_scheme option" where
  "rt_schedule pmax s =
     (if scheduler_lock_nest s = 0
      then do {
        to_thread \<leftarrow> highest_ready_thread pmax s;
        Some (if Some to_thread \<noteq> rt_current_thread s
              then s\<lparr>rt_current_priority := ucast (highest_ready_priority pmax s),
                     rt_current_thread := Some to_thread\<rparr>
              else s)
      }
      else Some s)"

definition rt_schedule_insert_thread :: "nat \<Rightarrow> nat \<Rightarrow> 'a kernel_scheme \<Rightarrow> 'a kernel_scheme" where
  "rt_schedule_insert_thread pmax t s =
     (let s1 = upd_thread t (\<lambda>x. x\<lparr>stat := RT_THREAD_READY\<rparr>) s;
          th = threads s1 t;
          s2 = s1\<lparr>list_links := rt_list_insert_before (Priority_table (unat (current_priority th))) (Tlist t) (list_links s1)\<rparr>;
          s3 = (if pmax > 32
                then s2\<lparr>ready_table := (ready_table s2)(unat (number th) := ready_table s2 (unat (number th)) OR high_mask th)\<rparr>
                else s2)
      in s3\<lparr>ready_priority_group := ready_priority_group s3 OR number_mask th\<rparr>)"

definition rt_schedule_remove_thread :: "nat \<Rightarrow> nat \<Rightarrow> 'a kernel_scheme \<Rightarrow> 'a kernel_scheme" where
  "rt_schedule_remove_thread pmax t s =
     (let th = threads s t;
          s1 = s\<lparr>list_links := rt_list_remove (Tlist t) (list_links s)\<rparr>
      in if rt_list_isempty (Priority_table (unat (current_priority th))) (list_links s1)
         then if pmax > 32
              then let s2 = s1\<lparr>ready_table := (ready_table s1)(unat (number th) :=
                               ready_table s1 (unat (number th)) AND NOT (high_mask th))\<rparr>
                   in if ready_table s2 (unat (number th)) = 0
                      then s2\<lparr>ready_priority_group := ready_priority_group s2 AND NOT (number_mask th)\<rparr>
                      else s2
              else s1\<lparr>ready_priority_group := ready_priority_group s1 AND NOT (number_mask th)\<rparr>
         else s1)"

definition rt_enter_critical :: "'a kernel_scheme \<Rightarrow> 'a kernel_scheme" where
  "rt_enter_critical s = s\<lparr>scheduler_lock_nest := scheduler_lock_nest s + 1\<rparr>"

definition rt_exit_critical :: "nat \<Rightarrow> 'a kernel_scheme \<Rightarrow> 'a kernel_scheme option" where
  "rt_exit_critical pmax s =
     (let n = scheduler_lock_nest s - 1
      in if sint n \<le> 0 then rt_schedule pmax (s\<lparr>scheduler_lock_nest := 0\<rparr>)
         else Some (s\<lparr>scheduler_lock_nest := n\<rparr>))"

section \<open>Threads: suspending and resuming\<close>

text \<open>The priority attributes of a thread, as \<open>rt_thread_startup\<close> and \<open>rt_thread_control\<close> compute them.\<close>

definition set_priority :: "nat \<Rightarrow> byte \<Rightarrow> rt_thread \<Rightarrow> rt_thread" where
  "set_priority pmax p th =
     (if pmax > 32
      then th\<lparr>current_priority := p, number := drop_bit 3 p, number_mask := push_bit (unat (drop_bit 3 p)) 1,
              high_mask := push_bit (unat (p AND 0x07)) 1\<rparr>
      else th\<lparr>current_priority := p, number_mask := push_bit (unat p) 1\<rparr>)"

definition rt_thread_suspend :: "nat \<Rightarrow> nat \<Rightarrow> 'a kernel_scheme \<Rightarrow> int \<times> 'a kernel_scheme" where
  "rt_thread_suspend pmax t s =
     (if stat (threads s t) \<noteq> RT_THREAD_READY then (- RT_ERROR, s)
      else
        let s1 = upd_thread t (\<lambda>x. x\<lparr>stat := RT_THREAD_SUSPEND\<rparr>) s;
            s2 = rt_schedule_remove_thread pmax t s1
        in (RT_EOK, snd (rt_timer_stop (Thread_timer t) s2)))"

definition rt_thread_resume :: "nat \<Rightarrow> nat \<Rightarrow> 'a kernel_scheme \<Rightarrow> int \<times> 'a kernel_scheme" where
  "rt_thread_resume pmax t s =
     (if stat (threads s t) \<noteq> RT_THREAD_SUSPEND then (- RT_ERROR, s)
      else
        let s1 = s\<lparr>list_links := rt_list_remove (Tlist t) (list_links s)\<rparr>;
            s2 = snd (rt_timer_stop (Thread_timer t) s1)
        in (RT_EOK, rt_schedule_insert_thread pmax t s2))"

definition rt_thread_timeout :: "nat \<Rightarrow> nat \<Rightarrow> 'a kernel_scheme \<Rightarrow> 'a kernel_scheme option" where
  "rt_thread_timeout pmax t s =
     (if stat (threads s t) \<noteq> RT_THREAD_SUSPEND then None
      else
        let s1 = upd_thread t (\<lambda>x. x\<lparr>thread_error := - RT_ETIMEOUT\<rparr>) s;
            s2 = s1\<lparr>list_links := rt_list_remove (Tlist t) (list_links s1)\<rparr>
        in rt_schedule pmax (rt_schedule_insert_thread pmax t s2))"

text \<open>\<open>rt_thread_init\<close>: the stack, the entry point and the object name are not part of the model.\<close>

definition rt_thread_init :: "nat \<Rightarrow> nat \<Rightarrow> bool \<Rightarrow> byte \<Rightarrow> u32 \<Rightarrow> 'a kernel_scheme \<Rightarrow> 'a kernel_scheme option" where
  "rt_thread_init pmax t static priority tick s =
     (if unat priority \<ge> pmax then None
      else
        let s1 = s\<lparr>list_links := rt_list_init (Tlist t) (list_links s)\<rparr>;
            s2 = upd_thread t (\<lambda>x. x\<lparr>init_priority := priority, current_priority := priority,
                   thread_init_tick := tick, remaining_tick := tick, thread_error := RT_EOK,
                   stat := RT_THREAD_INIT, has_cleanup := False, system_object := static\<rparr>) s1
        in Some (rt_timer_init (Thread_timer t) 0 0 s2))"

definition rt_thread_startup :: "nat \<Rightarrow> nat \<Rightarrow> 'a kernel_scheme \<Rightarrow> 'a kernel_scheme option" where
  "rt_thread_startup pmax t s =
     (if stat (threads s t) \<noteq> RT_THREAD_INIT then None
      else
        let s1 = upd_thread t (\<lambda>x. (set_priority pmax (init_priority x) x)\<lparr>stat := RT_THREAD_SUSPEND\<rparr>) s;
            s2 = snd (rt_thread_resume pmax t s1)
        in if rt_current_thread s2 \<noteq> None then rt_schedule pmax s2 else Some s2)"

text \<open>Ending a thread. The object container, which \<open>rt_object_detach\<close> updates, is not modelled.\<close>

definition thread_close :: "nat \<Rightarrow> nat \<Rightarrow> 'a kernel_scheme \<Rightarrow> 'a kernel_scheme" where
  "thread_close pmax t s =
     upd_thread t (\<lambda>x. x\<lparr>stat := RT_THREAD_CLOSE\<rparr>)
       (rt_timer_detach (Thread_timer t) (rt_schedule_remove_thread pmax t s))"

definition to_defunct :: "nat \<Rightarrow> 'a kernel_scheme \<Rightarrow> 'a kernel_scheme" where
  "to_defunct t s = s\<lparr>list_links := rt_list_insert_after Defunct (Tlist t) (list_links s)\<rparr>"

definition rt_thread_exit :: "nat \<Rightarrow> 'a kernel_scheme \<Rightarrow> 'a kernel_scheme option" where
  "rt_thread_exit pmax s = do {
     t \<leftarrow> rt_current_thread s;
     let s1 = thread_close pmax t s;
     let s2 = (if system_object (threads s1 t) \<and> \<not> has_cleanup (threads s1 t) then s1 else to_defunct t s1);
     rt_schedule pmax s2
   }"

definition rt_thread_detach :: "nat \<Rightarrow> nat \<Rightarrow> 'a kernel_scheme \<Rightarrow> 'a kernel_scheme" where
  "rt_thread_detach pmax t s =
     (let s1 = thread_close pmax t s
      in if has_cleanup (threads s1 t) then to_defunct t s1 else s1)"

definition rt_thread_delete :: "nat \<Rightarrow> nat \<Rightarrow> 'a kernel_scheme \<Rightarrow> 'a kernel_scheme" where
  "rt_thread_delete pmax t s = to_defunct t (thread_close pmax t s)"

definition rt_thread_yield :: "nat \<Rightarrow> 'a kernel_scheme \<Rightarrow> 'a kernel_scheme option" where
  "rt_thread_yield pmax s = do {
     t \<leftarrow> rt_current_thread s;
     let h = list_links s;
     if stat (threads s t) = RT_THREAD_READY \<and> list_next h (Tlist t) \<noteq> list_prev h (Tlist t)
     then let h1 = rt_list_remove (Tlist t) h;
              h2 = rt_list_insert_before (Priority_table (unat (current_priority (threads s t)))) (Tlist t) h1
          in rt_schedule pmax (s\<lparr>list_links := h2\<rparr>)
     else Some s
   }"

text \<open>\<open>rt_thread_sleep\<close> up to the switch, and the part after it.\<close>

definition rt_thread_sleep :: "nat \<Rightarrow> u32 \<Rightarrow> 'a kernel_scheme \<Rightarrow> 'a kernel_scheme option" where
  "rt_thread_sleep pmax tick s = do {
     t \<leftarrow> rt_current_thread s;
     let s1 = snd (rt_thread_suspend pmax t s);
     let s2 = snd (snd (rt_timer_control (Thread_timer t) (CTRL_SET_TIME tick) s1));
     s3 \<leftarrow> rt_timer_start (Thread_timer t) s2;
     rt_schedule pmax s3
   }"

definition thread_sleep_return :: "nat \<Rightarrow> 'a kernel_scheme \<Rightarrow> 'a kernel_scheme" where
  "thread_sleep_return t s =
     (if thread_error (threads s t) = - RT_ETIMEOUT
      then upd_thread t (\<lambda>x. x\<lparr>thread_error := RT_EOK\<rparr>) s else s)"

text \<open>\<open>rt_thread_control\<close> with \<open>RT_THREAD_CTRL_CHANGE_PRIORITY\<close>.\<close>

definition change_priority :: "nat \<Rightarrow> nat \<Rightarrow> byte \<Rightarrow> 'a kernel_scheme \<Rightarrow> 'a kernel_scheme" where
  "change_priority pmax t p s =
     (if stat (threads s t) = RT_THREAD_READY
      then rt_schedule_insert_thread pmax t
             (upd_thread t (set_priority pmax p) (rt_schedule_remove_thread pmax t s))
      else upd_thread t (set_priority pmax p) s)"

datatype thread_ctrl = CTRL_STARTUP | CTRL_CLOSE | CTRL_CHANGE_PRIORITY byte

definition rt_thread_control :: "nat \<Rightarrow> nat \<Rightarrow> thread_ctrl \<Rightarrow> 'a kernel_scheme \<Rightarrow> 'a kernel_scheme option" where
  "rt_thread_control pmax t cmd s = (case cmd of
     CTRL_CHANGE_PRIORITY p \<Rightarrow> Some (change_priority pmax t p s)
   | CTRL_STARTUP \<Rightarrow> rt_thread_startup pmax t s
   | CTRL_CLOSE \<Rightarrow> Some (rt_thread_delete pmax t s))"

section \<open>Waiting for an object\<close>

text \<open>
  \<open>rt-thread/kernel/ipc.c\<close>: the list of the threads suspended on an object, in order of arrival or of
  priority. \<open>ipc_wait\<close> is how the operations that can block suspend the running thread: its error number is
  reset, and with a waiting time its timer is started.
\<close>

datatype ipc_flag = RT_IPC_FLAG_FIFO | RT_IPC_FLAG_PRIO

partial_function (option) ipc_seek :: "node \<Rightarrow> byte \<Rightarrow> node \<Rightarrow> 'a kernel_scheme \<Rightarrow> node option" where
  "ipc_seek lst prio n s =
     (if n = lst then Some lst
      else case n of
        Tlist sthread \<Rightarrow>
          (if prio < current_priority (threads s sthread) then Some (Tlist sthread)
           else ipc_seek lst prio (list_next (list_links s) (Tlist sthread)) s)
      | _ \<Rightarrow> None)"

definition rt_ipc_list_suspend :: "nat \<Rightarrow> nat \<Rightarrow> nat \<Rightarrow> ipc_flag \<Rightarrow> 'a kernel_scheme \<Rightarrow> 'a kernel_scheme option" where
  "rt_ipc_list_suspend pmax i t flag s =
     (let s1 = snd (rt_thread_suspend pmax t s)
      in do {
        n \<leftarrow> (case flag of
                RT_IPC_FLAG_FIFO \<Rightarrow> Some (Suspend_list i)
              | RT_IPC_FLAG_PRIO \<Rightarrow>
                  ipc_seek (Suspend_list i) (current_priority (threads s1 t)) (list_next (list_links s1) (Suspend_list i)) s1);
        Some (s1\<lparr>list_links := rt_list_insert_before n (Tlist t) (list_links s1)\<rparr>)
      })"

definition ipc_wait :: "nat \<Rightarrow> nat \<Rightarrow> ipc_flag \<Rightarrow> u32 \<Rightarrow> 'a kernel_scheme \<Rightarrow> 'a kernel_scheme option" where
  "ipc_wait pmax i flag time s = do {
     t \<leftarrow> rt_current_thread s;
     s1 \<leftarrow> rt_ipc_list_suspend pmax i t flag (upd_thread t (\<lambda>x. x\<lparr>thread_error := RT_EOK\<rparr>) s);
     s2 \<leftarrow> (if 0 < sint time
            then rt_timer_start (Thread_timer t) (snd (snd (rt_timer_control (Thread_timer t) (CTRL_SET_TIME time) s1)))
            else Some s1);
     rt_schedule pmax s2
   }"

definition rt_ipc_list_resume_links :: "nat \<Rightarrow> nat \<Rightarrow> 'a kernel_scheme \<Rightarrow> 'a kernel_scheme option" where
  "rt_ipc_list_resume_links pmax i s =
     (case list_next (list_links s) (Suspend_list i) of
        Tlist t \<Rightarrow> Some (snd (rt_thread_resume pmax t s))
      | _ \<Rightarrow> None)"

partial_function (option) rt_ipc_list_resume_all_links :: "nat \<Rightarrow> nat \<Rightarrow> 'a kernel_scheme \<Rightarrow> 'a kernel_scheme option" where
  "rt_ipc_list_resume_all_links pmax i s =
     (if rt_list_isempty (Suspend_list i) (list_links s) then Some s
      else case list_next (list_links s) (Suspend_list i) of
        Tlist t \<Rightarrow>
          rt_ipc_list_resume_all_links pmax i
            (snd (rt_thread_resume pmax t (upd_thread t (\<lambda>x. x\<lparr>thread_error := - RT_ERROR\<rparr>) s)))
      | _ \<Rightarrow> None)"

section \<open>The tick interrupt\<close>

text \<open>
  The timeout function of a thread's timer is \<open>rt_thread_timeout\<close>. Those of the application either leave
  the kernel alone or send messages: \<open>posts\<close> gives the queues to which one sends, and sending
  resumes the first thread that waits for the queue, if there is one.
\<close>

definition mq_send_wake :: "nat \<Rightarrow> nat \<Rightarrow> 'a kernel_scheme \<Rightarrow> 'a kernel_scheme option" where
  "mq_send_wake pmax i s =
     (if rt_list_isempty (Suspend_list i) (list_links s) then Some s
      else do { s1 \<leftarrow> rt_ipc_list_resume_links pmax i s; rt_schedule pmax s1 })"

fun mq_sends :: "nat \<Rightarrow> nat list \<Rightarrow> 'a kernel_scheme \<Rightarrow> 'a kernel_scheme option" where
  "mq_sends pmax [] s = Some s"
| "mq_sends pmax (i # is) s = do { s1 \<leftarrow> mq_send_wake pmax i s; mq_sends pmax is s1 }"

fun timeout_func :: "nat \<Rightarrow> (nat \<Rightarrow> 'a kernel_scheme \<Rightarrow> nat list) \<Rightarrow> timer_ref \<Rightarrow> 'a kernel_scheme \<Rightarrow>
    'a kernel_scheme option" where
  "timeout_func pmax posts (Thread_timer t) s = rt_thread_timeout pmax t s"
| "timeout_func pmax posts (App_timer i) s = mq_sends pmax (posts i s) s"

definition rt_tick_increase :: "nat \<Rightarrow> (nat \<Rightarrow> 'a kernel_scheme \<Rightarrow> nat list) \<Rightarrow> 'a kernel_scheme \<Rightarrow>
    (timer_ref list \<times> 'a kernel_scheme) option" where
  "rt_tick_increase pmax posts s = do {
     let s1 = s\<lparr>rt_tick := rt_tick s + 1\<rparr>;
     t \<leftarrow> rt_current_thread s1;
     let s2 = upd_thread t (\<lambda>x. x\<lparr>remaining_tick := remaining_tick x - 1\<rparr>) s1;
     s3 \<leftarrow> (if remaining_tick (threads s2 t) = 0
            then rt_thread_yield pmax (upd_thread t (\<lambda>x. x\<lparr>remaining_tick := thread_init_tick x\<rparr>) s2)
            else Some s2);
     rt_timer_check (timeout_func pmax posts) s3
   }"

end
