(* ===== verification/Ready_Lists.thy ===== *)
theory Ready_Lists
  imports Scheduler
begin

text \<open>
  The invariant of the scheduler, \<open>sched_ok\<close>: which list each thread is linked into depends on its state
  (a ready thread is in the list of its priority, a suspended one at most in the list of an object, a
  closed one at most among the defunct threads), the attributes of a thread belong to its priority, and the
  bitmap marks exactly the occupied priorities, for both layouts of the bitmap. Every operation on the
  lists keeps it, and \<open>rt_schedule\<close> picks the first thread of the highest priority.
\<close>

section \<open>The bitmap of the occupied priorities\<close>

definition bitmap_ok :: "nat \<Rightarrow> (nat \<Rightarrow> bool) \<Rightarrow> u32 \<Rightarrow> (nat \<Rightarrow> byte) \<Rightarrow> bool" where
  "bitmap_ok pmax occ g tb \<longleftrightarrow>
     (if pmax > 32
      then (\<forall>i<32. \<forall>j<8. bit (tb i) j \<longleftrightarrow> 8 * i + j < pmax \<and> occ (8 * i + j)) \<and>
           (\<forall>i<32. bit g i \<longleftrightarrow> tb i \<noteq> 0)
      else \<forall>p<32. bit g p \<longleftrightarrow> p < pmax \<and> occ p)"

text \<open>The attributes of a thread are those of its priority.\<close>

definition masks_ok :: "nat \<Rightarrow> rt_thread \<Rightarrow> bool" where
  "masks_ok pmax th \<longleftrightarrow> unat (current_priority th) < pmax \<and> th = set_priority pmax (current_priority th) th"

lemma bit_one_hot: "bit (2 ^ n :: 'a::len word) m \<longleftrightarrow> m = n \<and> n < LENGTH('a)"
  by (auto simp: bit_exp_iff)

lemma byte_nonzero: "(w :: byte) \<noteq> 0 \<longleftrightarrow> (\<exists>j<8. bit w j)"
  using bit_imp_le_length [of w] by (auto simp: bit_eq_iff)

lemma masks_small:
  assumes "masks_ok pmax th" "pmax \<le> 32"
  shows "bit (number_mask th) m \<longleftrightarrow> m = unat (current_priority th)"
  using assms by (auto simp: masks_ok_def set_priority_def bit_one_hot dest!: arg_cong [of _ _ number_mask])

lemma masks_large:
  assumes "masks_ok pmax th" "pmax > 32"
  shows "unat (number th) = unat (current_priority th) div 8"
    "bit (number_mask th) m \<longleftrightarrow> m = unat (current_priority th) div 8"
    "bit (high_mask th) m \<longleftrightarrow> m = unat (current_priority th) mod 8"
    "unat (current_priority th) div 8 < 32"
proof -
  let ?p = "current_priority th"
  have "?p AND 7 = take_bit 3 ?p" by (simp add: take_bit_eq_mask mask_eq_exp_minus_1)
  moreover have p256: "unat ?p < 256" using unsigned_less [of ?p] by simp
  ultimately have p: "unat (drop_bit 3 ?p) = unat ?p div 8" "unat (?p AND 7) = unat ?p mod 8"
    by (simp_all add: unsigned_drop_bit_eq drop_bit_eq_div [where 'a = nat] unsigned_take_bit_eq take_bit_eq_mod [where 'a = nat])
  have eq: "th = set_priority pmax ?p th" using assms(1) by (simp add: masks_ok_def)
  have th: "number th = drop_bit 3 ?p" "number_mask th = push_bit (unat (drop_bit 3 ?p)) 1"
    "high_mask th = push_bit (unat (?p AND 7)) 1"
    using arg_cong [OF eq, of number] arg_cong [OF eq, of number_mask] arg_cong [OF eq, of high_mask] assms(2)
    by (simp_all add: set_priority_def)
  show lt: "unat ?p div 8 < 32" using p256 by simp
  show "unat (number th) = unat ?p div 8" "bit (number_mask th) m \<longleftrightarrow> m = unat ?p div 8"
    "bit (high_mask th) m \<longleftrightarrow> m = unat ?p mod 8"
    using lt by (auto simp: th p bit_one_hot)
qed


lemma split_priority: "j < 8 \<Longrightarrow> 8 * i + j = p \<longleftrightarrow> i = p div 8 \<and> j = p mod 8" for i j p :: nat
  by auto

lemma bitmap_insert:
  assumes B: "bitmap_ok pmax occ g tb" and m: "masks_ok pmax th"
  shows "bitmap_ok pmax (occ(unat (current_priority th) := True)) (g OR number_mask th)
    (if pmax > 32 then tb(unat (number th) := tb (unat (number th)) OR high_mask th) else tb)"
proof (cases "pmax > 32")
  case False
  then show ?thesis using B m masks_small [OF m] by (auto simp: bitmap_ok_def bit_or_iff masks_ok_def)
next
  case True
  note M = masks_large [OF m True]
  let ?p = "unat (current_priority th)"
  let ?tb = "tb(?p div 8 := tb (?p div 8) OR high_mask th)"
  have tb: "bit (?tb i) j \<longleftrightarrow> bit (tb i) j \<or> 8 * i + j = ?p" if "j < 8" for i j
    using that M(3) by (auto simp: bit_or_iff split_priority)
  have "?tb i \<noteq> 0 \<longleftrightarrow> tb i \<noteq> 0 \<or> i = ?p div 8" for i
    unfolding byte_nonzero using tb by (metis mod_less_divisor split_priority zero_less_numeral)
  then show ?thesis
    using B m True M tb by (auto simp: bitmap_ok_def bit_or_iff masks_ok_def)
qed

lemma bitmap_remove:
  assumes B: "bitmap_ok pmax occ g tb" and m: "masks_ok pmax th"
  defines "tb' \<equiv> tb(unat (number th) := tb (unat (number th)) AND NOT (high_mask th))"
  shows "pmax \<le> 32 \<Longrightarrow> bitmap_ok pmax (occ(unat (current_priority th) := False)) (g AND NOT (number_mask th)) tb"
    and "pmax > 32 \<Longrightarrow> bitmap_ok pmax (occ(unat (current_priority th) := False))
      (if tb' (unat (number th)) = 0 then g AND NOT (number_mask th) else g) tb'"
proof -
  show "bitmap_ok pmax (occ(unat (current_priority th) := False)) (g AND NOT (number_mask th)) tb" if "pmax \<le> 32"
    using B masks_small [OF m that] that by (auto simp: bitmap_ok_def bit_and_iff bit_not_iff)
  show "bitmap_ok pmax (occ(unat (current_priority th) := False))
      (if tb' (unat (number th)) = 0 then g AND NOT (number_mask th) else g) tb'" if True: "pmax > 32"
  proof -
    note M = masks_large [OF m True]
    let ?p = "unat (current_priority th)"
    have tb: "bit (tb' i) j \<longleftrightarrow> bit (tb i) j \<and> 8 * i + j \<noteq> ?p" if "j < 8" for i j
      using that M(1,3) by (auto simp: tb'_def bit_and_iff bit_not_iff split_priority)
    have other: "tb' i = tb i" if "i \<noteq> ?p div 8" for i using that M(1) by (simp add: tb'_def)
    have some: "tb' (?p div 8) \<noteq> 0 \<Longrightarrow> tb (?p div 8) \<noteq> 0" using tb unfolding byte_nonzero by blast
    have "bit (if tb' (?p div 8) = 0 then g AND NOT (number_mask th) else g) i \<longleftrightarrow> tb' i \<noteq> 0" if "i < 32" for i
      using B True that M(2) [of i] other [of i] some
      by (cases "i = ?p div 8") (auto simp: bitmap_ok_def bit_and_iff bit_not_iff)
    then show ?thesis using B True M(1) tb by (auto simp: bitmap_ok_def)
  qed
qed

lemma highest_of_bitmap:
  fixes s :: "'a kernel_scheme"
  assumes B: "bitmap_ok pmax occ (ready_priority_group s) (ready_table s)" and p: "p < pmax" "occ p" "pmax \<le> 256"
  defines "h \<equiv> unat (highest_ready_priority pmax s)"
  shows "occ h" "h < pmax" "h \<le> p"
proof -
  let ?g = "ready_priority_group s" and ?tb = "ready_table s"
  have "occ h \<and> h < pmax \<and> h \<le> p"
  proof (cases "pmax > 32")
    case False
    then have bits: "bit ?g n \<longleftrightarrow> n < pmax \<and> occ n" if "n < 32" for n using B that by (simp add: bitmap_ok_def)
    then have "bit ?g p" using p False by simp
    then have "?g \<noteq> 0" by auto
    note f = rt_ffs_lowest [OF this]
    have h: "h = unat (rt_ffs ?g - 1)" using False by (simp add: h_def highest_ready_priority_def)
    have "h < 32" using bit_imp_le_length [OF f(1)] h by simp
    then show ?thesis using f bits [of h] \<open>bit ?g p\<close> h by (metis not_less)
  next
    case True
    have tb: "bit (?tb i) j \<longleftrightarrow> 8 * i + j < pmax \<and> occ (8 * i + j)" if "i < 32" "j < 8" for i j
      using B True that by (simp add: bitmap_ok_def)
    have g: "bit ?g i \<longleftrightarrow> ?tb i \<noteq> 0" if "i < 32" for i using B True that by (simp add: bitmap_ok_def)
    have p8: "p div 8 < 32" using p by simp
    have tp: "bit (?tb (p div 8)) (p mod 8)" using tb [OF p8, of "p mod 8"] p by simp
    then have gp: "bit ?g (p div 8)" using g [OF p8] by auto
    then have "?g \<noteq> 0" by auto
    note f = rt_ffs_lowest [OF this]
    let ?n = "unat (rt_ffs ?g - 1)"
    let ?b = "ucast (?tb ?n) :: u32"
    have n: "?n < 32" "?n \<le> p div 8" using bit_imp_le_length [OF f(1)] f(2) gp by (auto simp: not_less [symmetric])
    then have "?tb ?n \<noteq> 0" using f(1) g by simp
    then obtain j0 where "j0 < 8" "bit (?tb ?n) j0" using byte_nonzero by blast
    then have "bit ?b j0" by (simp add: bit_ucast_iff)
    then have "?b \<noteq> 0" by auto
    note e = rt_ffs_lowest [OF this]
    let ?j = "unat (rt_ffs ?b - 1)"
    have j: "?j < 8" "bit (?tb ?n) ?j" using e(1) by (auto simp: bit_ucast_iff dest: bit_imp_le_length)
    have "highest_ready_priority pmax s = push_bit 3 (rt_ffs ?g - 1) + (rt_ffs ?b - 1)"
      using True by (simp add: highest_ready_priority_def Let_def)
    also have "\<dots> = of_nat (8 * ?n + ?j)" by (simp add: push_bit_eq_mult)
    finally have h: "h = 8 * ?n + ?j" unfolding h_def using n j by (simp only:) (simp add: unat_of_nat del: of_nat_add of_nat_mult)
    have "h \<le> p"
    proof (cases "?n = p div 8")
      case True
      then have "\<not> p mod 8 < ?j" using e(2) [of "p mod 8"] tp by (auto simp: bit_ucast_iff)
      then show ?thesis using True h mult_div_mod_eq [of 8 p] by linarith
    next
      case False
      then have "?n + 1 \<le> p div 8" using n(2) by simp
      then have "8 * ?n + 8 \<le> 8 * (p div 8)" by linarith
      moreover have "8 * (p div 8) \<le> p" by simp
      ultimately show ?thesis using j(1) h by linarith
    qed
    then show ?thesis using tb [OF n(1) j(1)] j(2) h by simp
  qed
  then show "occ h" "h < pmax" "h \<le> p" by blast+
qed

section \<open>The lists of the scheduler\<close>

definition heads :: "nat \<Rightarrow> node set" where
  "heads pmax = {Timer_list, Defunct} \<union> Priority_table ` {..<pmax} \<union> range Suspend_list"

definition nodes :: "node set" where
  "nodes = range Row \<union> range Tlist"

text \<open>
  Where the threads are: a thread is in the ready list of its priority exactly when it is ready,
  only suspended threads wait for objects, only closed ones are defunct. The threads in \<open>X\<close> are being
  moved: their state and their place need not agree yet.
\<close>

definition placed :: "nat \<Rightarrow> nat set \<Rightarrow> (node \<Rightarrow> node list) \<Rightarrow> (nat \<Rightarrow> rt_thread) \<Rightarrow> bool" where
  "placed pmax X L th \<longleftrightarrow>
     (\<forall>t p. p < pmax \<longrightarrow> Tlist t \<in> set (L (Priority_table p)) \<longrightarrow> unat (current_priority (th t)) = p) \<and>
     (\<forall>t. t \<notin> X \<longrightarrow> (stat (th t) = RT_THREAD_READY \<longleftrightarrow> (\<exists>p<pmax. Tlist t \<in> set (L (Priority_table p))))) \<and>
     (\<forall>t i. t \<notin> X \<longrightarrow> Tlist t \<in> set (L (Suspend_list i)) \<longrightarrow> stat (th t) = RT_THREAD_SUSPEND) \<and>
     (\<forall>t. t \<notin> X \<longrightarrow> Tlist t \<in> set (L Defunct) \<longrightarrow> stat (th t) = RT_THREAD_CLOSE)"

definition typed :: "nat \<Rightarrow> (node \<Rightarrow> node list) \<Rightarrow> bool" where
  "typed pmax L \<longleftrightarrow> set (L Timer_list) \<subseteq> range Row \<and> (\<forall>l\<in>heads pmax. l \<noteq> Timer_list \<longrightarrow> set (L l) \<subseteq> range Tlist)"

definition occupied :: "(node \<Rightarrow> node list) \<Rightarrow> nat \<Rightarrow> bool" where
  "occupied L p \<longleftrightarrow> L (Priority_table p) \<noteq> []"

definition sched_ok :: "nat \<Rightarrow> nat set \<Rightarrow> (node \<Rightarrow> node list) \<Rightarrow> 'a kernel_scheme \<Rightarrow> bool" where
  "sched_ok pmax X L s \<longleftrightarrow>
     pmax \<le> 256 \<and> reps (heads pmax) nodes (list_links s) L \<and> typed pmax L \<and>
     placed pmax X L (threads s) \<and>
     (\<forall>t. stat (threads s t) \<noteq> RT_THREAD_INIT \<longrightarrow> masks_ok pmax (threads s t)) \<and>
     bitmap_ok pmax (occupied L) (ready_priority_group s) (ready_table s)"

definition unlinked :: "nat \<Rightarrow> nat \<Rightarrow> (node \<Rightarrow> node list) \<Rightarrow> bool" where
  "unlinked pmax t L \<longleftrightarrow> (\<forall>l\<in>heads pmax. Tlist t \<notin> set (L l))"

lemma masks_ok_upd [simp]:
  "masks_ok pmax (th\<lparr>stat := x\<rparr>) = masks_ok pmax th" "masks_ok pmax (th\<lparr>thread_error := e\<rparr>) = masks_ok pmax th"
  "masks_ok pmax (th\<lparr>remaining_tick := n\<rparr>) = masks_ok pmax th"
  by (cases th; simp add: masks_ok_def set_priority_def)+

lemma masks_ok_set_priority: "unat p < pmax \<Longrightarrow> masks_ok pmax (set_priority pmax p th)"
  by (simp add: masks_ok_def set_priority_def)

lemma heads_simps [simp]:
  "Timer_list \<in> heads pmax" "Defunct \<in> heads pmax" "Suspend_list i \<in> heads pmax"
  "Priority_table p \<in> heads pmax \<longleftrightarrow> p < pmax" "Row u \<notin> heads pmax" "Tlist t \<notin> heads pmax"
  "Row u \<in> nodes" "Tlist t \<in> nodes"
  by (auto simp: heads_def nodes_def)

lemma upd_thread_simps [simp]:
  "threads (upd_thread t f s) = (threads s)(t := f (threads s t))" "list_links (upd_thread t f s) = list_links s"
  "timers (upd_thread t f s) = timers s" "rt_tick (upd_thread t f s) = rt_tick s"
  "ready_priority_group (upd_thread t f s) = ready_priority_group s" "ready_table (upd_thread t f s) = ready_table s"
  "rt_current_thread (upd_thread t f s) = rt_current_thread s"
  "scheduler_lock_nest (upd_thread t f s) = scheduler_lock_nest s"
  by (simp_all add: upd_thread_def)

lemma typedD: "typed pmax L \<Longrightarrow> l \<in> heads pmax \<Longrightarrow> l \<noteq> Timer_list \<Longrightarrow> n \<in> set (L l) \<Longrightarrow> \<exists>t. n = Tlist t"
  unfolding typed_def by blast

lemma sched_okD:
  assumes "sched_ok pmax X L s"
  shows "reps (heads pmax) nodes (list_links s) L" "typed pmax L" "placed pmax X L (threads s)"
    "stat (threads s t) \<noteq> RT_THREAD_INIT \<Longrightarrow> masks_ok pmax (threads s t)"
    "bitmap_ok pmax (occupied L) (ready_priority_group s) (ready_table s)" "pmax \<le> 256"
  using assms by (auto simp: sched_ok_def)

lemma placedD:
  assumes "placed pmax X L th"
  shows "p < pmax \<Longrightarrow> Tlist t \<in> set (L (Priority_table p)) \<Longrightarrow> unat (current_priority (th t)) = p"
    "t \<notin> X \<Longrightarrow> stat (th t) = RT_THREAD_READY \<longleftrightarrow> (\<exists>p<pmax. Tlist t \<in> set (L (Priority_table p)))"
    "t \<notin> X \<Longrightarrow> Tlist t \<in> set (L (Suspend_list i)) \<Longrightarrow> stat (th t) = RT_THREAD_SUSPEND"
    "t \<notin> X \<Longrightarrow> Tlist t \<in> set (L Defunct) \<Longrightarrow> stat (th t) = RT_THREAD_CLOSE"
  using assms unfolding placed_def by blast+

lemma placedI:
  assumes "\<And>t p. p < pmax \<Longrightarrow> Tlist t \<in> set (L (Priority_table p)) \<Longrightarrow> unat (current_priority (th t)) = p"
    "\<And>t. t \<notin> X \<Longrightarrow> stat (th t) = RT_THREAD_READY \<longleftrightarrow> (\<exists>p<pmax. Tlist t \<in> set (L (Priority_table p)))"
    "\<And>t i. t \<notin> X \<Longrightarrow> Tlist t \<in> set (L (Suspend_list i)) \<Longrightarrow> stat (th t) = RT_THREAD_SUSPEND"
    "\<And>t. t \<notin> X \<Longrightarrow> Tlist t \<in> set (L Defunct) \<Longrightarrow> stat (th t) = RT_THREAD_CLOSE"
  shows "placed pmax X L th"
  using assms unfolding placed_def by blast

lemma bitmap_cong:
  assumes "bitmap_ok pmax occ g tb" "\<And>p. p < pmax \<Longrightarrow> occ' p = occ p"
  shows "bitmap_ok pmax occ' g tb"
proof -
  have "(p < pmax \<and> occ' p) = (p < pmax \<and> occ p)" for p using assms(2) by blast
  then show ?thesis using assms(1) by (simp only: bitmap_ok_def)
qed

lemma sched_ok_mono: "sched_ok pmax X L s \<Longrightarrow> X \<subseteq> Y \<Longrightarrow> sched_ok pmax Y L s"
  by (auto simp: sched_ok_def placed_def)

text \<open>Changing a thread that is being moved, or only what the lists do not depend on.\<close>

lemma sched_ok_upd:
  assumes S: "sched_ok pmax X L s"
    and m: "stat (f (threads s t)) \<noteq> RT_THREAD_INIT \<Longrightarrow> masks_ok pmax (f (threads s t))"
    and p: "current_priority (f (threads s t)) = current_priority (threads s t) \<or> (\<forall>p<pmax. Tlist t \<notin> set (L (Priority_table p)))"
    and t: "t \<in> X \<or> stat (f (threads s t)) = stat (threads s t)"
  shows "sched_ok pmax X L (upd_thread t f s)"
proof -
  have "placed pmax X L ((threads s)(t := f (threads s t)))"
    using sched_okD(3) [OF S] p t unfolding placed_def by auto
  then show ?thesis using S m by (simp add: sched_ok_def)
qed

lemma sched_ok_settle:
  assumes S: "sched_ok pmax X L s" and t: "unlinked pmax t L" "stat (threads s t) \<noteq> RT_THREAD_READY"
  shows "sched_ok pmax (X - {t}) L s"
proof -
  have "placed pmax (X - {t}) L (threads s)"
    using sched_okD(3) [OF S] t unfolding placed_def unlinked_def by (auto simp: heads_def)
  then show ?thesis using S by (simp add: sched_ok_def)
qed

text \<open>A suspended thread is in no ready list.\<close>

lemma not_ready_list:
  "sched_ok pmax X L s \<Longrightarrow> t \<notin> X \<Longrightarrow> stat (threads s t) \<noteq> RT_THREAD_READY \<Longrightarrow> p < pmax \<Longrightarrow>
    Tlist t \<notin> set (L (Priority_table p))"
  using placedD(2) [OF sched_okD(3)] by blast

section \<open>Moving threads between the lists\<close>

definition L_remove :: "nat \<Rightarrow> (node \<Rightarrow> node list) \<Rightarrow> node \<Rightarrow> node list" where
  "L_remove t L = (\<lambda>l. removeAll (Tlist t) (L l))"

lemma L_remove_simps [simp]:
  "L_remove t L l = removeAll (Tlist t) (L l)" "unlinked pmax t (L_remove t L)"
  by (simp_all add: L_remove_def unlinked_def)

lemma typed_remove: "typed pmax L \<Longrightarrow> typed pmax (L_remove t L)"
  by (fastforce simp: typed_def)

lemma placed_remove: "placed pmax X L th \<Longrightarrow> placed pmax (insert t X) (L_remove t L) th"
  by (auto simp: placed_def)

lemma reps_L_remove:
  "reps (heads pmax) nodes h L \<Longrightarrow> reps (heads pmax) nodes (rt_list_remove (Tlist t) h) (L_remove t L)"
  using reps_remove [of "heads pmax" nodes h L "Tlist t"] by (simp add: L_remove_def)

lemma sched_ok_unlink:
  fixes s :: "'a kernel_scheme"
  assumes S: "sched_ok pmax X L s" and t: "\<forall>p<pmax. Tlist t \<notin> set (L (Priority_table p))"
  shows "sched_ok pmax (insert t X) (L_remove t L) (s\<lparr>list_links := rt_list_remove (Tlist t) (list_links s)\<rparr>)"
proof -
  have "bitmap_ok pmax (occupied (L_remove t L)) (ready_priority_group s) (ready_table s)"
    by (rule bitmap_cong [OF sched_okD(5) [OF S]]) (use t in \<open>simp add: occupied_def\<close>)
  then show ?thesis
    using S reps_L_remove [OF sched_okD(1) [OF S]] typed_remove placed_remove by (auto simp: sched_ok_def)
qed

lemma sched_ok_remove:
  fixes s :: "'a kernel_scheme"
  assumes S: "sched_ok pmax X L s" and m: "masks_ok pmax (threads s t)"
  shows "sched_ok pmax (insert t X) (L_remove t L) (rt_schedule_remove_thread pmax t s)"
proof -
  let ?th = "threads s t" and ?L = "L_remove t L"
  let ?p = "unat (current_priority ?th)" and ?h = "rt_list_remove (Tlist t) (list_links s)"
  let ?s = "rt_schedule_remove_thread pmax t s"
  have R: "reps (heads pmax) nodes ?h ?L" by (rule reps_L_remove [OF sched_okD(1) [OF S]])
  have p: "?p < pmax" using m by (simp add: masks_ok_def)
  have same: "list_links ?s = ?h" "threads ?s = threads s"
    by (simp_all add: rt_schedule_remove_thread_def Let_def)
  have other: "occupied ?L x \<longleftrightarrow> occupied L x" if "x < pmax" "x \<noteq> ?p" for x
  proof -
    have "Tlist t \<notin> set (L (Priority_table x))" using placedD(1) [OF sched_okD(3) [OF S] that(1), of t] that(2) by blast
    then show ?thesis by (simp add: occupied_def)
  qed
  have "bitmap_ok pmax (occupied ?L) (ready_priority_group ?s) (ready_table ?s)"
  proof (cases "?L (Priority_table ?p) = []")
    case True
    then have e: "rt_list_isempty (Priority_table ?p) ?h" using reps_isempty [OF R, of "Priority_table ?p"] p by simp
    have occ: "\<And>x. x < pmax \<Longrightarrow> occupied ?L x = ((occupied L)(?p := False)) x"
      using other True by (simp add: occupied_def)
    have "bitmap_ok pmax ((occupied L)(?p := False)) (ready_priority_group ?s) (ready_table ?s)"
    proof (cases "pmax > 32")
      case True
      then show ?thesis using e bitmap_remove(2) [OF sched_okD(5) [OF S] m True]
        by (cases "ready_table s (unat (number ?th)) AND NOT (high_mask ?th) = 0")
          (simp_all add: rt_schedule_remove_thread_def Let_def)
    next
      case False
      then show ?thesis using e bitmap_remove(1) [OF sched_okD(5) [OF S] m]
        by (simp add: rt_schedule_remove_thread_def Let_def)
    qed
    from bitmap_cong [OF this occ] show ?thesis .
  next
    case False
    then have e: "\<not> rt_list_isempty (Priority_table ?p) ?h" using reps_isempty [OF R, of "Priority_table ?p"] p by simp
    have "occupied ?L x = occupied L x" if "x < pmax" for x
      using other [OF that] False by (cases "x = ?p") (auto simp: occupied_def)
    from bitmap_cong [OF sched_okD(5) [OF S] this] show ?thesis
      using e by (simp add: rt_schedule_remove_thread_def Let_def)
  qed
  then show ?thesis
    using S R typed_remove placed_remove by (auto simp: sched_ok_def same)
qed

definition L_ready :: "nat \<Rightarrow> nat \<Rightarrow> (node \<Rightarrow> node list) \<Rightarrow> node \<Rightarrow> node list" where
  "L_ready p t L = L(Priority_table p := L (Priority_table p) @ [Tlist t])"

lemma typed_ready:
  assumes "typed pmax L"
  shows "typed pmax (L_ready p t L)"
proof -
  have "set (L_ready p t L l) \<subseteq> range Tlist" if "l \<in> heads pmax" "l \<noteq> Timer_list" for l
  proof (cases "l = Priority_table p")
    case True
    then have "set (L_ready p t L l) = insert (Tlist t) (set (L l))" by (simp add: L_ready_def)
    then show ?thesis using assms that unfolding typed_def by blast
  next
    case False
    then have "L_ready p t L l = L l" by (simp add: L_ready_def)
    then show ?thesis using assms that unfolding typed_def by simp
  qed
  then show ?thesis using assms by (simp add: typed_def L_ready_def)
qed

lemma placed_ready:
  assumes P: "placed pmax X L th" and t: "unlinked pmax t L" and p: "unat (current_priority (th t)) < pmax"
  shows "placed pmax (X - {t}) (L_ready (unat (current_priority (th t))) t L) (th(t := (th t)\<lparr>stat := RT_THREAD_READY\<rparr>))"
proof -
  let ?p = "unat (current_priority (th t))" and ?th = "th(t := (th t)\<lparr>stat := RT_THREAD_READY\<rparr>)"
  have mem: "Tlist u \<in> set (L_ready ?p t L (Priority_table x)) \<longleftrightarrow> Tlist u \<in> set (L (Priority_table x)) \<or> x = ?p \<and> u = t" for u x
    by (auto simp: L_ready_def)
  have other: "L_ready ?p t L (Suspend_list i) = L (Suspend_list i)" "L_ready ?p t L Defunct = L Defunct" for i
    by (simp_all add: L_ready_def)
  have away: "Tlist t \<notin> set (L (Suspend_list i))" "Tlist t \<notin> set (L Defunct)" "x < pmax \<Longrightarrow> Tlist t \<notin> set (L (Priority_table x))" for i x
    using t by (simp_all add: unlinked_def)
  show ?thesis
  proof (rule placedI)
    show "unat (current_priority (?th u)) = x" if "x < pmax" "Tlist u \<in> set (L_ready ?p t L (Priority_table x))" for u x
      using placedD(1) [OF P that(1), of u] that(2) by (auto simp: mem)
    show "stat (?th u) = RT_THREAD_READY \<longleftrightarrow> (\<exists>x<pmax. Tlist u \<in> set (L_ready ?p t L (Priority_table x)))"
      if "u \<notin> X - {t}" for u
      using placedD(2) [OF P, of u] that p by (cases "u = t") (auto simp: mem)
    show "stat (?th u) = RT_THREAD_SUSPEND" if "u \<notin> X - {t}" "Tlist u \<in> set (L_ready ?p t L (Suspend_list i))" for u i
      using placedD(3) [OF P, of u i] that away(1) by (cases "u = t") (auto simp: other)
    show "stat (?th u) = RT_THREAD_CLOSE" if "u \<notin> X - {t}" "Tlist u \<in> set (L_ready ?p t L Defunct)" for u
      using placedD(4) [OF P, of u] that away(2) by (cases "u = t") (auto simp: other)
  qed
qed

lemma sched_ok_insert:
  fixes s :: "'a kernel_scheme"
  assumes S: "sched_ok pmax X L s" and t: "unlinked pmax t L" and m: "masks_ok pmax (threads s t)"
  shows "sched_ok pmax (X - {t}) (L_ready (unat (current_priority (threads s t))) t L) (rt_schedule_insert_thread pmax t s)"
proof -
  let ?th = "threads s t"
  let ?p = "unat (current_priority ?th)" and ?s = "rt_schedule_insert_thread pmax t s"
  let ?L = "L_ready ?p t L" and ?h = "rt_list_insert_before (Priority_table ?p) (Tlist t) (list_links s)"
  have p: "?p < pmax" using m by (simp add: masks_ok_def)
  have same: "list_links ?s = ?h" "threads ?s = (threads s)(t := ?th\<lparr>stat := RT_THREAD_READY\<rparr>)"
    by (simp_all add: rt_schedule_insert_thread_def Let_def)
  have "reps (heads pmax) nodes ?h ?L"
    using reps_insert_before [OF sched_okD(1) [OF S], of "Priority_table ?p" "Tlist t"] p t
    by (simp add: L_ready_def unlinked_def)
  moreover have "typed pmax ?L" using typed_ready sched_okD(2) [OF S] by blast
  moreover have "placed pmax (X - {t}) ?L (threads ?s)"
    unfolding same by (rule placed_ready [OF sched_okD(3) [OF S] t p])
  moreover have "masks_ok pmax (threads ?s u)" if "stat (threads ?s u) \<noteq> RT_THREAD_INIT" for u
    using that m sched_okD(4) [OF S, of u]
    by (cases "u = t") (simp_all add: same)
  moreover have "bitmap_ok pmax (occupied ?L) (ready_priority_group ?s) (ready_table ?s)"
  proof -
    have "occupied ?L = (occupied L)(?p := True)" by (auto simp: occupied_def L_ready_def fun_eq_iff)
    then show ?thesis using bitmap_insert [OF sched_okD(5) [OF S] m] p
      by (cases "pmax > 32") (simp_all add: rt_schedule_insert_thread_def Let_def)
  qed
  ultimately show ?thesis using sched_okD(6) [OF S] by (simp add: sched_ok_def same)
qed

text \<open>A ready thread goes to the end of its list.\<close>

lemma sched_ok_requeue:
  fixes s :: "'a kernel_scheme"
  assumes S: "sched_ok pmax X L s" and t: "t \<notin> X" "stat (threads s t) = RT_THREAD_READY"
  defines "p \<equiv> unat (current_priority (threads s t))"
  shows "sched_ok pmax X (L_ready p t (L_remove t L))
    (s\<lparr>list_links := rt_list_insert_before (Priority_table p) (Tlist t) (rt_list_remove (Tlist t) (list_links s))\<rparr>)"
proof -
  let ?L = "L_ready p t (L_remove t L)"
  obtain p' where "p' < pmax" "Tlist t \<in> set (L (Priority_table p'))"
    using placedD(2) [OF sched_okD(3) [OF S] t(1)] t(2) by blast
  then have p: "p < pmax" "Tlist t \<in> set (L (Priority_table p))"
    using placedD(1) [OF sched_okD(3) [OF S]] by (auto simp: p_def)
  have R: "reps (heads pmax) nodes (rt_list_remove (Tlist t) (list_links s)) (L_remove t L)"
    by (rule reps_L_remove [OF sched_okD(1) [OF S]])
  have "reps (heads pmax) nodes (rt_list_insert_before (Priority_table p) (Tlist t) (rt_list_remove (Tlist t) (list_links s))) ?L"
    using reps_insert_before [OF R, of "Priority_table p" "Tlist t"] p(1) by (simp add: L_ready_def)
  moreover have sets: "set (?L l) = set (L l)" if "l \<in> heads pmax" for l
  proof -
    have "Tlist t \<notin> set (L l)" if "l \<noteq> Priority_table p"
      using reps_one(1) [OF sched_okD(1) [OF S], of "Priority_table p" l "Tlist t"] p that \<open>l \<in> heads pmax\<close> by auto
    then show ?thesis using p(2) by (auto simp: L_ready_def)
  qed
  moreover have "placed pmax X ?L (threads s)"
    using sched_okD(3) [OF S] unfolding placed_def by (simp add: sets cong: conj_cong)
  moreover have "typed pmax ?L" using sched_okD(2) [OF S] sets by (simp add: typed_def)
  moreover have "occupied ?L x \<longleftrightarrow> occupied L x" if "x < pmax" for x
    using sets [of "Priority_table x"] that unfolding occupied_def by (metis heads_simps(4) set_empty)
  ultimately show ?thesis using S bitmap_cong [OF sched_okD(5) [OF S], of "occupied ?L"] by (simp add: sched_ok_def)
qed

lemma sched_ok_defunct:
  fixes s :: "'a kernel_scheme"
  assumes S: "sched_ok pmax X L s" and t: "unlinked pmax t L" "stat (threads s t) = RT_THREAD_CLOSE"
  shows "sched_ok pmax X (L(Defunct := Tlist t # L Defunct)) (to_defunct t s)"
proof -
  let ?L = "L(Defunct := Tlist t # L Defunct)"
  have "reps (heads pmax) nodes (rt_list_insert_after Defunct (Tlist t) (list_links s)) ?L"
    using reps_insert_after [OF sched_okD(1) [OF S], of Defunct "[]" "L Defunct" "Tlist t"] t(1)
    by (simp add: unlinked_def)
  moreover have "typed pmax ?L" using sched_okD(2) [OF S] by (auto simp: typed_def)
  moreover have "placed pmax X ?L (threads s)" using sched_okD(3) [OF S] t(2) by (auto simp: placed_def)
  moreover have "bitmap_ok pmax (occupied ?L) (ready_priority_group s) (ready_table s)"
    by (rule bitmap_cong [OF sched_okD(5) [OF S]]) (simp add: occupied_def)
  ultimately show ?thesis using S by (simp add: sched_ok_def to_defunct_def)
qed

text \<open>What the scheduler does not depend on: the timers and the list of timers.\<close>

lemma sched_ok_timers:
  assumes S: "sched_ok pmax X L s" and R: "reps (heads pmax) nodes (list_links s') (with_timers L q)"
    and same: "threads s' = threads s" "ready_priority_group s' = ready_priority_group s" "ready_table s' = ready_table s"
  shows "sched_ok pmax X (with_timers L q) s'"
proof -
  have "placed pmax X (with_timers L q) (threads s)" using sched_okD(3) [OF S] by (simp add: placed_def)
  moreover have "typed pmax (with_timers L q)" using sched_okD(2) [OF S] by (auto simp: typed_def)
  moreover have "occupied (with_timers L q) = occupied L" by (simp add: occupied_def fun_eq_iff)
  ultimately show ?thesis using S R by (simp add: sched_ok_def same)
qed

lemma sched_ok_cong:
  assumes "sched_ok pmax X L s" "list_links s' = list_links s" "threads s' = threads s"
    "ready_priority_group s' = ready_priority_group s" "ready_table s' = ready_table s"
  shows "sched_ok pmax X L s'"
  using assms by (simp add: sched_ok_def)

lemma timer_rel_lists:
  assumes R: "timer_rel (heads pmax) nodes L F k T q s" and L': "reps (heads pmax) nodes (list_links s') L'"
    "typed pmax L'" "L' Timer_list = L Timer_list"
    and same: "timers s' = timers s" "rt_tick s' = rt_tick s"
  shows "timer_rel (heads pmax) nodes L' F k T q s'"
proof -
  have "set (L' l) \<inter> range Row = {}" if "l \<in> heads pmax" "l \<noteq> Timer_list" for l
    using L'(2) that unfolding typed_def by blast
  then show ?thesis using R L' by (auto simp: timer_rel_def same)
qed

section \<open>Choosing the next thread\<close>

definition ready :: "'a kernel_scheme \<Rightarrow> nat \<Rightarrow> bool" where
  "ready s t \<longleftrightarrow> stat (threads s t) = RT_THREAD_READY"

lemma ready_list:
  assumes S: "sched_ok pmax X L s" and t: "ready s t" "t \<notin> X"
  shows "Tlist t \<in> set (L (Priority_table (unat (current_priority (threads s t)))))"
    "unat (current_priority (threads s t)) < pmax"
  using placedD(1,2) [OF sched_okD(3) [OF S]] t by (auto simp: ready_def)

lemma highest_ready_thread_ok:
  fixes s :: "'a kernel_scheme"
  assumes S: "sched_ok pmax {} L s" and u: "ready s u"
  obtains t where "highest_ready_thread pmax s = Some t" "ready s t"
    "\<And>v. ready s v \<Longrightarrow> current_priority (threads s t) \<le> current_priority (threads s v)"
    "hd (L (Priority_table (unat (current_priority (threads s t))))) = Tlist t"
    "current_priority (threads s t) = ucast (highest_ready_priority pmax s)"
proof -
  let ?h = "unat (highest_ready_priority pmax s)"
  have best: "occupied L ?h" "?h < pmax" "?h \<le> unat (current_priority (threads s v))" if "ready s v" for v
  proof -
    have "occupied L (unat (current_priority (threads s v)))"
      using ready_list(1) [OF S that] by (auto simp: occupied_def)
    note highest_of_bitmap [OF sched_okD(5) [OF S] ready_list(2) [OF S that] this sched_okD(6) [OF S]]
    then show "occupied L ?h" "?h < pmax" "?h \<le> unat (current_priority (threads s v))" by simp_all
  qed
  obtain n ns where list: "L (Priority_table ?h) = n # ns" using best(1) [OF u] by (auto simp: occupied_def neq_Nil_conv)
  obtain t where [simp]: "n = Tlist t"
    using typedD [OF sched_okD(2) [OF S], of "Priority_table ?h" n] list best(2) [OF u] by auto
  have p: "unat (current_priority (threads s t)) = ?h"
    using placedD(1) [OF sched_okD(3) [OF S] best(2) [OF u], of t] list by simp
  have "highest_ready_thread pmax s = Some t"
    using reps_next [OF sched_okD(1) [OF S], of "Priority_table ?h"] best(2) [OF u] list
    by (simp add: highest_ready_thread_def)
  moreover have "ready s t" using placedD(2) [OF sched_okD(3) [OF S], of t] best(2) [OF u] list by (auto simp: ready_def)
  moreover have "current_priority (threads s t) = ucast (highest_ready_priority pmax s)"
    using p best(2) [OF u] sched_okD(6) [OF S] by (simp add: word_unat_eq_iff unsigned_ucast_eq take_bit_nat_eq_self)
  ultimately show ?thesis using that best(3) p list by (simp add: word_le_nat_alt)
qed

text \<open>\<open>rt_schedule\<close>: unless the scheduler is locked, the first thread of the highest occupied priority runs.\<close>

definition runs_highest :: "'a kernel_scheme \<Rightarrow> bool" where
  "runs_highest s \<longleftrightarrow> (\<exists>t. rt_current_thread s = Some t \<and> ready s t \<and>
     (\<forall>v. ready s v \<longrightarrow> current_priority (threads s t) \<le> current_priority (threads s v)))"

definition runs_ok :: "'a kernel_scheme \<Rightarrow> bool" where
  "runs_ok s \<longleftrightarrow> (scheduler_lock_nest s = 0 \<longrightarrow> runs_highest s)"

lemma runs_ok_upd:
  assumes "\<And>v. stat (threads s' v) = stat (threads s v)" "\<And>v. current_priority (threads s' v) = current_priority (threads s v)"
    "rt_current_thread s' = rt_current_thread s" "scheduler_lock_nest s' = scheduler_lock_nest s"
  shows "runs_ok s' \<longleftrightarrow> runs_ok s"
  using assms by (simp add: runs_ok_def runs_highest_def ready_def)

lemma runs_ok_cong:
  assumes "threads s' = threads s" "rt_current_thread s' = rt_current_thread s" "scheduler_lock_nest s' = scheduler_lock_nest s"
  shows "runs_ok s' \<longleftrightarrow> runs_ok s"
  using assms by (simp add: runs_ok_def runs_highest_def ready_def)

lemma rt_schedule_ok:
  fixes s :: "'a kernel_scheme"
  assumes S: "sched_ok pmax {} L s" and u: "ready s u"
  obtains s' where "rt_schedule pmax s = Some s'" "sched_ok pmax {} L s'" "list_links s' = list_links s"
    "threads s' = threads s" "timers s' = timers s" "rt_tick s' = rt_tick s"
    "scheduler_lock_nest s' = scheduler_lock_nest s"
    "runs_ok s'"
    "rt_current_thread s \<noteq> None \<Longrightarrow> rt_current_thread s' \<noteq> None"
proof (rule highest_ready_thread_ok [OF S u])
  fix t
  assume t: "highest_ready_thread pmax s = Some t" "ready s t"
    "\<And>v. ready s v \<Longrightarrow> current_priority (threads s t) \<le> current_priority (threads s v)"
  show ?thesis
  proof (cases "scheduler_lock_nest s = 0 \<and> Some t \<noteq> rt_current_thread s")
    case True
    let ?s = "s\<lparr>rt_current_priority := ucast (highest_ready_priority pmax s), rt_current_thread := Some t\<rparr>"
    show ?thesis
      by (rule that [of ?s]) (use True t S in \<open>auto simp: rt_schedule_def sched_ok_def runs_ok_def runs_highest_def ready_def\<close>)
  next
    case False
    then consider "scheduler_lock_nest s \<noteq> 0" | "scheduler_lock_nest s = 0" "rt_current_thread s = Some t" by auto
    then show ?thesis
      by cases (rule that [of s]; use t S in \<open>simp add: rt_schedule_def runs_ok_def runs_highest_def\<close>)+
  qed
qed

end
