(* ===== verification/Kernel_Threads.thy ===== *)
theory Kernel_Threads
  imports Ready_Lists
begin

text \<open>
  Threads and timers together: \<open>kern\<close> adds to the invariant of the scheduler that the timer list is the
  queue of the specification and that only suspended threads have their timer running. Suspending, resuming,
  time-outs, sending and yielding keep it, and so does the tick interrupt, whose timer check calls back into
  the scheduler: the locale \<open>timer_client\<close> of \<open>Kernel_Timer\<close> is interpreted on \<open>timeout_func\<close> here.
\<close>

section \<open>The invariant of the kernel\<close>

definition closed_timers :: "'a kernel_scheme \<Rightarrow> timer_ref set" where
  "closed_timers s = {Thread_timer t | t. stat (threads s t) = RT_THREAD_CLOSE}"

definition kern :: "nat \<Rightarrow> nat \<Rightarrow> (node \<Rightarrow> node list) \<Rightarrow> nat set \<Rightarrow> timer_ref set \<Rightarrow> nat \<Rightarrow> nat \<Rightarrow> timer_queue \<Rightarrow>
    'a kernel_scheme \<Rightarrow> bool" where
  "kern pmax idle L X F k T q s \<longleftrightarrow>
     sched_ok pmax X L s \<and> timer_rel (heads pmax) nodes L (F \<union> closed_timers s) k T q s \<and>
     (\<forall>t. Thread_timer t \<in> fst ` set q \<longrightarrow> stat (threads s t) = RT_THREAD_SUSPEND) \<and>
     (\<forall>t. \<not> is_periodic (timers s (Thread_timer t))) \<and>
     (\<forall>u. is_periodic (timers s u) \<longrightarrow> 0 < unat (timer_init_tick (timers s u)) \<and>
        unat (timer_init_tick (timers s u)) < half_ticks) \<and>
     ready s idle \<and> idle \<notin> X"

lemma in_closed_timers [simp]:
  "Thread_timer t \<in> closed_timers s \<longleftrightarrow> stat (threads s t) = RT_THREAD_CLOSE" "App_timer i \<notin> closed_timers s"
  by (auto simp: closed_timers_def)

lemma closed_mono:
  "(\<And>t. stat (threads s t) = RT_THREAD_CLOSE \<Longrightarrow> stat (threads s' t) = RT_THREAD_CLOSE) \<Longrightarrow> closed_timers s \<subseteq> closed_timers s'"
  by (auto simp: closed_timers_def)

lemma kernD:
  assumes "kern pmax idle L X F k T q s"
  shows "sched_ok pmax X L s" "timer_rel (heads pmax) nodes L (F \<union> closed_timers s) k T q s"
    "Thread_timer t \<in> fst ` set q \<Longrightarrow> stat (threads s t) = RT_THREAD_SUSPEND"
    "\<not> is_periodic (timers s (Thread_timer t))"
    "is_periodic (timers s u) \<Longrightarrow> 0 < unat (timer_init_tick (timers s u)) \<and> unat (timer_init_tick (timers s u)) < half_ticks"
    "ready s idle" "idle \<notin> X"
  using assms by (auto simp: kern_def)

text \<open>A change of the lists of threads.\<close>

lemma kern_lists:
  assumes K: "kern pmax idle L X F k T q s" and S: "sched_ok pmax X' L' s'" "L' Timer_list = L Timer_list"
    and same: "timers s' = timers s" "rt_tick s' = rt_tick s"
    and stat: "\<And>t. stat (threads s t) = RT_THREAD_CLOSE \<Longrightarrow> stat (threads s' t) = RT_THREAD_CLOSE"
      "\<And>t. Thread_timer t \<in> fst ` set q \<Longrightarrow> stat (threads s' t) = RT_THREAD_SUSPEND"
      "stat (threads s' idle) = RT_THREAD_READY" "idle \<notin> X'"
  shows "kern pmax idle L' X' F k T q s'"
proof -
  have R: "timer_rel (heads pmax) nodes L' (F \<union> closed_timers s) k T q s'"
    using timer_rel_lists [OF kernD(2) [OF K] sched_okD(1,2) [OF S(1)] S(2) same] .
  have "closed_timers s' \<inter> fst ` set q = {}" using stat(2) by (force simp: closed_timers_def)
  moreover have "F \<inter> fst ` set q = {}" using timer_relD(12) [OF R] by force
  ultimately have "timer_rel (heads pmax) nodes L' (F \<union> closed_timers s') k T q s'"
    by (intro timer_rel_mono [OF R]) (use closed_mono [of s s', OF stat(1)] in auto)
  then show ?thesis using kernD [OF K] S(1) stat(2-4) by (simp add: kern_def same ready_def)
qed

text \<open>A change of the timers.\<close>

lemma kern_timers:
  assumes K: "kern pmax idle L X F k T q s"
    and R: "timer_rel (heads pmax) nodes (with_timers L q') (F' \<union> closed_timers s) k' T' q' s'"
    and same: "threads s' = threads s" "ready_priority_group s' = ready_priority_group s" "ready_table s' = ready_table s"
    and tm: "\<And>u. is_periodic (timers s' u) = is_periodic (timers s u)"
      "\<And>u. is_periodic (timers s' u) \<Longrightarrow> timer_init_tick (timers s' u) = timer_init_tick (timers s u)"
    and q': "\<And>t. Thread_timer t \<in> fst ` set q' \<Longrightarrow> stat (threads s t) = RT_THREAD_SUSPEND"
  shows "kern pmax idle (with_timers L q') X F' k' T' q' s'"
proof -
  have S: "sched_ok pmax X (with_timers L q') s'"
    by (rule sched_ok_timers [OF kernD(1) [OF K] timer_relD(1) [OF R] same])
  have "closed_timers s' = closed_timers s" by (simp add: closed_timers_def same)
  then show ?thesis using R S kernD(4-7) [OF K] q' tm by (simp add: kern_def same ready_def)
qed

lemma timer_stop_frame [simp]:
  fixes s :: "'a kernel_scheme"
  shows "threads (snd (rt_timer_stop u s)) = threads s" "rt_tick (snd (rt_timer_stop u s)) = rt_tick s"
    "ready_priority_group (snd (rt_timer_stop u s)) = ready_priority_group s" "ready_table (snd (rt_timer_stop u s)) = ready_table s"
    "rt_current_thread (snd (rt_timer_stop u s)) = rt_current_thread s"
    "scheduler_lock_nest (snd (rt_timer_stop u s)) = scheduler_lock_nest s"
    "timer_init_tick (timers (snd (rt_timer_stop u s)) v) = timer_init_tick (timers s v)"
    "is_periodic (timers (snd (rt_timer_stop u s)) v) = is_periodic (timers s v)"
    "v \<noteq> u \<Longrightarrow> timers (snd (rt_timer_stop u s)) v = timers s v"
  by (simp_all add: rt_timer_stop_def upd_timer_def rt_timer_remove_def)

lemma kern_timer_stop:
  assumes K: "kern pmax idle L X F k T q s"
  shows "kern pmax idle (with_timers L (q_remove u q)) X F k T (q_remove u q) (snd (rt_timer_stop u s))"
  by (rule kern_timers [OF K timer_rel_stop(1) [OF kernD(2) [OF K]]])
    (use kernD(3) [OF K] in \<open>force simp del: set_map\<close>)+

section \<open>Suspending and resuming\<close>

lemma sched_frame [simp]:
  fixes s :: "'a kernel_scheme"
  shows "timers (rt_schedule_remove_thread pmax t s) = timers s" "rt_tick (rt_schedule_remove_thread pmax t s) = rt_tick s"
    "threads (rt_schedule_remove_thread pmax t s) = threads s"
    "rt_current_thread (rt_schedule_remove_thread pmax t s) = rt_current_thread s"
    "scheduler_lock_nest (rt_schedule_remove_thread pmax t s) = scheduler_lock_nest s"
    "timers (rt_schedule_insert_thread pmax t s) = timers s" "rt_tick (rt_schedule_insert_thread pmax t s) = rt_tick s"
    "threads (rt_schedule_insert_thread pmax t s) = (threads s)(t := (threads s t)\<lparr>stat := RT_THREAD_READY\<rparr>)"
    "rt_current_thread (rt_schedule_insert_thread pmax t s) = rt_current_thread s"
    "scheduler_lock_nest (rt_schedule_insert_thread pmax t s) = scheduler_lock_nest s"
  by (simp_all add: rt_schedule_remove_thread_def rt_schedule_insert_thread_def Let_def)

lemma L_timer_simps [simp]:
  "typed pmax L \<Longrightarrow> removeAll (Tlist t) (L Timer_list) = L Timer_list"
  "L_ready p t L Timer_list = L Timer_list"
  by (rule removeAll_id, auto simp: typed_def L_ready_def)

text \<open>Taking a ready thread out of its list.\<close>

lemma kern_suspend:
  fixes s :: "'a kernel_scheme"
  assumes K: "kern pmax idle L {} F k T q s" and t: "ready s t" "t \<noteq> idle"
  shows "kern pmax idle (with_timers (L_remove t L) q) {} F k T q (snd (rt_thread_suspend pmax t s))"
    and "fst (rt_thread_suspend pmax t s) = RT_EOK"
    and "threads (snd (rt_thread_suspend pmax t s)) = (threads s)(t := (threads s t)\<lparr>stat := RT_THREAD_SUSPEND\<rparr>)"
proof -
  let ?s1 = "upd_thread t (\<lambda>x. x\<lparr>stat := RT_THREAD_SUSPEND\<rparr>) s"
  let ?s2 = "rt_schedule_remove_thread pmax t ?s1"
  note S = kernD(1) [OF K]
  have m: "masks_ok pmax (threads s t)" using sched_okD(4) [OF S, of t] t(1) by (simp add: ready_def)
  have q: "Thread_timer t \<notin> fst ` set q" using kernD(3) [OF K, of t] t(1) by (auto simp: ready_def)
  have "sched_ok pmax {t} L ?s1"
    by (rule sched_ok_upd [OF sched_ok_mono [OF S]]) (use m in auto)
  from sched_ok_remove [OF this, of t] have "sched_ok pmax {t} (L_remove t L) ?s2" using m by simp
  from sched_ok_settle [OF this, of t] have S2: "sched_ok pmax {} (L_remove t L) ?s2" by simp
  have K2: "kern pmax idle (L_remove t L) {} F k T q ?s2"
    by (rule kern_lists [OF K S2])
      (use t kernD(3,6) [OF K] sched_okD(2) [OF S] q in \<open>auto simp: ready_def\<close>)
  from kern_timer_stop [OF this, of "Thread_timer t"]
  show "kern pmax idle (with_timers (L_remove t L) q) {} F k T q (snd (rt_thread_suspend pmax t s))"
    using t(1) q_remove_absent [OF q] by (simp add: rt_thread_suspend_def Let_def ready_def)
qed (use t(1) in \<open>simp_all add: rt_thread_suspend_def Let_def ready_def\<close>)

text \<open>Bringing a suspended thread back.\<close>

lemma kern_make_ready:
  fixes s :: "'a kernel_scheme"
  assumes K: "kern pmax idle L X F k T q s" and t: "unlinked pmax t L" "t \<in> X" "masks_ok pmax (threads s t)"
    and q: "Thread_timer t \<notin> fst ` set q" and o: "stat (threads s t) \<noteq> RT_THREAD_CLOSE"
  shows "kern pmax idle (L_ready (unat (current_priority (threads s t))) t L) (X - {t}) F k T q (rt_schedule_insert_thread pmax t s)"
  by (rule kern_lists [OF K sched_ok_insert [OF kernD(1) [OF K] t(1,3)]])
    (use t q o kernD(3,6,7) [OF K] in \<open>auto simp: ready_def\<close>)

lemma kern_unlink:
  fixes s :: "'a kernel_scheme"
  assumes K: "kern pmax idle L {} F k T q s" and t: "stat (threads s t) = RT_THREAD_SUSPEND"
  shows "kern pmax idle (L_remove t L) {t} F k T q (s\<lparr>list_links := rt_list_remove (Tlist t) (list_links s)\<rparr>)"
proof -
  have S: "sched_ok pmax {t} (L_remove t L) (s\<lparr>list_links := rt_list_remove (Tlist t) (list_links s)\<rparr>)"
    by (rule sched_ok_unlink [OF kernD(1) [OF K]]) (use not_ready_list [OF kernD(1) [OF K]] t in auto)
  show ?thesis
    by (rule kern_lists [OF K S])
      (use t kernD(3,6) [OF K] sched_okD(2) [OF kernD(1) [OF K]] in \<open>auto simp: ready_def\<close>)
qed

definition L_resume :: "nat \<Rightarrow> timer_queue \<Rightarrow> 'a kernel_scheme \<Rightarrow> (node \<Rightarrow> node list) \<Rightarrow> node \<Rightarrow> node list" where
  "L_resume t q s L = L_ready (unat (current_priority (threads s t))) t (with_timers (L_remove t L) q)"

lemma kern_resume:
  fixes s :: "'a kernel_scheme"
  assumes K: "kern pmax idle L {} F k T q s" and t: "stat (threads s t) = RT_THREAD_SUSPEND"
  shows "kern pmax idle (L_resume t (q_remove (Thread_timer t) q) s L) {} F k T (q_remove (Thread_timer t) q)
      (snd (rt_thread_resume pmax t s))"
    and "fst (rt_thread_resume pmax t s) = RT_EOK"
    and "threads (snd (rt_thread_resume pmax t s)) = (threads s)(t := (threads s t)\<lparr>stat := RT_THREAD_READY\<rparr>)"
proof -
  let ?q = "q_remove (Thread_timer t) q"
  let ?L = "with_timers (L_remove t L) ?q"
  let ?s = "snd (rt_timer_stop (Thread_timer t) (s\<lparr>list_links := rt_list_remove (Tlist t) (list_links s)\<rparr>))"
  have K1: "kern pmax idle ?L {t} F k T ?q ?s" by (rule kern_timer_stop [OF kern_unlink [OF K t]])
  have "unlinked pmax t ?L" by (auto simp: unlinked_def with_timers_def)
  moreover have "masks_ok pmax (threads s t)" using sched_okD(4) [OF kernD(1) [OF K], of t] t by simp
  ultimately show "kern pmax idle (L_resume t ?q s L) {} F k T ?q (snd (rt_thread_resume pmax t s))"
    using kern_make_ready [OF K1, of t] t by (force simp: rt_thread_resume_def Let_def L_resume_def)
qed (use t in \<open>simp_all add: rt_thread_resume_def Let_def\<close>)

lemma kern_cong:
  assumes K: "kern pmax idle L X F k T q s"
    and "list_links s' = list_links s" "threads s' = threads s" "timers s' = timers s" "rt_tick s' = rt_tick s"
    "ready_priority_group s' = ready_priority_group s" "ready_table s' = ready_table s"
  shows "kern pmax idle L X F k T q s'"
  using assms by (simp add: kern_def sched_ok_def timer_rel_def closed_timers_def ready_def)

lemma kern_schedule:
  fixes s :: "'a kernel_scheme"
  assumes K: "kern pmax idle L {} F k T q s"
  obtains s' where "rt_schedule pmax s = Some s'" "kern pmax idle L {} F k T q s'" "threads s' = threads s"
    "timers s' = timers s" "scheduler_lock_nest s' = scheduler_lock_nest s"
    "runs_ok s'" "rt_current_thread s \<noteq> None \<Longrightarrow> rt_current_thread s' \<noteq> None"
proof (rule rt_schedule_ok [OF kernD(1,6) [OF K]])
  fix s'
  assume s': "rt_schedule pmax s = Some s'" "sched_ok pmax {} L s'" "list_links s' = list_links s"
    "threads s' = threads s" "timers s' = timers s" "rt_tick s' = rt_tick s"
    "scheduler_lock_nest s' = scheduler_lock_nest s" "runs_ok s'"
    "rt_current_thread s \<noteq> None \<Longrightarrow> rt_current_thread s' \<noteq> None"
  have "kern pmax idle L {} F k T q s'"
    using kern_lists [OF K s'(2) refl s'(5,6)] kernD(3,6,7) [OF K] by (simp add: s' ready_def)
  then show ?thesis using that s' by blast
qed

section \<open>What the timeout functions do\<close>

text \<open>
  The threads \<open>V\<close>, which were waiting for objects, become ready, and their timers are stopped; nothing
  else changes that concerns threads and timers.
\<close>

definition wakes :: "(node \<Rightarrow> node list) \<Rightarrow> timer_queue \<Rightarrow> 'a kernel_scheme \<Rightarrow> nat set \<Rightarrow>
    (node \<Rightarrow> node list) \<Rightarrow> timer_queue \<Rightarrow> 'a kernel_scheme \<Rightarrow> bool" where
  "wakes L q s V L' q' s' \<longleftrightarrow>
     q' = filter (\<lambda>(u, _). u \<notin> Thread_timer ` V) q \<and>
     (\<forall>v. threads s' v = (if v \<in> V then (threads s v)\<lparr>stat := RT_THREAD_READY\<rparr> else threads s v)) \<and>
     (\<forall>v\<in>V. stat (threads s v) = RT_THREAD_SUSPEND \<and> (\<exists>i. Tlist v \<in> set (L (Suspend_list i)))) \<and>
     (\<forall>i. set (L' (Suspend_list i)) \<subseteq> set (L (Suspend_list i))) \<and>
     (\<forall>i. timers s' (App_timer i) = timers s (App_timer i)) \<and>
     (\<forall>u. timer_init_tick (timers s' u) = timer_init_tick (timers s u) \<and>
          is_periodic (timers s' u) = is_periodic (timers s u)) \<and>
     scheduler_lock_nest s' = scheduler_lock_nest s \<and> (runs_ok s \<longrightarrow> runs_ok s') \<and>
     (rt_current_thread s \<noteq> None \<longrightarrow> rt_current_thread s' \<noteq> None)"

lemma wakes_refl: "wakes L q s {} L q s"
  by (simp add: wakes_def)

lemma wakes_trans:
  assumes "wakes L q s V L1 q1 s1" "wakes L1 q1 s1 V' L2 q2 s2"
  shows "wakes L q s (V \<union> V') L2 q2 s2"
proof -
  note a = assms(1) [unfolded wakes_def] and b = assms(2) [unfolded wakes_def]
  have "q2 = filter (\<lambda>(u, _). u \<notin> Thread_timer ` (V \<union> V')) q"
    using a b by (auto simp: image_Un intro!: filter_cong)
  moreover have "threads s2 v = (if v \<in> V \<union> V' then (threads s v)\<lparr>stat := RT_THREAD_READY\<rparr> else threads s v)" for v
    using a b by simp
  moreover have "stat (threads s v) = RT_THREAD_SUSPEND \<and> (\<exists>i. Tlist v \<in> set (L (Suspend_list i)))"
    if "v \<in> V \<union> V'" for v
  proof (cases "v \<in> V")
    case False
    then have "v \<in> V'" using that by simp
    then have "stat (threads s1 v) = RT_THREAD_SUSPEND" "\<exists>i. Tlist v \<in> set (L1 (Suspend_list i))" using b by blast+
    moreover have "\<forall>i. set (L1 (Suspend_list i)) \<subseteq> set (L (Suspend_list i))" using a by blast
    moreover have "threads s1 v = threads s v" using a False by simp
    ultimately show ?thesis by (metis subsetD)
  qed (use a in blast)
  ultimately show ?thesis using a b unfolding wakes_def by (intro conjI) (blast | simp)+
qed

lemma kern_send_wake:
  fixes s :: "'a kernel_scheme"
  assumes K: "kern pmax idle L {} F k T q s"
  shows "\<exists>s' L' V q'. mq_send_wake pmax i s = Some s' \<and> kern pmax idle L' {} F k T q' s' \<and> wakes L q s V L' q' s'"
proof (cases "L (Suspend_list i)")
  case Nil
  then have "mq_send_wake pmax i s = Some s"
    using reps_isempty [OF sched_okD(1) [OF kernD(1) [OF K]], of "Suspend_list i"] by (simp add: mq_send_wake_def)
  then show ?thesis using K wakes_refl by blast
next
  case (Cons n ns)
  note S = kernD(1) [OF K]
  obtain t where [simp]: "n = Tlist t" using typedD [OF sched_okD(2) [OF S], of "Suspend_list i" n] Cons by auto
  have t: "stat (threads s t) = RT_THREAD_SUSPEND" using placedD(3) [OF sched_okD(3) [OF S], of t i] Cons by simp
  let ?q = "q_remove (Thread_timer t) q" and ?s = "snd (rt_thread_resume pmax t s)"
  let ?L = "L_resume t ?q s L"
  note R = kern_resume [OF K t]
  obtain s' where s': "rt_schedule pmax ?s = Some s'" "kern pmax idle ?L {} F k T ?q s'" "threads s' = threads ?s"
    "timers s' = timers ?s" "scheduler_lock_nest s' = scheduler_lock_nest ?s" "runs_ok s'"
    "rt_current_thread ?s \<noteq> None \<Longrightarrow> rt_current_thread s' \<noteq> None"
    by (rule kern_schedule [OF R(1)], blast)
  have "mq_send_wake pmax i s = Some s'"
    using s'(1) reps_isempty [OF sched_okD(1) [OF S], of "Suspend_list i"] reps_next [OF sched_okD(1) [OF S], of "Suspend_list i"] Cons
    by (simp add: mq_send_wake_def rt_ipc_list_resume_links_def)
  moreover have "wakes L q s {t} ?L ?q s'"
    using t Cons s'(3-7) R(3)
    by (auto simp: wakes_def q_remove_def L_resume_def L_ready_def rt_thread_resume_def Let_def intro: exI [of _ i])
  ultimately show ?thesis using s'(2) by blast
qed

lemma kern_sends:
  fixes s :: "'a kernel_scheme"
  assumes "kern pmax idle L {} F k T q s"
  shows "\<exists>s' L' V q'. mq_sends pmax is s = Some s' \<and> kern pmax idle L' {} F k T q' s' \<and> wakes L q s V L' q' s'"
  using assms
proof (induction "is" arbitrary: L q s)
  case Nil
  then show ?case using wakes_refl by fastforce
next
  case (Cons i "is")
  obtain s1 L1 V q1 where 1: "mq_send_wake pmax i s = Some s1" "kern pmax idle L1 {} F k T q1 s1" "wakes L q s V L1 q1 s1"
    using kern_send_wake [OF Cons.prems] by blast
  obtain s2 L2 V' q2 where 2: "mq_sends pmax is s1 = Some s2" "kern pmax idle L2 {} F k T q2 s2" "wakes L1 q1 s1 V' L2 q2 s2"
    using Cons.IH [OF 1(2)] by blast
  show ?case using 1(1) 2(1,2) wakes_trans [OF 1(3) 2(3)] by auto
qed

lemma kern_timeout:
  fixes s :: "'a kernel_scheme"
  assumes K: "kern pmax idle L {} F k T q s" and t: "stat (threads s t) = RT_THREAD_SUSPEND"
    and q: "Thread_timer t \<notin> fst ` set q"
  shows "\<exists>s'. rt_thread_timeout pmax t s = Some s' \<and>
    kern pmax idle (L_ready (unat (current_priority (threads s t))) t (L_remove t L)) {} F k T q s' \<and>
    threads s' = (threads s)(t := (threads s t)\<lparr>thread_error := - RT_ETIMEOUT, stat := RT_THREAD_READY\<rparr>) \<and>
    timers s' = timers s \<and> scheduler_lock_nest s' = scheduler_lock_nest s \<and> runs_ok s' \<and>
    (rt_current_thread s \<noteq> None \<longrightarrow> rt_current_thread s' \<noteq> None)"
proof -
  let ?s1 = "upd_thread t (\<lambda>x. x\<lparr>thread_error := - RT_ETIMEOUT\<rparr>) s"
  let ?s2 = "?s1\<lparr>list_links := rt_list_remove (Tlist t) (list_links ?s1)\<rparr>"
  note S = kernD(1) [OF K]
  have m: "masks_ok pmax (threads s t)" using sched_okD(4) [OF S, of t] t by simp
  have S1: "sched_ok pmax {} L ?s1" by (rule sched_ok_upd [OF S]) (use m in simp_all)
  have "kern pmax idle L {} F k T q ?s1"
    by (rule kern_lists [OF K S1]) (use kernD(3,6,7) [OF K] t in \<open>auto simp: ready_def\<close>)
  from kern_unlink [OF this, of t] have "kern pmax idle (L_remove t L) {t} F k T q ?s2" using t by simp
  from kern_make_ready [OF this, of t]
  have K3: "kern pmax idle (L_ready (unat (current_priority (threads s t))) t (L_remove t L)) {} F k T q
      (rt_schedule_insert_thread pmax t ?s2)" using m q t by simp
  then show ?thesis
    by (rule kern_schedule) (use t in \<open>auto simp: rt_thread_timeout_def Let_def\<close>)
qed

section \<open>The tick interrupt\<close>

text \<open>
  Following threads through a tick: those in \<open>W\<close> are ready or have their timer running; those in \<open>Z\<close>
  sleep until the given time, waiting for nothing but their timer.
\<close>

definition watch :: "nat set \<Rightarrow> (nat \<times> nat) set \<Rightarrow> (node \<Rightarrow> node list) \<Rightarrow> nat \<Rightarrow> timer_queue \<Rightarrow> 'a kernel_scheme \<Rightarrow> bool" where
  "watch W Z L T q s \<longleftrightarrow>
     (\<forall>u\<in>W. ready s u \<or> Thread_timer u \<in> fst ` set q) \<and>
     (\<forall>u e. (u, e) \<in> Z \<longrightarrow> T < e \<and> (Thread_timer u, e) \<in> set q \<and> (\<forall>i. Tlist u \<notin> set (L (Suspend_list i))))"

definition tick_inv :: "nat \<Rightarrow> nat \<Rightarrow> nat set \<Rightarrow> (nat \<times> nat) set \<Rightarrow> 'a kernel_scheme \<Rightarrow> nat \<Rightarrow> timer_queue \<Rightarrow> 'a kernel_scheme \<Rightarrow> bool" where
  "tick_inv pmax idle W Z s0 T q s \<longleftrightarrow> (\<exists>L. kern pmax idle L {} {} 1 T q s \<and> watch W Z L T q s) \<and>
     scheduler_lock_nest s = scheduler_lock_nest s0 \<and> rt_current_thread s \<noteq> None \<and> (runs_ok s0 \<longrightarrow> runs_ok s)"

fun in_hand_ok :: "timer_ref \<Rightarrow> 'a kernel_scheme \<Rightarrow> bool" where
  "in_hand_ok (Thread_timer t) s \<longleftrightarrow> stat (threads s t) = RT_THREAD_SUSPEND"
| "in_hand_ok (App_timer i) s \<longleftrightarrow> True"

definition before_inv :: "nat \<Rightarrow> nat \<Rightarrow> nat set \<Rightarrow> (nat \<times> nat) set \<Rightarrow> 'a kernel_scheme \<Rightarrow> timer_ref \<Rightarrow> nat \<Rightarrow> timer_queue \<Rightarrow>
    'a kernel_scheme \<Rightarrow> bool" where
  "before_inv pmax idle W Z s0 t T q s \<longleftrightarrow>
     (\<exists>L. kern pmax idle L {} {t} 1 T q s \<and> watch {u \<in> W. t \<noteq> Thread_timer u} Z L T q s) \<and> in_hand_ok t s \<and>
     scheduler_lock_nest s = scheduler_lock_nest s0 \<and> rt_current_thread s \<noteq> None \<and> (runs_ok s0 \<longrightarrow> runs_ok s)"

definition after_inv :: "nat \<Rightarrow> nat \<Rightarrow> nat set \<Rightarrow> (nat \<times> nat) set \<Rightarrow> 'a kernel_scheme \<Rightarrow> timer_ref \<Rightarrow> nat \<Rightarrow> timer_queue \<Rightarrow>
    'a kernel_scheme \<Rightarrow> bool" where
  "after_inv pmax idle W Z s0 t T q s \<longleftrightarrow> (\<exists>L. kern pmax idle L {} {t} 1 T q s \<and> watch W Z L T q s) \<and>
     t \<notin> closed_timers s \<and> scheduler_lock_nest s = scheduler_lock_nest s0 \<and> rt_current_thread s \<noteq> None \<and> (runs_ok s0 \<longrightarrow> runs_ok s)"

definition is_thread_timer :: "timer_ref \<Rightarrow> bool" where
  "is_thread_timer u \<longleftrightarrow> u \<in> range Thread_timer"

lemma watch_wakes:
  assumes "watch W Z L T q s" "wakes L q s V L' q' s'"
  shows "watch W Z L' T q' s'"
proof -
  note w = assms(1) [unfolded watch_def] and k = assms(2) [unfolded wakes_def]
  have q': "q' = filter (\<lambda>(u, _). u \<notin> Thread_timer ` V) q" using k by blast
  have "ready s' u \<or> Thread_timer u \<in> fst ` set q'" if "u \<in> W" for u
  proof (cases "u \<in> V")
    case True
    then show ?thesis using k by (simp add: ready_def)
  next
    case False
    then have "threads s' u = threads s u" using k by simp
    moreover have "Thread_timer u \<in> fst ` set q'" if m: "Thread_timer u \<in> fst ` set q"
    proof -
      obtain e where "(Thread_timer u, e) \<in> set q" using m by auto
      then have "(Thread_timer u, e) \<in> set q'" using False by (auto simp: q')
      then show ?thesis by force
    qed
    ultimately show ?thesis using w that unfolding ready_def by metis
  qed
  moreover have "T < e \<and> (Thread_timer u, e) \<in> set q' \<and> (\<forall>i. Tlist u \<notin> set (L' (Suspend_list i)))"
    if "(u, e) \<in> Z" for u e
  proof -
    have "u \<notin> V" using w k that by blast
    moreover have "T < e" "(Thread_timer u, e) \<in> set q" "\<forall>i. Tlist u \<notin> set (L (Suspend_list i))" using w that by blast+
    moreover have "\<forall>i. set (L' (Suspend_list i)) \<subseteq> set (L (Suspend_list i))" using k by blast
    ultimately show ?thesis by (auto simp: q')
  qed
  ultimately show ?thesis by (simp add: watch_def)
qed

lemma before_called:
  fixes s :: "'a kernel_scheme"
  assumes "before_inv pmax idle W Z s0 t T q s"
  shows "\<exists>s' P. timeout_func pmax posts t s = Some s' \<and> after_inv pmax idle W Z s0 t T (filter P q) s' \<and>
    (\<forall>u e. \<not> is_thread_timer u \<longrightarrow> P (u, e)) \<and>
    (\<forall>u. timer_init_tick (timers s' u) = timer_init_tick (timers s u) \<and> is_periodic (timers s' u) = is_periodic (timers s u)) \<and>
    (\<not> is_thread_timer t \<longrightarrow> is_activated (timers s' t) = is_activated (timers s t))"
proof -
  obtain L where K: "kern pmax idle L {} {t} 1 T q s" and w: "watch {u \<in> W. t \<noteq> Thread_timer u} Z L T q s"
    and h: "in_hand_ok t s" "scheduler_lock_nest s = scheduler_lock_nest s0" "rt_current_thread s \<noteq> None"
      "runs_ok s0 \<longrightarrow> runs_ok s"
    using assms by (auto simp: before_inv_def)
  show ?thesis
  proof (cases t)
    case (App_timer i)
    obtain s' L' V q' where s': "mq_sends pmax (posts i s) s = Some s'" "kern pmax idle L' {} {t} 1 T q' s'" "wakes L q s V L' q' s'"
      using kern_sends [OF K] by blast
    note k = s'(3) [unfolded wakes_def]
    let ?P = "\<lambda>(u, _ :: nat). u \<notin> Thread_timer ` V"
    have "after_inv pmax idle W Z s0 t T (filter ?P q) s'"
      using watch_wakes [OF w s'(3)] s'(2) k h App_timer by (auto simp: after_inv_def)
    then show ?thesis
      by (intro exI [of _ s'] exI [of _ ?P]) (use s'(1) k App_timer in \<open>auto simp: is_thread_timer_def\<close>)
  next
    case (Thread_timer v)
    have q: "Thread_timer v \<notin> fst ` set q" using timer_relD(12) [OF kernD(2) [OF K]] Thread_timer by force
    have sv: "stat (threads s v) = RT_THREAD_SUSPEND" using h(1) Thread_timer by simp
    let ?L = "L_ready (unat (current_priority (threads s v))) v (L_remove v L)"
    obtain s' where s': "rt_thread_timeout pmax v s = Some s'" "kern pmax idle ?L {} {t} 1 T q s'"
      "threads s' = (threads s)(v := (threads s v)\<lparr>thread_error := - RT_ETIMEOUT, stat := RT_THREAD_READY\<rparr>)"
      "timers s' = timers s" "scheduler_lock_nest s' = scheduler_lock_nest s" "rt_current_thread s' \<noteq> None" "runs_ok s'"
      using kern_timeout [OF K sv q] h(3) by blast
    have "watch W Z ?L T q s'"
      using w Thread_timer unfolding watch_def by (auto simp: s'(3) ready_def L_ready_def)
    then have "after_inv pmax idle W Z s0 t T (filter (\<lambda>_. True) q) s'" using s'(2,3,5-7) h Thread_timer by (auto simp: after_inv_def)
    then show ?thesis
      by (intro exI [of _ s'] exI [of _ "\<lambda>_. True"]) (use s'(1,4) Thread_timer in \<open>simp add: is_thread_timer_def\<close>)
  qed
qed

lemma timer_start_frame:
  fixes s :: "'a kernel_scheme"
  assumes "rt_timer_start t s = Some s'"
  shows "threads s' = threads s" "ready_priority_group s' = ready_priority_group s" "ready_table s' = ready_table s"
    "scheduler_lock_nest s' = scheduler_lock_nest s" "rt_current_thread s' = rt_current_thread s" "rt_tick s' = rt_tick s"
  using assms
  by (auto simp: rt_timer_start_def Let_def upd_timer_def rt_timer_remove_def split: if_splits Option.bind_splits)

lemma kern_start:
  fixes s :: "'a kernel_scheme"
  assumes K: "kern pmax idle L X F k T q s" and k: "k \<le> 1"
    and init: "unat (timer_init_tick (timers s t)) < half_ticks" and t: "t \<notin> closed_timers s"
    and susp: "\<And>v. t = Thread_timer v \<Longrightarrow> stat (threads s v) = RT_THREAD_SUSPEND"
  obtains s' where "rt_timer_start t s = Some s'"
    "kern pmax idle (with_timers L (q_insert t (T + unat (timer_init_tick (timers s t))) (q_remove t q))) X (F - {t}) k T
       (q_insert t (T + unat (timer_init_tick (timers s t))) (q_remove t q)) s'"
proof (rule timer_rel_start [OF kernD(2) [OF K] k init])
  fix s'
  let ?q = "q_insert t (T + unat (timer_init_tick (timers s t))) (q_remove t q)"
  assume s': "rt_timer_start t s = Some s'"
    "let q' = ?q in timer_rel (heads pmax) nodes (with_timers L q') (F \<union> closed_timers s - {t}) k T q' s'"
    "timers s' = (timers s)(t := timers s' t)" "timer_init_tick (timers s' t) = timer_init_tick (timers s t)"
    "is_periodic (timers s' t) = is_periodic (timers s t)"
  have tm: "timer_init_tick (timers s' u) = timer_init_tick (timers s u)" "is_periodic (timers s' u) = is_periodic (timers s u)" for u
    using s'(3-5) by (metis fun_upd_apply)+
  have "kern pmax idle (with_timers L ?q) X (F - {t}) k T ?q s'"
  proof (rule kern_timers [OF K _ timer_start_frame(1-3) [OF s'(1)]])
    have "F \<union> closed_timers s - {t} = F - {t} \<union> closed_timers s" using t by blast
    then show "timer_rel (heads pmax) nodes (with_timers L ?q) (F - {t} \<union> closed_timers s) k T ?q s'"
      using s'(2) by (simp add: Let_def)
    show "stat (threads s v) = RT_THREAD_SUSPEND" if "Thread_timer v \<in> fst ` set ?q" for v
      using that susp [of v] kernD(3) [OF K, of v] by force
  qed (use tm in simp_all)
  then show ?thesis using that s'(1) by blast
qed

lemma kern_deactivate:
  fixes s :: "'a kernel_scheme"
  assumes K: "kern pmax idle L X F k T q s" and t: "t \<notin> fst ` set q" "t \<notin> closed_timers s"
  shows "kern pmax idle L X (F - {t}) k T q (upd_timer t deactivate s)"
proof -
  have R: "timer_rel (heads pmax) nodes L (F - {t} \<union> closed_timers s) k T q (upd_timer t deactivate s)"
    using timer_rel_deactivate [OF kernD(2) [OF K] t(1)] t(2) by (simp add: Un_Diff)
  have w: "with_timers L q = L" using timer_rel_with [OF R] .
  show ?thesis
    using kern_timers [OF K, of q "F - {t}" k T "upd_timer t deactivate s"] R kernD(3) [OF K]
    by (auto simp: w upd_timer_def)
qed

lemma kern_remove_first:
  fixes s :: "'a kernel_scheme"
  assumes K: "kern pmax idle L X {} k T ((t, e) # q) s"
  shows "kern pmax idle (with_timers L q) X {t} k T q (rt_timer_remove t s)"
proof -
  have "t \<notin> fst ` set q" using timer_rel_distinct [OF kernD(2) [OF K]] by simp
  then have q: "q_remove t ((t, e) # q) = q" using q_remove_absent by (simp add: q_remove_def)
  have R: "timer_rel (heads pmax) nodes (with_timers L q) ({t} \<union> closed_timers s) k T q (rt_timer_remove t s)"
    using timer_rel_remove [OF kernD(2) [OF K], of t] unfolding q by simp
  show ?thesis
    by (rule kern_timers [OF K R]) (use kernD(3) [OF K] in \<open>auto simp: rt_timer_remove_def\<close>)
qed

lemma watch_mono:
  assumes "watch W Z L T q s" "set q \<subseteq> set q'" "threads s' = threads s" "\<And>i. L' (Suspend_list i) = L (Suspend_list i)"
  shows "watch W Z L' T q' s'"
  using assms unfolding watch_def ready_def by (metis image_mono subsetD)

lemma after_expired:
  fixes s :: "'a kernel_scheme"
  assumes A: "after_inv pmax idle W Z s0 t T q s" and x: "timer_expire t s = Some s'"
  shows "tick_inv pmax idle W Z s0 T (q_expire T t s q) s'"
proof -
  obtain L where K: "kern pmax idle L {} {t} 1 T q s" and w: "watch W Z L T q s" and t: "t \<notin> closed_timers s"
    using A by (auto simp: after_inv_def)
  have q: "t \<notin> fst ` set q" using timer_relD(12) [OF kernD(2) [OF K]] by force
  let ?s1 = "upd_timer t deactivate s"
  have K1: "kern pmax idle L {} {} 1 T q ?s1" using kern_deactivate [OF K q t] by simp
  have same: "threads ?s1 = threads s" "scheduler_lock_nest ?s1 = scheduler_lock_nest s" "rt_current_thread ?s1 = rt_current_thread s"
    by (simp_all add: upd_timer_def)
  note runs = runs_ok_cong [OF same(1,3,2)]
  show ?thesis
  proof (cases "is_periodic (timers s t) \<and> is_activated (timers s t)")
    case False
    then have "s' = ?s1" "q_expire T t s q = q" using x by (auto simp: timer_expire_def q_expire_def)
    then show ?thesis using K1 A watch_mono [OF w, of q ?s1 L] same runs unfolding tick_inv_def after_inv_def by auto
  next
    case True
    let ?q = "q_insert t (T + unat (timer_init_tick (timers s t))) q"
    have thread: "t \<noteq> Thread_timer v" for v using kernD(4) [OF K] True by auto
    have init: "timer_init_tick (timers ?s1 t) = timer_init_tick (timers s t)"
      "unat (timer_init_tick (timers s t)) < half_ticks" using kernD(5) [OF K] True by simp_all
    have t1: "t \<notin> closed_timers ?s1" using t by (simp add: closed_timers_def same)
    obtain s2 where s2: "rt_timer_start t ?s1 = Some s2" "kern pmax idle (with_timers L ?q) {} {} 1 T ?q s2"
      by (rule kern_start [OF K1, of t]) (use thread q_remove_absent [OF q] init t1 in simp_all)
    have "s' = s2" "q_expire T t s q = ?q" using x s2(1) True by (simp_all add: timer_expire_def q_expire_def)
    moreover have "watch W Z (with_timers L ?q) T ?q s2"
      by (rule watch_mono [OF w]) (use timer_start_frame(1) [OF s2(1)] same in auto)
    ultimately show ?thesis using s2(2) A timer_start_frame(4,5) [OF s2(1)] same runs runs_ok_cong [OF timer_start_frame(1,5,4) [OF s2(1)]]
      unfolding tick_inv_def after_inv_def by auto
  qed
qed

interpretation tick: timer_client "heads pmax" nodes "timeout_func pmax posts" "tick_inv pmax idle W Z s0"
  "before_inv pmax idle W Z s0" "after_inv pmax idle W Z s0" is_thread_timer
  for pmax idle W Z s0 posts
proof
  fix T q and s :: "'a kernel_scheme"
  assume "tick_inv pmax idle W Z s0 T q s"
  then obtain L where "kern pmax idle L {} {} 1 T q s" by (auto simp: tick_inv_def)
  from kernD(2) [OF this] show "\<exists>L D. timer_rel (heads pmax) nodes L D 1 T q s" by blast
next
  fix t T q and s :: "'a kernel_scheme"
  assume "after_inv pmax idle W Z s0 t T q s"
  then obtain L where "kern pmax idle L {} {t} 1 T q s" by (auto simp: after_inv_def)
  from kernD(2) [OF this] show "\<exists>L D. timer_rel (heads pmax) nodes L (insert t D) 1 T q s" by auto
next
  fix v t T q and s :: "'a kernel_scheme"
  assume "tick_inv pmax idle W Z s0 T q s \<or> after_inv pmax idle W Z s0 v T q s" "is_periodic (timers s t)"
  then show "0 < unat (timer_init_tick (timers s t)) \<and> unat (timer_init_tick (timers s t)) < half_ticks"
    using kernD(5) unfolding tick_inv_def after_inv_def by blast
next
  fix t e T q and s :: "'a kernel_scheme"
  assume a: "tick_inv pmax idle W Z s0 T ((t, e) # q) s" "e \<le> T"
  then obtain L where K: "kern pmax idle L {} {} 1 T ((t, e) # q) s" and w: "watch W Z L T ((t, e) # q) s"
    by (auto simp: tick_inv_def)
  have "watch {u \<in> W. t \<noteq> Thread_timer u} Z (with_timers L q) T q (rt_timer_remove t s)"
    using w a(2) unfolding watch_def ready_def by (fastforce simp: rt_timer_remove_def)
  moreover have "in_hand_ok t (rt_timer_remove t s)"
    using kernD(3) [OF K] by (cases t) (auto simp: rt_timer_remove_def)
  ultimately show "before_inv pmax idle W Z s0 t T q (rt_timer_remove t s)"
    using kern_remove_first [OF K] a(1) runs_ok_cong [of "rt_timer_remove t s" s]
    by (auto simp: before_inv_def tick_inv_def rt_timer_remove_def)
next
  fix t T q and s :: "'a kernel_scheme"
  assume "before_inv pmax idle W Z s0 t T q s"
  from before_called [OF this]
  show "\<exists>s' P. timeout_func pmax posts t s = Some s' \<and> after_inv pmax idle W Z s0 t T (filter P q) s' \<and>
      (\<forall>u e. \<not> is_thread_timer u \<longrightarrow> P (u, e)) \<and>
      (\<forall>u. timer_init_tick (timers s' u) = timer_init_tick (timers s u) \<and>
           is_periodic (timers s' u) = is_periodic (timers s u)) \<and>
      (\<not> is_thread_timer t \<longrightarrow> is_activated (timers s' t) = is_activated (timers s t))" .
next
  fix t T q s' and s :: "'a kernel_scheme"
  assume a: "after_inv pmax idle W Z s0 t T q s" "timer_expire t s = Some s'"
  from after_expired [OF this] show "tick_inv pmax idle W Z s0 T (q_expire T t s q) s'" .
qed

lemma kern_in_time:
  assumes "kern pmax idle L X F 1 T q s" "q_due T q = []"
  shows "kern pmax idle L X F 0 T q s"
proof -
  have "T \<le> e" if "(u, e) \<in> set q" for u e using assms(2) that by (auto simp: q_due_def filter_empty_conv)
  then show ?thesis using assms(1) by (auto simp: kern_def timer_rel_def)
qed

text \<open>Giving up the processor changes the order in the ready list, and possibly the running thread.\<close>

lemma kern_yield:
  fixes s :: "'a kernel_scheme"
  assumes K: "kern pmax idle L {} F k T q s" and c: "rt_current_thread s = Some c"
  shows "\<exists>s' L'. rt_thread_yield pmax s = Some s' \<and> kern pmax idle L' {} F k T q s' \<and> threads s' = threads s \<and>
    timers s' = timers s \<and> scheduler_lock_nest s' = scheduler_lock_nest s \<and> rt_current_thread s' \<noteq> None \<and>
    (\<forall>i. L' (Suspend_list i) = L (Suspend_list i)) \<and> (runs_ok s \<longrightarrow> runs_ok s')"
proof (cases "stat (threads s c) = RT_THREAD_READY \<and> list_next (list_links s) (Tlist c) \<noteq> list_prev (list_links s) (Tlist c)")
  case False
  then have "rt_thread_yield pmax s = Some s" using c by (auto simp: rt_thread_yield_def Let_def)
  then show ?thesis using K c by auto
next
  case True
  let ?p = "unat (current_priority (threads s c))"
  let ?s = "s\<lparr>list_links := rt_list_insert_before (Priority_table ?p) (Tlist c) (rt_list_remove (Tlist c) (list_links s))\<rparr>"
  let ?L = "L_ready ?p c (L_remove c L)"
  note S = kernD(1) [OF K]
  have S1: "sched_ok pmax {} ?L ?s" using sched_ok_requeue [OF S, of c] True by simp
  have K1: "kern pmax idle ?L {} F k T q ?s"
    by (rule kern_lists [OF K S1]) (use kernD(3,6) [OF K] sched_okD(2) [OF S] in \<open>auto simp: ready_def\<close>)
  have wait: "?L (Suspend_list i) = L (Suspend_list i)" for i
    using placedD(3) [OF sched_okD(3) [OF S], of c i] True by (auto simp: L_ready_def intro!: removeAll_id)
  obtain s' where s': "rt_schedule pmax ?s = Some s'" "kern pmax idle ?L {} F k T q s'" "threads s' = threads ?s" "timers s' = timers ?s"
    "scheduler_lock_nest s' = scheduler_lock_nest ?s" "runs_ok s'" "rt_current_thread ?s \<noteq> None \<Longrightarrow> rt_current_thread s' \<noteq> None"
    by (rule kern_schedule [OF K1], blast)
  show ?thesis
    by (intro exI [of _ s'] exI [of _ ?L]) (use s' True c wait in \<open>simp add: rt_thread_yield_def Let_def\<close>)
qed

lemma watch_cong:
  assumes "watch W Z L T q s" "\<And>t. stat (threads s' t) = stat (threads s t)" "\<And>i. L' (Suspend_list i) = L (Suspend_list i)"
  shows "watch W Z L' T q s'"
  using assms by (simp add: watch_def ready_def)

lemma kern_remaining:
  fixes s :: "'a kernel_scheme"
  assumes K: "kern pmax idle L X F k T q s"
  shows "kern pmax idle L X F k T q (upd_thread t (\<lambda>x. x\<lparr>remaining_tick := f x\<rparr>) s)"
proof (rule kern_lists [OF K])
  show "sched_ok pmax X L (upd_thread t (\<lambda>x. x\<lparr>remaining_tick := f x\<rparr>) s)"
    by (rule sched_ok_upd [OF kernD(1) [OF K]]) (use sched_okD(4) [OF kernD(1) [OF K]] in simp_all)
qed (use kernD(3,6,7) [OF K] in \<open>auto simp: ready_def\<close>)

lemma kern_error:
  fixes s :: "'a kernel_scheme"
  assumes K: "kern pmax idle L X F k T q s"
  shows "kern pmax idle L X F k T q (upd_thread t (\<lambda>x. x\<lparr>thread_error := e\<rparr>) s)"
proof (rule kern_lists [OF K])
  show "sched_ok pmax X L (upd_thread t (\<lambda>x. x\<lparr>thread_error := e\<rparr>) s)"
    by (rule sched_ok_upd [OF kernD(1) [OF K]]) (use sched_okD(4) [OF kernD(1) [OF K]] in simp_all)
qed (use kernD(3,6,7) [OF K] in \<open>auto simp: ready_def\<close>)

text \<open>The tick interrupt returns, and does to the timers what \<open>check_spec\<close> says.\<close>

lemma kern_tick:
  fixes s :: "'a kernel_scheme"
  assumes K: "kern pmax idle L {} {} 0 T q s" and c: "rt_current_thread s \<noteq> None" and w: "watch W Z L (Suc T) q s"
  shows "\<exists>fired s' L' q'. rt_tick_increase pmax posts s = Some (fired, s') \<and> kern pmax idle L' {} {} 0 (Suc T) q' s' \<and>
    watch W Z L' (Suc T) q' s' \<and> check_spec is_thread_timer (Suc T) (timers s) q fired q' \<and>
    (\<forall>u. timer_init_tick (timers s' u) = timer_init_tick (timers s u) \<and> is_periodic (timers s' u) = is_periodic (timers s u)) \<and>
    scheduler_lock_nest s' = scheduler_lock_nest s \<and> rt_current_thread s' \<noteq> None \<and> (runs_ok s \<longrightarrow> runs_ok s')"
proof -
  obtain t where t: "rt_current_thread s = Some t" using c by blast
  let ?s1 = "s\<lparr>rt_tick := rt_tick s + 1\<rparr>"
  let ?s2 = "upd_thread t (\<lambda>x. x\<lparr>remaining_tick := remaining_tick x - 1\<rparr>) ?s1"
  let ?s2' = "upd_thread t (\<lambda>x. x\<lparr>remaining_tick := thread_init_tick x\<rparr>) ?s2"
  have R1: "timer_rel (heads pmax) nodes (with_timers L q) ({} \<union> closed_timers s) 1 (Suc T) q ?s1"
    using timer_rel_tick [OF kernD(2) [OF K]] timer_rel_with [OF kernD(2) [OF K]] by simp
  have "kern pmax idle (with_timers L q) {} {} 1 (Suc T) q ?s1"
    by (rule kern_timers [OF K R1]) (use kernD(3) [OF K] in simp_all)
  then have K1: "kern pmax idle L {} {} 1 (Suc T) q ?s1" using timer_rel_with [OF kernD(2) [OF K]] by simp
  have K2: "kern pmax idle L {} {} 1 (Suc T) q ?s2" "kern pmax idle L {} {} 1 (Suc T) q ?s2'"
    by (rule kern_remaining [OF K1], rule kern_remaining [OF kern_remaining [OF K1]])
  have runs: "runs_ok ?s2 \<longleftrightarrow> runs_ok s" "runs_ok ?s2' \<longleftrightarrow> runs_ok s"
    by (rule runs_ok_upd; simp)+
  have "\<exists>s3 L3. (if remaining_tick (threads ?s2 t) = 0 then rt_thread_yield pmax ?s2' else Some ?s2) = Some s3 \<and>
      kern pmax idle L3 {} {} 1 (Suc T) q s3 \<and> (\<forall>u. stat (threads s3 u) = stat (threads s u)) \<and> timers s3 = timers s \<and>
      scheduler_lock_nest s3 = scheduler_lock_nest s \<and> rt_current_thread s3 \<noteq> None \<and>
      (\<forall>i. L3 (Suspend_list i) = L (Suspend_list i)) \<and> (runs_ok s \<longrightarrow> runs_ok s3)"
  proof (cases "remaining_tick (threads ?s2 t) = 0")
    case True
    then show ?thesis using kern_yield [OF K2(2), of t] t runs(2) by auto
  next
    case False
    then show ?thesis using K2(1) t runs(1) by (intro exI [of _ ?s2] exI [of _ L]) auto
  qed
  then obtain s3 L3 where s3: "(if remaining_tick (threads ?s2 t) = 0 then rt_thread_yield pmax ?s2' else Some ?s2) = Some s3"
      "kern pmax idle L3 {} {} 1 (Suc T) q s3" "\<And>u. stat (threads s3 u) = stat (threads s u)" "timers s3 = timers s"
      "scheduler_lock_nest s3 = scheduler_lock_nest s" "rt_current_thread s3 \<noteq> None"
      "\<And>i. L3 (Suspend_list i) = L (Suspend_list i)" "runs_ok s \<longrightarrow> runs_ok s3" by blast
  have "tick_inv pmax idle W Z s (Suc T) q s3"
    using watch_cong [OF w, of s3 L3] s3 unfolding tick_inv_def by blast
  from tick.check_returns [OF this, of posts] obtain fired q' s' where
    r: "timer_check_loop (timeout_func pmax posts) (rt_tick s3) s3 = Some (fired, s')" "tick_inv pmax idle W Z s (Suc T) q' s'"
    "check_spec is_thread_timer (Suc T) (timers s) q fired q'"
    "\<forall>u. timer_init_tick (timers s' u) = timer_init_tick (timers s u) \<and> is_periodic (timers s' u) = is_periodic (timers s u)"
    by (auto simp: s3(4))
  obtain L' where L': "kern pmax idle L' {} {} 1 (Suc T) q' s'" "watch W Z L' (Suc T) q' s'"
    using r(2) by (auto simp: tick_inv_def)
  have "q_due (Suc T) q' = []" using r(3) by (simp add: check_spec_def)
  from kern_in_time [OF L'(1) this] have "kern pmax idle L' {} {} 0 (Suc T) q' s'" .
  moreover have "rt_tick_increase pmax posts s = Some (fired, s')"
    using s3(1) r(1) t by (simp add: rt_tick_increase_def Let_def rt_timer_check_def)
  ultimately show ?thesis using L'(2) r(2-4) by (auto simp: tick_inv_def)
qed

text \<open>Going to sleep.\<close>

lemma kern_set_time:
  fixes s :: "'a kernel_scheme"
  assumes K: "kern pmax idle L X F k T q s"
  shows "kern pmax idle L X F k T q (snd (snd (rt_timer_control (Thread_timer t) (CTRL_SET_TIME n) s)))"
proof -
  let ?s = "snd (snd (rt_timer_control (Thread_timer t) (CTRL_SET_TIME n) s))"
  have same: "threads ?s = threads s" "ready_priority_group ?s = ready_priority_group s" "ready_table ?s = ready_table s"
    by (simp_all add: rt_timer_control_def upd_timer_def)
  have tm: "is_periodic (timers ?s u) = is_periodic (timers s u)" "is_activated (timers ?s u) = is_activated (timers s u)"
    "timeout_tick (timers ?s u) = timeout_tick (timers s u)" for u
    by (simp_all add: rt_timer_control_def)
  have "timer_rel (heads pmax) nodes L (F \<union> closed_timers s) k T q ?s"
    using kernD(2) [OF K] tm by (simp add: timer_rel_def rt_timer_control_def)
  then have R: "timer_rel (heads pmax) nodes (with_timers L q) (F \<union> closed_timers s) k T q ?s"
    using timer_rel_with [OF kernD(2) [OF K]] by simp
  have init: "is_periodic (timers ?s u) \<Longrightarrow> timer_init_tick (timers ?s u) = timer_init_tick (timers s u)" for u
    using kernD(4) [OF K, of t] tm(1) [of u] by (auto simp: rt_timer_control_def)
  have "kern pmax idle (with_timers L q) X F k T q ?s"
    by (rule kern_timers [OF K R same tm(1) init]) (use kernD(3) [OF K] in simp_all)
  then show ?thesis using timer_rel_with [OF kernD(2) [OF K]] by simp
qed

lemma kern_sleep:
  fixes s :: "'a kernel_scheme"
  assumes K: "kern pmax idle L {} {} 0 T q s" and c: "rt_current_thread s = Some c" "ready s c" "c \<noteq> idle"
    and n: "unat n < half_ticks"
  shows "\<exists>s' L'. rt_thread_sleep pmax n s = Some s' \<and> kern pmax idle L' {} {} 0 T (q_insert (Thread_timer c) (T + unat n) q) s' \<and>
    threads s' = (threads s)(c := (threads s c)\<lparr>stat := RT_THREAD_SUSPEND\<rparr>) \<and>
    (\<forall>i. Tlist c \<notin> set (L' (Suspend_list i)) \<and> set (L' (Suspend_list i)) \<subseteq> set (L (Suspend_list i))) \<and>
    (\<forall>i. timers s' (App_timer i) = timers s (App_timer i)) \<and>
    runs_ok s' \<and> rt_current_thread s' \<noteq> None"
proof -
  let ?s1 = "snd (rt_thread_suspend pmax c s)"
  let ?s2 = "snd (snd (rt_timer_control (Thread_timer c) (CTRL_SET_TIME n) ?s1))"
  let ?q = "q_insert (Thread_timer c) (T + unat n) q"
  have qc: "Thread_timer c \<notin> fst ` set q" using kernD(3) [OF K, of c] c(2) by (auto simp: ready_def)
  let ?L = "with_timers (L_remove c L) q"
  have K2: "kern pmax idle ?L {} {} 0 T q ?s2" by (rule kern_set_time [OF kern_suspend(1) [OF K c(2,3)]])
  have th: "threads ?s2 = (threads s)(c := (threads s c)\<lparr>stat := RT_THREAD_SUSPEND\<rparr>)"
    using kern_suspend(3) [OF K c(2,3)] by (simp add: rt_timer_control_def upd_timer_def)
  have init: "timer_init_tick (timers ?s2 (Thread_timer c)) = n" by (simp add: rt_timer_control_def)
  obtain s3 where s3: "rt_timer_start (Thread_timer c) ?s2 = Some s3" "kern pmax idle (with_timers ?L ?q) {} {} 0 T ?q s3"
    by (rule kern_start [OF K2, of "Thread_timer c"]) (use init n th q_remove_absent [OF qc] in simp_all)
  have lock: "scheduler_lock_nest s3 = scheduler_lock_nest s" "rt_current_thread s3 = rt_current_thread s" "threads s3 = threads ?s2"
    using timer_start_frame [OF s3(1)] c(2)
    by (simp_all add: rt_timer_control_def upd_timer_def rt_thread_suspend_def Let_def ready_def)
  have app: "timers s3 (App_timer i) = timers s (App_timer i)" for i
    using timer_start_others(1) [OF s3(1), of "App_timer i"] c(2)
    by (simp add: rt_timer_control_def rt_thread_suspend_def Let_def ready_def)
  obtain s' where s': "rt_schedule pmax s3 = Some s'" "kern pmax idle (with_timers ?L ?q) {} {} 0 T ?q s'" "threads s' = threads s3"
    "timers s' = timers s3"
    "runs_ok s'" "rt_current_thread s3 \<noteq> None \<Longrightarrow> rt_current_thread s' \<noteq> None"
    by (rule kern_schedule [OF s3(2)], blast)
  show ?thesis
    by (intro exI [of _ s'] exI [of _ "with_timers ?L ?q"])
      (use s' s3(1) lock th c(1) app in \<open>auto simp: rt_thread_sleep_def Let_def\<close>)
qed

end
