(* ===== verification/Kernel_Steps.thy ===== *)
theory Kernel_Steps
  imports Kernel_Threads
begin

text \<open>
  The remaining operations on threads keep the invariant of the kernel: waiting for an object in order of
  arrival or of priority, starting a thread, changing its priority, ending it.
\<close>

section \<open>Waiting for an object\<close>

lemma sched_ok_wait:
  fixes s :: "'a kernel_scheme"
  assumes S: "sched_ok pmax {} L s" and t: "unlinked pmax t L" "stat (threads s t) = RT_THREAD_SUSPEND"
    and L: "L (Suspend_list i) = xs @ ys"
  shows "sched_ok pmax {} (L(Suspend_list i := xs @ Tlist t # ys))
    (s\<lparr>list_links := rt_list_insert_before (hd (ys @ [Suspend_list i])) (Tlist t) (list_links s)\<rparr>)"
proof -
  let ?L = "L(Suspend_list i := xs @ Tlist t # ys)"
  have "reps (heads pmax) nodes (rt_list_insert_before (hd (ys @ [Suspend_list i])) (Tlist t) (list_links s)) ?L"
    using reps_insert_before_at [OF sched_okD(1) [OF S] _ L, of "Tlist t"] t(1) by (simp add: unlinked_def)
  moreover have "typed pmax ?L"
  proof -
    have "set (?L l) \<subseteq> insert (Tlist t) (set (L l))" for l using L by auto
    then show ?thesis using sched_okD(2) [OF S] unfolding typed_def by fastforce
  qed
  moreover have "placed pmax {} ?L (threads s)"
  proof (rule placedI)
    show "stat (threads s u) = RT_THREAD_SUSPEND" if "Tlist u \<in> set (?L (Suspend_list j))" for u j
      using that placedD(3) [OF sched_okD(3) [OF S], of u j] t(2) L by (cases "j = i"; cases "u = t") auto
  qed (use placedD [OF sched_okD(3) [OF S]] in auto)
  moreover have "occupied ?L = occupied L" by (simp add: occupied_def fun_eq_iff)
  ultimately show ?thesis using S by (simp add: sched_ok_def)
qed

text \<open>The place of a thread in a list ordered by priority: behind those at least as urgent.\<close>

lemma ipc_seek_circular:
  fixes s :: "'a kernel_scheme"
  assumes "circular (list_links s) l (xs @ map Tlist ts)" "l \<notin> range Tlist"
  shows "ipc_seek l prio (hd (map Tlist ts @ [l])) s =
    Some (hd (map Tlist (dropWhile (\<lambda>u. current_priority (threads s u) \<le> prio) ts) @ [l]))"
  using assms(1)
proof (induction ts arbitrary: xs)
  case Nil
  then show ?case by (subst ipc_seek.simps) simp
next
  case (Cons u ts)
  have next_u: "list_next (list_links s) (Tlist u) = hd (map Tlist ts @ [l])"
    using circular_next_nth [of "list_links s" l "xs @ [Tlist u]" "map Tlist ts"] Cons.prems by simp
  have "ipc_seek l prio (hd (map Tlist ts @ [l])) s =
      Some (hd (map Tlist (dropWhile (\<lambda>u. current_priority (threads s u) \<le> prio) ts) @ [l]))"
    using Cons.IH [of "xs @ [Tlist u]"] Cons.prems by simp
  moreover have "Tlist u \<noteq> l" using assms(2) by auto
  ultimately show ?case by (subst ipc_seek.simps) (auto simp: next_u)
qed

definition wait_split :: "ipc_flag \<Rightarrow> byte \<Rightarrow> 'a kernel_scheme \<Rightarrow> nat list \<Rightarrow> nat list \<times> nat list" where
  "wait_split flag prio s ts = (case flag of
     RT_IPC_FLAG_FIFO \<Rightarrow> (ts, [])
   | RT_IPC_FLAG_PRIO \<Rightarrow> (takeWhile (\<lambda>u. current_priority (threads s u) \<le> prio) ts,
       dropWhile (\<lambda>u. current_priority (threads s u) \<le> prio) ts))"

lemma wait_split_append: "wait_split flag prio s ts = (us, vs) \<Longrightarrow> us @ vs = ts"
  by (cases flag) (auto simp: wait_split_def)

lemma waiting_threads:
  assumes "sched_ok pmax X L s"
  obtains ts where "L (Suspend_list i) = map Tlist ts"
proof -
  have "set (L (Suspend_list i)) \<subseteq> range Tlist" using sched_okD(2) [OF assms] by (simp add: typed_def)
  then have "\<exists>ts. L (Suspend_list i) = map Tlist ts" unfolding ex_map_conv by blast
  then show ?thesis using that by blast
qed

lemma suspend_frame [simp]:
  fixes s :: "'a kernel_scheme"
  shows "scheduler_lock_nest (snd (rt_thread_suspend pmax t s)) = scheduler_lock_nest s"
    "rt_current_thread (snd (rt_thread_suspend pmax t s)) = rt_current_thread s"
  by (simp_all add: rt_thread_suspend_def Let_def)

lemma kern_ipc_suspend:
  fixes s :: "'a kernel_scheme"
  assumes K: "kern pmax idle L {} F k T q s" and t: "ready s t" "t \<noteq> idle" and L: "L (Suspend_list i) = map Tlist ts"
    and sp: "wait_split flag (current_priority (threads s t)) s ts = (us, vs)"
  defines "L' \<equiv> (with_timers (L_remove t L) q)(Suspend_list i := map Tlist us @ Tlist t # map Tlist vs)"
  shows "\<exists>s'. rt_ipc_list_suspend pmax i t flag s = Some s' \<and> kern pmax idle L' {} F k T q s' \<and>
    threads s' = (threads s)(t := (threads s t)\<lparr>stat := RT_THREAD_SUSPEND\<rparr>) \<and> timers s' = timers (snd (rt_thread_suspend pmax t s)) \<and>
    scheduler_lock_nest s' = scheduler_lock_nest s \<and> rt_current_thread s' = rt_current_thread s"
proof -
  let ?s1 = "snd (rt_thread_suspend pmax t s)" and ?L1 = "with_timers (L_remove t L) q"
  note S = kern_suspend [OF K t]
  note S1 = kernD(1) [OF S(1)]
  have tt: "t \<notin> set ts" using placedD(3) [OF sched_okD(3) [OF kernD(1) [OF K]], of t i] t(1) L by (auto simp: ready_def)
  then have L1: "?L1 (Suspend_list i) = map Tlist us @ map Tlist vs"
    using L wait_split_append [OF sp] by (auto simp flip: map_append intro!: removeAll_id)
  have u: "unlinked pmax t ?L1" by (auto simp: unlinked_def with_timers_def)
  let ?n = "hd (map Tlist vs @ [Suspend_list i])"
  let ?s2 = "?s1\<lparr>list_links := rt_list_insert_before ?n (Tlist t) (list_links ?s1)\<rparr>"
  have S2: "sched_ok pmax {} L' ?s2" unfolding L'_def by (rule sched_ok_wait [OF S1 u _ L1]) (simp add: S(3))
  have K2: "kern pmax idle L' {} F k T q ?s2"
    by (rule kern_lists [OF S(1) S2]) (use kernD(3,6) [OF S(1)] in \<open>auto simp: L'_def ready_def\<close>)
  have pos: "(case flag of RT_IPC_FLAG_FIFO \<Rightarrow> Some (Suspend_list i)
      | RT_IPC_FLAG_PRIO \<Rightarrow> ipc_seek (Suspend_list i) (current_priority (threads ?s1 t)) (list_next (list_links ?s1) (Suspend_list i)) ?s1)
    = Some ?n"
  proof (cases flag)
    case RT_IPC_FLAG_FIFO
    then show ?thesis using sp by (simp add: wait_split_def)
  next
    case RT_IPC_FLAG_PRIO
    have L1': "?L1 (Suspend_list i) = [] @ map Tlist ts" using L1 wait_split_append [OF sp] by (simp flip: map_append)
    then have r: "circular (list_links ?s1) (Suspend_list i) ([] @ map Tlist ts)"
      using repsD(1) [OF sched_okD(1) [OF S1], of "Suspend_list i"] by simp
    have "dropWhile (\<lambda>v. current_priority (threads ?s1 v) \<le> current_priority (threads s t)) ts = vs"
      using sp RT_IPC_FLAG_PRIO tt
      by (auto simp: wait_split_def S(3) intro!: dropWhile_cong)
    then show ?thesis
      using RT_IPC_FLAG_PRIO ipc_seek_circular [OF r, of "current_priority (threads s t)"] circular_next [OF r] by (auto simp: S(3))
  qed
  show ?thesis
    by (rule exI [of _ ?s2]) (use K2 pos S(3) in \<open>simp add: rt_ipc_list_suspend_def Let_def\<close>)
qed

text \<open>Blocking on an object, for ever or for a time.\<close>

definition q_wait :: "nat \<Rightarrow> u32 \<Rightarrow> nat \<Rightarrow> timer_queue \<Rightarrow> timer_queue" where
  "q_wait t time T q = (if 0 < sint time then q_insert (Thread_timer t) (T + unat time) q else q)"

lemma sint_pos_half:
  fixes w :: u32
  assumes "0 < sint w" "unat w \<noteq> half_ticks"
  shows "unat w < half_ticks"
proof -
  have top: "\<not> bit w 31" using bit_last_iff [of w] assms(1) by simp
  have "w = take_bit 31 w"
  proof (rule bit_word_eqI)
    fix n
    assume "n < LENGTH(32)"
    then show "bit w n = bit (take_bit 31 w) n" using top by (cases "n = 31") (auto simp: bit_take_bit_iff)
  qed
  then have "unat w = take_bit 31 (unat w)" by (metis unsigned_take_bit_eq)
  then have "unat w < 2 ^ 31" using take_bit_nat_less_exp [of 31 "unat w"] by simp
  then show ?thesis using assms(2) by (simp add: half_ticks_def)
qed

lemma kern_wait_suspended:
  fixes s :: "'a kernel_scheme"
  assumes K: "kern pmax idle L {} {} 0 T q s" and c: "rt_current_thread s = Some c" "ready s c" "c \<noteq> idle"
    and n: "unat time \<noteq> half_ticks" and L: "L (Suspend_list i) = map Tlist ts"
    and sp: "wait_split flag (current_priority (threads s c)) s ts = (us, vs)"
  shows "\<exists>s' L'. do {
       s1 \<leftarrow> rt_ipc_list_suspend pmax i c flag s;
       s2 \<leftarrow> (if 0 < sint time
              then rt_timer_start (Thread_timer c) (snd (snd (rt_timer_control (Thread_timer c) (CTRL_SET_TIME time) s1)))
              else Some s1);
       rt_schedule pmax s2
     } = Some s' \<and> kern pmax idle L' {} {} 0 T (q_wait c time T q) s' \<and>
    threads s' = (threads s)(c := (threads s c)\<lparr>stat := RT_THREAD_SUSPEND\<rparr>) \<and>
    L' (Suspend_list i) = map Tlist (us @ c # vs) \<and> (\<forall>j. j \<noteq> i \<longrightarrow> L' (Suspend_list j) = L (Suspend_list j)) \<and>
    (\<forall>j. timers s' (App_timer j) = timers s (App_timer j)) \<and>
    runs_ok s' \<and> rt_current_thread s' \<noteq> None"
proof -
  let ?L = "(with_timers (L_remove c L) q)(Suspend_list i := map Tlist us @ Tlist c # map Tlist vs)"
  obtain s1 where s1: "rt_ipc_list_suspend pmax i c flag s = Some s1" "kern pmax idle ?L {} {} 0 T q s1"
    "threads s1 = (threads s)(c := (threads s c)\<lparr>stat := RT_THREAD_SUSPEND\<rparr>)"
    "scheduler_lock_nest s1 = scheduler_lock_nest s" "rt_current_thread s1 = rt_current_thread s"
    "timers s1 = timers (snd (rt_thread_suspend pmax c s))"
    using kern_ipc_suspend [OF K c(2,3) L sp] by blast
  have app1: "timers s1 (App_timer j) = timers s (App_timer j)" for j
    using c(2) by (simp add: s1(6) rt_thread_suspend_def Let_def ready_def)
  have qc: "Thread_timer c \<notin> fst ` set q" using kernD(3) [OF K, of c] c(2) by (auto simp: ready_def)
  let ?s1 = "snd (snd (rt_timer_control (Thread_timer c) (CTRL_SET_TIME time) s1))" and ?q = "q_wait c time T q"
  have other: "?L (Suspend_list j) = L (Suspend_list j)" if "j \<noteq> i" for j
    using that placedD(3) [OF sched_okD(3) [OF kernD(1) [OF K]], of c j] c(2) by (auto simp: ready_def intro!: removeAll_id)
  have "\<exists>s2 L2. (if 0 < sint time then rt_timer_start (Thread_timer c) ?s1 else Some s1) = Some s2 \<and> kern pmax idle L2 {} {} 0 T ?q s2 \<and>
      threads s2 = threads s1 \<and> scheduler_lock_nest s2 = scheduler_lock_nest s1 \<and> rt_current_thread s2 = rt_current_thread s1 \<and>
      (\<forall>j. timers s2 (App_timer j) = timers s1 (App_timer j)) \<and>
      (\<forall>j. L2 (Suspend_list j) = ?L (Suspend_list j))"
  proof (cases "0 < sint time")
    case False
    then show ?thesis using s1(2) by (auto simp: q_wait_def)
  next
    case True
    have K1: "kern pmax idle ?L {} {} 0 T q ?s1" by (rule kern_set_time [OF s1(2)])
    obtain s2 where s2: "rt_timer_start (Thread_timer c) ?s1 = Some s2"
      "kern pmax idle (with_timers ?L (q_insert (Thread_timer c) (T + unat time) q)) {} {} 0 T (q_insert (Thread_timer c) (T + unat time) q) s2"
      by (rule kern_start [OF K1, of "Thread_timer c"])
        (use True n sint_pos_half s1(3) q_remove_absent [OF qc] in \<open>simp_all add: rt_timer_control_def upd_timer_def\<close>)
    then show ?thesis using True timer_start_frame [OF s2(1)] timer_start_others(1) [OF s2(1)]
      by (intro exI [of _ s2] exI conjI) (auto simp: q_wait_def rt_timer_control_def upd_timer_def)
  qed
  then obtain s2 L2 where s2: "(if 0 < sint time then rt_timer_start (Thread_timer c) ?s1 else Some s1) = Some s2"
    "kern pmax idle L2 {} {} 0 T ?q s2" "threads s2 = threads s1" "scheduler_lock_nest s2 = scheduler_lock_nest s1"
    "rt_current_thread s2 = rt_current_thread s1" "\<And>j. L2 (Suspend_list j) = ?L (Suspend_list j)"
    "\<And>j. timers s2 (App_timer j) = timers s1 (App_timer j)" by blast
  obtain s' where s': "rt_schedule pmax s2 = Some s'" "kern pmax idle L2 {} {} 0 T ?q s'" "threads s' = threads s2" "timers s' = timers s2"
    "runs_ok s'" "rt_current_thread s2 \<noteq> None \<Longrightarrow> rt_current_thread s' \<noteq> None"
    by (rule kern_schedule [OF s2(2)], blast)
  have "do {
       s1 \<leftarrow> rt_ipc_list_suspend pmax i c flag s;
       s2 \<leftarrow> (if 0 < sint time
              then rt_timer_start (Thread_timer c) (snd (snd (rt_timer_control (Thread_timer c) (CTRL_SET_TIME time) s1)))
              else Some s1);
       rt_schedule pmax s2
     } = Some s'" using s1(1) s2(1) s'(1) by simp
  then show ?thesis using s' s2(2-7) s1(3-5) c(1) other app1 by (intro exI [of _ s'] exI [of _ L2]) auto
qed

lemma kern_wait:
  fixes s :: "'a kernel_scheme"
  assumes K: "kern pmax idle L {} {} 0 T q s" and c: "rt_current_thread s = Some c" "ready s c" "c \<noteq> idle"
    and n: "unat time \<noteq> half_ticks" and L: "L (Suspend_list i) = map Tlist ts"
    and sp: "wait_split flag (current_priority (threads s c)) s ts = (us, vs)"
  shows "\<exists>s' L'. ipc_wait pmax i flag time s = Some s' \<and> kern pmax idle L' {} {} 0 T (q_wait c time T q) s' \<and>
    threads s' = (threads s)(c := (threads s c)\<lparr>thread_error := RT_EOK, stat := RT_THREAD_SUSPEND\<rparr>) \<and>
    L' (Suspend_list i) = map Tlist (us @ c # vs) \<and> (\<forall>j. j \<noteq> i \<longrightarrow> L' (Suspend_list j) = L (Suspend_list j)) \<and>
    (\<forall>j. timers s' (App_timer j) = timers s (App_timer j)) \<and>
    runs_ok s' \<and> rt_current_thread s' \<noteq> None"
proof -
  let ?s = "upd_thread c (\<lambda>x. x\<lparr>thread_error := RT_EOK\<rparr>) s"
  have cp: "current_priority (threads ?s u) = current_priority (threads s u)" for u by simp
  have "wait_split flag (current_priority (threads ?s c)) ?s ts = (us, vs)" using sp unfolding wait_split_def cp .
  from kern_wait_suspended [OF kern_error [OF K, of c RT_EOK] _ _ c(3) n L this]
  show ?thesis using c(1,2) by (simp add: ipc_wait_def ready_def)
qed

section \<open>Starting, ending and changing threads\<close>

lemma kern_unplaced:
  assumes K: "kern pmax idle L {} F k T q s" and t: "stat (threads s t) = RT_THREAD_INIT"
  shows "unlinked pmax t L" "Thread_timer t \<notin> fst ` set q" "t \<noteq> idle"
proof -
  note P = sched_okD(3) [OF kernD(1) [OF K]]
  have "Tlist t \<notin> set (L Timer_list)" using timer_relD(4) [OF kernD(2) [OF K]] by auto
  moreover have "Tlist t \<notin> set (L Defunct)" "Tlist t \<notin> set (L (Suspend_list i))" "p < pmax \<Longrightarrow> Tlist t \<notin> set (L (Priority_table p))" for i p
    using placedD(4) [OF P, of t] placedD(3) [OF P, of t i] placedD(2) [OF P, of t] t by auto
  ultimately show "unlinked pmax t L" by (auto simp: unlinked_def heads_def)
  show "Thread_timer t \<notin> fst ` set q" using kernD(3) [OF K, of t] t by auto
  show "t \<noteq> idle" using kernD(6) [OF K] t by (auto simp: ready_def)
qed

lemma kern_startup:
  fixes s :: "'a kernel_scheme"
  assumes K: "kern pmax idle L {} F k T q s" and t: "stat (threads s t) = RT_THREAD_INIT" "unat (init_priority (threads s t)) < pmax"
  shows "\<exists>s' L'. rt_thread_startup pmax t s = Some s' \<and> kern pmax idle L' {} F k T q s' \<and>
    (\<forall>u. u \<noteq> t \<longrightarrow> threads s' u = threads s u) \<and> ready s' t \<and> (\<forall>i. timers s' (App_timer i) = timers s (App_timer i)) \<and>
    (\<forall>i. L' (Suspend_list i) = L (Suspend_list i)) \<and> (rt_current_thread s \<noteq> None \<longrightarrow> rt_current_thread s' \<noteq> None \<and> runs_ok s')"
proof -
  let ?s1 = "upd_thread t (\<lambda>x. (set_priority pmax (init_priority x) x)\<lparr>stat := RT_THREAD_SUSPEND\<rparr>) s"
  note U = kern_unplaced [OF K t(1)]
  have ready_free: "\<forall>p<pmax. Tlist t \<notin> set (L (Priority_table p))" using U(1) by (simp add: unlinked_def)
  have "sched_ok pmax {t} L ?s1"
    by (rule sched_ok_upd [OF sched_ok_mono [OF kernD(1) [OF K]]]) (use t ready_free masks_ok_set_priority in auto)
  from sched_ok_settle [OF this U(1)] have S1: "sched_ok pmax {} L ?s1" by simp
  have K1: "kern pmax idle L {} F k T q ?s1"
    by (rule kern_lists [OF K S1]) (use kernD(3,6) [OF K] U t in \<open>auto simp: ready_def\<close>)
  let ?s2 = "snd (rt_thread_resume pmax t ?s1)" and ?L = "L_resume t q ?s1 L"
  have K2: "kern pmax idle ?L {} F k T q ?s2" using kern_resume(1) [OF K1, of t] q_remove_absent [OF U(2)] by simp
  have th: "threads ?s2 = (threads ?s1)(t := (threads ?s1 t)\<lparr>stat := RT_THREAD_READY\<rparr>)"
    using kern_resume(3) [OF K1, of t] by simp
  have tm: "timers ?s2 (App_timer i) = timers s (App_timer i)" "rt_current_thread ?s2 = rt_current_thread s" for i
    by (simp_all add: rt_thread_resume_def Let_def)
  have wait: "?L (Suspend_list i) = L (Suspend_list i)" for i
    using U(1) by (auto simp: L_resume_def L_ready_def unlinked_def intro!: removeAll_id)
  obtain s3 where s3: "rt_schedule pmax ?s2 = Some s3" "kern pmax idle ?L {} F k T q s3" "threads s3 = threads ?s2" "timers s3 = timers ?s2"
    "rt_current_thread ?s2 \<noteq> None \<Longrightarrow> rt_current_thread s3 \<noteq> None" "runs_ok s3"
    by (rule kern_schedule [OF K2], blast)
  show ?thesis
  proof (cases "rt_current_thread s = None")
    case True
    then show ?thesis using K2 th tm wait t by (intro exI [of _ ?s2] exI [of _ ?L]) (simp add: rt_thread_startup_def Let_def ready_def)
  next
    case False
    then show ?thesis using s3 th tm wait t by (intro exI [of _ s3] exI [of _ ?L]) (simp add: rt_thread_startup_def Let_def ready_def)
  qed
qed

lemma set_priority_simps [simp]:
  "stat (set_priority pmax p th) = stat th" "current_priority (set_priority pmax p th) = p"
  "thread_error (set_priority pmax p th) = thread_error th"
  by (simp_all add: set_priority_def)

lemma kern_change_priority:
  fixes s :: "'a kernel_scheme"
  assumes K: "kern pmax idle L {} F k T q s" and p: "unat p < pmax"
  shows "\<exists>L'. kern pmax idle L' {} F k T q (change_priority pmax t p s) \<and> (\<forall>i. L' (Suspend_list i) = L (Suspend_list i))"
proof (cases "stat (threads s t) = RT_THREAD_READY")
  case False
  have "sched_ok pmax {} L (upd_thread t (set_priority pmax p) s)"
    by (rule sched_ok_upd [OF kernD(1) [OF K]])
      (use p masks_ok_set_priority not_ready_list [OF kernD(1) [OF K] _ False] in auto)
  then have "kern pmax idle L {} F k T q (upd_thread t (set_priority pmax p) s)"
    by (rule kern_lists [OF K]) (use kernD(3,6) [OF K] in \<open>auto simp: ready_def\<close>)
  then show ?thesis using False by (auto simp: change_priority_def)
next
  case True
  let ?s1 = "rt_schedule_remove_thread pmax t s"
  let ?s2 = "upd_thread t (set_priority pmax p) ?s1"
  note S = kernD(1) [OF K]
  have m: "masks_ok pmax (threads s t)" using sched_okD(4) [OF S, of t] True by simp
  have S1: "sched_ok pmax {t} (L_remove t L) ?s1" using sched_ok_remove [OF S m] by simp
  have S2: "sched_ok pmax {t} (L_remove t L) ?s2"
    by (rule sched_ok_upd [OF S1]) (use p masks_ok_set_priority in auto)
  let ?L = "L_ready (unat p) t (L_remove t L)"
  have cp: "current_priority (threads ?s2 t) = p" by simp
  have S3: "sched_ok pmax {} ?L (rt_schedule_insert_thread pmax t ?s2)"
    using sched_ok_insert [OF S2, of t] p masks_ok_set_priority cp by simp
  have "Thread_timer t \<notin> fst ` set q" using kernD(3) [OF K, of t] True by auto
  then have "kern pmax idle ?L {} F k T q (rt_schedule_insert_thread pmax t ?s2)"
    by (intro kern_lists [OF K S3]) (use True kernD(3,6) [OF K] sched_okD(2) [OF S] in \<open>auto simp: ready_def\<close>)
  then have "kern pmax idle ?L {} F k T q (change_priority pmax t p s)" using True by (simp add: change_priority_def)
  moreover have "?L (Suspend_list i) = L (Suspend_list i)" for i
    using placedD(3) [OF sched_okD(3) [OF S], of t i] True by (auto simp: L_ready_def intro!: removeAll_id)
  ultimately show ?thesis by blast
qed

lemma change_priority_frame:
  fixes s :: "'a kernel_scheme"
  shows "timers (change_priority pmax t p s) = timers s" "rt_current_thread (change_priority pmax t p s) = rt_current_thread s"
    "scheduler_lock_nest (change_priority pmax t p s) = scheduler_lock_nest s"
    "threads (change_priority pmax t p s) = (threads s)(t := set_priority pmax p (threads s t))"
  by (auto simp: change_priority_def set_priority_def fun_eq_iff)

lemma kern_settled:
  assumes "kern pmax idle L X F k T q s" "F \<subseteq> closed_timers s"
  shows "kern pmax idle L X {} k T q s"
proof -
  have "F \<union> closed_timers s = {} \<union> closed_timers s" using assms(2) by blast
  then show ?thesis using assms(1) unfolding kern_def by simp
qed

lemma kern_close:
  fixes s :: "'a kernel_scheme"
  assumes K: "kern pmax idle L {} {} k T q s" and t: "stat (threads s t) \<noteq> RT_THREAD_INIT" "t \<noteq> idle"
  defines "q' \<equiv> q_remove (Thread_timer t) q"
  shows "kern pmax idle (with_timers (L_remove t L) q') {} {} k T q' (thread_close pmax t s)"
    "threads (thread_close pmax t s) = (threads s)(t := (threads s t)\<lparr>stat := RT_THREAD_CLOSE\<rparr>)"
    "timers (thread_close pmax t s) = timers s" "rt_current_thread (thread_close pmax t s) = rt_current_thread s"
    "scheduler_lock_nest (thread_close pmax t s) = scheduler_lock_nest s"
proof -
  let ?s1 = "rt_schedule_remove_thread pmax t s" and ?u = "Thread_timer t"
  let ?s2 = "rt_timer_remove ?u ?s1" and ?L = "with_timers (L_remove t L) q'"
  let ?s3 = "upd_thread t (\<lambda>x. x\<lparr>stat := RT_THREAD_CLOSE\<rparr>) ?s2"
  have m: "masks_ok pmax (threads s t)" using sched_okD(4) [OF kernD(1) [OF K]] t(1) by blast
  have S1: "sched_ok pmax {t} (L_remove t L) ?s1" using sched_ok_remove [OF kernD(1) [OF K] m] by simp
  have K1: "kern pmax idle (L_remove t L) {t} {} k T q ?s1"
    by (rule kern_lists [OF K S1]) (use kernD(3,6) [OF K] t(2) sched_okD(2) [OF kernD(1) [OF K]] in \<open>auto simp: ready_def\<close>)
  have th2: "threads ?s2 = threads s" by (simp add: rt_timer_remove_def)
  have K2: "kern pmax idle ?L {t} {?u} k T q' ?s2"
  proof (rule kern_timers [OF K1])
    show "timer_rel (heads pmax) nodes ?L ({?u} \<union> closed_timers ?s1) k T q' ?s2"
      using timer_rel_remove [OF kernD(2) [OF K1], of ?u] by (simp add: q'_def)
    show "stat (threads ?s1 v) = RT_THREAD_SUSPEND" if "Thread_timer v \<in> fst ` set q'" for v
      using that kernD(3) [OF K, of v] by (force simp: q'_def)
  qed (simp_all add: rt_timer_remove_def)
  have u: "unlinked pmax t ?L" by (auto simp: unlinked_def with_timers_def)
  have "sched_ok pmax {t} ?L ?s3" by (rule sched_ok_upd [OF kernD(1) [OF K2]]) (use m th2 in auto)
  from sched_ok_settle [OF this u] have S3: "sched_ok pmax {} ?L ?s3" by simp
  have "kern pmax idle ?L {} {?u} k T q' ?s3"
    by (rule kern_lists [OF K2 S3]) (use kernD(3,6) [OF K2] th2 t(2) in \<open>auto simp: ready_def q'_def\<close>)
  from kern_settled [OF this] have "kern pmax idle ?L {} {} k T q' ?s3" by simp
  then show "kern pmax idle ?L {} {} k T q' (thread_close pmax t s)"
    by (simp add: thread_close_def rt_timer_detach_def)
  show "threads (thread_close pmax t s) = (threads s)(t := (threads s t)\<lparr>stat := RT_THREAD_CLOSE\<rparr>)"
    using th2 by (simp add: thread_close_def rt_timer_detach_def)
qed (simp_all add: thread_close_def rt_timer_detach_def rt_timer_remove_def)

lemma kern_defunct:
  fixes s :: "'a kernel_scheme"
  assumes K: "kern pmax idle L {} {} k T q s" and t: "unlinked pmax t L" "stat (threads s t) = RT_THREAD_CLOSE"
  shows "kern pmax idle (L(Defunct := Tlist t # L Defunct)) {} {} k T q (to_defunct t s)"
  by (rule kern_lists [OF K sched_ok_defunct [OF kernD(1) [OF K] t]])
    (use kernD(3,6) [OF K] in \<open>auto simp: to_defunct_def ready_def\<close>)

lemma kern_exit:
  fixes s :: "'a kernel_scheme"
  assumes K: "kern pmax idle L {} {} k T q s" and c: "rt_current_thread s = Some c" "ready s c" "c \<noteq> idle"
  shows "\<exists>s' L'. rt_thread_exit pmax s = Some s' \<and> kern pmax idle L' {} {} k T q s' \<and>
    threads s' = (threads s)(c := (threads s c)\<lparr>stat := RT_THREAD_CLOSE\<rparr>) \<and> timers s' = timers s \<and>
    (\<forall>i. L' (Suspend_list i) = L (Suspend_list i)) \<and> rt_current_thread s' \<noteq> None \<and> runs_ok s'"
proof -
  let ?s1 = "thread_close pmax c s" and ?L = "with_timers (L_remove c L) q"
  have "Thread_timer c \<notin> fst ` set q" using kernD(3) [OF K, of c] c(2) by (auto simp: ready_def)
  then have q: "q_remove (Thread_timer c) q = q" by (rule q_remove_absent)
  have ci: "stat (threads s c) \<noteq> RT_THREAD_INIT" using c(2) by (simp add: ready_def)
  note C = kern_close [OF K ci c(3), unfolded q]
  have u: "unlinked pmax c ?L" by (auto simp: unlinked_def with_timers_def)
  let ?dead = "system_object (threads ?s1 c) \<and> \<not> has_cleanup (threads ?s1 c)"
  let ?s2 = "if ?dead then ?s1 else to_defunct c ?s1" and ?L2 = "if ?dead then ?L else ?L(Defunct := Tlist c # ?L Defunct)"
  have K2: "kern pmax idle ?L2 {} {} k T q ?s2" using C(1) kern_defunct [OF C(1) u] C(2) by simp
  have same: "threads ?s2 = threads ?s1" "timers ?s2 = timers ?s1" "rt_current_thread ?s2 = rt_current_thread ?s1"
    by (simp_all add: to_defunct_def)
  obtain s' where s': "rt_schedule pmax ?s2 = Some s'" "kern pmax idle ?L2 {} {} k T q s'" "threads s' = threads ?s2" "timers s' = timers ?s2"
    "rt_current_thread ?s2 \<noteq> None \<Longrightarrow> rt_current_thread s' \<noteq> None" "runs_ok s'"
    by (rule kern_schedule [OF K2], blast)
  have wait: "?L2 (Suspend_list i) = L (Suspend_list i)" for i
    using placedD(3) [OF sched_okD(3) [OF kernD(1) [OF K]], of c i] c(2) by (auto simp: ready_def intro!: removeAll_id)
  have "rt_thread_exit pmax s = Some s'" using c(1) s'(1) by (simp add: rt_thread_exit_def Let_def)
  then show ?thesis using s'(2-6) same C(2-4) c(1) wait by (intro exI [of _ s'] exI [of _ ?L2]) auto
qed

end
