(* ===== verification/Kernel_Runs.thy ===== *)
theory Kernel_Runs
  imports Kernel_Steps
begin

text \<open>
  The kernel as a transition system. An event is a tick or a call of a kernel service, \<open>kexec\<close> executes it,
  and \<open>kruns\<close> are the sequences of events whose arguments are in range. Every event completes and
  keeps the invariant; \<open>step_spec\<close> says what it does to a sleeping thread, to the timers of the
  application and to the choice of the running thread, and the lemmas on \<open>kruns\<close> follow these through a run.
\<close>

section \<open>The events of the kernel\<close>

datatype kevent =
  Tick | Yield | Sleep u32 | Wait nat ipc_flag u32 | Send nat | Start nat | Stop nat | Startup nat | Exit
  | Priority nat byte | Lock | Unlock

fun kexec :: "nat \<Rightarrow> (nat \<Rightarrow> 'a kernel_scheme \<Rightarrow> nat list) \<Rightarrow> kevent \<Rightarrow> 'a kernel_scheme \<Rightarrow>
    (timer_ref list \<times> 'a kernel_scheme) option" where
  "kexec pmax posts Tick s = rt_tick_increase pmax posts s"
| "kexec pmax posts Yield s = map_option (Pair []) (rt_thread_yield pmax s)"
| "kexec pmax posts (Sleep n) s = map_option (Pair []) (rt_thread_sleep pmax n s)"
| "kexec pmax posts (Wait i flag n) s = map_option (Pair []) (ipc_wait pmax i flag n s)"
| "kexec pmax posts (Send i) s = map_option (Pair []) (mq_send_wake pmax i s)"
| "kexec pmax posts (Start i) s = map_option (Pair []) (rt_timer_start (App_timer i) s)"
| "kexec pmax posts (Stop i) s = Some ([], snd (rt_timer_stop (App_timer i) s))"
| "kexec pmax posts (Startup t) s = map_option (Pair []) (rt_thread_startup pmax t s)"
| "kexec pmax posts Exit s = map_option (Pair []) (rt_thread_exit pmax s)"
| "kexec pmax posts (Priority t p) s = map_option (Pair []) (rt_thread_control pmax t (CTRL_CHANGE_PRIORITY p) s)"
| "kexec pmax posts Lock s = Some ([], rt_enter_critical s)"
| "kexec pmax posts Unlock s = map_option (Pair []) (rt_exit_critical pmax s)"

text \<open>
  What the callers respect: the idle thread neither sleeps, waits nor ends; the running thread, which
  does these things, is ready; waiting times and priorities are within the range of the kernel.
\<close>

definition actor :: "nat \<Rightarrow> 'a kernel_scheme \<Rightarrow> bool" where
  "actor idle s \<longleftrightarrow> (case rt_current_thread s of None \<Rightarrow> False | Some c \<Rightarrow> ready s c \<and> c \<noteq> idle)"

fun enabled :: "nat \<Rightarrow> nat \<Rightarrow> kevent \<Rightarrow> 'a kernel_scheme \<Rightarrow> bool" where
  "enabled pmax idle (Sleep n) s \<longleftrightarrow> actor idle s \<and> unat n < half_ticks"
| "enabled pmax idle (Wait i flag n) s \<longleftrightarrow> actor idle s \<and> unat n \<noteq> half_ticks"
| "enabled pmax idle Exit s \<longleftrightarrow> actor idle s"
| "enabled pmax idle (Start i) s \<longleftrightarrow> unat (timer_init_tick (timers s (App_timer i))) < half_ticks"
| "enabled pmax idle (Startup t) s \<longleftrightarrow> stat (threads s t) = RT_THREAD_INIT \<and> unat (init_priority (threads s t)) < pmax"
| "enabled pmax idle (Priority t p) s \<longleftrightarrow> unat p < pmax"
| "enabled pmax idle Lock s \<longleftrightarrow> scheduler_lock_nest s \<noteq> - 1"
| "enabled pmax idle _ s \<longleftrightarrow> True"

section \<open>What an event does\<close>

definition sleeping :: "nat \<Rightarrow> nat \<Rightarrow> (node \<Rightarrow> node list) \<Rightarrow> timer_queue \<Rightarrow> bool" where
  "sleeping c e L q \<longleftrightarrow> (Thread_timer c, e) \<in> set q \<and> (\<forall>i. Tlist c \<notin> set (L (Suspend_list i)))"

definition same_periods :: "'a kernel_scheme \<Rightarrow> 'a kernel_scheme \<Rightarrow> bool" where
  "same_periods s s' \<longleftrightarrow>
     (\<forall>i. timer_init_tick (timers s' (App_timer i)) = timer_init_tick (timers s (App_timer i)) \<and>
          is_periodic (timers s' (App_timer i)) = is_periodic (timers s (App_timer i)))"

definition quiet :: "kevent \<Rightarrow> nat \<Rightarrow> (node \<Rightarrow> node list) \<Rightarrow> timer_queue \<Rightarrow> (node \<Rightarrow> node list) \<Rightarrow> timer_queue \<Rightarrow> bool" where
  "quiet ev T L q L' q' \<longleftrightarrow>
     (\<forall>c e. sleeping c e L q \<longrightarrow> sleeping c e L' q') \<and>
     (\<forall>i e. ev \<noteq> Start i \<longrightarrow> ev \<noteq> Stop i \<longrightarrow> (App_timer i, e) \<in> set q \<longrightarrow> (App_timer i, e) \<in> set q')"

definition step_spec :: "kevent \<Rightarrow> nat \<Rightarrow> (node \<Rightarrow> node list) \<Rightarrow> timer_queue \<Rightarrow> 'a kernel_scheme \<Rightarrow> timer_ref list \<Rightarrow>
    (node \<Rightarrow> node list) \<Rightarrow> timer_queue \<Rightarrow> 'a kernel_scheme \<Rightarrow> bool" where
  "step_spec ev T L q s fired L' q' s' \<longleftrightarrow>
     (if ev = Tick
      then check_spec is_thread_timer (Suc T) (timers s) q fired q' \<and>
           (\<forall>c e. sleeping c e L q \<longrightarrow> (if e \<le> Suc T then ready s' c else sleeping c e L' q'))
      else fired = [] \<and> quiet ev T L q L' q') \<and>
     same_periods s s' \<and> (runs_ok s \<longrightarrow> (\<forall>t p. ev \<noteq> Priority t p) \<longrightarrow> runs_ok s') \<and>
     (\<forall>i. ev = Start i \<longrightarrow> (App_timer i, T + unat (timer_init_tick (timers s (App_timer i)))) \<in> set q')"

definition time_after :: "kevent \<Rightarrow> nat \<Rightarrow> nat" where
  "time_after ev T = (if ev = Tick then Suc T else T)"

lemma quiet_same: "(\<And>i. L' (Suspend_list i) = L (Suspend_list i)) \<Longrightarrow> quiet ev T L q L' q"
  by (simp add: quiet_def sleeping_def)

lemma step_spec_quiet:
  "ev \<noteq> Tick \<Longrightarrow> quiet ev T L q L' q' \<Longrightarrow> same_periods s s' \<Longrightarrow>
    (runs_ok s \<Longrightarrow> \<forall>t p. ev \<noteq> Priority t p \<Longrightarrow> runs_ok s') \<Longrightarrow> (\<And>i. ev \<noteq> Start i) \<Longrightarrow> step_spec ev T L q s [] L' q' s'"
  by (simp add: step_spec_def)

lemma same_periodsI: "(\<And>i. timers s' (App_timer i) = timers s (App_timer i)) \<Longrightarrow> same_periods s s'"
  by (simp add: same_periods_def)

lemma actorE:
  assumes "actor idle s"
  obtains c where "rt_current_thread s = Some c" "ready s c" "c \<noteq> idle"
  using assms by (auto simp: actor_def split: option.splits)

lemma step_tick:
  fixes s :: "'a kernel_scheme"
  assumes K: "kern pmax idle L {} {} 0 T q s" and c: "rt_current_thread s \<noteq> None"
  shows "\<exists>fired s' L' q'. kexec pmax posts Tick s = Some (fired, s') \<and> kern pmax idle L' {} {} 0 (Suc T) q' s' \<and>
    step_spec Tick T L q s fired L' q' s' \<and> rt_current_thread s' \<noteq> None"
proof -
  let ?W = "{u. \<exists>e. sleeping u e L q}" and ?Z = "{(u, e). sleeping u e L q \<and> Suc T < e}"
  have "watch ?W ?Z L (Suc T) q s" by (force simp: watch_def sleeping_def)
  from kern_tick [OF K c this, of posts] obtain fired s' L' q' where
    r: "rt_tick_increase pmax posts s = Some (fired, s')" "kern pmax idle L' {} {} 0 (Suc T) q' s'"
    "watch ?W ?Z L' (Suc T) q' s'" "check_spec is_thread_timer (Suc T) (timers s) q fired q'"
    "\<forall>u. timer_init_tick (timers s' u) = timer_init_tick (timers s u) \<and> is_periodic (timers s' u) = is_periodic (timers s u)"
    "rt_current_thread s' \<noteq> None" "runs_ok s \<longrightarrow> runs_ok s'" by blast
  have "if e \<le> Suc T then ready s' u else sleeping u e L' q'" if sl: "sleeping u e L q" for u e
  proof (cases "e \<le> Suc T")
    case False
    then have "(u, e) \<in> ?Z" using sl by simp
    then have "sleeping u e L' q'" using r(3) unfolding watch_def sleeping_def by blast
    then show ?thesis using False by simp
  next
    case True
    have "Thread_timer u \<notin> fst ` set q'"
    proof
      assume "Thread_timer u \<in> fst ` set q'"
      then obtain f where f: "(Thread_timer u, f) \<in> set q'" by auto
      have "f = e" using timer_rel_once [OF kernD(2) [OF K], of "Thread_timer u" f e] check_specD(2) [OF r(4) f]
          kernD(4) [OF K, of u] sl by (simp add: sleeping_def)
      then show False using check_specD(1) [OF r(4) f] True by simp
    qed
    moreover have "ready s' u \<or> Thread_timer u \<in> fst ` set q'" using r(3) sl unfolding watch_def by blast
    ultimately show ?thesis using True by simp
  qed
  then show ?thesis using r by (intro exI [of _ fired] exI [of _ s'] exI [of _ L'] exI [of _ q'])
    (simp add: step_spec_def same_periods_def)
qed

lemma sleeping_suspended:
  assumes "kern pmax idle L X F k T q s" "sleeping c e L q"
  shows "stat (threads s c) = RT_THREAD_SUSPEND"
  using kernD(3) [OF assms(1), of c] assms(2) by (force simp: sleeping_def)

text \<open>Each of the other events.\<close>

definition step_ok :: "nat \<Rightarrow> nat \<Rightarrow> (nat \<Rightarrow> 'a kernel_scheme \<Rightarrow> nat list) \<Rightarrow> kevent \<Rightarrow> nat \<Rightarrow> (node \<Rightarrow> node list) \<Rightarrow>
    timer_queue \<Rightarrow> 'a kernel_scheme \<Rightarrow> bool" where
  "step_ok pmax idle posts ev T L q s \<longleftrightarrow>
     (\<exists>fired s' L' q'. kexec pmax posts ev s = Some (fired, s') \<and>
        kern pmax idle L' {} {} 0 (time_after ev T) q' s' \<and> step_spec ev T L q s fired L' q' s' \<and> rt_current_thread s' \<noteq> None)"

lemma step_okI:
  assumes "kexec pmax posts ev s = Some (fired, s')" "kern pmax idle L' {} {} 0 (time_after ev T) q' s'"
    "step_spec ev T L q s fired L' q' s'" "rt_current_thread s' \<noteq> None"
  shows "step_ok pmax idle posts ev T L q s"
  using assms unfolding step_ok_def by blast

lemma quiet_insert_thread:
  assumes K: "kern pmax idle L {} {} 0 T q s" and c: "ready s c"
    and L': "\<And>u i. u \<noteq> c \<Longrightarrow> Tlist u \<in> set (L' (Suspend_list i)) \<Longrightarrow> Tlist u \<in> set (L (Suspend_list i))"
    and q': "set q \<subseteq> set q'"
  shows "quiet ev T L q L' q'"
proof -
  have "u \<noteq> c" if "sleeping u e L q" for u e using sleeping_suspended [OF K that] c by (auto simp: ready_def)
  then show ?thesis using L' q' unfolding quiet_def sleeping_def by blast
qed

lemma step_sleep:
  fixes s :: "'a kernel_scheme"
  assumes K: "kern pmax idle L {} {} 0 T q s" and e: "actor idle s" "unat n < half_ticks"
  shows "step_ok pmax idle posts (Sleep n) T L q s"
proof -
  obtain c where c: "rt_current_thread s = Some c" "ready s c" "c \<noteq> idle" using actorE [OF e(1)] .
  obtain s' L' where r: "rt_thread_sleep pmax n s = Some s'" "kern pmax idle L' {} {} 0 T (q_insert (Thread_timer c) (T + unat n) q) s'"
    "rt_current_thread s' \<noteq> None" "runs_ok s'" "\<And>i. set (L' (Suspend_list i)) \<subseteq> set (L (Suspend_list i))"
    "\<And>i. timers s' (App_timer i) = timers s (App_timer i)"
    using kern_sleep [OF K c e(2)] by blast
  show ?thesis
    by (rule step_okI [of _ _ _ _ "[]" s' _ L' T "q_insert (Thread_timer c) (T + unat n) q"])
      (use r quiet_insert_thread [OF K c(2), of L' "q_insert (Thread_timer c) (T + unat n) q" "Sleep n"] same_periodsI [of s' s] in
        \<open>auto simp: time_after_def intro!: step_spec_quiet\<close>)
qed

lemma step_wait:
  fixes s :: "'a kernel_scheme"
  assumes K: "kern pmax idle L {} {} 0 T q s" and e: "actor idle s" "unat n \<noteq> half_ticks"
  shows "step_ok pmax idle posts (Wait i flag n) T L q s"
proof -
  obtain c where c: "rt_current_thread s = Some c" "ready s c" "c \<noteq> idle" using actorE [OF e(1)] .
  obtain ts where L: "L (Suspend_list i) = map Tlist ts" using waiting_threads [OF kernD(1) [OF K]] .
  obtain us vs where sp: "wait_split flag (current_priority (threads s c)) s ts = (us, vs)" by fastforce
  obtain s' L' where r: "ipc_wait pmax i flag n s = Some s'" "kern pmax idle L' {} {} 0 T (q_wait c n T q) s'"
    "L' (Suspend_list i) = map Tlist (us @ c # vs)" "\<And>j. j \<noteq> i \<Longrightarrow> L' (Suspend_list j) = L (Suspend_list j)" "rt_current_thread s' \<noteq> None" "runs_ok s'"
    "\<And>j. timers s' (App_timer j) = timers s (App_timer j)"
    using kern_wait [OF K c e(2) L sp] by blast
  have "Tlist u \<in> set (L (Suspend_list j))" if "u \<noteq> c" "Tlist u \<in> set (L' (Suspend_list j))" for u j
    using that r(3,4) L wait_split_append [OF sp] by (cases "j = i") auto
  then have "quiet (Wait i flag n) T L q L' (q_wait c n T q)"
    by (intro quiet_insert_thread [OF K c(2)]) (auto simp: q_wait_def)
  then show ?thesis
    by (intro step_okI [of _ _ _ _ "[]" s' _ L' T "q_wait c n T q"])
      (use r same_periodsI [of s' s] in \<open>auto simp: time_after_def intro!: step_spec_quiet\<close>)
qed

lemma step_send:
  fixes s :: "'a kernel_scheme"
  assumes K: "kern pmax idle L {} {} 0 T q s" and c: "rt_current_thread s \<noteq> None"
  shows "step_ok pmax idle posts (Send i) T L q s"
proof -
  obtain s' L' V q' where r: "mq_send_wake pmax i s = Some s'" "kern pmax idle L' {} {} 0 T q' s'" "wakes L q s V L' q' s'"
    using kern_send_wake [OF K] by blast
  note w = r(3) [unfolded wakes_def]
  have q': "q' = filter (\<lambda>(u, _). u \<notin> Thread_timer ` V) q" using w by blast
  have sub: "\<forall>i. set (L' (Suspend_list i)) \<subseteq> set (L (Suspend_list i))" using w by blast
  have "sleeping u e L' q'" if "sleeping u e L q" for u e
  proof -
    have "u \<notin> V" using that w unfolding sleeping_def by blast
    then show ?thesis using that sub by (auto simp: sleeping_def q')
  qed
  then have "quiet (Send i) T L q L' q'" by (auto simp: quiet_def q')
  moreover have "same_periods s s'" by (rule same_periodsI) (use w in blast)
  ultimately show ?thesis
    by (intro step_okI [of _ _ _ _ "[]" s' _ L' T q']) (use r w c in \<open>auto simp: time_after_def intro!: step_spec_quiet\<close>)
qed

lemma step_timers:
  fixes s :: "'a kernel_scheme"
  assumes K: "kern pmax idle L {} {} 0 T q s" and c: "rt_current_thread s \<noteq> None"
  shows "unat (timer_init_tick (timers s (App_timer i))) < half_ticks \<Longrightarrow> step_ok pmax idle posts (Start i) T L q s"
    "step_ok pmax idle posts (Stop i) T L q s"
proof -
  let ?u = "App_timer i"
  show "step_ok pmax idle posts (Start i) T L q s" if n: "unat (timer_init_tick (timers s ?u)) < half_ticks"
  proof -
    let ?q = "q_insert ?u (T + unat (timer_init_tick (timers s ?u))) (q_remove ?u q)"
    obtain s' where s': "rt_timer_start ?u s = Some s'" "kern pmax idle (with_timers L ?q) {} {} 0 T ?q s'"
      by (rule kern_start [OF K, of ?u]) (use n in simp_all)
    have "same_periods s s'"
      unfolding same_periods_def using timer_start_others [OF s'(1)] by (metis timer_ref.inject(2))
    moreover have "quiet (Start i) T L q (with_timers L ?q) ?q" by (auto simp: quiet_def sleeping_def)
    ultimately have "step_spec (Start i) T L q s [] (with_timers L ?q) ?q s'"
      using runs_ok_cong [OF timer_start_frame(1,5,4) [OF s'(1)]] by (simp add: step_spec_def)
    then show ?thesis
      by (intro step_okI [of _ _ _ _ "[]" s' _ "with_timers L ?q" T ?q])
        (use s' c timer_start_frame(5) [OF s'(1)] in \<open>simp_all add: time_after_def\<close>)
  qed
  let ?q = "q_remove ?u q"
  have "quiet (Stop i) T L q (with_timers L ?q) ?q" by (auto simp: quiet_def sleeping_def)
  then show "step_ok pmax idle posts (Stop i) T L q s"
    by (intro step_okI [of _ _ _ _ "[]" "snd (rt_timer_stop ?u s)" _ "with_timers L ?q" T ?q])
      (use kern_timer_stop [OF K, of ?u] c runs_ok_cong [of "snd (rt_timer_stop ?u s)" s] in \<open>auto simp: time_after_def same_periods_def intro!: step_spec_quiet\<close>)
qed

lemma step_threads:
  fixes s :: "'a kernel_scheme"
  assumes K: "kern pmax idle L {} {} 0 T q s" and c: "rt_current_thread s \<noteq> None"
  shows "step_ok pmax idle posts Yield T L q s"
    "enabled pmax idle (Startup t) s \<Longrightarrow> step_ok pmax idle posts (Startup t) T L q s"
    "enabled pmax idle Exit s \<Longrightarrow> step_ok pmax idle posts Exit T L q s"
    "enabled pmax idle (Priority t p) s \<Longrightarrow> step_ok pmax idle posts (Priority t p) T L q s"
proof -
  have I: "step_ok pmax idle posts ev T L q s"
    if "kexec pmax posts ev s = Some ([], s')" "kern pmax idle L' {} {} 0 T q s'" "\<And>i. L' (Suspend_list i) = L (Suspend_list i)"
      "\<And>i. timers s' (App_timer i) = timers s (App_timer i)" "rt_current_thread s' \<noteq> None" "ev \<noteq> Tick" "\<And>i. ev \<noteq> Start i"
      "runs_ok s \<Longrightarrow> \<forall>t p. ev \<noteq> Priority t p \<Longrightarrow> runs_ok s'" for ev s' L'
    by (rule step_okI [OF that(1) _ step_spec_quiet [OF that(6) quiet_same [of L' L ev T q, OF that(3)] same_periodsI [of s' s, OF that(4)] that(8,7)] that(5)])
      (use that in \<open>simp add: time_after_def\<close>)
  obtain d where d: "rt_current_thread s = Some d" using c by blast
  obtain s' L' where "rt_thread_yield pmax s = Some s'" "kern pmax idle L' {} {} 0 T q s'" "\<And>i. L' (Suspend_list i) = L (Suspend_list i)"
    "timers s' = timers s" "rt_current_thread s' \<noteq> None" "runs_ok s \<longrightarrow> runs_ok s'" using kern_yield [OF K d] by blast
  then show "step_ok pmax idle posts Yield T L q s" by (intro I [of Yield s' L']) simp_all
  show "step_ok pmax idle posts (Startup t) T L q s" if e: "enabled pmax idle (Startup t) s"
  proof -
    obtain s' L' where "rt_thread_startup pmax t s = Some s'" "kern pmax idle L' {} {} 0 T q s'"
      "\<And>i. timers s' (App_timer i) = timers s (App_timer i)" "\<And>i. L' (Suspend_list i) = L (Suspend_list i)" "rt_current_thread s' \<noteq> None" "runs_ok s'"
      using kern_startup [OF K, of t] e c by auto
    then show ?thesis by (intro I [of "Startup t" s' L']) simp_all
  qed
  show "step_ok pmax idle posts Exit T L q s" if e: "enabled pmax idle Exit s"
  proof (rule actorE [of idle s])
    fix c
    assume "rt_current_thread s = Some c" "ready s c" "c \<noteq> idle"
    from kern_exit [OF K this] obtain s' L' where "rt_thread_exit pmax s = Some s'" "kern pmax idle L' {} {} 0 T q s'"
      "timers s' = timers s" "\<And>i. L' (Suspend_list i) = L (Suspend_list i)" "rt_current_thread s' \<noteq> None" "runs_ok s'" by blast
    then show ?thesis by (intro I [of Exit s' L']) simp_all
  qed (use e in simp)
  show "step_ok pmax idle posts (Priority t p) T L q s" if e: "enabled pmax idle (Priority t p) s"
  proof -
    obtain L' where "kern pmax idle L' {} {} 0 T q (change_priority pmax t p s)" "\<And>i. L' (Suspend_list i) = L (Suspend_list i)"
      using kern_change_priority [OF K, of p t] e by auto
    then show ?thesis
      by (intro I [of "Priority t p" "change_priority pmax t p s" L']) (use c in \<open>simp_all add: rt_thread_control_def change_priority_frame\<close>)
  qed
qed

lemma step_locks:
  fixes s :: "'a kernel_scheme"
  assumes K: "kern pmax idle L {} {} 0 T q s" and c: "rt_current_thread s \<noteq> None"
  shows "enabled pmax idle Lock s \<Longrightarrow> step_ok pmax idle posts Lock T L q s" "step_ok pmax idle posts Unlock T L q s"
proof -
  have K1: "kern pmax idle L {} {} 0 T q (s\<lparr>scheduler_lock_nest := n\<rparr>)" for n by (rule kern_cong [OF K]) simp_all
  have spec: "step_spec ev T L q s [] L q s'" if "timers s' = timers s" "ev \<in> {Lock, Unlock}" "runs_ok s'" for ev s'
    by (rule step_spec_quiet) (use that same_periodsI [of s' s] quiet_same [of L L ev T q] in auto)
  have locked: "runs_ok (s\<lparr>scheduler_lock_nest := n\<rparr>)" if "n \<noteq> 0" for n using that by (simp add: runs_ok_def)
  show "step_ok pmax idle posts Lock T L q s" if e: "enabled pmax idle Lock s"
  proof -
    have "scheduler_lock_nest s + 1 \<noteq> 0" using e eq_neg_iff_add_eq_0 [of "scheduler_lock_nest s" 1] by simp
    note run = locked [OF this]
    show ?thesis
    by (rule step_okI [of _ _ _ _ "[]" "rt_enter_critical s" _ L _ q])
      (use K1 spec c run in \<open>simp_all add: rt_enter_critical_def time_after_def\<close>)
  qed
  let ?n = "scheduler_lock_nest s - 1"
  obtain s' where s': "rt_schedule pmax (s\<lparr>scheduler_lock_nest := 0\<rparr>) = Some s'" "kern pmax idle L {} {} 0 T q s'" "timers s' = timers s" "runs_ok s'" "rt_current_thread s' \<noteq> None"
    by (rule kern_schedule [OF K1 [of 0]]) (use c in auto)
  show "step_ok pmax idle posts Unlock T L q s"
  proof (cases "sint ?n \<le> 0")
    case True
    then show ?thesis
      by (intro step_okI [of _ _ _ _ "[]" s' _ L _ q]) (use s' spec in \<open>simp_all add: rt_exit_critical_def Let_def time_after_def\<close>)
  next
    case False
    then have "?n \<noteq> 0" by auto
    then show ?thesis
      by (intro step_okI [of _ _ _ _ "[]" "s\<lparr>scheduler_lock_nest := ?n\<rparr>" _ L _ q])
        (use False K1 spec c locked in \<open>simp_all add: rt_exit_critical_def Let_def time_after_def\<close>)
  qed
qed

lemma kernel_step:
  assumes "kern pmax idle L {} {} 0 T q s" "rt_current_thread s \<noteq> None" "enabled pmax idle ev s"
  shows "step_ok pmax idle posts ev T L q s"
proof (cases ev)
  case Tick
  then show ?thesis using step_tick [OF assms(1,2), of posts] by (simp add: step_ok_def time_after_def)
next
  case (Sleep n)
  then show ?thesis using step_sleep [OF assms(1), of n posts] assms(3) by simp
next
  case (Wait i flag n)
  then show ?thesis using step_wait [OF assms(1), of n posts i flag] assms(3) by simp
next
  case (Start i)
  then show ?thesis using step_timers(1) [OF assms(1,2), of i posts] assms(3) by simp
next
  case (Startup t)
  then show ?thesis using step_threads(2) [OF assms(1,2), of t posts] assms(3) by simp
next
  case Exit
  then show ?thesis using step_threads(3) [OF assms(1,2), of posts] assms(3) by simp
next
  case (Priority t p)
  then show ?thesis using step_threads(4) [OF assms(1,2), of t p posts] assms(3) by simp
next
  case Lock
  then show ?thesis using step_locks(1) [OF assms(1,2), of posts] assms(3) by simp
qed (simp_all add: step_send [OF assms(1,2)] step_timers(2) [OF assms(1,2)] step_threads(1) [OF assms(1,2)] step_locks(2) [OF assms(1,2)])

section \<open>Runs\<close>

definition kernel_ok :: "nat \<Rightarrow> nat \<Rightarrow> 'a kernel_scheme \<Rightarrow> bool" where
  "kernel_ok pmax idle s \<longleftrightarrow> (\<exists>L T q. kern pmax idle L {} {} 0 T q s) \<and> rt_current_thread s \<noteq> None"

inductive kruns :: "nat \<Rightarrow> nat \<Rightarrow> (nat \<Rightarrow> 'a kernel_scheme \<Rightarrow> nat list) \<Rightarrow> 'a kernel_scheme \<Rightarrow>
    (kevent \<times> timer_ref list) list \<Rightarrow> 'a kernel_scheme \<Rightarrow> bool"
  for pmax idle posts where
  none: "kruns pmax idle posts s [] s"
| step: "enabled pmax idle ev s \<Longrightarrow> kexec pmax posts ev s = Some (fired, s1) \<Longrightarrow> kruns pmax idle posts s1 tr s2 \<Longrightarrow>
    kruns pmax idle posts s ((ev, fired) # tr) s2"

definition ticks :: "(kevent \<times> timer_ref list) list \<Rightarrow> nat" where
  "ticks tr = length (filter (\<lambda>(ev, _). ev = Tick) tr)"

lemma kernel_ok_step:
  assumes "kernel_ok pmax idle s" "enabled pmax idle ev s"
  obtains fired s' where "kexec pmax posts ev s = Some (fired, s')" "kernel_ok pmax idle s'"
  using kernel_step [OF _ _ assms(2), of _ _ _ posts] assms(1) unfolding kernel_ok_def step_ok_def by blast

lemma kruns_ok:
  assumes "kruns pmax idle posts s tr s'" "kernel_ok pmax idle s"
  shows "kernel_ok pmax idle s'"
  using assms
proof (induction rule: kruns.induct)
  case (step ev s fired s1 tr s2)
  then show ?case using kernel_ok_step [OF step.prems step.hyps(1), of posts] by force
qed

lemma kernel_okE:
  assumes "kernel_ok pmax idle s"
  obtains L T q where "kern pmax idle L {} {} 0 T q s" "rt_current_thread s \<noteq> None"
  using assms by (auto simp: kernel_ok_def)

lemma kernel_stepE:
  assumes "kern pmax idle L {} {} 0 T q s" "rt_current_thread s \<noteq> None" "enabled pmax idle ev s"
    "kexec pmax posts ev s = Some (fired, s')"
  obtains L' q' where "kern pmax idle L' {} {} 0 (time_after ev T) q' s'" "step_spec ev T L q s fired L' q' s'" "rt_current_thread s' \<noteq> None"
  using kernel_step [OF assms(1-3), of posts] assms(4) that unfolding step_ok_def by auto

lemma step_specD:
  assumes S: "step_spec ev T L q s fired L' q' s'"
  shows "ev = Tick \<Longrightarrow> check_spec is_thread_timer (Suc T) (timers s) q fired q'"
    "sleeping c e L q \<Longrightarrow> ev = Tick \<Longrightarrow> e \<le> Suc T \<Longrightarrow> ready s' c"
    "sleeping c e L q \<Longrightarrow> ev = Tick \<Longrightarrow> Suc T < e \<Longrightarrow> sleeping c e L' q'"
    "sleeping c e L q \<Longrightarrow> ev \<noteq> Tick \<Longrightarrow> sleeping c e L' q'"
    "(App_timer i, e) \<in> set q \<Longrightarrow> ev \<notin> {Tick, Start i, Stop i} \<Longrightarrow> (App_timer i, e) \<in> set q'"
    "same_periods s s'" "runs_ok s \<Longrightarrow> \<forall>t p. ev \<noteq> Priority t p \<Longrightarrow> runs_ok s'"
    "ev = Start i \<Longrightarrow> (App_timer i, T + unat (timer_init_tick (timers s (App_timer i)))) \<in> set q'"
proof -
  note s = S [unfolded step_spec_def]
  show "ev = Tick \<Longrightarrow> check_spec is_thread_timer (Suc T) (timers s) q fired q'" using s by simp
  have tk: "ev = Tick \<longrightarrow> (\<forall>c e. sleeping c e L q \<longrightarrow> (if e \<le> Suc T then ready s' c else sleeping c e L' q'))" using s by simp
  show "sleeping c e L q \<Longrightarrow> ev = Tick \<Longrightarrow> e \<le> Suc T \<Longrightarrow> ready s' c" using tk by auto
  show "sleeping c e L q \<Longrightarrow> ev = Tick \<Longrightarrow> Suc T < e \<Longrightarrow> sleeping c e L' q'"
    using tk by (metis not_less)
  have qu: "ev \<noteq> Tick \<longrightarrow> quiet ev T L q L' q'" using s by simp
  show "sleeping c e L q \<Longrightarrow> ev \<noteq> Tick \<Longrightarrow> sleeping c e L' q'"
    "(App_timer i, e) \<in> set q \<Longrightarrow> ev \<notin> {Tick, Start i, Stop i} \<Longrightarrow> (App_timer i, e) \<in> set q'"
    using qu by (simp_all add: quiet_def)
qed (use S [unfolded step_spec_def] in blast)+

text \<open>The processor runs a thread of the highest ready priority all along.\<close>

lemma kruns_highest:
  assumes "kruns pmax idle posts s tr s'" "kernel_ok pmax idle s" "runs_ok s" "\<forall>(ev, _)\<in>set tr. \<forall>t p. ev \<noteq> Priority t p"
  shows "runs_ok s'"
  using assms
proof (induction rule: kruns.induct)
  case (step ev s fired s1 tr s2)
  obtain L T q where K: "kern pmax idle L {} {} 0 T q s" "rt_current_thread s \<noteq> None" using step.prems(1) by (rule kernel_okE)
  obtain L' q' where *: "kern pmax idle L' {} {} 0 (time_after ev T) q' s1" "step_spec ev T L q s fired L' q' s1" "rt_current_thread s1 \<noteq> None"
    using kernel_stepE [OF K step.hyps(1,2)] .
  then have "kernel_ok pmax idle s1" by (auto simp: kernel_ok_def)
  moreover have "runs_ok s1" using step_specD(7) [OF *(2) step.prems(2)] step.prems(3) by simp
  ultimately show ?case using step.IH step.prems(3) by simp
qed

lemma ticks_Cons: "ticks ((ev, fired) # tr) = (if ev = Tick then Suc (ticks tr) else ticks tr)"
  by (simp add: ticks_def)

lemma kruns_sleeping:
  assumes "kruns pmax idle posts s tr s'" "kern pmax idle L {} {} 0 T q s" "rt_current_thread s \<noteq> None" "sleeping c e L q"
    "T + ticks tr < max (Suc T) e"
  shows "\<exists>L' q'. kern pmax idle L' {} {} 0 (T + ticks tr) q' s' \<and> rt_current_thread s' \<noteq> None \<and> sleeping c e L' q'"
  using assms
proof (induction arbitrary: L T q rule: kruns.induct)
  case none
  then show ?case by (auto simp: ticks_def)
next
  case (step ev s fired s1 tr s2)
  obtain L' q' where *: "kern pmax idle L' {} {} 0 (time_after ev T) q' s1" "step_spec ev T L q s fired L' q' s1" "rt_current_thread s1 \<noteq> None"
    using kernel_stepE [OF step.prems(1,2) step.hyps(1,2)] .
  have t: "time_after ev T + ticks tr = T + ticks ((ev, fired) # tr)" by (simp add: ticks_Cons time_after_def)
  have "sleeping c e L' q'"
    using step_specD(3,4) [OF *(2) step.prems(3)] step.prems(4) by (cases "ev = Tick") (simp_all add: ticks_Cons)
  moreover have "time_after ev T + ticks tr < max (Suc (time_after ev T)) e"
    unfolding t using step.prems(4) by (auto simp: time_after_def)
  ultimately show ?case using step.IH [OF *(1,3)] unfolding t by blast
qed

lemma kruns_periodic:
  assumes "kruns pmax idle posts s tr s'" "kern pmax idle L {} {} 0 (T0 + m) q s" "rt_current_thread s \<noteq> None"
    and "is_periodic (timers s (App_timer i))" "n = unat (timer_init_tick (timers s (App_timer i)))" "0 < n"
    and "(App_timer i, T0 + n * (m div n + 1)) \<in> set q" "\<forall>(ev, _)\<in>set tr. ev \<noteq> Start i \<and> ev \<noteq> Stop i"
  shows "\<exists>L' q'. kern pmax idle L' {} {} 0 (T0 + (m + ticks tr)) q' s' \<and> rt_current_thread s' \<noteq> None \<and>
    (App_timer i, T0 + n * ((m + ticks tr) div n + 1)) \<in> set q'"
  using assms
proof (induction arbitrary: L m q rule: kruns.induct)
  case none
  then show ?case by (auto simp: ticks_def)
next
  case (step ev s fired s1 tr s2)
  let ?u = "App_timer i"
  obtain L' q' where *: "kern pmax idle L' {} {} 0 (time_after ev (T0 + m)) q' s1" "step_spec ev (T0 + m) L q s fired L' q' s1" "rt_current_thread s1 \<noteq> None"
    using kernel_stepE [OF step.prems(1,2) step.hyps(1,2)] .
  have per: "is_periodic (timers s1 ?u)" "n = unat (timer_init_tick (timers s1 ?u))"
    using step_specD(6) [OF *(2)] step.prems(3,4) by (simp_all add: same_periods_def)
  let ?m = "if ev = Tick then Suc m else m"
  have t: "?m + ticks tr = m + ticks ((ev, fired) # tr)" "time_after ev (T0 + m) = T0 + ?m" by (simp_all add: ticks_Cons time_after_def)
  have "(?u, T0 + n * (?m div n + 1)) \<in> set q'"
  proof (cases "ev = Tick")
    case False
    then show ?thesis using step_specD(5) [OF *(2) step.prems(6)] step.prems(7) by simp
  next
    case True
    note C = step_specD(1) [OF *(2) True]
    have not_thread: "\<not> is_thread_timer ?u" by (auto simp: is_thread_timer_def)
    show ?thesis
    proof (cases "n dvd Suc m")
      case d: True
      then have "Suc m div n = Suc (m div n)" by (simp add: div_Suc dvd_eq_mod_eq_0)
      moreover have "n * Suc (m div n) = Suc m" using dvd_mult_div_cancel [OF d] calculation by simp
      moreover have "?u \<in> set fired" using check_specD(3) [OF C step.prems(6) not_thread] calculation by simp
      ultimately show ?thesis using check_specD(6) [OF C _ not_thread step.prems(3)] step.prems(4) True by (simp add: ac_simps)
    next
      case False
      then have "Suc m div n = m div n" by (simp add: div_Suc dvd_eq_mod_eq_0)
      moreover have "Suc m < n * (Suc m div n + 1)" using step.prems(5) False
        by (metis Suc_eq_plus1 dividend_less_div_times mult.commute mult_Suc_right add.commute)
      ultimately show ?thesis using check_specD(4) [OF C step.prems(6) not_thread] True by simp
    qed
  qed
  from step.IH [OF _ *(3) per step.prems(5) this] show ?case using *(1) step.prems(7) unfolding t by simp
qed

end
