(* ===== verification/Kernel_Boot.thy ===== *)
theory Kernel_Boot
  imports Kernel_Runs
begin

text \<open>
  Starting the kernel: \<open>rtthread_startup\<close> of \<open>applications/main.c\<close> initialises the timer list and the
  scheduler, starts the threads of the application and the idle thread, and hands the processor to the
  first thread. From a memory in which the objects are initialised but unused this establishes the
  invariant of the kernel, so that what \<open>Kernel_Runs\<close> shows holds for the running system.
\<close>

section \<open>Starting the threads\<close>

definition thread_launch :: "nat \<Rightarrow> nat \<Rightarrow> bool \<Rightarrow> byte \<Rightarrow> u32 \<Rightarrow> 'a kernel_scheme \<Rightarrow> 'a kernel_scheme option" where
  "thread_launch pmax t static priority tick s = do {
     s1 \<leftarrow> rt_thread_init pmax t static priority tick s;
     rt_thread_startup pmax t s1
   }"

definition rt_thread_idle_init :: "nat \<Rightarrow> nat \<Rightarrow> 'a kernel_scheme \<Rightarrow> 'a kernel_scheme option" where
  "rt_thread_idle_init pmax idle s = thread_launch pmax idle True (of_nat (pmax - 1)) 32 s"

fun application_init :: "nat \<Rightarrow> (nat \<times> byte \<times> u32) list \<Rightarrow> 'a kernel_scheme \<Rightarrow> 'a kernel_scheme option" where
  "application_init pmax [] s = Some s"
| "application_init pmax ((t, priority, tick) # ts) s = do {
     s1 \<leftarrow> thread_launch pmax t False priority tick s;
     application_init pmax ts s1
   }"

text \<open>\<open>rtthread_startup\<close>, with the threads that \<open>rt_application_init\<close> creates.\<close>

definition rtthread_startup :: "nat \<Rightarrow> nat \<Rightarrow> (nat \<times> byte \<times> u32) list \<Rightarrow> 'a kernel_scheme \<Rightarrow> 'a kernel_scheme option" where
  "rtthread_startup pmax idle apps s = do {
     let s1 = rt_system_timer_init s;
     let s2 = rt_system_scheduler_init pmax s1;
     s3 \<leftarrow> application_init pmax apps s2;
     s4 \<leftarrow> rt_thread_idle_init pmax idle s3;
     rt_system_scheduler_start pmax s4
   }"

text \<open>Memory before the start: objects that are not linked, threads that were never started, timers at rest.\<close>

definition unused :: "'a kernel_scheme \<Rightarrow> bool" where
  "unused s \<longleftrightarrow>
     (\<forall>n. n \<in> nodes \<union> range Suspend_list \<longrightarrow> circular (list_links s) n []) \<and>
     (\<forall>t. stat (threads s t) = RT_THREAD_INIT) \<and> (\<forall>u. \<not> is_activated (timers s u)) \<and>
     (\<forall>t. \<not> is_periodic (timers s (Thread_timer t))) \<and>
     (\<forall>i. is_periodic (timers s (App_timer i)) \<longrightarrow> 0 < unat (timer_init_tick (timers s (App_timer i))) \<and>
        unat (timer_init_tick (timers s (App_timer i))) < half_ticks)"

section \<open>The invariant of the start\<close>

definition boot_inv :: "nat \<Rightarrow> nat \<Rightarrow> (node \<Rightarrow> node list) \<Rightarrow> 'a kernel_scheme \<Rightarrow> bool" where
  "boot_inv pmax T L s \<longleftrightarrow>
     sched_ok pmax {} L s \<and> L Timer_list = [] \<and> rt_tick s = of_nat T \<and> (\<forall>u. \<not> is_activated (timers s u)) \<and>
     (\<forall>t. stat (threads s t) = RT_THREAD_READY \<or> stat (threads s t) = RT_THREAD_INIT) \<and>
     (\<forall>t. \<not> is_periodic (timers s (Thread_timer t))) \<and>
     (\<forall>i. is_periodic (timers s (App_timer i)) \<longrightarrow> 0 < unat (timer_init_tick (timers s (App_timer i))) \<and>
        unat (timer_init_tick (timers s (App_timer i))) < half_ticks) \<and>
     rt_current_thread s = None \<and> scheduler_lock_nest s = 0"

lemma boot_invD:
  assumes "boot_inv pmax T L s"
  shows "sched_ok pmax {} L s" "L Timer_list = []" "rt_tick s = of_nat T" "\<And>u. \<not> is_activated (timers s u)"
    "\<And>t. stat (threads s t) = RT_THREAD_READY \<or> stat (threads s t) = RT_THREAD_INIT"
    "\<And>t. \<not> is_periodic (timers s (Thread_timer t))"
    "\<And>i. is_periodic (timers s (App_timer i)) \<Longrightarrow> 0 < unat (timer_init_tick (timers s (App_timer i))) \<and>
        unat (timer_init_tick (timers s (App_timer i))) < half_ticks"
    "rt_current_thread s = None" "scheduler_lock_nest s = 0"
  using assms by (simp_all add: boot_inv_def)

lemma unlinked_init:
  assumes B: "boot_inv pmax T L s" and t: "stat (threads s t) = RT_THREAD_INIT"
  shows "unlinked pmax t L"
proof -
  note P = sched_okD(3) [OF boot_invD(1) [OF B]]
  have "Tlist t \<notin> set (L Defunct)" "Tlist t \<notin> set (L (Suspend_list i))" "p < pmax \<Longrightarrow> Tlist t \<notin> set (L (Priority_table p))" for i p
    using placedD(4) [OF P, of t] placedD(3) [OF P, of t i] placedD(2) [OF P, of t] t by auto
  then show ?thesis using boot_invD(2) [OF B] by (auto simp: unlinked_def heads_def)
qed

text \<open>\<open>rt_thread_init\<close>, then \<open>rt_thread_startup\<close>.\<close>

lemma boot_thread_init:
  fixes s :: "'a kernel_scheme"
  assumes B: "boot_inv pmax T L s" and t: "stat (threads s t) = RT_THREAD_INIT" and p: "unat p < pmax"
  shows "\<exists>s'. rt_thread_init pmax t static p n s = Some s' \<and> boot_inv pmax T L s' \<and> stat (threads s' t) = RT_THREAD_INIT \<and>
    init_priority (threads s' t) = p \<and> (\<forall>u. u \<noteq> t \<longrightarrow> threads s' u = threads s u)"
proof -
  note S = boot_invD(1) [OF B] and u = unlinked_init [OF B t]
  let ?f = "\<lambda>x :: rt_thread. x\<lparr>init_priority := p, current_priority := p, thread_init_tick := n, remaining_tick := n, thread_error := RT_EOK,
     stat := RT_THREAD_INIT, has_cleanup := False, system_object := static\<rparr>"
  let ?s2 = "upd_thread t ?f (s\<lparr>list_links := rt_list_init (Tlist t) (list_links s)\<rparr>)"
  let ?s' = "rt_timer_init (Thread_timer t) 0 0 ?s2"
  have R: "reps (heads pmax) nodes (rt_list_init (Tlist t) (list_links s)) L"
    using reps_init_node [OF sched_okD(1) [OF S], of "Tlist t"] u by (simp add: unlinked_def insert_absorb nodes_def heads_def image_iff)
  have row: "Row v \<notin> set (L l)" if "l \<in> heads pmax" for v l
    using sched_okD(2) [OF S] that boot_invD(2) [OF B] unfolding typed_def by force
  have R': "reps (heads pmax) nodes (list_links ?s') L"
    using reps_init_node [OF R, of "Row (Thread_timer t)"] row
    by (simp add: rt_timer_init_def Let_def upd_timer_def insert_absorb nodes_def heads_def image_iff)
  have th: "threads ?s' = (threads s)(t := ?f (threads s t))"
    by (simp add: rt_timer_init_def Let_def upd_timer_def)
  have "sched_ok pmax {} L (upd_thread t ?f s)"
    by (rule sched_ok_upd [OF S]) (use t u in \<open>auto simp: unlinked_def\<close>)
  then have "sched_ok pmax {} L ?s'"
    using R' th by (simp add: sched_ok_def rt_timer_init_def Let_def upd_timer_def)
  moreover have tm: "is_activated (timers ?s' v) \<longleftrightarrow> (v \<noteq> Thread_timer t \<and> is_activated (timers s v))"
    "is_periodic (timers ?s' v) \<longleftrightarrow> (v \<noteq> Thread_timer t \<and> is_periodic (timers s v))"
    "timers ?s' (App_timer i) = timers s (App_timer i)" for v i
    by (auto simp: rt_timer_init_def Let_def upd_timer_def is_activated_def is_periodic_def)
  moreover have "rt_tick ?s' = rt_tick s" "rt_current_thread ?s' = rt_current_thread s" "scheduler_lock_nest ?s' = scheduler_lock_nest s"
    by (simp_all add: rt_timer_init_def Let_def upd_timer_def)
  ultimately have "boot_inv pmax T L ?s'" using B by (simp add: boot_inv_def th)
  then show ?thesis using p th by (intro exI [of _ ?s']) (auto simp: rt_thread_init_def Let_def)
qed

lemma boot_thread_startup:
  fixes s :: "'a kernel_scheme"
  assumes B: "boot_inv pmax T L s" and t: "stat (threads s t) = RT_THREAD_INIT" "unat (init_priority (threads s t)) < pmax"
  shows "\<exists>s' L'. rt_thread_startup pmax t s = Some s' \<and> boot_inv pmax T L' s' \<and> ready s' t \<and>
    (\<forall>u. u \<noteq> t \<longrightarrow> threads s' u = threads s u)"
proof -
  note S = boot_invD(1) [OF B] and u = unlinked_init [OF B t(1)]
  let ?f = "\<lambda>x. (set_priority pmax (init_priority x) x)\<lparr>stat := RT_THREAD_SUSPEND\<rparr>"
  let ?s1 = "upd_thread t ?f s"
  have S1: "sched_ok pmax {t} L ?s1"
    by (rule sched_ok_upd [OF sched_ok_mono [OF S]]) (use t u masks_ok_set_priority in \<open>auto simp: unlinked_def\<close>)
  have m: "masks_ok pmax (threads ?s1 t)" using masks_ok_set_priority t(2) by simp
  let ?s2 = "rt_schedule_insert_thread pmax t ?s1"
  let ?L = "L_ready (unat (current_priority (threads ?s1 t))) t L"
  have S2: "sched_ok pmax {} ?L ?s2" using sched_ok_insert [OF S1 u m] by simp
  have circular: "circular (list_links s) (Tlist t) []"
    using reps_unlinked(1) [OF sched_okD(1) [OF S], of "Tlist t"] u by (simp add: unlinked_def nodes_def)
  have "s\<lparr>list_links := rt_list_remove (Tlist t) (list_links s)\<rparr> = s" using remove_unlinked [OF circular] by simp
  then have "rt_thread_startup pmax t s = Some ?s2"
    using t(1) boot_invD(4,8) [OF B] remove_unlinked [OF circular]
    by (simp add: rt_thread_startup_def rt_thread_resume_def Let_def rt_timer_stop_def upd_thread_def)
  moreover have "boot_inv pmax T ?L ?s2"
    using S2 B by (auto simp: boot_inv_def)
  ultimately show ?thesis by (intro exI [of _ ?s2] exI [of _ ?L]) (simp add: ready_def)
qed

lemma boot_launch:
  fixes s :: "'a kernel_scheme"
  assumes B: "boot_inv pmax T L s" and t: "stat (threads s t) = RT_THREAD_INIT" and p: "unat p < pmax"
  shows "\<exists>s' L'. thread_launch pmax t static p n s = Some s' \<and> boot_inv pmax T L' s' \<and> ready s' t \<and>
    (\<forall>u. u \<noteq> t \<longrightarrow> threads s' u = threads s u)"
proof -
  obtain s1 where 1: "rt_thread_init pmax t static p n s = Some s1" "boot_inv pmax T L s1" "stat (threads s1 t) = RT_THREAD_INIT"
    "init_priority (threads s1 t) = p" "\<forall>u. u \<noteq> t \<longrightarrow> threads s1 u = threads s u"
    using boot_thread_init [OF B t p] by blast
  with boot_thread_startup [OF 1(2,3)] p show ?thesis by (auto simp: thread_launch_def)
qed

lemma boot_apps:
  fixes s :: "'a kernel_scheme"
  assumes "boot_inv pmax T L s" "\<forall>(t, p, _)\<in>set apps. stat (threads s t) = RT_THREAD_INIT \<and> unat p < pmax" "distinct (map fst apps)"
  shows "\<exists>s' L'. application_init pmax apps s = Some s' \<and> boot_inv pmax T L' s' \<and>
    (\<forall>u. u \<notin> fst ` set apps \<longrightarrow> threads s' u = threads s u) \<and> (\<forall>u. u \<in> fst ` set apps \<longrightarrow> ready s' u)"
  using assms
proof (induction apps arbitrary: L s)
  case Nil
  then show ?case by auto
next
  case (Cons a apps)
  obtain t p n where a: "a = (t, p, n)" by (cases a)
  obtain s1 L1 where 1: "thread_launch pmax t False p n s = Some s1" "boot_inv pmax T L1 s1" "ready s1 t"
    "\<forall>u. u \<noteq> t \<longrightarrow> threads s1 u = threads s u"
    using boot_launch [OF Cons.prems(1), of t p False n] Cons.prems(2) a by auto
  have "\<forall>(u, p, _)\<in>set apps. stat (threads s1 u) = RT_THREAD_INIT \<and> unat p < pmax"
    using Cons.prems(2,3) 1(4) a by (fastforce simp: image_iff)
  then obtain s2 L2 where 2: "application_init pmax apps s1 = Some s2" "boot_inv pmax T L2 s2"
    "\<forall>u. u \<notin> fst ` set apps \<longrightarrow> threads s2 u = threads s1 u" "\<forall>u. u \<in> fst ` set apps \<longrightarrow> ready s2 u"
    using Cons.IH [OF 1(2)] Cons.prems(3) by auto
  have "t \<notin> fst ` set apps" using Cons.prems(3) a by simp
  then have "ready s2 t" using 2(3) 1(3) by (simp add: ready_def)
  then show ?case using 1 2 a by (intro exI [of _ s2] exI [of _ L2]) auto
qed

section \<open>The kernel starts\<close>

lemma init_heads:
  "list_next (fold (\<lambda>p. rt_list_init (Priority_table p)) ps h) n =
     (if n \<in> Priority_table ` set ps then n else list_next h n)"
  "list_prev (fold (\<lambda>p. rt_list_init (Priority_table p)) ps h) n =
     (if n \<in> Priority_table ` set ps then n else list_prev h n)"
  by (induction ps arbitrary: h) (auto simp: rt_list_init_def links_simps)

lemma boot_memory:
  fixes s :: "'a kernel_scheme"
  assumes U: "unused s" and p: "pmax \<le> 256"
  shows "boot_inv pmax (unat (rt_tick s)) (\<lambda>_. []) (rt_system_scheduler_init pmax (rt_system_timer_init s))"
    "threads (rt_system_scheduler_init pmax (rt_system_timer_init s)) = threads s"
proof -
  let ?s = "rt_system_scheduler_init pmax (rt_system_timer_init s)"
  show th: "threads ?s = threads s" by (simp add: rt_system_scheduler_init_def Let_def rt_system_timer_init_def)
  have circular: "circular (list_links ?s) n []" if "n \<in> heads pmax \<union> nodes" for n
    using U that by (auto simp: circular_Nil unused_def heads_def nodes_def rt_system_scheduler_init_def rt_system_timer_init_def Let_def
        rt_list_init_def links_simps init_heads)
  have "reps (heads pmax) nodes (list_links ?s) (\<lambda>_. [])"
    by (rule repsI) (use circular in \<open>auto simp: heads_def nodes_def\<close>)
  moreover have "bitmap_ok pmax (occupied (\<lambda>_. [])) (ready_priority_group ?s) (ready_table ?s)"
    by (simp add: bitmap_ok_def occupied_def rt_system_scheduler_init_def Let_def)
  moreover have "placed pmax {} (\<lambda>_. []) (threads ?s)" using U by (simp add: placed_def th unused_def)
  ultimately have "sched_ok pmax {} (\<lambda>_. []) ?s" using p U by (simp add: sched_ok_def typed_def th unused_def)
  then show "boot_inv pmax (unat (rt_tick s)) (\<lambda>_. []) ?s"
    using U th by (simp add: boot_inv_def unused_def rt_system_scheduler_init_def Let_def rt_system_timer_init_def)
qed

lemma boot_started:
  fixes s :: "'a kernel_scheme"
  assumes B: "boot_inv pmax T L s" and i: "ready s idle"
  shows "\<exists>s'. rt_system_scheduler_start pmax s = Some s' \<and> kern pmax idle L {} {} 0 T [] s' \<and> runs_ok s' \<and>
    rt_current_thread s' \<noteq> None \<and> threads s' = threads s \<and> scheduler_lock_nest s' = 0"
proof (rule highest_ready_thread_ok [OF boot_invD(1) [OF B] i])
  fix t
  assume t: "highest_ready_thread pmax s = Some t" "ready s t"
    "\<And>v. ready s v \<Longrightarrow> current_priority (threads s t) \<le> current_priority (threads s v)"
  let ?s = "s\<lparr>rt_current_thread := Some t\<rparr>"
  have S: "sched_ok pmax {} L ?s" by (rule sched_ok_cong [OF boot_invD(1) [OF B]]) simp_all
  have closed: "closed_timers ?s = {}" using boot_invD(5) [OF B] unfolding closed_timers_def
    by (auto, metis thread_stat.distinct(5) thread_stat.distinct(9))
  have row: "set (L l) \<inter> range Row = {}" if "l \<in> heads pmax" "l \<noteq> Timer_list" for l
    using sched_okD(2) [OF S] that unfolding typed_def by blast
  have "timer_rel (heads pmax) nodes L ({} \<union> closed_timers ?s) 0 T [] ?s"
    using sched_okD(1) [OF S] row boot_invD(2-4) [OF B] by (simp add: timer_rel_def closed heads_def nodes_def)
  moreover have "0 < unat (timer_init_tick (timers s u)) \<and> unat (timer_init_tick (timers s u)) < half_ticks"
    if "is_periodic (timers s u)" for u using that boot_invD(6,7) [OF B] by (cases u) auto
  ultimately have "kern pmax idle L {} {} 0 T [] ?s"
    using S boot_invD(6) [OF B] i by (simp add: kern_def ready_def)
  then show ?thesis using t boot_invD(9) [OF B]
    by (intro exI [of _ ?s]) (simp add: rt_system_scheduler_start_def runs_ok_def runs_highest_def ready_def)
qed

lemma kernel_starts:
  fixes s :: "'a kernel_scheme"
  assumes U: "unused s" and p: "0 < pmax" "pmax \<le> 256" and a: "distinct (map fst apps)" "idle \<notin> fst ` set apps"
    "\<forall>(_, p, _)\<in>set apps. unat p < pmax"
  shows "\<exists>s'. rtthread_startup pmax idle apps s = Some s' \<and> kernel_ok pmax idle s' \<and> runs_ok s' \<and> scheduler_lock_nest s' = 0"
proof -
  let ?s2 = "rt_system_scheduler_init pmax (rt_system_timer_init s)"
  note B2 = boot_memory [OF U p(2)]
  have init: "stat (threads s t) = RT_THREAD_INIT" for t using U by (simp add: unused_def)
  obtain s3 L3 where 3: "application_init pmax apps ?s2 = Some s3" "boot_inv pmax (unat (rt_tick s)) L3 s3"
    "\<forall>u. u \<notin> fst ` set apps \<longrightarrow> threads s3 u = threads s u"
    using boot_apps [OF B2(1), of apps] a init unfolding B2(2) by auto
  have "unat (of_nat k :: byte) = k" if "k < 256" for k using that by (simp add: unat_of_nat take_bit_nat_eq_self)
  from this [of "pmax - 1"] have "unat (of_nat (pmax - 1) :: byte) < pmax" using p by simp
  then obtain s4 L4 where 4: "rt_thread_idle_init pmax idle s3 = Some s4" "boot_inv pmax (unat (rt_tick s)) L4 s4" "ready s4 idle"
    using boot_launch [OF 3(2), of idle "of_nat (pmax - 1)" True 32] 3(3) a(2) init p unfolding rt_thread_idle_init_def by auto
  from boot_started [OF 4(2,3)] show ?thesis using 3(1) 4(1)
    by (auto simp: rtthread_startup_def Let_def kernel_ok_def)
qed

section \<open>The states of the running system\<close>

lemma next_multiple:
  fixes n m :: nat
  assumes "0 < n"
  shows "n * (m div n + 1) \<le> Suc m \<longleftrightarrow> n dvd Suc m"
proof
  assume d: "n dvd Suc m"
  then have "Suc m div n = Suc (m div n)" by (simp add: div_Suc dvd_eq_mod_eq_0)
  then show "n * (m div n + 1) \<le> Suc m" using dvd_mult_div_cancel [OF d] by simp
next
  assume "n * (m div n + 1) \<le> Suc m"
  moreover have "m < n * (m div n + 1)" using assms dividend_less_div_times [of n m] by (simp add: ac_simps)
  ultimately have "n * (m div n + 1) = Suc m" by simp
  then show "n dvd Suc m" by (metis dvd_triv_left)
qed

definition configured :: "nat \<Rightarrow> nat \<Rightarrow> (nat \<times> byte \<times> u32) list \<Rightarrow> 'a kernel_scheme \<Rightarrow> bool" where
  "configured pmax idle apps s \<longleftrightarrow> unused s \<and> 0 < pmax \<and> pmax \<le> 256 \<and> distinct (map fst apps) \<and> idle \<notin> fst ` set apps \<and>
     (\<forall>(_, p, _)\<in>set apps. unat p < pmax)"

definition reached :: "nat \<Rightarrow> nat \<Rightarrow> (nat \<Rightarrow> 'a kernel_scheme \<Rightarrow> nat list) \<Rightarrow> (kevent \<times> timer_ref list) list \<Rightarrow> 'a kernel_scheme \<Rightarrow> bool" where
  "reached pmax idle posts tr s \<longleftrightarrow>
     (\<exists>s0 s1 apps. configured pmax idle apps s0 \<and> rtthread_startup pmax idle apps s0 = Some s1 \<and> kruns pmax idle posts s1 tr s)"

lemma configured_starts:
  assumes "configured pmax idle apps s"
  obtains s' where "rtthread_startup pmax idle apps s = Some s'" "kernel_ok pmax idle s'" "runs_ok s'" "scheduler_lock_nest s' = 0"
  using kernel_starts [of s pmax apps idle] assms unfolding configured_def by blast

lemma reached_ok:
  assumes "reached pmax idle posts tr s"
  shows "kernel_ok pmax idle s" "\<forall>(ev, _)\<in>set tr. \<forall>t p. ev \<noteq> Priority t p \<Longrightarrow> runs_ok s"
proof -
  obtain s0 s1 apps where r: "configured pmax idle apps s0" "rtthread_startup pmax idle apps s0 = Some s1" "kruns pmax idle posts s1 tr s"
    using assms by (auto simp: reached_def)
  have s1: "kernel_ok pmax idle s1" "runs_ok s1" using configured_starts [OF r(1)] r(2) by auto
  show "kernel_ok pmax idle s" using kruns_ok [OF r(3) s1(1)] .
  show "runs_ok s" if "\<forall>(ev, _)\<in>set tr. \<forall>t p. ev \<noteq> Priority t p" using kruns_highest [OF r(3) s1 that] .
qed

text \<open>C3: The kernel never gets stuck. From an unused memory, with priorities below the configured number,
  \<open>rtthread_startup\<close> hands the processor to a thread; and after any sequence of ticks, sleeps, waits, messages, timer
  starts and stops, thread starts, exits, priority changes, yields, scheduler locks and unlocks (the twelve services of
  \<open>kexec\<close>) whose arguments are in range, the next such event completes: no assertion fails, no loop over a list runs forever, and no list entry is followed
  that is not a thread or a timer.
\<close>

theorem kernel_never_stuck:
  assumes "configured pmax idle apps s0"
  shows "\<exists>s. rtthread_startup pmax idle apps s0 = Some s \<and>
    (\<forall>tr s' ev. kruns pmax idle posts s tr s' \<and> enabled pmax idle ev s' \<longrightarrow> kexec pmax posts ev s' \<noteq> None)"
proof -
  obtain s where s: "rtthread_startup pmax idle apps s0 = Some s" "kernel_ok pmax idle s"
    using configured_starts [OF assms] by blast
  have "kexec pmax posts ev s' \<noteq> None" if "kruns pmax idle posts s tr s'" "enabled pmax idle ev s'" for tr s' ev
    by (rule kernel_ok_step [OF kruns_ok [OF that(1) s(2)] that(2), of posts]) simp
  then show ?thesis using s(1) by blast
qed

text \<open>C4: Priority scheduling. As long as no priority is changed by \<open>rt_thread_control\<close>, which does not
  reschedule, whenever the scheduler is not locked the running thread is ready, and no ready thread has a
  higher priority (a smaller number).
\<close>

theorem highest_priority_runs:
  assumes "reached pmax idle posts tr s" "\<forall>(ev, _)\<in>set tr. \<forall>t p. ev \<noteq> Priority t p" "scheduler_lock_nest s = 0"
  shows "\<exists>t. rt_current_thread s = Some t \<and> stat (threads s t) = RT_THREAD_READY \<and>
    (\<forall>v. stat (threads s v) = RT_THREAD_READY \<longrightarrow> current_priority (threads s t) \<le> current_priority (threads s v))"
  using reached_ok(2) [OF assms(1,2)] assms(3) by (simp add: runs_ok_def runs_highest_def ready_def)

text \<open>C21: \<open>rt_thread_sleep\<close> sleeps exactly as long as asked, whatever services of \<open>kexec\<close> run meanwhile and wherever the
  32-bit tick counter wraps around: until the tick with the given number (at least the next one) the thread
  stays suspended, and that tick makes it ready.
\<close>

theorem sleep_exact:
  assumes r: "reached pmax idle posts tr0 s" and c: "rt_current_thread s = Some c" and e: "enabled pmax idle (Sleep n) s"
    and x: "kexec pmax posts (Sleep n) s = Some ([], s1)" and run: "kruns pmax idle posts s1 tr s2" "ticks tr < max 1 (unat n)"
  shows "stat (threads s2 c) = RT_THREAD_SUSPEND \<and>
    (\<exists>fired s3. kexec pmax posts Tick s2 = Some (fired, s3) \<and>
       stat (threads s3 c) = (if Suc (ticks tr) = max 1 (unat n) then RT_THREAD_READY else RT_THREAD_SUSPEND))"
proof -
  obtain L T q where K: "kern pmax idle L {} {} 0 T q s" "rt_current_thread s \<noteq> None" using reached_ok(1) [OF r] by (rule kernel_okE)
  have a: "ready s c" "c \<noteq> idle" "unat n < half_ticks" using e c by (auto simp: actor_def)
  let ?e = "T + unat n"
  obtain L1 where 1: "kern pmax idle L1 {} {} 0 T (q_insert (Thread_timer c) ?e q) s1" "rt_current_thread s1 \<noteq> None"
    "sleeping c ?e L1 (q_insert (Thread_timer c) ?e q)"
    using kern_sleep [OF K(1) c a] x by (auto simp: sleeping_def)
  have less: "T + ticks tr < max (Suc T) ?e" using run(2) by (auto simp: max_def split: if_splits)
  obtain L2 q2 where 2: "kern pmax idle L2 {} {} 0 (T + ticks tr) q2 s2" "rt_current_thread s2 \<noteq> None" "sleeping c ?e L2 q2"
    using kruns_sleeping [OF run(1) 1 less] by blast
  obtain fired s3 L3 q3 where 3: "kexec pmax posts Tick s2 = Some (fired, s3)" "kern pmax idle L3 {} {} 0 (Suc (T + ticks tr)) q3 s3"
    "step_spec Tick (T + ticks tr) L2 q2 s2 fired L3 q3 s3"
    using step_tick [OF 2(1,2), of posts] by blast
  have "stat (threads s3 c) = (if Suc (ticks tr) = max 1 (unat n) then RT_THREAD_READY else RT_THREAD_SUSPEND)"
  proof (cases "Suc (ticks tr) = max 1 (unat n)")
    case True
    then have "ready s3 c" using step_specD(2) [OF 3(3) 2(3)] by (simp add: max_def split: if_splits)
    then show ?thesis using True by (simp add: ready_def)
  next
    case False
    then have "sleeping c ?e L3 q3" using step_specD(3) [OF 3(3) 2(3)] run(2) by (simp add: max_def split: if_splits)
    then show ?thesis using sleeping_suspended [OF 3(2)] False by simp
  qed
  then show ?thesis using sleeping_suspended [OF 2(1,3)] 3(1) by blast
qed

text \<open>C22: A periodic timer keeps time. Once started, a periodic timer that is neither restarted nor stopped
  fires at the ticks whose numbers are multiples of its period and at no others, forever and across the
  wrap-around of the tick counter.
\<close>

theorem periodic_timer_exact:
  assumes r: "reached pmax idle posts tr0 s" and per: "is_periodic (timers s (App_timer i))" and e: "enabled pmax idle (Start i) s"
    and x: "kexec pmax posts (Start i) s = Some ([], s1)" and run: "kruns pmax idle posts s1 tr s2"
      "\<forall>(ev, _)\<in>set tr. ev \<noteq> Start i \<and> ev \<noteq> Stop i"
  shows "\<exists>fired s3. kexec pmax posts Tick s2 = Some (fired, s3) \<and>
    (App_timer i \<in> set fired \<longleftrightarrow> unat (timer_init_tick (timers s (App_timer i))) dvd Suc (ticks tr))"
proof -
  let ?u = "App_timer i" and ?n = "unat (timer_init_tick (timers s (App_timer i)))"
  obtain L T q where K: "kern pmax idle L {} {} 0 T q s" "rt_current_thread s \<noteq> None" using reached_ok(1) [OF r] by (rule kernel_okE)
  have n: "0 < ?n" using kernD(5) [OF K(1) per] by blast
  obtain L1 q1 where 1: "kern pmax idle L1 {} {} 0 (time_after (Start i) T) q1 s1" "step_spec (Start i) T L q s [] L1 q1 s1" "rt_current_thread s1 \<noteq> None"
    using kernel_stepE [OF K e x] .
  have per1: "is_periodic (timers s1 ?u)" "?n = unat (timer_init_tick (timers s1 ?u))"
    using step_specD(6) [OF 1(2)] per by (simp_all add: same_periods_def)
  have q1: "(?u, T + ?n * (0 div ?n + 1)) \<in> set q1" using step_specD(8) [OF 1(2)] by simp
  have "kern pmax idle L1 {} {} 0 (T + 0) q1 s1" using 1(1) by (simp add: time_after_def)
  from kruns_periodic [OF run(1) this 1(3) per1 n q1 run(2)]
  obtain L2 q2 where 2: "kern pmax idle L2 {} {} 0 (T + ticks tr) q2 s2" "rt_current_thread s2 \<noteq> None"
    "(?u, T + ?n * (ticks tr div ?n + 1)) \<in> set q2" by auto
  obtain fired s3 L3 q3 where 3: "kexec pmax posts Tick s2 = Some (fired, s3)" "step_spec Tick (T + ticks tr) L2 q2 s2 fired L3 q3 s3"
    using step_tick [OF 2(1,2), of posts] by blast
  note C = step_specD(1) [OF 3(2) refl]
  define e2 where "e2 = T + ?n * (ticks tr div ?n + 1)"
  have q2: "(?u, e2) \<in> set q2" using 2(3) unfolding e2_def .
  have "?u \<in> set fired \<longleftrightarrow> e2 \<le> Suc (T + ticks tr)"
    using check_specD(3) [OF C q2] check_specD(5) [OF C, of ?u] timer_rel_once [OF kernD(2) [OF 2(1)] q2]
    by (auto simp: is_thread_timer_def)
  also have "\<dots> \<longleftrightarrow> ?n * (ticks tr div ?n + 1) \<le> Suc (ticks tr)" by (simp add: e2_def)
  also have "\<dots> \<longleftrightarrow> ?n dvd Suc (ticks tr)" by (rule next_multiple [OF n])
  finally show ?thesis using 3(1) by blast
qed

section \<open>An example\<close>

text \<open>A kernel with one application thread, a periodic timer of two ticks, and a tick counter about to wrap around.\<close>

definition fresh_kernel :: kernel where
  "fresh_kernel = \<lparr>list_links = \<lparr>list_next = \<lambda>n. n, list_prev = \<lambda>n. n\<rparr>,
     timers = (\<lambda>_. \<lparr>timer_flag = 0, timeout_tick = 0, timer_init_tick = 0\<rparr>)
       (App_timer 0 := \<lparr>timer_flag = RT_TIMER_FLAG_PERIODIC, timeout_tick = 0, timer_init_tick = 2\<rparr>),
     rt_tick = 0xffffffff,
     threads = \<lambda>_. \<lparr>thread_error = 0, stat = RT_THREAD_INIT, current_priority = 0, init_priority = 0, number = 0, high_mask = 0,
       number_mask = 0, thread_init_tick = 0, remaining_tick = 0, system_object = False, has_cleanup = False\<rparr>,
     rt_current_thread = None, rt_current_priority = 0, ready_priority_group = 0, ready_table = \<lambda>_. 0, scheduler_lock_nest = 0\<rparr>"

definition started_kernel :: kernel where
  "started_kernel = the (rtthread_startup 32 0 [(1, 10, 5)] fresh_kernel)"

lemma fresh_configured: "configured 32 0 [(1, 10, 5)] fresh_kernel"
  by (auto simp: configured_def unused_def fresh_kernel_def circular_Nil is_activated_def is_periodic_def RT_TIMER_FLAG_ACTIVATED_def
    RT_TIMER_FLAG_PERIODIC_def half_ticks_def)

lemma fresh_started: "rtthread_startup 32 0 [(1, 10, 5)] fresh_kernel = Some started_kernel"
  by (rule configured_starts [OF fresh_configured]) (simp add: started_kernel_def)

lemma started_reached: "reached 32 0 posts [] started_kernel"
  unfolding reached_def using fresh_configured fresh_started kruns.none by blast

lemma started_state:
  "rt_current_thread started_kernel = Some 1 \<and> stat (threads started_kernel 1) = RT_THREAD_READY \<and>
   stat (threads started_kernel 0) = RT_THREAD_READY \<and>
   scheduler_lock_nest started_kernel = 0 \<and> is_periodic (timers started_kernel (App_timer 0)) \<and>
   unat (timer_init_tick (timers started_kernel (App_timer 0))) = 2"
  by code_simp

lemma started_enabled: "enabled 32 0 (Sleep 2) started_kernel" "enabled 32 0 (Start 0) started_kernel"
  using started_state by (simp_all add: actor_def ready_def half_ticks_def)

lemma started_ok: "kernel_ok 32 0 started_kernel"
  using reached_ok(1) [OF started_reached] .

lemma started_step:
  assumes "enabled 32 0 ev started_kernel" "ev \<noteq> Tick"
  obtains s1 fired s2 where "kexec 32 posts ev started_kernel = Some ([], s1)" "kexec 32 posts Tick s1 = Some (fired, s2)"
    "kruns 32 0 posts s1 [(Tick, fired)] s2"
proof -
  obtain fr s1 where 1: "kexec 32 posts ev started_kernel = Some (fr, s1)" "kernel_ok 32 0 s1"
    using kernel_ok_step [OF started_ok assms(1)] .
  obtain fired s2 where 2: "kexec 32 posts Tick s1 = Some (fired, s2)"
    by (rule kernel_ok_step [OF 1(2), of Tick posts]) auto
  have "kruns 32 0 posts s1 [(Tick, fired)] s2" by (rule kruns.step [OF _ 2 kruns.none]) simp
  moreover have "fr = []" using 1(1) assms(2) by (cases ev) auto
  ultimately show ?thesis using that 1(1) 2 by blast
qed

theorem kernel_never_stuck_witness:
  "\<exists>s. rtthread_startup 32 0 [(1, 10, 5)] fresh_kernel = Some s \<and> kexec 32 (\<lambda>_ _. []) (Sleep 2) s \<noteq> None"
  using kernel_never_stuck [OF fresh_configured, of "\<lambda>_ _. []"] kruns.none started_enabled(1) fresh_started
  by (metis option.inject)

theorem highest_priority_runs_witness:
  "\<exists>t. rt_current_thread started_kernel = Some t \<and> current_priority (threads started_kernel t) \<le> current_priority (threads started_kernel 0)"
  using highest_priority_runs [OF started_reached [of "\<lambda>_ _. []"]] started_state by auto

theorem sleep_exact_witness:
  "\<exists>s1 f2 s2 f3 s3. kexec 32 (\<lambda>_ _. []) (Sleep 2) started_kernel = Some ([], s1) \<and>
     kexec 32 (\<lambda>_ _. []) Tick s1 = Some (f2, s2) \<and> stat (threads s2 1) = RT_THREAD_SUSPEND \<and>
     kexec 32 (\<lambda>_ _. []) Tick s2 = Some (f3, s3) \<and> stat (threads s3 1) = RT_THREAD_READY"
proof -
  obtain s1 f2 s2 where s: "kexec 32 (\<lambda>_ _. []) (Sleep 2) started_kernel = Some ([], s1)" "kexec 32 (\<lambda>_ _. []) Tick s1 = Some (f2, s2)"
    "kruns 32 0 (\<lambda>_ _. []) s1 [(Tick, f2)] s2" using started_step [OF started_enabled(1)] by blast
  have c: "rt_current_thread started_kernel = Some 1" using started_state by blast
  have t: "ticks [(Tick, f2)] < max 1 (unat (2 :: u32))" "Suc (ticks [(Tick, f2)]) = max 1 (unat (2 :: u32))" by (simp_all add: ticks_def)
  show ?thesis using sleep_exact [OF started_reached c started_enabled(1) s(1,3) t(1)] s t(2) by auto
qed

theorem periodic_timer_exact_witness:
  "\<exists>s1 f2 s2 f3 s3. kexec 32 (\<lambda>_ _. []) (Start 0) started_kernel = Some ([], s1) \<and>
     kexec 32 (\<lambda>_ _. []) Tick s1 = Some (f2, s2) \<and> kexec 32 (\<lambda>_ _. []) Tick s2 = Some (f3, s3) \<and> App_timer 0 \<in> set f3"
proof -
  obtain s1 f2 s2 where s: "kexec 32 (\<lambda>_ _. []) (Start 0) started_kernel = Some ([], s1)" "kexec 32 (\<lambda>_ _. []) Tick s1 = Some (f2, s2)"
    "kruns 32 0 (\<lambda>_ _. []) s1 [(Tick, f2)] s2" using started_step [OF started_enabled(2)] by blast
  have p: "is_periodic (timers started_kernel (App_timer 0))" "unat (timer_init_tick (timers started_kernel (App_timer 0))) = 2"
    using started_state by blast+
  show ?thesis using periodic_timer_exact [OF started_reached p(1) started_enabled(2) s(1,3)] s p(2) by (auto simp: ticks_def)
qed

end
