(* ===== verification/Spec2Isabelle.thy ===== *)
theory Spec2Isabelle
  imports File_Transfer Msg_Queue Packet_Check Detector_Statistics Light_Colours Led_Thread Lora_Radio Sys_Ctrl
    File_Upload Tcp_Framing Udp_Report Start_Up Kernel_Boot
begin

text \<open>
  A verification library for the firmware of the wireless node concentrator of a parking guidance system (GD32F207,
  RT-Thread).

  \<^bold>\<open>The program.\<close> Detectors in the floor of a car park report by LoRa radio whether their place is taken; lights over
  the lanes show green while one of their places is free. The concentrator receives the detectors, commands the lights, keeps
  statistics and logs, shows the nodes on an LED matrix, broadcasts reports over UDP and is configured over TCP. Its code under
  \<open>src/applications\<close> consists of components that keep data (\<open>user_components\<close>: external flash, embedded flash, log
  files) and threads (\<open>user_thread\<close>: radio receiving, data process, radio sending, LED matrix, system control, UDP client
  and server, TCP server) that share the node lists of \<open>wnc_data_base.h\<close> and talk through the message queues of
  \<open>rt-thread/kernel/ipc.c\<close>. Below them are the driver of the serial flash (\<open>spi_flash_gd.c\<close>), of the clock
  (\<open>bsp/pcf8563.c\<close>), the string services of \<open>kservice.c\<close>, and the timers, threads and scheduler of the kernel
  (\<open>timer.c\<close>, \<open>clock.c\<close>, \<open>thread.c\<close>, \<open>scheduler.c\<close>).

  \<^bold>\<open>How it is modelled.\<close> Functions of the code are functions of the same name. The state is one record, extended from
  component to component: \<open>flash_st\<close> (the external flash as a map from addresses to bytes), log bookkeeping, clock
  (\<open>sys_st\<close>), device parameters (\<open>emb_st\<close>), configuration (\<open>cfg_st\<close>), node lists (\<open>db_st\<close>), file directory
  (\<open>file_st\<close>), work state (\<open>ws_st\<close>), transfer (\<open>ft_st\<close>), queues and sockets (\<open>app_st\<close>), and then one extension
  for each thread that has variables of its own (\<open>led_st\<close>, \<open>radio_st\<close>, \<open>udp_st\<close>, \<open>ctrl_st\<close>, \<open>tcp_st\<close>,
  \<open>server_st\<close>). An operation is stated for every extension of the record it needs. Integers have the width of the code
  (\<open>byte\<close>, \<open>u16\<close>, \<open>u32\<close> are words); signed values are read with \<open>sint\<close>. Indices and lengths that the code
  cannot overflow are natural numbers. Memory that the code reads without having written it is a field
  (\<open>stack_mem\<close>, \<open>stack_pkt\<close>, \<open>stack_rtc\<close>, \<open>stack_device\<close>, \<open>behind_tcp_buf\<close>), so that a theorem
  holds for every content. Errors are results: the code's own error values, \<open>option\<close>, or in the TCP server the sum with
  \<open>tcp_fault\<close> where the code leaves its buffers or uses a pointer that was not set. A loop that may run forever is a
  \<open>partial_function (option)\<close>; no result means that it does not end, and the theorems state in which cases it ends.
  No fuel is used.

  \<^bold>\<open>The theories, bottom up.\<close>
  \<^item> \<open>Prelude\<close>: byte orders, memories, erasing and programming of NOR flash; the simplification collections
    \<open>flash_simps\<close> and \<open>codec_simps\<close>.
  \<^item> \<open>Spi_Flash\<close>: the driver \<open>spi_flash_gd.c\<close> over a parameter for bus and chip. The locale \<open>nor_chip\<close> states
    the documented behaviour of the chip and is interpreted on a model of the GD25Q32. The driver refines the erase and
    program operations that everything above uses. The locale \<open>flash_record\<close> is the contract of a structure that is
    rewritten as a whole into its own sector; configuration, directory and the two firmware records interpret it.
  \<^item> \<open>Log_Base\<close>: the circular log files. The abstract log is the list of bytes written and the part of it that is
    retained; writing appends, reading gives the retained part, a restart recovers the bookkeeping. The locale
    \<open>append_log\<close> is the interface the logs above rest on.
  \<^item> \<open>Rtc\<close>, \<open>Kservice\<close>, \<open>System_Log\<close>: calendar checks and BCD transfer; the printf family, proved inverse to
    scanning; time-stamped lines.
  \<^item> \<open>Embedded_Flash\<close>, \<open>Wnc_Config\<close>: device parameters over the vendor's flash controller (locale \<open>fmc\<close>,
    whose operations may fail; interpreted on an ideal controller and on a worn one);
    the two stored copies of the configuration and what an interrupted update leaves behind.
  \<^item> \<open>Data_Base\<close>, \<open>Parking_Lists\<close>, \<open>Work_State_Log\<close>: the node lists, their construction from the text files in
    flash with their exact contents, and the hourly report with its exact text.
  \<^item> \<open>File_Transfer\<close>, \<open>File_Upload\<close>: download of files packet by packet, confirmation and backup of new firmware,
    upload of files.
  \<^item> \<open>Msg_Queue\<close>: the kernel's message queues as linked blocks, first call by call (locale \<open>msg_fifo\<close>, which the
    bounded lists of \<open>App_Base\<close> satisfy as well), then section by section between the points where interrupts are
    disabled, with any number of threads: \<open>mq_step\<close> and \<open>mq_reach\<close>. Order, delivery, wake-ups, pool and reset are
    proved for every interleaving.
  \<^item> \<open>App_Base\<close>: messages, queues and small functions the threads share.
  \<^item> \<open>Data_Process\<close> with \<open>Packet_Check\<close>, \<open>Detector_Statistics\<close>, \<open>Light_Colours\<close>: the thread that handles
    received packets; what its checksum detects, that its statistics balance, and that the light control equals the
    reference choice of colours, ends, and commands the next light that needs it.
  \<^item> \<open>Led_Thread\<close>, \<open>Lora_Radio\<close>, \<open>Sys_Ctrl\<close>: LED matrix, radio configuration and radio threads, supervision
    of the threads by the watchdog.
  \<^item> \<open>Net_Params\<close>, \<open>Tcp_Command\<close>, \<open>Tcp_Framing\<close>: the TCP server. Parameters in dotted notation and back, every
    command with its answer, reassembly of packets from the stream against a reference that is given whole packets, the
    list of connections.
  \<^item> \<open>Udp_Report\<close>: the report and the two UDP threads.
  \<^item> \<open>Wnc_Threads\<close>: the radio, data process and UDP threads together, one step per turn of a thread, timer or queued
    command, in any order: \<open>wnc_step\<close>. Their invariant, and the way of a changed parking state from the radio to the
    report.
  \<^item> \<open>Wnc_System\<close>: all application threads over one shared state, \<open>sys_step\<close>: the steps of \<open>wnc_step\<close>, rounds of
    the TCP server with all its commands, messages and timer of the system control with any result of
    \<open>network_restart\<close>, messages, interrupt and test timer of the LED matrix. The invariant \<open>sys_ok\<close> holds in
    every state they reach.
  \<^item> \<open>Start_Up\<close>: the initialisation thread of \<open>application.c\<close>. When the flash device and the bus of the clock are found
    and the radio starts, it ends whatever the flash memories contain, and establishes \<open>sys_ok\<close>.
  \<^item> \<open>Rt_List\<close>, \<open>Find_First_Set\<close>: the kernel's doubly linked lists as one store of pointers, and the search for the
    highest priority in a bitmap.
  \<^item> \<open>Kernel_Timer\<close>: the timer list and the tick, against a queue of timers with expiry times in unbounded time.
  \<^item> \<open>Scheduler\<close>, \<open>Ready_Lists\<close>, \<open>Kernel_Threads\<close>, \<open>Kernel_Steps\<close>: threads, ready lists and waiting, the
    invariant that ties the state of a thread to the list it is linked into, and that every operation keeps it.
  \<^item> \<open>Kernel_Runs\<close>, \<open>Kernel_Boot\<close>: the twelve kernel services as a transition system (\<open>kexec\<close>, \<open>kruns\<close>) and the start
    of the kernel. No service gets stuck, the highest priority runs, sleeps and periodic timers are exact.

  \<^bold>\<open>Bounds.\<close> The constants are those of the code: 60 detectors and 40 lights per concentrator, 1024 new nodes, ten
  messages per queue, 80 nodes per report, 1024 bytes of command buffer, sectors of 4096 bytes. A hypothesis that bounds
  a size (a packet number of 8 bits, a file of at most 64 KiB, a firmware of at most 256 KiB, a history of fewer sectors than
  the serial numbers can tell apart) is stated in the theorem that needs it; where the code does not keep the bound, a
  theorem shows what happens then (\<open>flash_write_64k_lost\<close>, \<open>log_size_truncated\<close>, \<open>download_packet_257\<close>,
  \<open>download_restart_refused\<close>, \<open>analyse_light_state_hangs\<close>, \<open>split_header_lost\<close>, \<open>oversized_packet_hangs\<close>).

  \<^bold>\<open>Interleaving.\<close> In \<open>Msg_Queue\<close> a step is a section of code with interrupts disabled, in \<open>Kernel_Runs\<close> a whole
  service of the kernel. In \<open>Wnc_Threads\<close> and \<open>Wnc_System\<close> a step is a whole turn of a thread: two threads that
  update the same list entry at the same time are not modelled, and a turn that hangs or leaves its buffers has no
  successor; that such turns exist is what \<open>analyse_light_state_hangs\<close>, \<open>oversized_packet_hangs\<close> and the values of
  \<open>tcp_fault\<close> show. The \<open>command\<close> and \<open>test\<close> steps of \<open>wnc_step\<close> allow more messages than the TCP server and the
  system control send.

  \<^bold>\<open>Not modelled.\<close> The radio library \<open>libloragw\<close>, lwIP, the shell and device frameworks, the peripheral library and the
  board files are vendored or set registers only; the code above them meets them as parameters, inputs and outputs. Of the
  RT-Thread kernel, mutexes, semaphores, events, mailboxes, the heap, soft timers and timer lists of more than one level
  are left out; the mutexes of the flash driver, the radio and the lists therefore, too. Socket creation
  (\<open>init_udp_socket_handler\<close>, the listening socket) and the registration of the Ethernet device run once and keep no
  state. Debug output is left out.
\<close>

end
